(* ===== verification/Prelude.thy ===== *)
theory Prelude
  imports Main "HOL-Library.Word"
begin

unbundle bit_operations_syntax

text \<open>
  What every component shares: the C scalar types as words, the ways kernel code stops
  (a failed \<open>assert\<close>, \<open>halt\<close>, an access outside the modelled objects), the result type of
  fallible operations with its sequencing operator and loop, and generic facts on lists and
  words. \<open>panic\<close> values are the model of \<open>__assert_failed\<close> / \<open>__panic\<close> (src/kernel/assert.c),
  which print a message and halt: nothing runs after them.
\<close>

type_synonym u8 = "8 word"
type_synonym u16 = "16 word"
type_synonym u32 = "32 word"
type_synonym u64 = "64 word"

datatype panic =
    AssertFailed  \<comment> \<open>\<open>assert(e)\<close> with \<open>e\<close> false, or \<open>panic(msg)\<close>\<close>
  | Halted        \<comment> \<open>\<open>halt()\<close> reached\<close>
  | MemFault      \<comment> \<open>an access outside the object: undefined behaviour in C\<close>
  | Diverges      \<comment> \<open>a loop that is known to run forever\<close>

type_synonym 'a res = "panic + 'a"

definition kassert :: "bool \<Rightarrow> unit res" where
  "kassert b = (if b then Inr () else Inl AssertFailed)"

fun kbind :: "'a res \<Rightarrow> ('a \<Rightarrow> 'b res) \<Rightarrow> 'b res" where
  "kbind (Inl e) f = Inl e"
| "kbind (Inr x) f = f x"

text \<open>\<open>xs[i]\<close> and \<open>xs[i] = v\<close> on a C array of which \<open>xs\<close> are the elements.\<close>

definition kload :: "'a list \<Rightarrow> nat \<Rightarrow> 'a res" where
  "kload xs i = (if i < length xs then Inr (xs ! i) else Inl MemFault)"

definition kstore :: "'a list \<Rightarrow> nat \<Rightarrow> 'a \<Rightarrow> 'a list res" where
  "kstore xs i v = (if i < length xs then Inr (xs[i := v]) else Inl MemFault)"

text \<open>\<open>for (x : xs) s = body(x, s);\<close> a loop whose body may stop the kernel.\<close>

fun kfor :: "('i \<Rightarrow> 's \<Rightarrow> 's res) \<Rightarrow> 'i list \<Rightarrow> 's \<Rightarrow> 's res" where
  "kfor f [] s = Inr s"
| "kfor f (x # xs) s = kbind (f x s) (kfor f xs)"

lemma kassert_True [simp]: "kassert True = Inr ()"
  by (simp add: kassert_def)

lemma kassert_False [simp]: "kassert False = Inl AssertFailed"
  by (simp add: kassert_def)

lemma kassert_Inr [simp]: "kassert b = Inr u \<longleftrightarrow> b"
  by (simp add: kassert_def)

lemma kbind_Inr_iff [simp]: "kbind m f = Inr y \<longleftrightarrow> (\<exists>x. m = Inr x \<and> f x = Inr y)"
  by (cases m) auto

lemma kbind_assoc [simp]: "kbind (kbind m f) g = kbind m (\<lambda>x. kbind (f x) g)"
  by (cases m) auto

lemma kbind_Inl_iff:
  "kbind m f = Inl e \<longleftrightarrow> m = Inl e \<or> (\<exists>x. m = Inr x \<and> f x = Inl e)"
  by (cases m) auto

lemma kbind_cong [fundef_cong]:
  "m = m' \<Longrightarrow> (\<And>x. m' = Inr x \<Longrightarrow> f x = g x) \<Longrightarrow> kbind m f = kbind m' g"
  by (cases m') auto

lemma kload_Inr [simp]: "kload xs i = Inr x \<longleftrightarrow> i < length xs \<and> xs ! i = x"
  by (auto simp: kload_def)

lemma kstore_Inr [simp]: "kstore xs i v = Inr ys \<longleftrightarrow> i < length xs \<and> xs[i := v] = ys"
  by (auto simp: kstore_def)

lemma kload_in [simp]: "i < length xs \<Longrightarrow> kload xs i = Inr (xs ! i)"
  by simp

lemma kstore_in [simp]: "i < length xs \<Longrightarrow> kstore xs i v = Inr (xs[i := v])"
  by simp

lemma kfor_append: "kfor f (xs @ ys) s = kbind (kfor f xs s) (kfor f ys)"
proof (induction xs arbitrary: s)
  case (Cons x xs)
  then show ?case by (cases "f x s") auto
qed simp

lemma kfor_map: "kfor f (map g xs) = kfor (\<lambda>x. f (g x)) xs"
proof (rule ext)
  show "kfor f (map g xs) s = kfor (\<lambda>x. f (g x)) xs s" for s by (induction xs arbitrary: s) (auto intro: kbind_cong)
qed

lemma kfor_cong: "(\<And>x. x \<in> set xs \<Longrightarrow> f x = g x) \<Longrightarrow> kfor f xs s = kfor g xs s"
  by (induction xs arbitrary: s) (auto intro: kbind_cong)

text \<open>The loop rule: an invariant indexed by the iterations already done.\<close>

lemma kfor_inv:
  assumes "P [] s"
    and "\<And>done x s. P done s \<Longrightarrow> \<exists>rest. xs = done @ x # rest \<Longrightarrow>
           \<exists>s'. f x s = Inr s' \<and> P (done @ [x]) s'"
  shows "\<exists>s'. kfor f xs s = Inr s' \<and> P xs s'"
  using assms
proof (induction xs arbitrary: P s)
  case Nil
  then show ?case by simp
next
  case (Cons x xs)
  obtain s1 where s1: "f x s = Inr s1" "P [x] s1"
    using Cons.prems(1) Cons.prems(2) [of "[]" s x] by auto
  have "\<exists>s'. kfor f xs s1 = Inr s' \<and> P (x # xs) s'"
  proof (rule Cons.IH [where P = "\<lambda>done. P (x # done)"])
    show "P [x] s1" by (rule s1(2))
  next
    fix "done" y t
    assume "P (x # done) t" and "\<exists>rest. xs = done @ y # rest"
    then show "\<exists>s'. f y t = Inr s' \<and> P (x # done @ [y]) s'"
      using Cons.prems(2) [of "x # done" t y] by auto
  qed
  with s1 show ?case by simp
qed

text \<open>The same for a loop that is known to have ended.\<close>

lemma kfor_pres:
  assumes "kfor f xs s = Inr s'" "P [] s"
    and "\<And>done x s s'. P done s \<Longrightarrow> f x s = Inr s' \<Longrightarrow> \<exists>rest. xs = done @ x # rest \<Longrightarrow> P (done @ [x]) s'"
  shows "P xs s'"
  using assms
proof (induction xs arbitrary: P s)
  case (Cons x xs)
  obtain s1 where s1: "f x s = Inr s1" "kfor f xs s1 = Inr s'" using Cons.prems(1) by auto
  show ?case
  proof (rule Cons.IH [where P = "\<lambda>done. P (x # done)", OF s1(2)])
    show "P [x] s1" using Cons.prems(3) [OF Cons.prems(2) s1(1)] by simp
  next
    fix "done" y t t'
    assume "P (x # done) t" "f y t = Inr t'" "\<exists>rest. xs = done @ y # rest"
    then show "P (x # done @ [y]) t'" using Cons.prems(3) [of "x # done" t y t'] by auto
  qed
qed simp

text \<open>Division and remainder determine a number: two bit numbers of the same word differ in
  their position inside it.\<close>

lemma div_mod_eq_iff: "(i :: nat) div k = j div k \<and> i mod k = j mod k \<longleftrightarrow> i = j"
  by (metis div_mult_mod_eq)

text \<open>Reading a bit back after the read-modify-write idioms of the sources.\<close>

lemma test_or_exp:
  "j < LENGTH('a) \<Longrightarrow> ((w :: 'a::len word) OR 2 ^ i) AND 2 ^ j = 0 \<longleftrightarrow> w AND 2 ^ j = 0 \<and> i \<noteq> j"
  by (auto simp: and_exp_eq_0_iff_not_bit bit_simps)

lemma test_and_not_exp:
  "j < LENGTH('a) \<Longrightarrow> ((w :: 'a::len word) AND NOT (2 ^ i)) AND 2 ^ j = 0 \<longleftrightarrow> w AND 2 ^ j = 0 \<or> i = j"
  by (auto simp: and_exp_eq_0_iff_not_bit bit_simps)

text \<open>A counter below its bound gets closer to it: the measure of the loops over machine words.\<close>

lemma word_loop_step: "(i :: 'a::len word) < n \<Longrightarrow> unat (n - (i + 1)) < unat (n - i)"
  using measure_unat [of "n - i"] by (auto simp: diff_diff_eq [symmetric])

lemma word_loop_succ: "(i :: 'a::len word) < n \<Longrightarrow> unat (i + 1) = unat i + 1"
proof -
  assume "i < n"
  then have "unat i + 1 < 2 ^ LENGTH('a)"
    unfolding word_less_nat_alt using unsigned_less [of n, where 'a = nat] by linarith
  then show ?thesis by (simp add: unat_word_ariths(1))
qed

text \<open>\<open>a - d < n\<close> says that \<open>a\<close> is one of the \<open>n\<close> bytes from \<open>d\<close> on, wrapping around.\<close>

lemma word_range_Suc:
  fixes a d :: "'a::len word"
  assumes "i < n"
  shows "a - d < i + 1 \<longleftrightarrow> a - d < i \<or> a = d + i"
  using word_loop_succ [OF assms]
  by (auto simp: word_less_nat_alt less_Suc_eq diff_eq_eq word_unat_eq_iff [symmetric] add.commute)

lemma word_range_nat:
  fixes a q n :: "'a::len word"
  assumes "unat q + unat n \<le> 2 ^ LENGTH('a)"
  shows "a - q < n \<longleftrightarrow> unat q \<le> unat a \<and> unat a < unat q + unat n"
proof (cases "q \<le> a")
  case True
  then show ?thesis by (simp add: word_less_nat_alt word_le_nat_alt unat_sub) arith
next
  case False
  then have "unat (a - q) = unat a + 2 ^ LENGTH('a) - unat q"
    using unsigned_less [of q, where 'a = nat] by (simp add: unat_sub_if' word_le_nat_alt)
  then show ?thesis using False assms by (simp add: word_less_nat_alt word_le_nat_alt)
qed

end
