(* ===== verification/Bitmap.thy ===== *)
theory Bitmap
  imports Prelude
begin

text \<open>
  The bit-array interface (\<open>bit_array\<close>), the contract of every \<open>set\<close> / \<open>unset\<close> / \<open>test\<close>
  triple of the kernel, and its first provider: the generic bitmap of src/kernel/bitmap.c,
  used by the process table for pids. A \<open>size_t\<close> bit number is a \<open>nat\<close>; the \<open>char\<close> array is
  a list of bytes (OR, AND and the test of one of the low eight bits do not see the sign
  extension of \<open>char\<close> to \<open>int\<close>). The physical memory manager is the second provider.
\<close>

record bitmap_t =
  bm_map :: "u8 list"
  bm_size :: nat

text \<open>
  \<open>bitmap_new\<close>: the two flags say whether the two calls of \<open>kcalloc\<close> return memory;
  \<open>None\<close> is the NULL result.
\<close>

definition bitmap_new :: "bool \<Rightarrow> bool \<Rightarrow> nat \<Rightarrow> bitmap_t option res" where
  "bitmap_new alloc1 alloc2 n =
     (if \<not> alloc1 then Inr None
      else kbind (kassert (n mod 8 = 0)) (\<lambda>_.
        if alloc2 then Inr (Some \<lparr>bm_map = replicate (n div 8) 0, bm_size = n\<rparr>)
        else Inr None))"

definition bitmap_set :: "bitmap_t \<Rightarrow> nat \<Rightarrow> bitmap_t res" where
  "bitmap_set bm b =
     kbind (kassert (b < bm_size bm)) (\<lambda>_.
     kbind (kload (bm_map bm) (b div 8)) (\<lambda>w.
     kbind (kstore (bm_map bm) (b div 8) (w OR push_bit (b mod 8) 1)) (\<lambda>m.
     Inr (bm\<lparr>bm_map := m\<rparr>))))"

definition bitmap_unset :: "bitmap_t \<Rightarrow> nat \<Rightarrow> bitmap_t res" where
  "bitmap_unset bm b =
     kbind (kassert (b < bm_size bm)) (\<lambda>_.
     kbind (kload (bm_map bm) (b div 8)) (\<lambda>w.
     kbind (kstore (bm_map bm) (b div 8) (w AND NOT (push_bit (b mod 8) 1))) (\<lambda>m.
     Inr (bm\<lparr>bm_map := m\<rparr>))))"

definition bitmap_test :: "bitmap_t \<Rightarrow> nat \<Rightarrow> bool res" where
  "bitmap_test bm b =
     kbind (kassert (b < bm_size bm)) (\<lambda>_.
     kbind (kload (bm_map bm) (b div 8)) (\<lambda>w.
     Inr (w AND push_bit (b mod 8) 1 \<noteq> 0)))"

definition bitmap_wf :: "bitmap_t \<Rightarrow> bool" where
  "bitmap_wf bm \<longleftrightarrow> bm_size bm \<le> 8 * length (bm_map bm)"

text \<open>
  The contract. \<open>cap\<close> is the number of bits, \<open>inv\<close> the representation invariant; inside
  the capacity the three operations succeed and \<open>test_op\<close> reads back exactly what was
  written, outside they stop at their assertion. The lemmas of the block are what a client
  that marks and unmarks ranges relies on.
\<close>

locale bit_array =
  fixes set_op :: "'m \<Rightarrow> nat \<Rightarrow> 'm res"
    and unset_op :: "'m \<Rightarrow> nat \<Rightarrow> 'm res"
    and test_op :: "'m \<Rightarrow> nat \<Rightarrow> bool res"
    and cap :: "'m \<Rightarrow> nat"
    and inv :: "'m \<Rightarrow> bool"
  assumes test_ok: "inv m \<Longrightarrow> i < cap m \<Longrightarrow> \<exists>b. test_op m i = Inr b"
    and set_ok: "inv m \<Longrightarrow> i < cap m \<Longrightarrow>
      \<exists>m'. set_op m i = Inr m' \<and> inv m' \<and> cap m' = cap m \<and>
           (\<forall>j < cap m. test_op m' j = (if j = i then Inr True else test_op m j))"
    and unset_ok: "inv m \<Longrightarrow> i < cap m \<Longrightarrow>
      \<exists>m'. unset_op m i = Inr m' \<and> inv m' \<and> cap m' = cap m \<and>
           (\<forall>j < cap m. test_op m' j = (if j = i then Inr False else test_op m j))"
    and set_out: "\<not> i < cap m \<Longrightarrow> set_op m i = Inl AssertFailed"
    and unset_out: "\<not> i < cap m \<Longrightarrow> unset_op m i = Inl AssertFailed"
begin

definition used :: "'m \<Rightarrow> nat set" where
  "used m = {i. i < cap m \<and> test_op m i = Inr True}"

lemma set_used:
  assumes "inv m" "i < cap m"
  shows "\<exists>m'. set_op m i = Inr m' \<and> inv m' \<and> cap m' = cap m \<and> used m' = insert i (used m)"
proof -
  obtain m' where m': "set_op m i = Inr m'" "inv m'" "cap m' = cap m"
      "\<forall>j < cap m. test_op m' j = (if j = i then Inr True else test_op m j)"
    using set_ok [OF assms] by blast
  then have "used m' = insert i (used m)" using assms(2) by (auto simp: used_def split: if_splits)
  with m' show ?thesis by blast
qed

lemma unset_used:
  assumes "inv m" "i < cap m"
  shows "\<exists>m'. unset_op m i = Inr m' \<and> inv m' \<and> cap m' = cap m \<and> used m' = used m - {i}"
proof -
  obtain m' where m': "unset_op m i = Inr m'" "inv m'" "cap m' = cap m"
      "\<forall>j < cap m. test_op m' j = (if j = i then Inr False else test_op m j)"
    using unset_ok [OF assms] by blast
  then have "used m' = used m - {i}" by (auto simp: used_def split: if_splits)
  with m' show ?thesis by blast
qed

lemma test_used:
  assumes "inv m" "i < cap m"
  shows "test_op m i = Inr (i \<in> used m)"
  using test_ok [OF assms] assms(2) by (auto simp: used_def)

lemma set_range_used:
  assumes "inv m" "a + n \<le> cap m"
  shows "\<exists>m'. kfor (\<lambda>i s. set_op s (a + i)) [0..<n] m = Inr m' \<and> inv m' \<and> cap m' = cap m \<and>
              used m' = used m \<union> {a..<a + n}"
  using assms
proof (induction n)
  case 0
  then show ?case by simp
next
  case (Suc n)
  then obtain m1 where m1: "kfor (\<lambda>i s. set_op s (a + i)) [0..<n] m = Inr m1" "inv m1"
      "cap m1 = cap m" "used m1 = used m \<union> {a..<a + n}"
    by auto
  from set_used [of m1 "a + n"] m1 Suc.prems obtain m2 where
    "set_op m1 (a + n) = Inr m2" "inv m2" "cap m2 = cap m" "used m2 = insert (a + n) (used m1)"
    by auto
  with m1 show ?case by (auto simp: kfor_append atLeastLessThanSuc)
qed

lemma unset_range_used:
  assumes "inv m" "a + n \<le> cap m"
  shows "\<exists>m'. kfor (\<lambda>i s. unset_op s (a + i)) [0..<n] m = Inr m' \<and> inv m' \<and> cap m' = cap m \<and>
              used m' = used m - {a..<a + n}"
  using assms
proof (induction n)
  case 0
  then show ?case by simp
next
  case (Suc n)
  then obtain m1 where m1: "kfor (\<lambda>i s. unset_op s (a + i)) [0..<n] m = Inr m1" "inv m1"
      "cap m1 = cap m" "used m1 = used m - {a..<a + n}"
    by auto
  from unset_used [of m1 "a + n"] m1 Suc.prems obtain m2 where
    "unset_op m1 (a + n) = Inr m2" "inv m2" "cap m2 = cap m" "used m2 = used m1 - {a + n}"
    by auto
  with m1 show ?case by (auto simp: kfor_append atLeastLessThanSuc)
qed

end

lemma bitmap_wf_index: "bitmap_wf bm \<Longrightarrow> b < bm_size bm \<Longrightarrow> b div 8 < length (bm_map bm)"
  by (simp add: bitmap_wf_def)

interpretation pidmap: bit_array bitmap_set bitmap_unset bitmap_test bm_size bitmap_wf
proof (unfold_locales, goal_cases)
  case (1 m i)
  then show ?case by (simp add: bitmap_test_def bitmap_wf_index)
next
  case (2 m i)
  then show ?case
    by (auto simp: bitmap_set_def bitmap_test_def bitmap_wf_index nth_list_update bitmap_wf_def
        test_or_exp test_and_not_exp) (metis div_mod_eq_iff)+
next
  case (3 m i)
  then show ?case
    by (auto simp: bitmap_unset_def bitmap_test_def bitmap_wf_index nth_list_update bitmap_wf_def
        test_or_exp test_and_not_exp) (metis div_mod_eq_iff)+
next
  case (4 i m)
  then show ?case by (simp add: bitmap_set_def)
next
  case (5 i m)
  then show ?case by (simp add: bitmap_unset_def)
qed



lemma bitmap_new_wf: "bitmap_new a1 a2 n = Inr (Some bm) \<Longrightarrow> bitmap_wf bm \<and> bm_size bm = n"
  by (auto simp: bitmap_new_def bitmap_wf_def kassert_def split: if_splits)

lemma bitmap_new_empty:
  assumes "bitmap_new a1 a2 n = Inr (Some bm)" "i < n"
  shows "bitmap_test bm i = Inr False"
  using assms
  by (auto simp: bitmap_new_def bitmap_test_def kassert_def split: if_splits)

end
