(* ===== verification/Pmm.thy ===== *)
theory Pmm
  imports Bitmap
begin

text \<open>
  The physical memory manager, src/kernel/pmm.c: a bit per 4096-byte block, set when the
  block is in use. A block number is a \<open>nat\<close>: \<open>block_map_size\<close> is \<open>mem_size / 4096\<close>, so block
  numbers stay below \<open>2 ^ 20\<close>, and a loop that runs past the map stops at the assertion of
  \<open>pmm_set_block\<close> / \<open>pmm_unset_block\<close> long before the 32-bit counter could wrap. Addresses
  are 32-bit words.
\<close>

definition BLOCK_SIZE :: nat where
  "BLOCK_SIZE = 4096"

record pmm =
  block_map :: "u32 list"
  block_map_size :: nat
  block_map_last :: nat

definition pmm_set_block :: "pmm \<Rightarrow> nat \<Rightarrow> pmm res" where
  "pmm_set_block m block =
     kbind (kassert (block < block_map_size m)) (\<lambda>_.
     kbind (kload (block_map m) (block div 32)) (\<lambda>w.
     kbind (kstore (block_map m) (block div 32) (w OR push_bit (block mod 32) 1)) (\<lambda>bm.
     Inr (m\<lparr>block_map := bm\<rparr>))))"

definition pmm_unset_block :: "pmm \<Rightarrow> nat \<Rightarrow> pmm res" where
  "pmm_unset_block m block =
     kbind (kassert (block < block_map_size m)) (\<lambda>_.
     kbind (kload (block_map m) (block div 32)) (\<lambda>w.
     kbind (kstore (block_map m) (block div 32) (w AND NOT (push_bit (block mod 32) 1))) (\<lambda>bm.
     Inr (m\<lparr>block_map := bm\<rparr>))))"

definition pmm_test_block :: "pmm \<Rightarrow> nat \<Rightarrow> bool res" where
  "pmm_test_block m block =
     kbind (kassert (block < block_map_size m)) (\<lambda>_.
     kbind (kload (block_map m) (block div 32)) (\<lambda>w.
     Inr (w AND push_bit (block mod 32) 1 \<noteq> 0)))"

text \<open>\<open>pmm_find_first_free\<close>: the inner loop over the bits of one word, then the outer loop
  over the words; \<open>0\<close> is the "not found" result.\<close>

fun ff_bits :: "u32 \<Rightarrow> nat \<Rightarrow> nat list \<Rightarrow> nat option" where
  "ff_bits w i [] = None"
| "ff_bits w i (j # js) = (if w AND push_bit j 1 = 0 then Some (i * 32 + j) else ff_bits w i js)"

fun ff_words :: "pmm \<Rightarrow> nat list \<Rightarrow> nat res" where
  "ff_words m [] = Inr 0"
| "ff_words m (i # is) =
     kbind (kload (block_map m) i) (\<lambda>w.
       if w = 0xFFFFFFFF then ff_words m is
       else (case ff_bits w i [0..<32] of Some b \<Rightarrow> Inr b | None \<Rightarrow> ff_words m is))"

definition pmm_find_first_free :: "pmm \<Rightarrow> nat res" where
  "pmm_find_first_free m = ff_words m [0..<block_map_size m div 32]"

text \<open>
  \<open>pmm_find_region\<close>. \<open>fr_run\<close> is the \<open>while (block_length < size)\<close> loop, started at one free
  block: the first argument is the number of blocks still to test. \<open>fr_outer\<close> and \<open>fr_inner\<close>
  are the two \<open>for\<close> loops; after a run that is too short the code advances both counters,
  \<open>i = i + block_length / 32; j = j + block_length % 32\<close>, and the loop header adds one to \<open>j\<close>.
\<close>

fun fr_run :: "pmm \<Rightarrow> nat \<Rightarrow> nat \<Rightarrow> nat \<Rightarrow> nat res" where
  "fr_run m 0 block_start block_length = Inr block_length"
| "fr_run m (Suc n) block_start block_length =
     kbind (kassert (block_start + block_length < block_map_size m)) (\<lambda>_.
     kbind (pmm_test_block m (block_start + block_length)) (\<lambda>used.
       if used then Inr block_length
       else fr_run m n block_start (block_length + 1)))"

function fr_outer :: "pmm \<Rightarrow> nat \<Rightarrow> nat \<Rightarrow> nat res"
  and fr_inner :: "pmm \<Rightarrow> nat \<Rightarrow> nat \<Rightarrow> nat \<Rightarrow> nat res" where
  "fr_outer m sz i =
     (if i < block_map_size m div 32
      then kbind (kload (block_map m) i) (\<lambda>w.
             if w = 0xFFFFFFFF then fr_outer m sz (i + 1) else fr_inner m sz i 0)
      else Inr 0)"
| "fr_inner m sz i j =
     (if j < 32
      then kbind (kload (block_map m) i) (\<lambda>w.
             if w AND push_bit j 1 \<noteq> 0 then fr_inner m sz i (j + 1)
             else kbind (fr_run m (sz - 1) (i * 32 + j) 1) (\<lambda>block_length.
                    if block_length = sz then Inr (i * 32 + j)
                    else fr_inner m sz (i + block_length div 32)
                           (j + block_length mod 32 + 1)))
      else fr_outer m sz (i + 1))"
  by pat_completeness auto
termination
  by (relation "measure (\<lambda>x. case x of
        Inl (m, sz, i) \<Rightarrow> (let L = block_map_size m div 32
                            in (L - i) * 34 + (if i < L then 34 else 0))
      | Inr (m, sz, i, j) \<Rightarrow> (block_map_size m div 32 - i) * 34 + (32 - j) + 1)")
     (auto simp: Let_def add_strict_mono intro: le_less_trans add_le_less_mono mult_le_mono)

declare fr_outer.simps [simp del] fr_inner.simps [simp del]

definition pmm_find_region :: "pmm \<Rightarrow> nat \<Rightarrow> nat res" where
  "pmm_find_region m sz =
     kbind (kassert (sz \<noteq> 0)) (\<lambda>_.
       if sz = 1 then pmm_find_first_free m else fr_outer m sz 0)"

definition pmm_alloc_blocks :: "pmm \<Rightarrow> nat \<Rightarrow> (u32 \<times> pmm) res" where
  "pmm_alloc_blocks m sz =
     kbind (kassert (sz \<noteq> 0)) (\<lambda>_.
     kbind (pmm_find_region m sz) (\<lambda>block.
       if block = 0 then Inr (0, m)
       else kbind (kfor (\<lambda>i s. pmm_set_block s (block + i)) [0..<sz] m) (\<lambda>m'.
            Inr (of_nat (block * BLOCK_SIZE), m'))))"

definition pmm_free_blocks :: "pmm \<Rightarrow> u32 \<Rightarrow> nat \<Rightarrow> pmm res" where
  "pmm_free_blocks m p sz =
     kbind (kassert (sz \<noteq> 0)) (\<lambda>_.
     let block = unat p div BLOCK_SIZE
     in kfor (\<lambda>i s. pmm_unset_block s (block + i)) [0..<sz] m)"

definition pmm_alloc_blocks_safe :: "pmm \<Rightarrow> nat \<Rightarrow> (u32 \<times> pmm) res" where
  "pmm_alloc_blocks_safe m sz =
     kbind (pmm_alloc_blocks m sz) (\<lambda>(v, m').
       if v = 0 then Inl AssertFailed else Inr (v, m'))"

text \<open>\<open>pmm_count_free_blocks\<close>: the counter is a \<open>uint32_t\<close> bounded by \<open>block_map_size\<close>.\<close>

definition pmm_count_free_blocks :: "pmm \<Rightarrow> nat res" where
  "pmm_count_free_blocks m =
     kfor (\<lambda>i count. kbind (pmm_test_block m i) (\<lambda>used.
             Inr (if \<not> used then count + 1 else count))) [0..<block_map_size m] 0"

text \<open>
  \<open>pmm_init\<close> over the memory at \<open>mem_map\<close>, given as 32-bit words. The code calls
  \<open>memset(block_map, 0xFF, block_map_size)\<close>, whose third argument counts bytes: the model
  fills the first \<open>block_map_size\<close> bytes of that memory, so \<open>block_map_size div 4\<close> whole words
  and, on this little-endian machine, the low bytes of the next one.
\<close>

definition fill_bytes :: "nat \<Rightarrow> u32 \<Rightarrow> u32" where
  "fill_bytes n w = w OR mask (8 * n)"

definition pmm_init :: "u32 list \<Rightarrow> nat \<Rightarrow> pmm res" where
  "pmm_init mem mem_size =
     (let n = mem_size div BLOCK_SIZE
      in kbind (kassert (n \<noteq> 0)) (\<lambda>_.
         if n \<le> 4 * length mem
         then Inr \<lparr>block_map = map (\<lambda>k. if 4 * (k + 1) \<le> n then 0xFFFFFFFF
                                        else if 4 * k < n then fill_bytes (n - 4 * k) (mem ! k)
                                        else mem ! k) [0..<length mem],
                   block_map_size = n, block_map_last = 0\<rparr>
         else Inl MemFault))"

definition pmm_wf :: "pmm \<Rightarrow> bool" where
  "pmm_wf m \<longleftrightarrow> block_map_size m \<le> 32 * length (block_map m) \<and> block_map_size m \<le> 2 ^ 20"

text \<open>The blocks in use, and the abstract reading of the map the properties are about.\<close>

definition pmm_used :: "pmm \<Rightarrow> nat set" where
  "pmm_used m = {i. i < block_map_size m \<and> pmm_test_block m i = Inr True}"

lemma pmm_wf_index: "pmm_wf m \<Longrightarrow> b < block_map_size m \<Longrightarrow> b div 32 < length (block_map m)"
  by (auto simp: pmm_wf_def intro: less_mult_imp_div_less)

interpretation blocks: bit_array pmm_set_block pmm_unset_block pmm_test_block block_map_size pmm_wf
proof (unfold_locales, goal_cases)
  case (1 m i)
  then show ?case by (simp add: pmm_test_block_def pmm_wf_index)
next
  case (2 m i)
  then show ?case
    by (auto simp: pmm_set_block_def pmm_test_block_def pmm_wf_index nth_list_update pmm_wf_def
        test_or_exp test_and_not_exp) (metis div_mod_eq_iff)+
next
  case (3 m i)
  then show ?case
    by (auto simp: pmm_unset_block_def pmm_test_block_def pmm_wf_index nth_list_update pmm_wf_def
        test_or_exp test_and_not_exp) (metis div_mod_eq_iff)+
next
  case (4 i m)
  then show ?case by (simp add: pmm_set_block_def)
next
  case (5 i m)
  then show ?case by (simp add: pmm_unset_block_def)
qed

lemma blocks_used [simp]: "blocks.used = pmm_used"
  by (simp add: fun_eq_iff blocks.used_def pmm_used_def)

lemma not_used_iff:
  "pmm_wf m \<Longrightarrow> i < block_map_size m \<Longrightarrow> i \<notin> pmm_used m \<longleftrightarrow> pmm_test_block m i = Inr False"
  using blocks.test_used [of m i] by auto

lemma test_block_word:
  assumes "j < 32" "i < length (block_map m)" "i * 32 + j < block_map_size m"
  shows "pmm_test_block m (i * 32 + j) = Inr (block_map m ! i AND push_bit j 1 \<noteq> 0)"
  using assms by (simp add: pmm_test_block_def)

subsection \<open>Searching\<close>

lemma ff_bits_Some:
  "ff_bits w i js = Some b \<Longrightarrow>
     \<exists>pre j post. js = pre @ j # post \<and> b = i * 32 + j \<and> w AND push_bit j 1 = 0 \<and>
       (\<forall>k \<in> set pre. w AND push_bit k 1 \<noteq> 0)"
proof (induction js)
  case (Cons j js)
  show ?case
  proof (cases "w AND push_bit j 1 = 0")
    case True
    with Cons.prems show ?thesis by (intro exI [of _ "[]"] exI [of _ j] exI [of _ js]) simp
  next
    case False
    with Cons obtain pre k post where "js = pre @ k # post" "b = i * 32 + k"
        "w AND push_bit k 1 = 0" "\<forall>k \<in> set pre. w AND push_bit k 1 \<noteq> 0"
      by auto
    with False show ?thesis
      by (intro exI [of _ "j # pre"] exI [of _ k] exI [of _ post]) auto
  qed
qed simp

lemma ff_bits_None: "ff_bits w i js = None \<longleftrightarrow> (\<forall>j \<in> set js. w AND push_bit j 1 \<noteq> 0)"
  by (induction js) auto

lemma upt_split: "[0..<n] = pre @ j # post \<Longrightarrow> pre = [0..<j] \<and> j < n"
proof -
  assume a: "[0..<n] = pre @ j # post"
  have len: "length pre < n" using arg_cong [OF a, of length] by simp
  have "j = [0..<n] ! length pre" by (simp add: a)
  then have j: "j = length pre" using len by simp
  have "pre = take (length pre) [0..<n]" by (simp add: a)
  with j len show ?thesis by simp
qed

lemma full_word: "w = (0xFFFFFFFF :: u32) \<Longrightarrow> j < 32 \<Longrightarrow> w AND push_bit j 1 \<noteq> 0"
proof -
  have "(0xFFFFFFFF :: u32) = - 1" by simp
  then show "w = 0xFFFFFFFF \<Longrightarrow> j < 32 \<Longrightarrow> w AND push_bit j 1 \<noteq> 0"
    by (simp only:) (simp add: exp_eq_zero_iff)
qed

text \<open>The outer loop from word \<open>a\<close> on: the block returned is free, and every block of the
  words before it is in use; \<open>0\<close> says that all of them are.\<close>

definition free_bit :: "pmm \<Rightarrow> nat \<Rightarrow> bool" where
  "free_bit m x \<longleftrightarrow> block_map m ! (x div 32) AND push_bit (x mod 32) 1 = 0"

lemma free_bit_word: "j < 32 \<Longrightarrow> free_bit m (a * 32 + j) \<longleftrightarrow> block_map m ! a AND push_bit j 1 = 0"
  by (simp add: free_bit_def)

lemma word_blocks: "a * 32 \<le> x \<Longrightarrow> x < Suc a * 32 \<Longrightarrow> \<exists>j < 32. x = a * 32 + (j :: nat)"
  by (intro exI [of _ "x - a * 32"]) auto

lemma ff_words_spec:
  assumes "a \<le> L" "L \<le> length (block_map m)" "ff_words m [a..<L] = Inr b"
  shows "(b = 0 \<and> (\<forall>x. a * 32 \<le> x \<longrightarrow> x < L * 32 \<longrightarrow> \<not> free_bit m x)) \<or>
         (a * 32 \<le> b \<and> b < L * 32 \<and> free_bit m b \<and> (\<forall>x. a * 32 \<le> x \<longrightarrow> x < b \<longrightarrow> \<not> free_bit m x))"
  using assms
proof (induction "L - a" arbitrary: a)
  case 0
  then show ?case by auto
next
  case (Suc n)
  then have aL: "a < L" and up: "[a..<L] = a # [Suc a..<L]" by (auto simp: upt_conv_Cons)
  let ?w = "block_map m ! a"
  show ?case
  proof (cases "?w = 0xFFFFFFFF \<or> ff_bits ?w a [0..<32] = None")
    case True
    then have "\<And>j. j < 32 \<Longrightarrow> ?w AND push_bit j 1 \<noteq> 0"
      by (metis ff_bits_None full_word atLeastLessThan_iff set_upt zero_le)
    then have full: "\<And>x. a * 32 \<le> x \<Longrightarrow> x < Suc a * 32 \<Longrightarrow> \<not> free_bit m x"
      using word_blocks free_bit_word by metis
    have "ff_words m [Suc a..<L] = Inr b"
      using True Suc.prems aL by (auto simp: up split: if_splits)
    then have "(b = 0 \<and> (\<forall>x. Suc a * 32 \<le> x \<longrightarrow> x < L * 32 \<longrightarrow> \<not> free_bit m x)) \<or>
        (Suc a * 32 \<le> b \<and> b < L * 32 \<and> free_bit m b \<and>
          (\<forall>x. Suc a * 32 \<le> x \<longrightarrow> x < b \<longrightarrow> \<not> free_bit m x))"
      using Suc.hyps Suc.prems(2) aL by (intro Suc.hyps(1)) auto
    with full show ?thesis
      by (meson Suc_leD le_refl linorder_not_less mult_le_mono order_trans)
  next
    case False
    then obtain c where c: "ff_bits ?w a [0..<32] = Some c" by auto
    with False Suc.prems aL have bc: "b = c" by (auto simp: up split: if_splits)
    from ff_bits_Some [OF c] obtain pre j post where js: "[0..<32] = pre @ j # post"
        "c = a * 32 + j" "?w AND push_bit j 1 = 0" "\<forall>k \<in> set pre. ?w AND push_bit k 1 \<noteq> 0"
      by blast
    from upt_split [OF js(1)] have pre: "pre = [0..<j]" "j < 32" by auto
    have "\<not> free_bit m x" if x: "a * 32 \<le> x" "x < b" for x
    proof -
      have "x = a * 32 + (x - a * 32)" "x - a * 32 < j" using x bc js(2) by auto
      then show ?thesis
        using js(4) pre free_bit_word [of "x - a * 32" m a] by (metis atLeastLessThan_iff
            less_trans set_upt zero_le)
    qed
    moreover have "free_bit m b" using js bc pre by (simp add: free_bit_word)
    moreover have "a * 32 \<le> b" "b < L * 32" using js(2) bc pre aL by auto
    ultimately show ?thesis by blast
  qed
qed

lemma free_bit_iff:
  assumes "pmm_wf m" "x < block_map_size m"
  shows "free_bit m x \<longleftrightarrow> x \<notin> pmm_used m"
  using assms pmm_wf_index [OF assms]
  by (auto simp: not_used_iff pmm_test_block_def free_bit_def)

lemma find_first_free_total:
  assumes "pmm_wf m"
  shows "\<exists>b. pmm_find_first_free m = Inr b"
proof -
  have "\<exists>b. ff_words m is = Inr b" if "\<forall>i \<in> set is. i < length (block_map m)" for "is"
    using that by (induction "is") (auto split: option.splits)
  moreover from assms have "\<forall>i \<in> set [0..<block_map_size m div 32]. i < length (block_map m)"
    by (auto simp: pmm_wf_def)
  ultimately show ?thesis by (simp add: pmm_find_first_free_def)
qed

text \<open>The run loop only counts free blocks inside the map.\<close>

lemma fr_run_spec:
  assumes "fr_run m k s l = Inr l'"
  shows "l \<le> l' \<and> l' \<le> l + k \<and> (l < l' \<longrightarrow> s + l' \<le> block_map_size m) \<and>
         (\<forall>x. s + l \<le> x \<longrightarrow> x < s + l' \<longrightarrow> pmm_test_block m x = Inr False)"
  using assms
proof (induction m k s l rule: fr_run.induct)
  case (2 m n s l)
  from "2.prems" obtain u where u: "s + l < block_map_size m" "pmm_test_block m (s + l) = Inr u"
      "(if u then Inr l else fr_run m n s (l + 1)) = Inr l'"
    by auto
  show ?case
  proof (cases u)
    case True
    with u show ?thesis by auto
  next
    case False
    with u(3) "2.IH" [OF _ u(2)] u(1) have "l + 1 \<le> l' \<and> l' \<le> l + 1 + n \<and> (l + 1 < l' \<longrightarrow> s + l' \<le> block_map_size m) \<and>
        (\<forall>x. s + (l + 1) \<le> x \<longrightarrow> x < s + l' \<longrightarrow> pmm_test_block m x = Inr False)"
      by auto
    moreover have "x = s + l \<or> s + (l + 1) \<le> x" if "s + l \<le> x" for x using that by linarith
    ultimately show ?thesis using u False by fastforce
  qed
qed simp

text \<open>Soundness of the two search loops: a region that is returned is free and inside the map.\<close>

definition region_free :: "pmm \<Rightarrow> nat \<Rightarrow> nat \<Rightarrow> bool" where
  "region_free m b n \<longleftrightarrow> b + n \<le> block_map_size m \<and> {b..<b + n} \<inter> pmm_used m = {}"

lemma fr_inner_hit:
  assumes "pmm_wf m" "2 \<le> sz" "j < 32" "i < length (block_map m)"
    and "block_map m ! i AND push_bit j 1 = 0" and "fr_run m (sz - 1) (i * 32 + j) 1 = Inr sz"
  shows "region_free m (i * 32 + j) sz"
proof -
  let ?b = "i * 32 + j"
  note run = fr_run_spec [OF assms(6)]
  from run assms(2) have cap: "?b + sz \<le> block_map_size m" by auto
  moreover have "pmm_test_block m ?b = Inr False"
    using assms cap by (subst test_block_word) auto
  moreover have "x = ?b \<or> ?b + 1 \<le> x" if "?b \<le> x" for x using that by linarith
  ultimately have "\<And>x. ?b \<le> x \<Longrightarrow> x < ?b + sz \<Longrightarrow> pmm_test_block m x = Inr False"
    using run by blast
  with cap show ?thesis by (auto simp: region_free_def pmm_used_def)
qed

lemma fr_sound:
  "pmm_wf m \<Longrightarrow> 2 \<le> sz \<Longrightarrow> fr_outer m sz i = Inr b \<Longrightarrow> b \<noteq> 0 \<Longrightarrow> region_free m b sz"
  "pmm_wf m \<Longrightarrow> 2 \<le> sz \<Longrightarrow> fr_inner m sz i j = Inr b \<Longrightarrow> b \<noteq> 0 \<Longrightarrow> region_free m b sz"
proof (induction m sz i and m sz i j arbitrary: b and b rule: fr_outer_fr_inner.induct)
  case (1 m sz i)
  show ?case
  proof (cases "i < block_map_size m div 32")
    case True
    then obtain w where w: "kload (block_map m) i = Inr w"
        "(if w = 0xFFFFFFFF then fr_outer m sz (i + 1) else fr_inner m sz i 0) = Inr b"
      using "1.prems"(3) by (subst (asm) fr_outer.simps) auto
    then show ?thesis using "1.IH" [OF True] "1.prems" by (metis (full_types))
  next
    case False
    then show ?thesis using "1.prems" by (subst (asm) fr_outer.simps) auto
  qed
next
  case (2 m sz i j)
  show ?case
  proof (cases "j < 32")
    case True
    then obtain w where w: "kload (block_map m) i = Inr w"
        "(if w AND push_bit j 1 \<noteq> 0 then fr_inner m sz i (j + 1)
          else kbind (fr_run m (sz - 1) (i * 32 + j) 1) (\<lambda>l.
                 if l = sz then Inr (i * 32 + j)
                 else fr_inner m sz (i + l div 32) (j + l mod 32 + 1))) = Inr b"
      using "2.prems"(3) by (subst (asm) fr_inner.simps) (auto simp del: push_bit_of_1)
    show ?thesis
    proof (cases "w AND push_bit j 1 \<noteq> 0")
      case set: True
      with w show ?thesis using "2.IH"(1) [OF True w(1) set] "2.prems" by simp
    next
      case False
      with w(2) obtain l where l: "fr_run m (sz - 1) (i * 32 + j) 1 = Inr l"
          "(if l = sz then Inr (i * 32 + j)
            else fr_inner m sz (i + l div 32) (j + l mod 32 + 1)) = Inr b"
        by auto
      show ?thesis
      proof (cases "l = sz")
        case hit: True
        with l have "b = i * 32 + j" by simp
        then show ?thesis
          using fr_inner_hit [of m sz j i] "2.prems" True w(1) False l hit by auto
      next
        case miss: False
        then show ?thesis using "2.IH"(2) [OF True w(1) _ l(1) miss] "2.prems" l w False by simp
      qed
    qed
  next
    case False
    then have "fr_outer m sz (i + 1) = Inr b"
      using "2.prems" by (subst (asm) fr_inner.simps) auto
    then show ?thesis using "2.IH"(3) [OF False] "2.prems" by simp
  qed
qed

subsection \<open>Allocation and release\<close>

lemma find_first_free_sound:
  assumes "pmm_wf m" "pmm_find_first_free m = Inr b" "b \<noteq> 0"
  shows "region_free m b 1 \<and> (\<forall>x < b. x \<in> pmm_used m)"
proof -
  have L: "block_map_size m div 32 \<le> length (block_map m)" using assms(1) by (auto simp: pmm_wf_def)
  have bound: "block_map_size m div 32 * 32 \<le> block_map_size m" by simp
  from ff_words_spec [OF le0 L] assms(2,3)
  have b: "b < block_map_size m div 32 * 32" "free_bit m b" "\<forall>x < b. \<not> free_bit m x"
    by (auto simp: pmm_find_first_free_def)
  moreover from b bound have "b < block_map_size m" "\<forall>x < b. x < block_map_size m" by auto
  ultimately show ?thesis
    using assms(1) by (auto simp: region_free_def free_bit_iff)
qed

lemma find_region_sound:
  assumes "pmm_wf m" "pmm_find_region m n = Inr b" "b \<noteq> 0"
  shows "region_free m b n"
proof (cases "n = 1")
  case True
  with assms find_first_free_sound show ?thesis by (auto simp: pmm_find_region_def)
next
  case False
  with assms show ?thesis
    using fr_sound(1) [of m n 0 b] by (auto simp: pmm_find_region_def)
qed

lemma block_addr:
  assumes "pmm_wf m" "region_free m b n" "n \<noteq> 0"
  shows "unat (of_nat (b * BLOCK_SIZE) :: u32) = b * BLOCK_SIZE"
proof -
  have "b < 2 ^ 20" using assms by (auto simp: pmm_wf_def region_free_def)
  then have "b * BLOCK_SIZE < 2 ^ LENGTH(32)" by (simp add: BLOCK_SIZE_def)
  then show ?thesis by (simp only: unat_of_nat mod_less)
qed

lemma alloc_blocks_at:
  assumes wf: "pmm_wf m" and n: "n \<noteq> 0" and b: "pmm_find_region m n = Inr b" "b \<noteq> 0"
  shows "\<exists>p m'. pmm_alloc_blocks m n = Inr (p, m') \<and> p \<noteq> 0 \<and> unat p = b * BLOCK_SIZE \<and>
           pmm_used m' = pmm_used m \<union> {b..<b + n} \<and> pmm_wf m' \<and> block_map_size m' = block_map_size m"
proof -
  have free: "region_free m b n" using find_region_sound [OF wf b] .
  then have "b + n \<le> block_map_size m" by (simp add: region_free_def)
  from blocks.set_range_used [OF wf this] obtain m' where
    m': "kfor (\<lambda>i s. pmm_set_block s (b + i)) [0..<n] m = Inr m'" "pmm_wf m'"
      "block_map_size m' = block_map_size m" "pmm_used m' = pmm_used m \<union> {b..<b + n}"
    by auto
  have addr: "unat (of_nat (b * BLOCK_SIZE) :: u32) = b * BLOCK_SIZE"
    by (rule block_addr [OF wf free n])
  then have "(of_nat (b * BLOCK_SIZE) :: u32) \<noteq> 0"
    using b(2) by (metis BLOCK_SIZE_def mult_eq_0_iff unat_0 zero_neq_numeral)
  with addr m' n b show ?thesis by (simp add: pmm_alloc_blocks_def)
qed

lemma alloc_blocks_cases:
  assumes "pmm_wf m" "pmm_alloc_blocks m n = Inr (p, m')" "p \<noteq> 0"
  shows "\<exists>b. b \<noteq> 0 \<and> n \<noteq> 0 \<and> pmm_find_region m n = Inr b \<and> unat p = b * BLOCK_SIZE \<and>
           region_free m b n \<and> pmm_used m' = pmm_used m \<union> {b..<b + n} \<and> pmm_wf m' \<and>
           block_map_size m' = block_map_size m"
proof -
  from assms obtain b where b: "n \<noteq> 0" "pmm_find_region m n = Inr b" "b \<noteq> 0"
    by (auto simp: pmm_alloc_blocks_def split: if_splits)
  from alloc_blocks_at [OF assms(1) b] assms(2) find_region_sound [OF assms(1) b(2,3)] b
  show ?thesis by auto
qed

text \<open>C7: an allocation that returns an address other than NULL hands out a run of blocks
  that lies inside the block map and was entirely free, marks exactly these blocks as used,
  and returns the address of its first block.\<close>

theorem pmm_alloc_blocks_sound:
  assumes "pmm_wf m" "pmm_alloc_blocks m n = Inr (p, m')" "p \<noteq> 0"
  shows "\<exists>b. unat p = b * BLOCK_SIZE \<and> b + n \<le> block_map_size m \<and>
           {b..<b + n} \<inter> pmm_used m = {} \<and> pmm_used m' = pmm_used m \<union> {b..<b + n} \<and>
           pmm_wf m' \<and> block_map_size m' = block_map_size m"
  using alloc_blocks_cases [OF assms] by (auto simp: region_free_def)

definition demo_pmm :: pmm where
  "demo_pmm = \<lparr>block_map = [0xFFFFFFF1], block_map_size = 32, block_map_last = 0\<rparr>"

lemma demo_pmm_wf: "pmm_wf demo_pmm"
  by (simp add: pmm_wf_def demo_pmm_def)

lemma demo_pmm_alloc:
  "pmm_alloc_blocks demo_pmm 2 = Inr (4096, demo_pmm\<lparr>block_map := [0xFFFFFFF7]\<rparr>)"
  by code_simp

theorem pmm_alloc_blocks_sound_witness:
  "\<exists>b. unat (4096 :: u32) = b * BLOCK_SIZE \<and> b + 2 \<le> block_map_size demo_pmm \<and>
     {b..<b + 2} \<inter> pmm_used demo_pmm = {} \<and>
     pmm_used (demo_pmm\<lparr>block_map := [0xFFFFFFF7]\<rparr>) = pmm_used demo_pmm \<union> {b..<b + 2}"
  using pmm_alloc_blocks_sound [OF demo_pmm_wf demo_pmm_alloc] by auto

text \<open>freeing what was just allocated succeeds and gives back the set of used blocks
  there was before the allocation.\<close>

lemma pmm_alloc_free_roundtrip:
  assumes "pmm_wf m" "pmm_alloc_blocks m n = Inr (p, m')" "p \<noteq> 0"
  shows "\<exists>m''. pmm_free_blocks m' p n = Inr m'' \<and> pmm_used m'' = pmm_used m \<and> pmm_wf m''"
proof -
  from alloc_blocks_cases [OF assms] obtain b where b: "n \<noteq> 0" "unat p = b * BLOCK_SIZE"
      "region_free m b n" "pmm_used m' = pmm_used m \<union> {b..<b + n}" "pmm_wf m'"
      "block_map_size m' = block_map_size m"
    by blast
  from b(2) have p: "unat p div BLOCK_SIZE = b" by (simp add: BLOCK_SIZE_def)
  from b have "b + n \<le> block_map_size m'" by (simp add: region_free_def)
  from blocks.unset_range_used [OF b(5) this] obtain m'' where
    "kfor (\<lambda>i s. pmm_unset_block s (b + i)) [0..<n] m' = Inr m''" "pmm_wf m''"
    "pmm_used m'' = pmm_used m' - {b..<b + n}"
    by auto
  then show ?thesis using b p by (auto simp: pmm_free_blocks_def region_free_def Let_def)
qed

text \<open>a single-block allocation cannot miss a free block. When block 0 is in use (its
  number doubles as the failure value) and some block covered by a whole word of the map is
  free, the allocation succeeds and returns the lowest free block.\<close>

lemma pmm_alloc_one_lowest:
  assumes wf: "pmm_wf m" and zero: "0 \<in> pmm_used m"
    and free: "x < block_map_size m div 32 * 32" "x \<notin> pmm_used m"
  shows "\<exists>p m' b. pmm_alloc_blocks m 1 = Inr (p, m') \<and> unat p = b * BLOCK_SIZE \<and>
           b \<notin> pmm_used m \<and> b \<le> x \<and> (\<forall>y < b. y \<in> pmm_used m) \<and> pmm_used m' = insert b (pmm_used m)"
proof -
  obtain b where b: "pmm_find_first_free m = Inr b" using find_first_free_total [OF wf] by blast
  have L: "block_map_size m div 32 \<le> length (block_map m)" using wf by (auto simp: pmm_wf_def)
  have "b \<noteq> 0"
  proof
    assume "b = 0"
    have x: "free_bit m x" using free wf by (subst free_bit_iff) auto
    have "\<not> free_bit m 0" using zero free wf by (subst free_bit_iff) auto
    with ff_words_spec [OF le0 L] b \<open>b = 0\<close> x free show False
      by (auto simp: pmm_find_first_free_def)
  qed
  with find_first_free_sound [OF wf b] have reg: "region_free m b 1" "\<forall>y < b. y \<in> pmm_used m" by auto
  then have "b \<notin> pmm_used m" by (auto simp: region_free_def)
  moreover have "b \<le> x" using reg(2) free(2) by (meson linorder_not_less)
  ultimately show ?thesis
    using alloc_blocks_at [OF wf one_neq_zero, of b] b \<open>b \<noteq> 0\<close> reg(2)
    by (auto simp: pmm_find_region_def)
qed

lemma demo_pmm_bits: "0 \<in> pmm_used demo_pmm" "1 \<notin> pmm_used demo_pmm"
  by (simp_all add: pmm_used_def demo_pmm_def pmm_test_block_def)

text \<open>\<open>pmm_count_free_blocks\<close> returns the number of blocks that are not in use.\<close>

lemma pmm_count_free_blocks_card:
  assumes wf: "pmm_wf m"
  shows "pmm_count_free_blocks m = Inr (card ({..<block_map_size m} - pmm_used m))"
proof -
  let ?f = "\<lambda>i count. kbind (pmm_test_block m i) (\<lambda>used. Inr (if \<not> used then count + 1 else count))"
  have "kfor ?f [0..<k] 0 = Inr (card ({..<k} - pmm_used m))" if "k \<le> block_map_size m" for k
    using that
  proof (induction k)
    case (Suc k)
    then have "pmm_test_block m k = Inr (k \<in> pmm_used m)"
      using blocks.test_used [OF wf, of k] by simp
    moreover have "k \<notin> pmm_used m \<Longrightarrow> {..<Suc k} - pmm_used m = insert k ({..<k} - pmm_used m)"
      and "k \<in> pmm_used m \<Longrightarrow> {..<Suc k} - pmm_used m = {..<k} - pmm_used m"
      by (auto simp: less_Suc_eq)
    ultimately show ?case using Suc by (auto simp: kfor_append)
  qed simp
  then show ?thesis by (simp add: pmm_count_free_blocks_def)
qed

subsection \<open>The end of the map\<close>

lemma fr_outer_skip:
  assumes "i \<le> k" "k < block_map_size m div 32" "block_map_size m div 32 \<le> length (block_map m)"
    and "\<forall>x. i \<le> x \<longrightarrow> x < k \<longrightarrow> block_map m ! x = 0xFFFFFFFF"
  shows "fr_outer m sz i = fr_outer m sz k"
  using assms
proof (induction "k - i" arbitrary: i)
  case (Suc d)
  then have "i < k" by simp
  with Suc.prems have "fr_outer m sz i = fr_outer m sz (i + 1)"
    by (subst fr_outer.simps) auto
  also have "\<dots> = fr_outer m sz k" using Suc.hyps(2) Suc.prems by (intro Suc.hyps(1)) auto
  finally show ?case .
qed simp

lemma fr_inner_skip:
  assumes "j \<le> k" "k < 32" "i < length (block_map m)"
    and "\<forall>x. j \<le> x \<longrightarrow> x < k \<longrightarrow> block_map m ! i AND push_bit x 1 \<noteq> 0"
  shows "fr_inner m sz i j = fr_inner m sz i k"
  using assms
proof (induction "k - j" arbitrary: j)
  case (Suc d)
  then have "j < k" by simp
  with Suc.prems have "fr_inner m sz i j = fr_inner m sz i (j + 1)"
    by (subst fr_inner.simps) auto
  also have "\<dots> = fr_inner m sz i k" using Suc.hyps(2) Suc.prems by (intro Suc.hyps(1)) auto
  finally show ?case .
qed simp

text \<open>the search does not report failure when the free run it follows reaches the end of
  the map: it stops the kernel. With only the last block free, every request for two blocks
  or more fails the assertion \<open>block < block_map_size\<close> instead of returning 0.\<close>

lemma pmm_alloc_blocks_end_of_map_panics:
  assumes "block_map m = replicate k 0xFFFFFFFF @ [0x7FFFFFFF]"
    and "block_map_size m = 32 * (k + 1)" and "2 \<le> n"
  shows "pmm_alloc_blocks m n = Inl AssertFailed"
proof -
  have len: "length (block_map m) = k + 1" "block_map_size m div 32 = k + 1"
    using assms by auto
  have last: "block_map m ! k = 0x7FFFFFFF" using assms(1) by (simp add: nth_append)
  have full: "\<forall>x. 0 \<le> x \<longrightarrow> x < k \<longrightarrow> block_map m ! x = 0xFFFFFFFF"
    using assms(1) by (simp add: nth_append)
  have m31: "(0x7FFFFFFF :: u32) = mask 31" by (simp add: mask_eq_exp_minus_1)
  have bits: "(0x7FFFFFFF :: u32) AND push_bit x 1 = 0 \<longleftrightarrow> \<not> x < 31" if "x < 32" for x
    unfolding m31 using that by (simp add: and_exp_eq_0_iff_not_bit bit_simps del: mask_numeral)
  have "fr_outer m n 0 = fr_outer m n k"
    by (rule fr_outer_skip) (use len full in auto)
  also have "\<dots> = fr_inner m n k 0"
    using len last by (subst fr_outer.simps) simp
  also have "\<dots> = fr_inner m n k 31"
    by (rule fr_inner_skip) (use len last bits in \<open>auto simp del: push_bit_of_1\<close>)
  also have "\<dots> = Inl AssertFailed"
  proof -
    have "fr_run m (n - 1) (k * 32 + 31) 1 = Inl AssertFailed"
      using assms by (cases "n - 1") auto
    then show ?thesis using len last bits [of 31] by (subst fr_inner.simps) (simp del: push_bit_of_1)
  qed
  finally show ?thesis
    using assms(3) by (auto simp: pmm_alloc_blocks_def pmm_find_region_def)
qed

lemma fill_range:
  assumes "(a :: nat) < n" "\<not> 4 * (a div 32 + 1) \<le> n"
  shows "4 * (a div 32) < n \<and> a mod 32 < 8 * (n - 4 * (a div 32))"
proof -
  have "32 * (a div 32) + a mod 32 < n" using assms(1) by simp
  moreover have "n < 4 * (a div 32) + 4" using assms(2) by simp
  ultimately have "a div 32 = 0" by linarith
  with assms show ?thesis by simp
qed

text \<open>\<open>pmm_init\<close> marks every block as used, provided the memory it is given has room for
  one \<open>byte\<close> per block (the length it passes to \<open>memset\<close>), eight times the bitmap's size.\<close>

lemma pmm_init_all_used:
  assumes "pmm_init mem mem_size = Inr m" "block_map_size m \<le> 2 ^ 20"
  shows "pmm_wf m \<and> pmm_used m = {..<block_map_size m} \<and> block_map_size m = mem_size div BLOCK_SIZE"
proof -
  let ?n = "mem_size div BLOCK_SIZE"
  from assms have n: "?n \<noteq> 0" "?n \<le> 4 * length mem" and m: "block_map_size m = ?n"
      "length (block_map m) = length mem"
      "\<And>k. 4 * (k + 1) \<le> ?n \<Longrightarrow> block_map m ! k = 0xFFFFFFFF"
      "\<And>k. \<not> 4 * (k + 1) \<le> ?n \<Longrightarrow> 4 * k < ?n \<Longrightarrow> block_map m ! k = fill_bytes (?n - 4 * k) (mem ! k)"
    by (auto simp: pmm_init_def Let_def kassert_def split: if_splits)
  then have wf: "pmm_wf m" using assms(2) by (auto simp: pmm_wf_def)
  have "x \<in> pmm_used m" if x: "x < ?n" for x
  proof -
    have "\<not> free_bit m x"
    proof (cases "4 * (x div 32 + 1) \<le> ?n")
      case True
      then show ?thesis using m(3) [OF True] full_word [of _ "x mod 32"] by (simp add: free_bit_def)
    next
      case False
      from fill_range [OF x False] have "4 * (x div 32) < ?n" "x mod 32 < 8 * (?n - 4 * (x div 32))"
        by auto
      with m(4) [OF False] show ?thesis
        by (auto simp: free_bit_def fill_bytes_def and_exp_eq_0_iff_not_bit bit_simps)
    qed
    then show ?thesis using free_bit_iff [OF wf] x m(1) by simp
  qed
  with wf m(1) show ?thesis by (auto simp: pmm_used_def)
qed

end
