(* ===== verification/Klist.thy ===== *)
theory Klist
  imports Prelude
begin

text \<open>
  The intrusive doubly linked list of src/kernel/list.c, at the level of its pointers: a heap
  of \<open>node_t\<close> and \<open>list_t\<close> objects indexed by address, \<open>0\<close> being NULL. \<open>kfree\<close> takes an object
  out of the heap, so a later access to it is a \<open>MemFault\<close>; the address \<open>kcalloc\<close> returns is an
  argument of the operations that allocate. The \<open>fifo_queue\<close> locale is the contract that the
  list offers to its clients, with HOL lists as the abstract values; it is interpreted here
  and, for the task queues, in the scheduler.
\<close>

type_synonym addr = nat

record node_t =
  n_next :: addr
  n_prev :: addr
  n_value :: addr
  n_owner :: addr

record list_t =
  l_head :: addr
  l_tail :: addr
  l_length :: u32

record lheap =
  nodes :: "addr \<rightharpoonup> node_t"
  lsts :: "addr \<rightharpoonup> list_t"

definition ld_node :: "lheap \<Rightarrow> addr \<Rightarrow> node_t res" where
  "ld_node h a = (case nodes h a of None \<Rightarrow> Inl MemFault | Some n \<Rightarrow> Inr n)"

definition ld_list :: "lheap \<Rightarrow> addr \<Rightarrow> list_t res" where
  "ld_list h l = (case lsts h l of None \<Rightarrow> Inl MemFault | Some x \<Rightarrow> Inr x)"

definition upd_node :: "addr \<Rightarrow> (node_t \<Rightarrow> node_t) \<Rightarrow> lheap \<Rightarrow> lheap res" where
  "upd_node a f h = kbind (ld_node h a) (\<lambda>n. Inr (h\<lparr>nodes := (nodes h)(a \<mapsto> f n)\<rparr>))"

definition upd_list :: "addr \<Rightarrow> (list_t \<Rightarrow> list_t) \<Rightarrow> lheap \<Rightarrow> lheap res" where
  "upd_list l f h = kbind (ld_list h l) (\<lambda>x. Inr (h\<lparr>lsts := (lsts h)(l \<mapsto> f x)\<rparr>))"

definition free_node :: "addr \<Rightarrow> lheap \<Rightarrow> lheap res" where
  "free_node a h = kbind (ld_node h a) (\<lambda>_. Inr (h\<lparr>nodes := (nodes h)(a := None)\<rparr>))"

text \<open>\<open>list_init\<close>: \<open>v\<close> is the address \<open>kcalloc\<close> returned, \<open>0\<close> when it failed.\<close>

definition list_init :: "addr \<Rightarrow> lheap \<Rightarrow> (addr \<times> lheap) res" where
  "list_init v h =
     kbind (kassert (v \<noteq> 0)) (\<lambda>_.
     Inr (v, h\<lparr>lsts := (lsts h)(v \<mapsto> \<lparr>l_head = 0, l_tail = 0, l_length = 0\<rparr>)\<rparr>))"

definition list_append :: "addr \<Rightarrow> addr \<Rightarrow> lheap \<Rightarrow> lheap res" where
  "list_append l node h =
     kbind (kassert (l \<noteq> 0)) (\<lambda>_.
     kbind (kassert (node \<noteq> 0)) (\<lambda>_.
     kbind (ld_node h node) (\<lambda>n.
     kbind (kassert (n_owner n = 0)) (\<lambda>_.
     kbind (upd_node node (n_owner_update (\<lambda>_. l)) h) (\<lambda>h.
     kbind (ld_list h l) (\<lambda>lst.
     kbind (if l_length lst = 0
            then kbind (upd_list l (\<lambda>x. x\<lparr>l_head := node, l_tail := node\<rparr>) h)
                   (upd_node node (\<lambda>x. x\<lparr>n_prev := 0, n_next := 0\<rparr>))
            else kbind (upd_node (l_tail lst) (n_next_update (\<lambda>_. node)) h) (\<lambda>h.
                 kbind (upd_node node (n_prev_update (\<lambda>_. l_tail lst)) h)
                   (upd_list l (l_tail_update (\<lambda>_. node)))))
       (upd_list l (l_length_update (\<lambda>k. k + 1)))))))))"

definition list_insert :: "addr \<Rightarrow> addr \<Rightarrow> addr \<Rightarrow> lheap \<Rightarrow> (addr \<times> lheap) res" where
  "list_insert l v node h =
     kbind (kassert (l \<noteq> 0)) (\<lambda>_.
     kbind (kassert (v \<noteq> 0)) (\<lambda>_.
     kbind (kassert (node \<noteq> 0)) (\<lambda>_.
     kbind (list_append l node
              (h\<lparr>nodes := (nodes h)(node \<mapsto> \<lparr>n_next = 0, n_prev = 0, n_value = v, n_owner = 0\<rparr>)\<rparr>))
       (\<lambda>h. Inr (node, h)))))"

definition list_delete :: "addr \<Rightarrow> addr \<Rightarrow> lheap \<Rightarrow> lheap res" where
  "list_delete l v h =
     kbind (ld_node h v) (\<lambda>n.
     kbind (kassert (n_owner n = l)) (\<lambda>_.
     kbind (ld_list h l) (\<lambda>lst.
     kbind (if v = l_head lst then upd_list l (l_head_update (\<lambda>_. n_next n)) h else Inr h) (\<lambda>h.
     kbind (if v = l_tail lst then upd_list l (l_tail_update (\<lambda>_. n_prev n)) h else Inr h) (\<lambda>h.
     kbind (if n_prev n \<noteq> 0 then upd_node (n_prev n) (n_next_update (\<lambda>_. n_next n)) h else Inr h) (\<lambda>h.
     kbind (if n_next n \<noteq> 0 then upd_node (n_next n) (n_prev_update (\<lambda>_. n_prev n)) h else Inr h) (\<lambda>h.
     kbind (upd_node v (\<lambda>x. x\<lparr>n_prev := 0, n_next := 0, n_owner := 0\<rparr>) h)
       (upd_list l (l_length_update (\<lambda>k. k - 1))))))))))"

text \<open>The search loop of \<open>list_remove\<close>; a cyclic list makes it run forever (\<open>None\<close>).\<close>

partial_function (option) list_find :: "lheap \<Rightarrow> addr \<Rightarrow> addr \<Rightarrow> addr res option" where
  "list_find h i v =
     (if i = 0 then Some (Inr 0)
      else case ld_node h i of
        Inl e \<Rightarrow> Some (Inl e)
      | Inr n \<Rightarrow> if n_value n = v then Some (Inr i) else list_find h (n_next n) v)"

definition list_remove :: "addr \<Rightarrow> addr \<Rightarrow> lheap \<Rightarrow> lheap res option" where
  "list_remove l v h =
     (case ld_list h l of
        Inl e \<Rightarrow> Some (Inl e)
      | Inr lst \<Rightarrow>
          (case list_find h (l_head lst) v of
             None \<Rightarrow> None
           | Some (Inl e) \<Rightarrow> Some (Inl e)
           | Some (Inr i) \<Rightarrow>
               Some (if i = 0 then Inr h else kbind (list_delete l i h) (free_node i))))"

definition list_dequeue :: "addr \<Rightarrow> lheap \<Rightarrow> (addr \<times> lheap) res" where
  "list_dequeue l h =
     kbind (kassert (l \<noteq> 0)) (\<lambda>_.
     kbind (ld_list h l) (\<lambda>lst.
     kbind (kassert (l_head lst \<noteq> 0)) (\<lambda>_.
     kbind (list_delete l (l_head lst) h) (\<lambda>h.
     kbind (ld_node h (l_head lst)) (\<lambda>n.
     kbind (free_node (l_head lst) h) (\<lambda>h. Inr (n_value n, h)))))))"

partial_function (option) list_free_nodes :: "addr \<Rightarrow> lheap \<Rightarrow> lheap res option" where
  "list_free_nodes v h =
     (if v = 0 then Some (Inr h)
      else case ld_node h v of
        Inl e \<Rightarrow> Some (Inl e)
      | Inr n \<Rightarrow> if n_value n \<noteq> 0 then Some (Inl AssertFailed)
                else list_free_nodes (n_next n) (h\<lparr>nodes := (nodes h)(v := None)\<rparr>))"

definition list_free :: "addr \<Rightarrow> lheap \<Rightarrow> lheap res option" where
  "list_free l h =
     (case ld_list h l of Inl e \<Rightarrow> Some (Inl e) | Inr lst \<Rightarrow> list_free_nodes (l_head lst) h)"

text \<open>
  \<open>dseg nd l prv p xs q\<close>: from \<open>p\<close> the \<open>next\<close> pointers run through the nodes \<open>xs\<close> and end at
  \<open>q\<close>, the \<open>prev\<close> pointers run back and end at \<open>prv\<close>, and every node is owned by \<open>l\<close>.
\<close>

fun dseg :: "(addr \<rightharpoonup> node_t) \<Rightarrow> addr \<Rightarrow> addr \<Rightarrow> addr \<Rightarrow> addr list \<Rightarrow> addr \<Rightarrow> bool" where
  "dseg nd l prv p [] q = (p = q)"
| "dseg nd l prv p (x # xs) q =
     (p = x \<and> x \<noteq> 0 \<and>
      (case nd x of None \<Rightarrow> False
       | Some n \<Rightarrow> n_prev n = prv \<and> n_owner n = l \<and> dseg nd l x (n_next n) xs q))"

definition end_of :: "addr \<Rightarrow> addr list \<Rightarrow> addr" where
  "end_of prv xs = (if xs = [] then prv else last xs)"

definition wf_list :: "lheap \<Rightarrow> addr \<Rightarrow> addr list \<Rightarrow> bool" where
  "wf_list h l xs \<longleftrightarrow> l \<noteq> 0 \<and> distinct xs \<and> length xs < 2 ^ 32 \<and>
     (case lsts h l of None \<Rightarrow> False
      | Some lst \<Rightarrow> dseg (nodes h) l 0 (l_head lst) xs 0 \<and> l_tail lst = end_of 0 xs \<and>
          l_length lst = of_nat (length xs))"

definition vals :: "lheap \<Rightarrow> addr list \<Rightarrow> addr list" where
  "vals h xs = map (\<lambda>a. case nodes h a of None \<Rightarrow> 0 | Some n \<Rightarrow> n_value n) xs"

text \<open>What an operation on list \<open>l\<close> leaves alone: other list headers, and nodes owned by
  other lists.\<close>

definition only_touches :: "addr \<Rightarrow> lheap \<Rightarrow> lheap \<Rightarrow> bool" where
  "only_touches l h h' \<longleftrightarrow> (\<forall>l'. l' \<noteq> l \<longrightarrow> lsts h' l' = lsts h l') \<and>
     (\<forall>a n. nodes h a = Some n \<longrightarrow> n_owner n \<noteq> 0 \<longrightarrow> n_owner n \<noteq> l \<longrightarrow> nodes h' a = Some n)"

lemmas heap_defs = ld_node_def ld_list_def upd_node_def upd_list_def free_node_def

lemma end_of_simps [simp]: "end_of prv [] = prv" "end_of prv (xs @ ys) = end_of (end_of prv xs) ys"
  "end_of prv (x # xs) = end_of x xs"
  by (auto simp: end_of_def)

lemma dseg_append [simp]:
  "dseg nd l prv p (xs @ ys) q \<longleftrightarrow> (\<exists>r. dseg nd l prv p xs r \<and> dseg nd l (end_of prv xs) r ys q)"
  by (induction xs arbitrary: prv p) (auto split: option.splits)

lemma dseg_owner:
  "dseg nd l prv p xs q \<Longrightarrow> x \<in> set xs \<Longrightarrow> \<exists>n. nd x = Some n \<and> n_owner n = l \<and> x \<noteq> 0"
  by (induction xs arbitrary: prv p) (auto split: option.splits)

lemma dseg_cong:
  "(\<And>x. x \<in> set xs \<Longrightarrow> nd x = nd' x) \<Longrightarrow> dseg nd l prv p xs q = dseg nd' l prv p xs q"
  by (induction xs arbitrary: prv p) (auto split: option.splits)

lemma dseg_upd [simp]: "a \<notin> set xs \<Longrightarrow> dseg (nd(a := v)) l prv p xs q = dseg nd l prv p xs q"
  by (rule dseg_cong) auto

lemma vals_upd [simp]: "a \<notin> set xs \<Longrightarrow> vals (h\<lparr>nodes := (nodes h)(a := v)\<rparr>) xs = vals h xs"
  by (auto simp: vals_def)

lemma vals_simps [simp]: "vals h [] = []" "vals h (xs @ ys) = vals h xs @ vals h ys"
  "length (vals h xs) = length xs" "vals (h\<lparr>lsts := L\<rparr>) xs = vals h xs"
  by (auto simp: vals_def)

lemma wf_list_frame:
  assumes "only_touches l h h'" "wf_list h l' ys" "l' \<noteq> l"
  shows "wf_list h' l' ys \<and> vals h' ys = vals h ys"
proof -
  from assms obtain lst where l': "lsts h l' = Some lst" "dseg (nodes h) l' 0 (l_head lst) ys 0"
    by (auto simp: wf_list_def split: option.splits)
  have same: "nodes h x = nodes h' x" if "x \<in> set ys" for x
    using dseg_owner [OF l'(2) that] assms by (auto simp: only_touches_def wf_list_def)
  then have "dseg (nodes h') l' 0 (l_head lst) ys 0" using l'(2) dseg_cong [of ys "nodes h" "nodes h'"] same by blast
  moreover have "vals h' ys = vals h ys" using same by (auto simp: vals_def)
  moreover have "lsts h' l' = Some lst" using assms l' by (simp add: only_touches_def)
  ultimately show ?thesis using assms(2) l' by (simp add: wf_list_def)
qed

lemma wf_list_length_0:
  assumes "length xs < 2 ^ 32"
  shows "(of_nat (length xs) :: u32) = 0 \<longleftrightarrow> xs = []"
proof -
  have "unat (of_nat (length xs) :: u32) = length xs" using assms by (simp add: unat_of_nat)
  moreover have "(of_nat (length xs) :: u32) = 0 \<longleftrightarrow> unat (of_nat (length xs) :: u32) = 0"
    by (simp only: unat_eq_zero)
  ultimately show ?thesis by simp
qed

lemma list_append_ok:
  assumes wf: "wf_list h l xs" and n: "nodes h node = Some n" "n_owner n = 0" "n_next n = 0"
    and "node \<noteq> 0" and len: "length xs + 1 < 2 ^ 32"
  shows "\<exists>h'. list_append l node h = Inr h' \<and> wf_list h' l (xs @ [node]) \<and>
           vals h' (xs @ [node]) = vals h xs @ [n_value n] \<and> only_touches l h h'"
proof -
  from wf obtain lst where lst: "l \<noteq> 0" "lsts h l = Some lst" "distinct xs"
      "dseg (nodes h) l 0 (l_head lst) xs 0" "l_tail lst = end_of 0 xs"
      "l_length lst = of_nat (length xs)"
    by (auto simp: wf_list_def split: option.splits)
  have notin: "node \<notin> set xs" using dseg_owner [OF lst(4)] n lst(1) by fastforce
  show ?thesis
  proof (cases xs rule: rev_cases)
    case Nil
    with lst n assms(5) show ?thesis
      by (simp add: list_append_def heap_defs wf_list_def only_touches_def vals_def)
  next
    case (snoc ys y)
    then obtain m where m: "nodes h y = Some m" "y \<noteq> 0" "n_prev m = end_of 0 ys" "n_owner m = l"
        "dseg (nodes h) l 0 (l_head lst) ys y" "n_next m = 0" "y \<notin> set ys" "y \<noteq> node" "node \<notin> set ys"
      using lst notin by (auto split: option.splits)
    have "of_nat (length xs) \<noteq> (0 :: u32)"
      using wf_list_length_0 [of xs] len snoc by simp
    with lst n m snoc assms(5) len show ?thesis
      by (auto simp: list_append_def heap_defs wf_list_def only_touches_def vals_def)
  qed
qed

lemma list_insert_ok:
  assumes "wf_list h l xs" "v \<noteq> 0" "node \<noteq> 0" "nodes h node = None" "length xs + 1 < 2 ^ 32"
  shows "\<exists>h'. list_insert l v node h = Inr (node, h') \<and> wf_list h' l (xs @ [node]) \<and>
           vals h' (xs @ [node]) = vals h xs @ [v] \<and> only_touches l h h'"
proof -
  let ?n = "\<lparr>n_next = 0, n_prev = 0, n_value = v, n_owner = 0\<rparr>"
  let ?h = "h\<lparr>nodes := (nodes h)(node \<mapsto> ?n)\<rparr>"
  have notin: "node \<notin> set xs"
    using assms(1,4) dseg_owner by (fastforce simp: wf_list_def split: option.splits)
  then have wf: "wf_list ?h l xs" using assms(1) by (auto simp: wf_list_def split: option.splits)
  from list_append_ok [OF wf, of node ?n] assms obtain h' where
    h': "list_append l node ?h = Inr h'" "wf_list h' l (xs @ [node])"
      "vals h' (xs @ [node]) = vals ?h xs @ [v]" "only_touches l ?h h'"
    by auto
  from h'(4) assms(4) have "only_touches l h h'"
    by (simp add: only_touches_def) (metis option.distinct(1))
  moreover have "l \<noteq> 0" using assms(1) by (simp add: wf_list_def)
  ultimately show ?thesis using h' assms notin by (auto simp: list_insert_def)
qed

lemma dseg_end: "dseg nd l prv p xs q \<Longrightarrow> p \<noteq> 0 \<longleftrightarrow> xs \<noteq> [] \<or> q \<noteq> 0"
  by (cases xs) auto

lemma dseg_last_next:
  assumes "dseg nd l prv p (xs @ [x]) q" "x \<notin> set xs" "nd x = Some n"
  shows "dseg (nd(x \<mapsto> n\<lparr>n_next := r\<rparr>)) l prv p (xs @ [x]) r"
  using assms by (auto split: option.splits)

lemma dseg_first_prev:
  assumes "dseg nd l prv p (x # xs) q" "x \<notin> set xs" "nd x = Some n"
  shows "dseg (nd(x \<mapsto> n\<lparr>n_prev := r\<rparr>)) l r p (x # xs) q"
  using assms by auto

lemma of_nat_pred: "(of_nat (a + Suc b) :: u32) - 1 = of_nat (a + b)"
  by simp

lemma list_delete_ok:
  assumes wf: "wf_list h l (as @ x # bs)"
  shows "\<exists>h' n'. list_delete l x h = Inr h' \<and> wf_list h' l (as @ bs) \<and> nodes h' x = Some n' \<and>
           n_value n' = hd (vals h [x]) \<and> vals h' (as @ bs) = vals h (as @ bs) \<and> only_touches l h h'"
proof -
  from wf obtain lst n where lst: "l \<noteq> 0" "lsts h l = Some lst" "distinct (as @ x # bs)"
      "dseg (nodes h) l 0 (l_head lst) as x" "nodes h x = Some n" "n_prev n = end_of 0 as"
      "n_owner n = l" "dseg (nodes h) l x (n_next n) bs 0" "x \<noteq> 0"
      "l_tail lst = end_of 0 (as @ x # bs)" "l_length lst = of_nat (length (as @ x # bs))"
    by (auto simp: wf_list_def split: option.splits)
  have len: "length (as @ bs) < 2 ^ 32" using wf by (simp add: wf_list_def)
  have head: "as \<noteq> [] \<Longrightarrow> l_head lst \<noteq> x" using lst(3,4) by (cases as) auto
  show ?thesis
  proof (cases as rule: rev_cases)
    case Nil
    show ?thesis
    proof (cases bs)
      case Nil
      with \<open>as = []\<close> lst len show ?thesis
        by (auto simp: list_delete_def heap_defs wf_list_def only_touches_def vals_def)
    next
      case (Cons c cs)
      with \<open>as = []\<close> lst len show ?thesis
        by (auto simp: list_delete_def heap_defs wf_list_def only_touches_def vals_def
            end_of_def split: option.splits)
    qed
  next
    case (snoc as' a)
    show ?thesis
    proof (cases bs)
      case Nil
      with snoc lst len head show ?thesis
        by (auto simp: list_delete_def heap_defs wf_list_def only_touches_def vals_def
            split: option.splits)
    next
      case (Cons c cs)
      with snoc lst len head show ?thesis
        by (auto simp: list_delete_def heap_defs wf_list_def only_touches_def vals_def
            end_of_def split: option.splits)
    qed
  qed
qed

lemma free_node_ok:
  assumes "nodes h a = Some n" "n_owner n = 0 \<or> n_owner n = l"
  shows "\<exists>h'. free_node a h = Inr h' \<and> nodes h' a = None \<and> only_touches l h h' \<and>
           (\<forall>xs. a \<notin> set xs \<longrightarrow> wf_list h l xs \<longrightarrow> wf_list h' l xs \<and> vals h' xs = vals h xs)"
  using assms by (auto simp: heap_defs only_touches_def wf_list_def split: option.splits)

lemma only_touches_trans: "only_touches l a b \<Longrightarrow> only_touches l b c \<Longrightarrow> only_touches l a c"
  by (auto simp: only_touches_def)

lemma list_delete_free_ok:
  assumes wf: "wf_list h l (as @ x # bs)"
  shows "\<exists>h'. kbind (list_delete l x h) (free_node x) = Inr h' \<and> wf_list h' l (as @ bs) \<and>
           vals h' (as @ bs) = vals h (as @ bs) \<and> only_touches l h h'"
proof -
  from list_delete_ok [OF wf] obtain h1 n where h1: "list_delete l x h = Inr h1"
      "wf_list h1 l (as @ bs)" "nodes h1 x = Some n" "vals h1 (as @ bs) = vals h (as @ bs)"
      "only_touches l h h1"
    by blast
  from wf have "x \<notin> set (as @ bs)" by (auto simp: wf_list_def)
  with h1(2,3) have "\<exists>h2. free_node x h1 = Inr h2 \<and> wf_list h2 l (as @ bs) \<and>
      vals h2 (as @ bs) = vals h1 (as @ bs)"
    by (auto simp: heap_defs wf_list_def split: option.splits)
  moreover have "only_touches l h h2" if "free_node x h1 = Inr h2" for h2
  proof -
    from wf obtain m where "nodes h x = Some m" "n_owner m = l"
      by (auto simp: wf_list_def split: option.splits)
    with h1(5) that show ?thesis by (auto simp: only_touches_def heap_defs split: option.splits)
  qed
  ultimately show ?thesis using h1 by auto
qed

lemma list_dequeue_ok:
  assumes wf: "wf_list h l (x # xs)"
  shows "\<exists>h'. list_dequeue l h = Inr (hd (vals h [x]), h') \<and> wf_list h' l xs \<and>
           vals h' xs = vals h xs \<and> only_touches l h h'"
proof -
  from wf obtain lst where lst: "lsts h l = Some lst" "l_head lst = x" "x \<noteq> 0" "l \<noteq> 0"
    by (auto simp: wf_list_def split: option.splits)
  from list_delete_ok [of h l "[]" x xs] wf obtain h1 n where h1: "list_delete l x h = Inr h1"
      "nodes h1 x = Some n" "n_value n = hd (vals h [x])"
    by auto
  from list_delete_free_ok [of h l "[]" x xs] wf obtain h2 where
    "kbind (list_delete l x h) (free_node x) = Inr h2" "wf_list h2 l xs" "vals h2 xs = vals h xs"
    "only_touches l h h2"
    by auto
  with lst h1 show ?thesis by (auto simp: list_dequeue_def ld_list_def ld_node_def)
qed

text \<open>The search loop ends on every well-formed list, at the first node holding the value.\<close>

lemma list_find_ok:
  assumes "dseg (nodes h) l prv p xs 0"
  shows "list_find h p v =
    Some (Inr (case dropWhile (\<lambda>a. hd (vals h [a]) \<noteq> v) xs of [] \<Rightarrow> 0 | a # _ \<Rightarrow> a))"
  using assms
proof (induction xs arbitrary: prv p)
  case Nil
  then show ?case by (simp add: list_find.simps)
next
  case (Cons x xs)
  then obtain n where n: "p = x" "x \<noteq> 0" "nodes h x = Some n" "dseg (nodes h) l x (n_next n) xs 0"
    by (auto split: option.splits)
  show ?case
    using Cons.IH [OF n(4)] n by (subst list_find.simps) (simp add: ld_node_def vals_def)
qed

lemma vals_split:
  "vals h xs = us @ v # ws \<Longrightarrow> v \<notin> set us \<Longrightarrow>
     \<exists>as x bs. xs = as @ x # bs \<and> vals h as = us \<and> hd (vals h [x]) = v \<and> vals h bs = ws \<and>
       dropWhile (\<lambda>a. hd (vals h [a]) \<noteq> v) xs = x # bs"
proof (induction us arbitrary: xs)
  case Nil
  then obtain x bs where "xs = x # bs" by (cases xs) (auto simp: vals_def)
  with Nil show ?case by (intro exI [of _ "[]"]) (auto simp: vals_def)
next
  case (Cons u us)
  then obtain y ys where y: "xs = y # ys" "hd (vals h [y]) = u" "vals h ys = us @ v # ws"
    by (cases xs) (auto simp: vals_def)
  from Cons.IH [OF y(3)] Cons.prems(2) obtain as x bs where "ys = as @ x # bs" "vals h as = us"
      "hd (vals h [x]) = v" "vals h bs = ws" "dropWhile (\<lambda>a. hd (vals h [a]) \<noteq> v) ys = x # bs"
    by auto
  with y Cons.prems(2) show ?case
    by (intro exI [of _ "y # as"] exI [of _ x] exI [of _ bs]) (auto simp: vals_def)
qed

lemma vals_absent:
  "v \<notin> set (vals h xs) \<Longrightarrow> dropWhile (\<lambda>a. hd (vals h [a]) \<noteq> v) xs = []"
  by (auto simp: vals_def)

subsection \<open>The contract of a queue\<close>

text \<open>
  \<open>rep s vs\<close> says that the queue holds the values \<open>vs\<close>, oldest first, in state \<open>s\<close>;
  \<open>room s x v\<close> is what an insertion of \<open>v\<close> with the resource \<open>x\<close> (a fresh node address, say)
  needs. A provider promises that insertion appends and removal takes the oldest value. The
  client lemma proved once here: what goes in comes out, in the same order.
\<close>

locale fifo_queue =
  fixes rep :: "'s \<Rightarrow> 'v list \<Rightarrow> bool"
    and room :: "'s \<Rightarrow> 'x \<Rightarrow> 'v \<Rightarrow> bool"
    and enq :: "'x \<Rightarrow> 'v \<Rightarrow> 's \<Rightarrow> 's res"
    and deq :: "'s \<Rightarrow> ('v \<times> 's) res"
  assumes enq_ok: "rep s vs \<Longrightarrow> room s x v \<Longrightarrow> \<exists>s'. enq x v s = Inr s' \<and> rep s' (vs @ [v])"
    and deq_ok: "rep s (v # vs) \<Longrightarrow> \<exists>s'. deq s = Inr (v, s') \<and> rep s' vs"
begin

primrec drain :: "nat \<Rightarrow> 's \<Rightarrow> ('v list \<times> 's) res" where
  "drain 0 s = Inr ([], s)"
| "drain (Suc n) s = kbind (deq s) (\<lambda>(v, s). kbind (drain n s) (\<lambda>(vs, s). Inr (v # vs, s)))"

lemma drain_all: "rep s (vs @ ws) \<Longrightarrow> \<exists>s'. drain (length vs) s = Inr (vs, s') \<and> rep s' ws"
proof (induction vs arbitrary: s)
  case (Cons v vs)
  then obtain s1 where "deq s = Inr (v, s1)" "rep s1 (vs @ ws)" using deq_ok by fastforce
  with Cons.IH [of s1] show ?case by auto
qed simp

lemma enq_drain:
  assumes "rep s vs" "room s x v"
  shows "\<exists>s' s''. enq x v s = Inr s' \<and> drain (length vs + 1) s' = Inr (vs @ [v], s'') \<and> rep s'' []"
proof -
  from enq_ok [OF assms] obtain s' where s': "enq x v s = Inr s'" "rep s' ((vs @ [v]) @ [])" by auto
  from drain_all [OF s'(2)] s'(1) show ?thesis by auto
qed

end

definition holds :: "addr \<Rightarrow> lheap \<Rightarrow> addr list \<Rightarrow> bool" where
  "holds l h vs \<longleftrightarrow> (\<exists>xs. wf_list h l xs \<and> vals h xs = vs)"

definition node_room :: "addr \<Rightarrow> lheap \<Rightarrow> addr \<Rightarrow> addr \<Rightarrow> bool" where
  "node_room l h node v \<longleftrightarrow> v \<noteq> 0 \<and> node \<noteq> 0 \<and> nodes h node = None \<and>
     (\<forall>vs. holds l h vs \<longrightarrow> length vs + 1 < 2 ^ 32)"

definition list_enqueue :: "addr \<Rightarrow> addr \<Rightarrow> addr \<Rightarrow> lheap \<Rightarrow> lheap res" where
  "list_enqueue l node v h = kbind (list_insert l v node h) (\<lambda>(_, h). Inr h)"

lemma holds_insert:
  assumes "holds l h vs" "node_room l h node v"
  shows "\<exists>h'. list_insert l v node h = Inr (node, h') \<and> holds l h' (vs @ [v]) \<and> only_touches l h h'"
proof -
  from assms obtain xs where xs: "wf_list h l xs" "vals h xs = vs" by (auto simp: holds_def)
  moreover have "length xs + 1 < 2 ^ 32" using assms xs by (auto simp: node_room_def)
  ultimately show ?thesis
    using list_insert_ok [of h l xs v node] assms(2) by (force simp: node_room_def holds_def)
qed

lemma holds_dequeue:
  assumes "holds l h (v # vs)"
  shows "\<exists>h'. list_dequeue l h = Inr (v, h') \<and> holds l h' vs \<and> only_touches l h h'"
proof -
  from assms obtain x xs where x: "wf_list h l (x # xs)" "vals h (x # xs) = v # vs"
    by (auto simp: holds_def vals_def)
  then have "hd (vals h [x]) = v" "vals h xs = vs" by (auto simp: vals_def)
  with list_dequeue_ok [OF x(1)] show ?thesis by (auto simp: holds_def)
qed

interpretation klist: fifo_queue "holds l" "node_room l" "list_enqueue l" "list_dequeue l" for l
proof (unfold_locales, goal_cases)
  case (1 h vs node v)
  from holds_insert [OF this] show ?case by (auto simp: list_enqueue_def)
next
  case (2 h v vs)
  from holds_dequeue [OF this] show ?case by auto
qed

text \<open>C26: \<open>list_insert\<close> of a value into a list that holds \<open>vs\<close>, with a fresh node, succeeds;
  afterwards the list holds \<open>vs @ [v]\<close>, and every other list of the heap holds what it held.\<close>

theorem list_insert_appends:
  assumes "holds l h vs" "node_room l h node v"
  shows "\<exists>h'. list_insert l v node h = Inr (node, h') \<and> holds l h' (vs @ [v]) \<and>
           (\<forall>l' ws. l' \<noteq> l \<longrightarrow> holds l' h ws \<longrightarrow> holds l' h' ws)"
proof -
  from holds_insert [OF assms] obtain h' where h': "list_insert l v node h = Inr (node, h')"
      "holds l h' (vs @ [v])" "only_touches l h h'"
    by blast
  have "\<forall>l' ws. l' \<noteq> l \<longrightarrow> holds l' h ws \<longrightarrow> holds l' h' ws"
    using wf_list_frame [OF h'(3)] by (fastforce simp: holds_def)
  with h' show ?thesis by blast
qed

definition demo_heap :: lheap where
  "demo_heap = \<lparr>nodes = [10 \<mapsto> \<lparr>n_next = 20, n_prev = 0, n_value = 7, n_owner = 100\<rparr>,
                        20 \<mapsto> \<lparr>n_next = 0, n_prev = 10, n_value = 8, n_owner = 100\<rparr>],
                lsts = [100 \<mapsto> \<lparr>l_head = 10, l_tail = 20, l_length = 2\<rparr>]\<rparr>"

lemma demo_heap_wf: "wf_list demo_heap 100 xs \<longleftrightarrow> xs = [10, 20]"
proof
  assume "wf_list demo_heap 100 xs"
  then have "dseg (nodes demo_heap) 100 0 10 xs 0" by (simp add: wf_list_def demo_heap_def)
  then show "xs = [10, 20]"
    by (cases xs; cases "tl xs") (auto simp: demo_heap_def dest: dseg_end)
qed (simp add: wf_list_def demo_heap_def)

lemma demo_heap_holds: "holds 100 demo_heap vs \<longleftrightarrow> vs = [7, 8]"
proof -
  have "vals demo_heap [10, 20] = [7, 8]" by (simp add: vals_def demo_heap_def)
  then show ?thesis by (auto simp: holds_def demo_heap_wf)
qed

theorem list_insert_appends_witness:
  "\<exists>h'. list_insert 100 9 30 demo_heap = Inr (30, h') \<and> holds 100 h' [7, 8, 9]"
proof -
  have "node_room 100 demo_heap 30 9"
    by (simp add: node_room_def demo_heap_holds) (simp add: demo_heap_def)
  with list_insert_appends [of 100 demo_heap "[7, 8]" 30 9] demo_heap_holds show ?thesis by auto
qed

text \<open>\<open>list_remove\<close> terminates on every well-formed list, removes the first node that holds
  the value (nothing when there is none) and leaves the order of the others and every other
  list as they are.\<close>

lemma list_remove_first:
  assumes "holds l h vs"
  shows "\<exists>h'. list_remove l v h = Some (Inr h') \<and> holds l h' (remove1 v vs) \<and>
           (\<forall>l' ws. l' \<noteq> l \<longrightarrow> holds l' h ws \<longrightarrow> holds l' h' ws)"
proof -
  from assms obtain xs lst where xs: "wf_list h l xs" "vals h xs = vs" "lsts h l = Some lst"
      "dseg (nodes h) l 0 (l_head lst) xs 0"
    by (auto simp: holds_def wf_list_def split: option.splits)
  note find = list_find_ok [OF xs(4), of v]
  have "\<exists>h'. list_remove l v h = Some (Inr h') \<and> holds l h' (remove1 v vs) \<and> only_touches l h h'"
  proof (cases "v \<in> set vs")
    case True
    then obtain us ws where vs: "vs = us @ v # ws" "v \<notin> set us" by (meson split_list_first)
    from vals_split [OF xs(2) [unfolded vs(1)] vs(2)] obtain as x bs where
      sp: "xs = as @ x # bs" "vals h as = us" "vals h bs = ws"
        "dropWhile (\<lambda>a. hd (vals h [a]) \<noteq> v) xs = x # bs"
      by blast
    have "x \<noteq> 0" using xs(4) sp(1) by auto
    moreover from list_delete_free_ok xs(1) sp(1) obtain h' where
      "kbind (list_delete l x h) (free_node x) = Inr h'" "wf_list h' l (as @ bs)"
      "vals h' (as @ bs) = vals h (as @ bs)" "only_touches l h h'"
      by blast
    moreover from calculation sp have "holds l h' (us @ ws)" unfolding holds_def by fastforce
    ultimately show ?thesis
      using find sp vs xs(3) by (auto simp: list_remove_def ld_list_def remove1_append)
  next
    case False
    then have "dropWhile (\<lambda>a. hd (vals h [a]) \<noteq> v) xs = []" using vals_absent xs(2) by blast
    with False find xs show ?thesis
      by (auto simp: list_remove_def ld_list_def holds_def remove1_idem only_touches_def)
  qed
  then obtain h' where h': "list_remove l v h = Some (Inr h')" "holds l h' (remove1 v vs)"
      "only_touches l h h'"
    by blast
  moreover have "\<forall>l' ws. l' \<noteq> l \<longrightarrow> holds l' h ws \<longrightarrow> holds l' h' ws"
    using wf_list_frame [OF h'(3)] by (fastforce simp: holds_def)
  ultimately show ?thesis by blast
qed

end
