(* ===== verification/Sched.thy ===== *)
theory Sched
  imports Klist
begin

text \<open>
  The scheduler and the blocking primitives: src/kernel/task.c, the spin locks of
  src/kernel/arch/i686/atomic.c and the timer interrupt of src/kernel/pit.c.

  Tasks are objects of a heap; a \<open>task_queue_t\<close> is its two pointers, the links are the
  \<open>next_task\<close> fields. The queues are named by \<open>qid\<close>: the three global ones and \<open>BlockQ a\<close>, the
  queue inside the semaphore, mutex or process at address \<open>a\<close>. \<open>blocked_list\<close> is the HOL list
  that list.c represents (see \<open>Klist\<close>). \<open>ints\<close> is the interrupt flag of the CPU, and \<open>in_irq\<close>
  says that the kernel code now running was entered through an interrupt gate, so that its
  \<open>iret\<close> will set the flag again.

  A context switch happens only at the end of an operation, inside \<open>__schedule\<close>. What the CPU
  does when a task is switched to is recorded in the task (\<open>t_resume\<close>): \<open>Fresh\<close> starts the
  entry function, \<open>InCall\<close> returns through \<open>scheduler_unlock\<close> to the kernel code that called it,
  \<open>InIrq\<close> returns through \<open>scheduler_unlock\<close> and the interrupt handler to the interrupted code.
  So an operation of the model ends where the next task continues. Idling is a state:
  \<open>current_task\<close> is NULL and \<open>idle_of\<close> is the local variable \<open>task\<close> of the idle loop; \<open>idle_loop\<close>
  is what that loop does after each interrupt. Output of \<open>printf\<close> is left out.
\<close>

datatype task_type = TASK_TYPE_INVALID | TASK_TYPE_KTASK | TASK_TYPE_USER_PROCESS

datatype task_state =
    TASK_STATE_READY | TASK_STATE_BLOCKED | TASK_STATE_RUNNING | TASK_STATE_TERMINATED
  | TASK_STATE_WAITING | TASK_STATE_BLOCKED_LOCK

datatype resume = Fresh | InCall | InIrq

record task_t =
  t_type :: task_type
  t_obj :: addr
  t_kstack :: u32
  t_next :: addr
  t_state :: task_state
  t_wait :: u64
  t_resume :: resume

record task_queue_t =
  q_first :: addr
  q_last :: addr

datatype qid = ReadyQ | WaitQ | TerminatedQ | BlockQ addr

record sched =
  tasks :: "addr \<rightharpoonup> task_t"
  queues :: "qid \<Rightarrow> task_queue_t"
  current_task :: addr
  blocked_list :: "addr list"
  scheduler_ready :: bool
  scheduler_lock_count :: nat
  postponed_schedule :: bool
  enable_ints :: bool
  ints :: bool
  in_irq :: bool
  idle_of :: addr
  timer_ticks :: u64
  tss_esp0 :: u32
  sem_count :: "addr \<Rightarrow> u32"
  spin :: "addr \<Rightarrow> nat"
  mutex_word :: "addr \<Rightarrow> nat"
  locked_task :: "addr \<Rightarrow> addr"

definition ld_task :: "sched \<Rightarrow> addr \<Rightarrow> task_t res" where
  "ld_task s a = (case tasks s a of None \<Rightarrow> Inl MemFault | Some t \<Rightarrow> Inr t)"

definition upd_task :: "addr \<Rightarrow> (task_t \<Rightarrow> task_t) \<Rightarrow> sched \<Rightarrow> sched res" where
  "upd_task a f s = kbind (ld_task s a) (\<lambda>t. Inr (s\<lparr>tasks := (tasks s)(a \<mapsto> f t)\<rparr>))"

definition upd_queue :: "qid \<Rightarrow> (task_queue_t \<Rightarrow> task_queue_t) \<Rightarrow> sched \<Rightarrow> sched" where
  "upd_queue q f s = s\<lparr>queues := (queues s)(q := f (queues s q))\<rparr>"

definition assert_panic :: "bool \<Rightarrow> unit res" where
  "assert_panic b = (if b then Inr () else Inl Halted)"

definition assert_interrupts_disabled :: "sched \<Rightarrow> unit res" where
  "assert_interrupts_disabled s = assert_panic (\<not> ints s)"

definition task_queue :: "qid \<Rightarrow> addr \<Rightarrow> sched \<Rightarrow> sched res" where
  "task_queue q task s =
     kbind (assert_interrupts_disabled s) (\<lambda>_.
     kbind (kassert (task \<noteq> 0)) (\<lambda>_.
     kbind (ld_task s task) (\<lambda>t.
     kbind (kassert (t_next t = 0)) (\<lambda>_.
       if q_first (queues s q) = 0
       then kbind (kassert (q_last (queues s q) = 0)) (\<lambda>_.
            Inr (upd_queue q (\<lambda>_. \<lparr>q_first = task, q_last = task\<rparr>) s))
       else kbind (kassert (q_last (queues s q) \<noteq> 0)) (\<lambda>_.
            kbind (upd_task (q_last (queues s q)) (t_next_update (\<lambda>_. task)) s) (\<lambda>s.
            Inr (upd_queue q (q_last_update (\<lambda>_. task)) s)))))))"

definition task_dequeue :: "qid \<Rightarrow> sched \<Rightarrow> (addr \<times> sched) res" where
  "task_dequeue q s =
     kbind (assert_interrupts_disabled s) (\<lambda>_.
     let task = q_first (queues s q)
     in if task = 0 then Inr (0, s)
        else kbind (ld_task s task) (\<lambda>t.
             let s = upd_queue q (q_first_update (\<lambda>_. t_next t)) s
             in kbind (if t_next t = 0
                       then kbind (kassert (q_last (queues s q) = task)) (\<lambda>_.
                            Inr (upd_queue q (q_last_update (\<lambda>_. 0)) s))
                       else Inr s) (\<lambda>s.
                kbind (upd_task task (t_next_update (\<lambda>_. 0)) s) (\<lambda>s. Inr (task, s)))))"

text \<open>\<open>__restore_task\<close>: the CPU continues where \<open>task\<close> was left. A user process that starts
  gets the flags that \<open>process_execve\<close> put on its stack (0x200, interrupts enabled).\<close>

definition restore_task :: "addr \<Rightarrow> sched \<Rightarrow> sched res" where
  "restore_task task s =
     kbind (assert_interrupts_disabled s) (\<lambda>_.
     kbind (assert_panic (scheduler_lock_count s = 0)) (\<lambda>_.
     kbind (ld_task s task) (\<lambda>t.
     let s = s\<lparr>tss_esp0 := t_kstack t\<rparr>
     in case t_resume t of
          Fresh \<Rightarrow> kbind (upd_task task (t_resume_update (\<lambda>_. InCall)) s) (\<lambda>s.
                    Inr (s\<lparr>in_irq := False, ints := (t_type t = TASK_TYPE_USER_PROCESS)\<rparr>))
        | InCall \<Rightarrow> Inr (s\<lparr>in_irq := False\<rparr>)
        | InIrq \<Rightarrow> Inr (s\<lparr>in_irq := True\<rparr>))))"

definition switch_task :: "addr \<Rightarrow> sched \<Rightarrow> sched res" where
  "switch_task new_task s =
     kbind (assert_interrupts_disabled s) (\<lambda>_.
     kbind (assert_panic (current_task s \<noteq> 0)) (\<lambda>_.
     kbind (assert_panic (new_task \<noteq> 0)) (\<lambda>_.
     kbind (assert_panic (scheduler_lock_count s = 0)) (\<lambda>_.
     kbind (upd_task (current_task s)
              (t_resume_update (\<lambda>_. if in_irq s then InIrq else InCall)) s) (\<lambda>s.
     kbind (ld_task s new_task) (\<lambda>t.
     kbind (assert_panic (t_state t = TASK_STATE_RUNNING)) (\<lambda>_.
     restore_task new_task (s\<lparr>current_task := new_task\<rparr>))))))))"

text \<open>The tail of \<open>scheduler_unlock\<close>, and the return of an interrupt handler.\<close>

definition unlock_tail :: "sched \<Rightarrow> sched" where
  "unlock_tail s = (if enable_ints s then s\<lparr>enable_ints := False, ints := True\<rparr> else s)"

definition irq_exit :: "sched \<Rightarrow> sched" where
  "irq_exit s = (if in_irq s then s\<lparr>in_irq := False, ints := True\<rparr> else s)"

text \<open>
  \<open>__schedule\<close>. The result says how the kernel goes on: \<open>Kept\<close>, the same task returns to its
  caller; \<open>Switched\<close>, another task continues (its return through \<open>scheduler_unlock\<close> and an
  interrupt handler included); \<open>Idle\<close>, the idle loop waits. \<open>schedule_to\<close> is the part after the
  choice of the next task.
\<close>

datatype switched = Kept | Switched | Idle

definition finish_switch :: "bool \<Rightarrow> sched \<Rightarrow> sched" where
  "finish_switch fresh s = (if fresh then s else irq_exit (unlock_tail s))"

definition schedule_to :: "addr \<Rightarrow> sched \<Rightarrow> (switched \<times> sched) res" where
  "schedule_to next_task s =
     kbind (ld_task s (current_task s)) (\<lambda>cur.
     if current_task s \<noteq> next_task
     then kbind (ld_task s next_task) (\<lambda>nt.
          kbind (kassert (t_state nt = TASK_STATE_READY)) (\<lambda>_.
          if t_state cur = TASK_STATE_TERMINATED
          then kbind (upd_task next_task (t_state_update (\<lambda>_. TASK_STATE_RUNNING)) s) (\<lambda>s.
               kbind (restore_task next_task (s\<lparr>current_task := next_task\<rparr>)) (\<lambda>s.
               Inr (Switched, finish_switch (t_resume nt = Fresh) s)))
          else kbind (if t_state cur = TASK_STATE_RUNNING
                      then kbind (upd_task (current_task s) (t_state_update (\<lambda>_. TASK_STATE_READY)) s)
                             (task_queue ReadyQ (current_task s))
                      else Inr s) (\<lambda>s.
               kbind (upd_task next_task (t_state_update (\<lambda>_. TASK_STATE_RUNNING)) s) (\<lambda>s.
               kbind (switch_task next_task s) (\<lambda>s.
               Inr (Switched, finish_switch (t_resume nt = Fresh) s))))))
     else kbind (kassert (t_state cur = TASK_STATE_RUNNING)) (\<lambda>_. Inr (Kept, s)))"

definition schedule_now :: "sched \<Rightarrow> (switched \<times> sched) res" where
  "schedule_now s =
     kbind (assert_interrupts_disabled s) (\<lambda>_.
     kbind (assert_panic (scheduler_lock_count s = 0)) (\<lambda>_.
     kbind (kassert (current_task s \<noteq> 0)) (\<lambda>_.
     kbind (task_dequeue ReadyQ s) (\<lambda>(next_task, s).
       if next_task = 0
       then kbind (ld_task s (current_task s)) (\<lambda>cur.
            if t_state cur = TASK_STATE_RUNNING then schedule_to (current_task s) s
            else Inr (Idle, s\<lparr>idle_of := current_task s, current_task := 0,
                              scheduler_lock_count := scheduler_lock_count s + 1, ints := True\<rparr>))
       else schedule_to next_task s))))"

text \<open>The idle loop, from the return of \<open>hlt\<close> (an interrupt was served): either nothing is
  ready and it halts again, or \<open>__schedule\<close> goes on with the first ready task.\<close>

definition idle_loop :: "sched \<Rightarrow> sched res" where
  "idle_loop s =
     (let s = s\<lparr>ints := False\<rparr>
      in if q_first (queues s ReadyQ) = 0 then Inr (s\<lparr>ints := True\<rparr>)
         else let s = s\<lparr>postponed_schedule := False, current_task := idle_of s, idle_of := 0,
                        scheduler_lock_count := scheduler_lock_count s - 1\<rparr>
              in kbind (assert_panic (scheduler_lock_count s = 0)) (\<lambda>_.
                 kbind (task_dequeue ReadyQ s) (\<lambda>(next_task, s).
                 kbind (assert_panic (next_task \<noteq> 0)) (\<lambda>_.
                 kbind (if current_task s = next_task
                        then kbind (ld_task s next_task) (\<lambda>t.
                             kbind (kassert (t_state t = TASK_STATE_READY)) (\<lambda>_.
                             upd_task next_task (t_state_update (\<lambda>_. TASK_STATE_RUNNING)) s))
                        else Inr s) (\<lambda>s.
                 kbind (schedule_to next_task s) (\<lambda>(k, s).
                 Inr (if k = Kept then finish_switch False s else s)))))))"

definition scheduler_lock :: "sched \<Rightarrow> sched res" where
  "scheduler_lock s =
     (let s' = s\<lparr>ints := False\<rparr>
      in kbind (assert_panic (\<not> (scheduler_lock_count s = 0 \<and> postponed_schedule s))) (\<lambda>_.
         Inr (s'\<lparr>enable_ints := enable_ints s \<or> (scheduler_lock_count s = 0 \<and> ints s),
                 scheduler_lock_count := scheduler_lock_count s + 1\<rparr>)))"

definition scheduler_unlock :: "sched \<Rightarrow> sched res" where
  "scheduler_unlock s =
     kbind (assert_interrupts_disabled s) (\<lambda>_.
     kbind (assert_panic (scheduler_lock_count s \<noteq> 0)) (\<lambda>_.
     let s = s\<lparr>scheduler_lock_count := scheduler_lock_count s - 1\<rparr>
     in if scheduler_lock_count s = 0
        then if scheduler_ready s \<and> postponed_schedule s
             then kbind (schedule_now (s\<lparr>postponed_schedule := False\<rparr>)) (\<lambda>(k, s).
                  Inr (if k = Kept then unlock_tail s else s))
             else Inr (unlock_tail s)
        else Inr s))"

definition schedule :: "sched \<Rightarrow> sched res" where
  "schedule s =
     kbind (assert_interrupts_disabled s) (\<lambda>_.
     kbind (kassert (scheduler_lock_count s \<noteq> 0)) (\<lambda>_.
     kbind (kassert (scheduler_ready s)) (\<lambda>_.
     Inr (s\<lparr>postponed_schedule := True\<rparr>))))"

definition yield :: "sched \<Rightarrow> sched res" where
  "yield s = kbind (scheduler_lock s) (\<lambda>s. kbind (schedule s) scheduler_unlock)"

definition task_block_locked :: "qid \<Rightarrow> addr \<Rightarrow> task_state \<Rightarrow> sched \<Rightarrow> sched res" where
  "task_block_locked q task reason s =
     kbind (assert_panic (scheduler_lock_count s \<noteq> 0)) (\<lambda>_.
     kbind (assert_interrupts_disabled s) (\<lambda>_.
     kbind (assert_panic (task \<noteq> 0)) (\<lambda>_.
     kbind (upd_task task (t_state_update (\<lambda>_. reason)) s) (\<lambda>s.
     kbind (task_queue q task s) (\<lambda>s.
     Inr (s\<lparr>blocked_list := blocked_list s @ [task]\<rparr>))))))"

definition task_block :: "qid \<Rightarrow> task_state \<Rightarrow> sched \<Rightarrow> sched res" where
  "task_block q reason s =
     kbind (scheduler_lock s) (\<lambda>s.
     kbind (assert_panic (scheduler_lock_count s = 1)) (\<lambda>_.
     kbind (task_block_locked q (current_task s) reason s) (\<lambda>s.
     kbind (schedule s) scheduler_unlock)))"

definition task_unblock_locked :: "addr \<Rightarrow> sched \<Rightarrow> sched res" where
  "task_unblock_locked task s =
     kbind (assert_panic (scheduler_lock_count s \<noteq> 0)) (\<lambda>_.
     kbind (assert_interrupts_disabled s) (\<lambda>_.
     kbind (assert_panic (task \<noteq> 0)) (\<lambda>_.
     kbind (upd_task task (t_state_update (\<lambda>_. TASK_STATE_READY)) s) (\<lambda>s.
     kbind (task_queue ReadyQ task s) (\<lambda>s.
     Inr (s\<lparr>blocked_list := remove1 task (blocked_list s)\<rparr>))))))"

definition task_unblock_next :: "qid \<Rightarrow> sched \<Rightarrow> sched res" where
  "task_unblock_next q s =
     kbind (scheduler_lock s) (\<lambda>s.
     kbind (task_dequeue q s) (\<lambda>(task, s).
     kbind (if task \<noteq> 0 then kbind (task_unblock_locked task s) schedule else Inr s)
       scheduler_unlock))"

definition task_sleep_until :: "u64 \<Rightarrow> sched \<Rightarrow> sched res" where
  "task_sleep_until target s =
     (if target \<le> timer_ticks s then Inr s
      else kbind (scheduler_lock s) (\<lambda>s.
           kbind (assert_panic (scheduler_lock_count s = 1)) (\<lambda>_.
           kbind (assert_panic (current_task s \<noteq> 0)) (\<lambda>_.
           kbind (ld_task s (current_task s)) (\<lambda>t.
           kbind (assert_panic (t_state t = TASK_STATE_RUNNING)) (\<lambda>_.
           kbind (upd_task (current_task s)
                    (\<lambda>t. t\<lparr>t_state := TASK_STATE_WAITING, t_wait := target\<rparr>) s) (\<lambda>s.
           kbind (task_queue WaitQ (current_task s) s) (\<lambda>s.
           kbind (schedule s) scheduler_unlock))))))))"

definition task_sleep_miliseconds :: "u64 \<Rightarrow> sched \<Rightarrow> sched res" where
  "task_sleep_miliseconds time s =
     kbind (scheduler_lock s) (\<lambda>s.
     kbind (kassert (scheduler_lock_count s = 1)) (\<lambda>_.
     kbind (kassert (current_task s \<noteq> 0)) (\<lambda>_.
     kbind (upd_task (current_task s) (t_wait_update (\<lambda>_. timer_ticks s + time)) s) (\<lambda>s.
     kbind (task_block_locked WaitQ (current_task s) TASK_STATE_WAITING s) (\<lambda>s.
     kbind (schedule s) scheduler_unlock)))))"

text \<open>\<open>scheduler_wakeup\<close>. The loop follows the links of the old wait queue; \<open>None\<close> would be a
  cyclic queue.\<close>

definition wakeup_one :: "addr \<Rightarrow> task_t \<Rightarrow> sched \<Rightarrow> sched res" where
  "wakeup_one task t s =
     kbind (upd_task task (t_next_update (\<lambda>_. 0)) s) (\<lambda>s.
       if t_wait t \<le> timer_ticks s
       then kbind (upd_task task (t_wait_update (\<lambda>_. 0)) s) (task_unblock_locked task)
       else task_queue WaitQ task s)"

partial_function (option) wakeup_loop :: "addr \<Rightarrow> sched \<Rightarrow> sched res option" where
  "wakeup_loop task s =
     (if task = 0 then Some (Inr s)
      else case ld_task s task of
        Inl e \<Rightarrow> Some (Inl e)
      | Inr t \<Rightarrow> (case wakeup_one task t s of
                   Inl e \<Rightarrow> Some (Inl e)
                 | Inr s' \<Rightarrow> wakeup_loop (t_next t) s'))"

definition scheduler_wakeup :: "sched \<Rightarrow> sched res option" where
  "scheduler_wakeup s =
     (if \<not> scheduler_ready s then Some (Inr s)
      else case scheduler_lock s of
        Inl e \<Rightarrow> Some (Inl e)
      | Inr s \<Rightarrow>
          map_option (\<lambda>r. kbind r (\<lambda>s. kbind (schedule s) scheduler_unlock))
            (wakeup_loop (q_first (queues s WaitQ))
               (upd_queue WaitQ (\<lambda>_. \<lparr>q_first = 0, q_last = 0\<rparr>) s)))"

text \<open>\<open>irq0_handler\<close> (pit.c), from the interrupt gate (which clears the flag) to the \<open>iret\<close>.\<close>

definition irq0_handler :: "sched \<Rightarrow> sched res option" where
  "irq0_handler s =
     map_option (\<lambda>r. kbind r (\<lambda>s. Inr (irq_exit s)))
       (scheduler_wakeup (s\<lparr>ints := False, in_irq := True, timer_ticks := timer_ticks s + 1\<rparr>))"

definition spin_init :: "addr \<Rightarrow> sched \<Rightarrow> sched" where
  "spin_init l s = s\<lparr>spin := (spin s)(l := 0)\<rparr>"

definition spin_lock :: "addr \<Rightarrow> sched \<Rightarrow> sched res" where
  "spin_lock l s =
     kbind (scheduler_lock s) (\<lambda>s.
     kbind (kassert (spin s l = 0)) (\<lambda>_. Inr (s\<lparr>spin := (spin s)(l := 1)\<rparr>)))"

definition spin_unlock :: "addr \<Rightarrow> sched \<Rightarrow> sched res" where
  "spin_unlock l s =
     kbind (kassert (spin s l = 1)) (\<lambda>_. scheduler_unlock (s\<lparr>spin := (spin s)(l := 0)\<rparr>))"

definition semaphore_acquire :: "addr \<Rightarrow> sched \<Rightarrow> sched res" where
  "semaphore_acquire sem s =
     kbind (spin_lock sem s) (\<lambda>s.
     kbind (if 0 < sem_count s sem
            then Inr (s\<lparr>sem_count := (sem_count s)(sem := sem_count s sem - 1)\<rparr>)
            else kbind (scheduler_lock s) (\<lambda>s.
                 kbind (task_block_locked (BlockQ sem) (current_task s) TASK_STATE_BLOCKED_LOCK s) (\<lambda>s.
                 kbind (schedule s) scheduler_unlock))) (\<lambda>s.
     kbind (kassert (scheduler_lock_count s = 1)) (\<lambda>_. spin_unlock sem s)))"

definition semaphore_release :: "addr \<Rightarrow> sched \<Rightarrow> sched res" where
  "semaphore_release sem s =
     kbind (spin_lock sem s) (\<lambda>s.
     kbind (if q_first (queues s (BlockQ sem)) \<noteq> 0
            then kbind (scheduler_lock s) (\<lambda>s.
                 kbind (task_unblock_next (BlockQ sem) s) scheduler_unlock)
            else Inr (s\<lparr>sem_count := (sem_count s)(sem := sem_count s sem + 1)\<rparr>))
       (spin_unlock sem))"

text \<open>\<open>mutex_lock\<close>: when the lock is taken the task blocks, and \<open>mutex_acquired\<close>, the last two
  lines of the function, runs when the task is resumed; otherwise it runs at once.\<close>

definition mutex_acquired :: "addr \<Rightarrow> sched \<Rightarrow> sched res" where
  "mutex_acquired m s =
     kbind (kassert (locked_task s m = 0)) (\<lambda>_.
     Inr (s\<lparr>locked_task := (locked_task s)(m := current_task s)\<rparr>))"

definition mutex_lock :: "addr \<Rightarrow> sched \<Rightarrow> sched res" where
  "mutex_lock m s =
     (let prev = mutex_word s m; s = s\<lparr>mutex_word := (mutex_word s)(m := 1)\<rparr>
      in if prev \<noteq> 0
         then kbind (scheduler_lock s) (\<lambda>s.
              kbind (task_block_locked (BlockQ m) (current_task s) TASK_STATE_BLOCKED_LOCK s) (\<lambda>s.
              kbind (schedule s) scheduler_unlock))
         else mutex_acquired m s)"

definition mutex_unlock :: "addr \<Rightarrow> sched \<Rightarrow> sched res" where
  "mutex_unlock m s =
     (let prev = mutex_word s m; s = s\<lparr>mutex_word := (mutex_word s)(m := 1)\<rparr>
      in kbind (kassert (prev = 1)) (\<lambda>_.
         kbind (kassert (locked_task s m = current_task s)) (\<lambda>_.
         let s = s\<lparr>locked_task := (locked_task s)(m := 0)\<rparr>
         in if q_first (queues s (BlockQ m)) \<noteq> 0 then task_unblock_next (BlockQ m) s
            else Inr (s\<lparr>mutex_word := (mutex_word s)(m := 0)\<rparr>))))"

text \<open>\<open>_sleep\<close>: whether the loop \<open>while (target < timer_ticks)\<close> executes \<open>hlt\<close> at all.\<close>

definition sleep_halts :: "u64 \<Rightarrow> sched \<Rightarrow> bool" where
  "sleep_halts delta s = (delta + timer_ticks s < timer_ticks s)"

definition task_add :: "addr \<Rightarrow> sched \<Rightarrow> sched res" where
  "task_add task s =
     kbind (kassert (task \<noteq> 0)) (\<lambda>_.
     kbind (ld_task s task) (\<lambda>t.
     kbind (kassert (t_obj t \<noteq> 0)) (\<lambda>_.
     kbind (upd_task task (t_state_update (\<lambda>_. TASK_STATE_READY)) s) (\<lambda>s.
     kbind (scheduler_lock s) (\<lambda>s.
     kbind (task_queue ReadyQ task s) scheduler_unlock)))))"

definition task_exit :: "sched \<Rightarrow> (switched \<times> sched) res" where
  "task_exit s =
     kbind (kassert (scheduler_lock_count s = 1)) (\<lambda>_.
     kbind (ld_task s (current_task s)) (\<lambda>t.
     kbind (kassert (t_state t = TASK_STATE_RUNNING)) (\<lambda>_.
     kbind (upd_task (current_task s) (t_state_update (\<lambda>_. TASK_STATE_TERMINATED)) s) (\<lambda>s.
     schedule_now (s\<lparr>scheduler_lock_count := 0, postponed_schedule := False\<rparr>)))))"

definition tasking_enable :: "sched \<Rightarrow> sched res" where
  "tasking_enable s =
     (let s = s\<lparr>ints := False\<rparr>
      in kbind (kassert (\<not> scheduler_ready s)) (\<lambda>_.
         let s = s\<lparr>scheduler_ready := True\<rparr>
         in kbind (kassert (current_task s = 0)) (\<lambda>_.
            kbind (task_dequeue ReadyQ s) (\<lambda>(task, s).
            kbind (kassert (task \<noteq> 0)) (\<lambda>_.
            kbind (ld_task s task) (\<lambda>t.
            kbind (kassert (t_state t = TASK_STATE_READY)) (\<lambda>_.
            kbind (upd_task task (t_state_update (\<lambda>_. TASK_STATE_RUNNING)) s) (\<lambda>s.
            kbind (kassert (scheduler_lock_count s = 0)) (\<lambda>_.
            restore_task task (s\<lparr>current_task := task\<rparr>)))))))))) "

section \<open>Queues\<close>

fun qpath :: "(addr \<rightharpoonup> task_t) \<Rightarrow> addr \<Rightarrow> addr list \<Rightarrow> bool" where
  "qpath tk p [] = (p = 0)"
| "qpath tk p (x # xs) =
     (p = x \<and> x \<noteq> 0 \<and> (case tk x of None \<Rightarrow> False | Some t \<Rightarrow> qpath tk (t_next t) xs))"

definition queue_rep :: "(addr \<rightharpoonup> task_t) \<Rightarrow> task_queue_t \<Rightarrow> addr list \<Rightarrow> bool" where
  "queue_rep tk q xs \<longleftrightarrow> qpath tk (q_first q) xs \<and> q_last q = end_of 0 xs \<and> distinct xs"

text \<open>\<open>queues_rep tk qs Q\<close>: every queue \<open>q\<close> holds the tasks \<open>Q q\<close>, no task is in two queues, and
  the link of a task outside the queues is NULL.\<close>

definition queues_rep ::
  "(addr \<rightharpoonup> task_t) \<Rightarrow> (qid \<Rightarrow> task_queue_t) \<Rightarrow> (qid \<Rightarrow> addr list) \<Rightarrow> bool" where
  "queues_rep tk qs Q \<longleftrightarrow> tk 0 = None \<and> (\<forall>q. queue_rep tk (qs q) (Q q)) \<and>
     (\<forall>q q'. q \<noteq> q' \<longrightarrow> set (Q q) \<inter> set (Q q') = {}) \<and>
     (\<forall>a t. tk a = Some t \<longrightarrow> (\<forall>q. a \<notin> set (Q q)) \<longrightarrow> t_next t = 0)"

text \<open>What a queue operation leaves as it is: everything but the links and the queue heads.\<close>

definition tview :: "(addr \<rightharpoonup> task_t) \<Rightarrow> addr \<Rightarrow> task_t option" where
  "tview tk a = map_option (t_next_update (\<lambda>_. 0)) (tk a)"

definition only_links :: "sched \<Rightarrow> sched \<Rightarrow> bool" where
  "only_links s s' \<longleftrightarrow> tview (tasks s') = tview (tasks s) \<and>
     s'\<lparr>tasks := tasks s, queues := queues s\<rparr> = s"

lemmas task_defs = ld_task_def upd_task_def upd_queue_def assert_panic_def
  assert_interrupts_disabled_def

lemma qpath_cong:
  "(\<And>x. x \<in> set xs \<Longrightarrow> map_option t_next (tk x) = map_option t_next (tk' x)) \<Longrightarrow>
   qpath tk p xs = qpath tk' p xs"
proof (induction xs arbitrary: p)
  case (Cons x xs)
  have "map_option t_next (tk x) = map_option t_next (tk' x)" using Cons.prems by simp
  moreover have "qpath tk p xs = qpath tk' p xs" for p using Cons by simp
  ultimately show ?case by (cases "tk x"; cases "tk' x") auto
qed simp

lemma qpath_upd [simp]: "a \<notin> set xs \<Longrightarrow> qpath (tk(a := v)) p xs = qpath tk p xs"
  by (rule qpath_cong) auto

lemma qpath_in: "qpath tk p xs \<Longrightarrow> x \<in> set xs \<Longrightarrow> x \<noteq> 0 \<and> (\<exists>t. tk x = Some t)"
  by (induction xs arbitrary: p) (auto split: option.splits)

lemma qpath_null: "qpath tk p xs \<Longrightarrow> p = 0 \<longleftrightarrow> xs = []"
  by (cases xs) auto

lemma qpath_snoc:
  assumes "qpath tk p (xs @ [y])" "y \<notin> set xs" "tk y = Some t" "a \<notin> set (xs @ [y])"
    "tk a = Some u" "t_next u = 0" "a \<noteq> 0"
  shows "qpath (tk(y \<mapsto> t\<lparr>t_next := a\<rparr>)) p (xs @ [y, a])"
  using assms by (induction xs arbitrary: p) (auto split: option.splits)

lemma queues_repD:
  assumes "queues_rep tk qs Q"
  shows "tk 0 = None" "qpath tk (q_first (qs q)) (Q q)" "q_last (qs q) = end_of 0 (Q q)"
    "distinct (Q q)" "a \<in> set (Q q) \<Longrightarrow> a \<in> set (Q q') \<Longrightarrow> q = q'"
    "tk a = Some t \<Longrightarrow> (\<And>q. a \<notin> set (Q q)) \<Longrightarrow> t_next t = 0"
    "a \<in> set (Q q) \<Longrightarrow> \<exists>t. tk a = Some t"
proof -
  show "tk 0 = None" "qpath tk (q_first (qs q)) (Q q)" "q_last (qs q) = end_of 0 (Q q)"
    "distinct (Q q)" using assms by (auto simp: queues_rep_def queue_rep_def)
  then show "a \<in> set (Q q) \<Longrightarrow> \<exists>t. tk a = Some t" using qpath_in by blast
  show "a \<in> set (Q q) \<Longrightarrow> a \<in> set (Q q') \<Longrightarrow> q = q'" using assms unfolding queues_rep_def by blast
  show "tk a = Some t \<Longrightarrow> (\<And>q. a \<notin> set (Q q)) \<Longrightarrow> t_next t = 0"
    using assms unfolding queues_rep_def by blast
qed

text \<open>A change of the tasks that keeps every link keeps the queues.\<close>

lemma queues_rep_upd:
  assumes "queues_rep tk qs Q" "\<And>x. map_option t_next (tk' x) = map_option t_next (tk x)"
  shows "queues_rep tk' qs Q"
proof -
  have *: "map_option t_next (tk x) = map_option t_next (tk' x)" for x by (simp add: assms(2))
  have "qpath tk' p xs = qpath tk p xs" for p xs using qpath_cong [OF *] by auto
  moreover have "tk' 0 = None" using assms(2) [of 0] queues_repD(1) [OF assms(1)] by simp
  moreover have "\<exists>u. tk a = Some u \<and> t_next u = t_next t" if "tk' a = Some t" for a t
    using assms(2) [of a] that by (cases "tk a") auto
  ultimately show ?thesis using assms(1) unfolding queues_rep_def queue_rep_def by metis
qed

text \<open>Giving one queue new contents.\<close>

lemma queues_rep_change:
  assumes rep: "queues_rep tk qs Q" and "tk' 0 = None"
    and same: "\<And>q' a. q' \<noteq> q \<Longrightarrow> a \<in> set (Q q') \<Longrightarrow> tk' a = tk a"
    and h: "queue_rep tk' h xs"
    and sep: "\<And>q' a. q' \<noteq> q \<Longrightarrow> a \<in> set (Q q') \<Longrightarrow> a \<notin> set xs"
    and free: "\<And>a t. tk' a = Some t \<Longrightarrow> a \<notin> set xs \<Longrightarrow> (\<And>q'. q' \<noteq> q \<Longrightarrow> a \<notin> set (Q q')) \<Longrightarrow> t_next t = 0"
  shows "queues_rep tk' (qs(q := h)) (Q(q := xs))"
proof -
  have "queue_rep tk' (qs q') (Q q')" if "q' \<noteq> q" for q'
    using qpath_cong [of "Q q'" tk tk'] same [OF that] rep
    by (auto simp: queues_rep_def queue_rep_def)
  with h have "queue_rep tk' ((qs(q := h)) q') ((Q(q := xs)) q')" for q' by simp
  moreover have "set ((Q(q := xs)) q1) \<inter> set ((Q(q := xs)) q2) = {}" if "q1 \<noteq> q2" for q1 q2
    using that rep sep unfolding queues_rep_def by (auto; blast)
  moreover have "t_next t = 0" if "tk' a = Some t" "\<forall>q'. a \<notin> set ((Q(q := xs)) q')" for a t
    using free [OF that(1)] that(2) by (metis fun_upd_other fun_upd_same)
  ultimately show ?thesis using assms(2) unfolding queues_rep_def by blast
qed

lemma tview_upd [simp]: "tk a = Some t \<Longrightarrow> tview (tk(a \<mapsto> t\<lparr>t_next := n\<rparr>)) = tview tk"
  by (auto simp: tview_def)

lemma task_queue_ok:
  assumes rep: "queues_rep (tasks s) (queues s) Q" and "\<not> ints s" and t: "tasks s a = Some t"
    and fresh: "\<And>q. a \<notin> set (Q q)"
  shows "\<exists>s'. task_queue q a s = Inr s' \<and>
    queues_rep (tasks s') (queues s') (Q(q := Q q @ [a])) \<and> only_links s s'"
proof (cases "Q q" rule: rev_cases)
  case Nil
  note R = queues_repD [OF rep]
  have "a \<noteq> 0" using R(1) t by (cases a) auto
  moreover have tn: "t_next t = 0" using R(6) t fresh by blast
  moreover have "q_first (queues s q) = 0" "q_last (queues s q) = 0"
    using R(2,3) [of q] Nil by auto
  moreover have "t_next u = 0" if "tasks s x = Some u" "\<And>q'. q' \<noteq> q \<Longrightarrow> x \<notin> set (Q q')" for x u
    using R(6) [OF that(1)] that(2) Nil by (metis empty_iff empty_set)
  then have "queues_rep (tasks s) ((queues s)(q := \<lparr>q_first = a, q_last = a\<rparr>)) (Q(q := [a]))"
    using R(1) fresh t tn \<open>a \<noteq> 0\<close>
    by (intro queues_rep_change [OF rep]) (auto simp: queue_rep_def)
  ultimately show ?thesis using assms(2) t Nil
    by (simp add: task_queue_def task_defs only_links_def)
next
  case (snoc xs y)
  note R = queues_repD [OF rep]
  have a: "a \<noteq> 0" using R(1) t by (cases a) auto
  have at: "t_next t = 0" using R(6) t fresh by blast
  obtain u where u: "tasks s y = Some u" "y \<noteq> 0" using R(2) [of q] qpath_in snoc by fastforce
  have first: "q_first (queues s q) \<noteq> 0" using qpath_null [OF R(2) [of q]] snoc by simp
  have last: "q_last (queues s q) = y" using R(3) [of q] snoc by simp
  have y: "y \<notin> set xs" using R(4) [of q] snoc by simp
  have other: "y \<notin> set (Q q')" if "q' \<noteq> q" for q' using R(5) [of y q q'] that snoc by auto
  have ay: "a \<noteq> y \<and> a \<notin> set xs" using fresh [of q] snoc by auto
  have sep: "x \<notin> set xs" if "q' \<noteq> q" "x \<in> set (Q q')" for q' x
    using R(5) [of x q q'] that snoc by auto
  let ?tk = "(tasks s)(y \<mapsto> u\<lparr>t_next := a\<rparr>)"
  have "qpath ?tk (q_first (queues s q)) (xs @ [y, a])"
    using qpath_snoc [of "tasks s" _ xs y u a t] R(2) [of q] snoc y u t fresh [of q] a at by auto
  then have "queues_rep ?tk ((queues s)(q := (queues s q)\<lparr>q_last := a\<rparr>)) (Q(q := Q q @ [a]))"
    using R(1) R(4) [of q] u(2) other fresh y snoc ay sep
  proof (intro queues_rep_change [OF rep], goal_cases)
    case (5 x v)
    have "x \<notin> set (Q q')" for q' using "5"(8,12,13) by (cases "q' = q") auto
    moreover have "tasks s x = Some v" using 5 by (auto split: if_splits)
    ultimately show ?case using R(6) by blast
  qed (auto simp: queue_rep_def)
  then show ?thesis using a at t u first last assms(2)
    by (auto simp: task_queue_def task_defs only_links_def)
qed

lemma task_dequeue_empty:
  assumes "queues_rep (tasks s) (queues s) Q" "\<not> ints s" "Q q = []"
  shows "task_dequeue q s = Inr (0, s)"
  using queues_repD(2) [OF assms(1), of q] assms(2,3) by (simp add: task_dequeue_def task_defs)

text \<open>Taking the first task out of a queue.\<close>

lemma queues_rep_unlink:
  assumes rep: "queues_rep tk qs Q" and q: "Q q = a # xs" and ta: "tk a = Some t"
  shows "queues_rep (tk(a \<mapsto> t\<lparr>t_next := 0\<rparr>)) (qs(q := \<lparr>q_first = t_next t, q_last = end_of 0 xs\<rparr>)) (Q(q := xs))"
proof -
  note R = queues_repD [OF rep]
  have t: "a \<noteq> 0" "qpath tk (t_next t) xs" "a \<notin> set xs"
    using R(2,4) [of q] q ta by (auto split: option.splits)
  have other: "a \<notin> set (Q q')" if "q' \<noteq> q" for q' using R(5) [of a q q'] that q by auto
  show ?thesis
    using R(1) R(4) [of q] t other q
  proof (intro queues_rep_change [OF rep], goal_cases)
    case (4 q' x)
    then show ?case using R(5) [of x q q'] by auto
  next
    case (5 x v)
    show ?case
    proof (cases "x = a")
      case False
      have "x \<notin> set (Q q')" for q' using 5(7-10) False by (cases "q' = q") auto
      moreover have "tk x = Some v" using 5 False by simp
      ultimately show ?thesis using R(6) by blast
    qed (use 5 in auto)
  qed (auto simp: queue_rep_def)
qed

lemma task_dequeue_ok:
  assumes rep: "queues_rep (tasks s) (queues s) Q" and "\<not> ints s" and q: "Q q = a # xs"
  shows "\<exists>s'. task_dequeue q s = Inr (a, s') \<and>
    queues_rep (tasks s') (queues s') (Q(q := xs)) \<and> only_links s s'"
proof -
  note R = queues_repD [OF rep]
  obtain t where t: "tasks s a = Some t" "a \<noteq> 0" "q_first (queues s q) = a"
      "qpath (tasks s) (t_next t) xs"
    using R(2) [of q] q by (auto split: option.splits)
  have nxt: "t_next t = 0 \<longleftrightarrow> xs = []" using qpath_null [OF t(4)] .
  have "end_of 0 (Q q) = (if xs = [] then a else end_of 0 xs)" using q by (auto simp: end_of_def)
  then show ?thesis using t nxt R(3) [of q] assms(2) queues_rep_unlink [OF rep q t(1)]
    by (cases "queues s q") (auto simp: task_dequeue_def task_defs only_links_def Let_def)
qed

text \<open>The task queue \<open>q\<close> is a FIFO queue in the sense of \<open>fifo_queue\<close>, like the list of list.c.\<close>

definition q_holds :: "qid \<Rightarrow> sched \<Rightarrow> addr list \<Rightarrow> bool" where
  "q_holds q s xs \<longleftrightarrow> \<not> ints s \<and> (\<exists>Q. queues_rep (tasks s) (queues s) Q \<and> Q q = xs)"

definition q_room :: "sched \<Rightarrow> unit \<Rightarrow> addr \<Rightarrow> bool" where
  "q_room s u a \<longleftrightarrow> tasks s a \<noteq> None \<and>
     (\<forall>Q q. queues_rep (tasks s) (queues s) Q \<longrightarrow> a \<notin> set (Q q))"

lemma only_links_simps:
  assumes "only_links s s'"
  shows "ints s' = ints s" "current_task s' = current_task s" "blocked_list s' = blocked_list s"
    "scheduler_ready s' = scheduler_ready s" "scheduler_lock_count s' = scheduler_lock_count s"
    "postponed_schedule s' = postponed_schedule s" "enable_ints s' = enable_ints s"
    "in_irq s' = in_irq s" "idle_of s' = idle_of s" "timer_ticks s' = timer_ticks s"
    "tss_esp0 s' = tss_esp0 s" "sem_count s' = sem_count s" "spin s' = spin s"
    "mutex_word s' = mutex_word s" "locked_task s' = locked_task s"
  using assms by (cases s, cases s'; auto simp: only_links_def)+

interpretation taskq: fifo_queue "q_holds q" q_room "\<lambda>_. task_queue q" "task_dequeue q" for q
proof unfold_locales
  fix s vs x v
  assume h: "q_holds q s vs" and r: "q_room s x v"
  from h obtain Q where Q: "queues_rep (tasks s) (queues s) Q" "Q q = vs" "\<not> ints s"
    by (auto simp: q_holds_def)
  from r Q(1) obtain t where t: "tasks s v = Some t" "\<And>q. v \<notin> set (Q q)" by (auto simp: q_room_def)
  from task_queue_ok [OF Q(1,3) t, of q] obtain s' where
    s': "task_queue q v s = Inr s'" "queues_rep (tasks s') (queues s') (Q(q := Q q @ [v]))" "only_links s s'"
    by blast
  have "(Q(q := Q q @ [v])) q = vs @ [v]" using Q(2) by simp
  with s' Q(3) only_links_simps(1) [OF s'(3)] show "\<exists>s'. task_queue q v s = Inr s' \<and> q_holds q s' (vs @ [v])"
    unfolding q_holds_def by metis
next
  fix s v vs
  assume "q_holds q s (v # vs)"
  then obtain Q where Q: "queues_rep (tasks s) (queues s) Q" "Q q = v # vs" "\<not> ints s"
    by (auto simp: q_holds_def)
  from task_dequeue_ok [OF Q(1,3,2)] obtain s' where
    s': "task_dequeue q s = Inr (v, s')" "queues_rep (tasks s') (queues s') (Q(q := vs))" "only_links s s'"
    by blast
  have "(Q(q := vs)) q = vs" by simp
  with s' Q(3) only_links_simps(1) [OF s'(3)] show "\<exists>s'. task_dequeue q s = Inr (v, s') \<and> q_holds q s' vs"
    unfolding q_holds_def by metis
qed

end
