(* ===== verification/Sched_Inv.thy ===== *)
theory Sched_Inv
  imports Sched
begin

text \<open>
  The invariant of the scheduler and the refinement of its operations. The abstract state is
  the running task (\<open>0\<close> while idling) with the contents \<open>Q\<close> of all queues, and \<open>reschedule\<close> is
  the abstract round-robin choice. \<open>rest s Q\<close> is the invariant between two operations: the
  pointer queues represent \<open>Q\<close>, the state of every queued task fits its queue, only the
  current task is RUNNING, no lock is held. Each operation is shown to return (no assertion
  fails), to keep \<open>rest\<close> and to act on the abstract state as its specification does.
\<close>

definition tstate :: "(addr \<rightharpoonup> task_t) \<Rightarrow> addr \<Rightarrow> task_state option" where
  "tstate tk a = map_option t_state (tk a)"

definition payload :: "(addr \<rightharpoonup> task_t) \<Rightarrow> addr \<Rightarrow> (task_type \<times> addr \<times> u32 \<times> u64) option" where
  "payload tk a = map_option (\<lambda>t. (t_type t, t_obj t, t_kstack t, t_wait t)) (tk a)"

fun state_in :: "qid \<Rightarrow> task_state \<Rightarrow> bool" where
  "state_in ReadyQ u = (u = TASK_STATE_READY)"
| "state_in WaitQ u = (u = TASK_STATE_WAITING)"
| "state_in TerminatedQ u = False"
| "state_in (BlockQ a) u = (u = TASK_STATE_BLOCKED \<or> u = TASK_STATE_BLOCKED_LOCK)"

definition states_ok :: "(addr \<Rightarrow> task_state option) \<Rightarrow> addr \<Rightarrow> (qid \<Rightarrow> addr list) \<Rightarrow> bool" where
  "states_ok st cur Q \<longleftrightarrow> (\<forall>q. \<forall>a \<in> set (Q q). \<exists>u. st a = Some u \<and> state_in q u) \<and>
     (\<forall>a. st a = Some TASK_STATE_RUNNING \<longrightarrow> a = cur)"

text \<open>\<open>blocked_list\<close> has every task that waits for a lock, and sleeping tasks at most besides.\<close>

fun blocks :: "qid \<Rightarrow> bool" where
  "blocks WaitQ = True"
| "blocks (BlockQ a) = True"
| "blocks q = False"

definition blocked_ok :: "addr list \<Rightarrow> (qid \<Rightarrow> addr list) \<Rightarrow> bool" where
  "blocked_ok bl Q \<longleftrightarrow> distinct bl \<and> (\<forall>b. \<forall>a \<in> set (Q (BlockQ b)). a \<in> set bl) \<and>
     (\<forall>a \<in> set bl. \<exists>q. blocks q \<and> a \<in> set (Q q))"

definition sched_wf :: "sched \<Rightarrow> (qid \<Rightarrow> addr list) \<Rightarrow> bool" where
  "sched_wf s Q \<longleftrightarrow> queues_rep (tasks s) (queues s) Q \<and>
     states_ok (tstate (tasks s)) (current_task s) Q \<and> blocked_ok (blocked_list s) Q \<and>
     scheduler_ready s"

definition cur_state :: "sched \<Rightarrow> task_state option" where
  "cur_state s = tstate (tasks s) (current_task s)"

definition rest :: "sched \<Rightarrow> (qid \<Rightarrow> addr list) \<Rightarrow> bool" where
  "rest s Q \<longleftrightarrow> sched_wf s Q \<and> (\<forall>l. spin s l = 0) \<and> \<not> in_irq s \<and>
     (if current_task s \<noteq> 0
      then scheduler_lock_count s = 0 \<and> \<not> postponed_schedule s \<and>
           cur_state s = Some TASK_STATE_RUNNING
      else scheduler_lock_count s = 1 \<and> ints s \<and> tasks s (idle_of s) \<noteq> None)"

text \<open>The abstract scheduler.\<close>

type_synonym view = "addr \<times> (qid \<Rightarrow> addr list)"

definition reschedule :: "bool \<Rightarrow> view \<Rightarrow> view" where
  "reschedule run v = (case v of (cur, Q) \<Rightarrow>
     (case Q ReadyQ of
        [] \<Rightarrow> (if run then cur else 0, Q)
      | x # xs \<Rightarrow> (x, Q(ReadyQ := if run then xs @ [cur] else xs))))"

definition spec_block :: "qid \<Rightarrow> view \<Rightarrow> view" where
  "spec_block q v = (case v of (cur, Q) \<Rightarrow> reschedule False (cur, Q(q := Q q @ [cur])))"

definition spec_unblock_next :: "qid \<Rightarrow> view \<Rightarrow> view" where
  "spec_unblock_next q v = (case v of (cur, Q) \<Rightarrow>
     (case Q q of
        [] \<Rightarrow> v
      | x # xs \<Rightarrow> reschedule True (cur, (Q(q := xs))(ReadyQ := Q ReadyQ @ [x]))))"

definition spec_wakeup :: "(addr \<Rightarrow> bool) \<Rightarrow> (qid \<Rightarrow> addr list) \<Rightarrow> (qid \<Rightarrow> addr list)" where
  "spec_wakeup due Q = Q(WaitQ := filter (\<lambda>a. \<not> due a) (Q WaitQ),
                         ReadyQ := Q ReadyQ @ filter due (Q WaitQ))"

text \<open>What a context switch changes: the saved contexts, the stack pointer of the TSS and the
  interrupt state.\<close>

definition ctx_only :: "sched \<Rightarrow> sched \<Rightarrow> bool" where
  "ctx_only s s' \<longleftrightarrow>
     (\<forall>a. map_option (t_resume_update (\<lambda>_. Fresh)) (tasks s' a) =
          map_option (t_resume_update (\<lambda>_. Fresh)) (tasks s a)) \<and>
     s'\<lparr>tasks := tasks s, tss_esp0 := tss_esp0 s, in_irq := in_irq s, ints := ints s,
       enable_ints := enable_ints s\<rparr> = s"

definition same_env :: "sched \<Rightarrow> sched \<Rightarrow> bool" where
  "same_env s s' \<longleftrightarrow> payload (tasks s') = payload (tasks s) \<and> timer_ticks s' = timer_ticks s \<and>
     sem_count s' = sem_count s \<and> mutex_word s' = mutex_word s \<and>
     locked_task s' = locked_task s"

lemma tstate_upd [simp]: "tstate (tk(a \<mapsto> t)) = (tstate tk)(a \<mapsto> t_state t)"
  by (auto simp: tstate_def)

lemma tstate_Some: "tstate tk a = Some u \<longleftrightarrow> (\<exists>t. tk a = Some t \<and> t_state t = u)"
  by (auto simp: tstate_def)

lemma payload_upd:
  "tk a = Some t \<Longrightarrow> (t_type t', t_obj t', t_kstack t', t_wait t') = (t_type t, t_obj t, t_kstack t, t_wait t)
   \<Longrightarrow> payload (tk(a \<mapsto> t')) = payload tk"
  by (auto simp: payload_def)

lemma upd_task_ok: "tasks s a = Some t \<Longrightarrow> upd_task a f s = Inr (s\<lparr>tasks := (tasks s)(a \<mapsto> f t)\<rparr>)"
  by (simp add: task_defs)

lemma queues_rep_state [simp]:
  "queues_rep tk qs Q \<Longrightarrow> tk a = Some t \<Longrightarrow> t_next t' = t_next t \<Longrightarrow> queues_rep (tk(a \<mapsto> t')) qs Q"
  by (erule queues_rep_upd) auto

lemma tview_agree:
  assumes "tview tk' = tview tk" "\<And>t n. g (t\<lparr>t_next := n\<rparr>) = g t"
  shows "map_option g (tk' a) = map_option g (tk a)"
proof -
  have "map_option g (tview k a) = map_option g (k a)" for k
    using assms(2) by (simp add: tview_def option.map_comp comp_def)
  then show ?thesis using assms(1) by metis
qed

lemma ctx_agree:
  assumes "ctx_only s s'" "\<And>t n. g (t\<lparr>t_resume := n\<rparr>) = g t"
  shows "map_option g (tasks s' a) = map_option g (tasks s a)"
proof -
  have "map_option (t_resume_update (\<lambda>_. Fresh)) (tasks s' a) =
        map_option (t_resume_update (\<lambda>_. Fresh)) (tasks s a)"
    using assms(1) by (simp add: ctx_only_def)
  then have "map_option g (map_option (t_resume_update (\<lambda>_. Fresh)) (tasks s' a)) =
        map_option g (map_option (t_resume_update (\<lambda>_. Fresh)) (tasks s a))" by simp
  then show ?thesis using assms(2) by (simp add: option.map_comp comp_def)
qed

lemma only_links_tasks:
  assumes "only_links s s'"
  shows "tstate (tasks s') = tstate (tasks s)" "payload (tasks s') = payload (tasks s)"
  using assms by (auto simp: only_links_def tstate_def payload_def fun_eq_iff intro!: tview_agree)

lemma ctx_only_tasks:
  assumes "ctx_only s s'"
  shows "tstate (tasks s') = tstate (tasks s)" "payload (tasks s') = payload (tasks s)"
    "queues_rep (tasks s) (queues s) Q \<Longrightarrow> queues_rep (tasks s') (queues s') Q"
proof -
  show "tstate (tasks s') = tstate (tasks s)" "payload (tasks s') = payload (tasks s)"
    by (auto simp: tstate_def payload_def fun_eq_iff intro!: ctx_agree [OF assms])
  have "queues s' = queues s" using assms by (cases s, cases s') (simp add: ctx_only_def)
  then show "queues_rep (tasks s) (queues s) Q \<Longrightarrow> queues_rep (tasks s') (queues s') Q"
    using queues_rep_upd [of "tasks s" "queues s" Q "tasks s'"] ctx_agree [OF assms, of t_next] by simp
qed

lemma ctx_only_simps:
  assumes "ctx_only s s'"
  shows "current_task s' = current_task s" "blocked_list s' = blocked_list s"
    "scheduler_ready s' = scheduler_ready s" "scheduler_lock_count s' = scheduler_lock_count s"
    "postponed_schedule s' = postponed_schedule s" "idle_of s' = idle_of s"
    "timer_ticks s' = timer_ticks s" "sem_count s' = sem_count s" "spin s' = spin s"
    "mutex_word s' = mutex_word s" "locked_task s' = locked_task s"
  using assms by (cases s, cases s'; auto simp: ctx_only_def)+

lemma ctx_only_trans: "ctx_only s s' \<Longrightarrow> ctx_only s' s'' \<Longrightarrow> ctx_only s s''"
  by (cases s, cases s', cases s'') (auto simp: ctx_only_def)

lemma restore_task_ok:
  assumes "\<not> ints s" "scheduler_lock_count s = 0" "tasks s a = Some t"
  shows "\<exists>s'. restore_task a s = Inr s' \<and> ctx_only s s' \<and> (t_resume t = Fresh \<longrightarrow> \<not> in_irq s')"
  using assms
  by (cases "t_resume t"; cases s; auto simp: restore_task_def task_defs ctx_only_def Let_def)

lemma finish_switch_ctx: "ctx_only s (finish_switch fresh s)"
  by (cases s) (simp add: ctx_only_def finish_switch_def irq_exit_def unlock_tail_def)

lemma finish_switch_irq: "(fresh \<longrightarrow> \<not> in_irq s) \<Longrightarrow> \<not> in_irq (finish_switch fresh s)"
  by (simp add: finish_switch_def irq_exit_def unlock_tail_def)

lemma switch_task_ok:
  assumes "\<not> ints s" "scheduler_lock_count s = 0" "current_task s \<noteq> 0" "tasks s (current_task s) = Some c"
    "a \<noteq> 0" "a \<noteq> current_task s" "tasks s a = Some t" "t_state t = TASK_STATE_RUNNING"
  shows "\<exists>s'. switch_task a s = Inr s' \<and> ctx_only (s\<lparr>current_task := a\<rparr>) s' \<and>
    (t_resume t = Fresh \<longrightarrow> \<not> in_irq s')"
proof -
  let ?r = "if in_irq s then InIrq else InCall"
  let ?s = "s\<lparr>tasks := (tasks s)(current_task s \<mapsto> c\<lparr>t_resume := ?r\<rparr>), current_task := a\<rparr>"
  have c: "ctx_only (s\<lparr>current_task := a\<rparr>) ?s"
    using assms(4) by (cases s) (simp add: ctx_only_def)
  obtain s' where s': "restore_task a ?s = Inr s'" "ctx_only ?s s'" "t_resume t = Fresh \<longrightarrow> \<not> in_irq s'"
    using restore_task_ok [of ?s a t] assms by auto
  have "switch_task a s = restore_task a ?s"
    using assms by (simp add: switch_task_def task_defs)
  then show ?thesis using s'(1,3) ctx_only_trans [OF c s'(2)] by (intro exI [of _ s']) simp
qed

text \<open>\<open>switch_frame\<close>: only what a context switch may change differs, and \<open>switched_to x Q\<close>:
  task \<open>x\<close> now runs, with the queues \<open>Q\<close>.\<close>

definition switch_frame :: "sched \<Rightarrow> sched \<Rightarrow> bool" where
  "switch_frame s s' \<longleftrightarrow> payload (tasks s') = payload (tasks s) \<and>
     s'\<lparr>tasks := tasks s, queues := queues s, current_task := current_task s, in_irq := in_irq s,
       ints := ints s, enable_ints := enable_ints s, tss_esp0 := tss_esp0 s\<rparr> = s"

definition switched_to :: "addr \<Rightarrow> (qid \<Rightarrow> addr list) \<Rightarrow> sched \<Rightarrow> sched \<Rightarrow> bool" where
  "switched_to x Q s s' \<longleftrightarrow> current_task s' = x \<and> \<not> in_irq s' \<and> queues_rep (tasks s') (queues s') Q \<and>
     tstate (tasks s') = (tstate (tasks s))(x \<mapsto> TASK_STATE_RUNNING) \<and> switch_frame s s'"

lemma switch_frame_simps:
  assumes "switch_frame s s'"
  shows "payload (tasks s') = payload (tasks s)" "blocked_list s' = blocked_list s"
    "scheduler_ready s' = scheduler_ready s" "scheduler_lock_count s' = scheduler_lock_count s"
    "postponed_schedule s' = postponed_schedule s" "idle_of s' = idle_of s"
    "timer_ticks s' = timer_ticks s" "sem_count s' = sem_count s" "spin s' = spin s"
    "mutex_word s' = mutex_word s" "locked_task s' = locked_task s"
  using assms by (cases s, cases s'; auto simp: switch_frame_def)+

lemma switch_frame_trans: "switch_frame s s' \<Longrightarrow> switch_frame s' s'' \<Longrightarrow> switch_frame s s''"
  by (cases s, cases s', cases s'') (auto simp: switch_frame_def)

lemma switch_frame_links: "only_links s s' \<Longrightarrow> switch_frame s s'"
  using only_links_tasks(2) [of s s'] by (cases s, cases s') (auto simp: switch_frame_def only_links_def)

lemma switch_frame_ctx: "ctx_only (s\<lparr>current_task := a\<rparr>) s' \<Longrightarrow> switch_frame s s'"
  using ctx_only_tasks(2) [of "s\<lparr>current_task := a\<rparr>" s']
  by (cases s, cases s') (auto simp: switch_frame_def ctx_only_def)

lemma switch_frame_state:
  "tasks s a = Some t \<Longrightarrow> switch_frame s (s\<lparr>tasks := (tasks s)(a \<mapsto> t\<lparr>t_state := u\<rparr>)\<rparr>)"
  by (cases s) (auto simp: switch_frame_def payload_def)

lemma switched_toI:
  assumes rep: "queues_rep (tasks s) (queues s) Q" and t: "tasks s x = Some t"
    and c: "ctx_only (s\<lparr>tasks := (tasks s)(x \<mapsto> t\<lparr>t_state := TASK_STATE_RUNNING\<rparr>), current_task := x\<rparr>) s'"
    and i: "t_resume t = Fresh \<longrightarrow> \<not> in_irq s'"
  shows "switched_to x Q s (finish_switch (t_resume t = Fresh) s')"
proof -
  let ?s = "s\<lparr>tasks := (tasks s)(x \<mapsto> t\<lparr>t_state := TASK_STATE_RUNNING\<rparr>)\<rparr>"
  have c': "ctx_only (?s\<lparr>current_task := x\<rparr>) (finish_switch (t_resume t = Fresh) s')"
    using ctx_only_trans [OF c finish_switch_ctx] by simp
  have "switch_frame s (finish_switch (t_resume t = Fresh) s')"
    using switch_frame_trans [OF switch_frame_state [OF t] switch_frame_ctx [OF c']] .
  moreover have "queues_rep (tasks (?s\<lparr>current_task := x\<rparr>)) (queues (?s\<lparr>current_task := x\<rparr>)) Q"
    using rep t by simp
  from ctx_only_tasks(3) [OF c' this]
  have "queues_rep (tasks (finish_switch (t_resume t = Fresh) s'))
    (queues (finish_switch (t_resume t = Fresh) s')) Q" .
  ultimately show ?thesis
    using ctx_only_tasks(1) [OF c'] ctx_only_simps(1) [OF c'] finish_switch_irq [OF i]
    by (simp add: switched_to_def)
qed

lemma switch_into_ok:
  assumes rep: "queues_rep (tasks s) (queues s) Q" and t: "tasks s x = Some t"
    and "x \<noteq> current_task s" "tasks s (current_task s) = Some c" "\<not> ints s" "scheduler_lock_count s = 0"
  shows "\<exists>s'. kbind (upd_task x (t_state_update (\<lambda>_. TASK_STATE_RUNNING)) s) (switch_task x) = Inr s' \<and>
    switched_to x Q s (finish_switch (t_resume t = Fresh) s')"
proof -
  let ?s = "s\<lparr>tasks := (tasks s)(x \<mapsto> t\<lparr>t_state := TASK_STATE_RUNNING\<rparr>)\<rparr>"
  have nz: "current_task s \<noteq> 0" "x \<noteq> 0" using queues_repD(1) [OF rep] assms by (metis option.distinct(1))+
  obtain s' where "switch_task x ?s = Inr s'" "ctx_only (?s\<lparr>current_task := x\<rparr>) s'"
      "t_resume t = Fresh \<longrightarrow> \<not> in_irq s'"
    using switch_task_ok [of ?s c x "t\<lparr>t_state := TASK_STATE_RUNNING\<rparr>"] assms nz by auto
  then show ?thesis using switched_toI [OF rep t] upd_task_ok [OF t] by auto
qed

lemma switch_exit_ok:
  assumes rep: "queues_rep (tasks s) (queues s) Q" and t: "tasks s x = Some t"
    and "\<not> ints s" "scheduler_lock_count s = 0"
  shows "\<exists>s'. kbind (upd_task x (t_state_update (\<lambda>_. TASK_STATE_RUNNING)) s)
      (\<lambda>s. restore_task x (s\<lparr>current_task := x\<rparr>)) = Inr s' \<and>
    switched_to x Q s (finish_switch (t_resume t = Fresh) s')"
proof -
  let ?s = "s\<lparr>tasks := (tasks s)(x \<mapsto> t\<lparr>t_state := TASK_STATE_RUNNING\<rparr>), current_task := x\<rparr>"
  obtain s' where "restore_task x ?s = Inr s'" "ctx_only ?s s'" "t_resume t = Fresh \<longrightarrow> \<not> in_irq s'"
    using restore_task_ok [of ?s x "t\<lparr>t_state := TASK_STATE_RUNNING\<rparr>"] assms by auto
  then show ?thesis using switched_toI [OF rep t] upd_task_ok [OF t] by auto
qed

text \<open>The context switch of \<open>__schedule\<close> to a task \<open>x\<close> just taken from the ready queue.\<close>

lemma running_not_queued:
  assumes "states_ok st cur Q" "st a = Some TASK_STATE_RUNNING"
  shows "a \<notin> set (Q q)"
proof
  assume "a \<in> set (Q q)"
  then have "state_in q TASK_STATE_RUNNING" using assms unfolding states_ok_def by force
  then show False by (cases q) auto
qed

lemma schedule_to_ok:
  assumes rep: "queues_rep (tasks s) (queues s) Q" and st: "states_ok (tstate (tasks s)) (current_task s) Q"
    and x: "tstate (tasks s) x = Some TASK_STATE_READY" "\<And>q. x \<notin> set (Q q)" "x \<noteq> current_task s"
    and c: "tasks s (current_task s) = Some c"
    and l: "\<not> ints s" "scheduler_lock_count s = 0"
  shows "\<exists>s'. schedule_to x s = Inr (Switched, s') \<and> current_task s' = x \<and> \<not> in_irq s' \<and>
    queues_rep (tasks s') (queues s')
      (if t_state c = TASK_STATE_RUNNING then Q(ReadyQ := Q ReadyQ @ [current_task s]) else Q) \<and>
    tstate (tasks s') =
      (if t_state c = TASK_STATE_RUNNING then (tstate (tasks s))(current_task s \<mapsto> TASK_STATE_READY)
       else tstate (tasks s))(x \<mapsto> TASK_STATE_RUNNING) \<and> switch_frame s s'"
proof -
  obtain xt where xt: "tasks s x = Some xt" "t_state xt = TASK_STATE_READY"
    using x(1) by (auto simp: tstate_Some)
  consider (running) "t_state c = TASK_STATE_RUNNING" | (terminated) "t_state c = TASK_STATE_TERMINATED"
    | (blocked) "t_state c \<noteq> TASK_STATE_RUNNING" "t_state c \<noteq> TASK_STATE_TERMINATED" by blast
  then show ?thesis
  proof cases
    case running
    have cq: "current_task s \<notin> set (Q q)" for q
      using running_not_queued [OF st] c running by (simp add: tstate_def)
    let ?c = "c\<lparr>t_state := TASK_STATE_READY\<rparr>"
    let ?s1 = "s\<lparr>tasks := (tasks s)(current_task s \<mapsto> ?c)\<rparr>"
    have "queues_rep (tasks ?s1) (queues ?s1) Q" using rep c by simp
    then obtain s2 where s2: "task_queue ReadyQ (current_task s) ?s1 = Inr s2"
        "queues_rep (tasks s2) (queues s2) (Q(ReadyQ := Q ReadyQ @ [current_task s]))" "only_links ?s1 s2"
      using task_queue_ok [of ?s1 Q "current_task s" ?c ReadyQ] cq l by auto
    note L = only_links_simps [OF s2(3)] and T = only_links_tasks [OF s2(3)]
    obtain xt2 where xt2: "tasks s2 x = Some xt2" "t_resume xt2 = t_resume xt"
      using tview_agree [of "tasks s2" "tasks ?s1" t_resume x] s2(3) xt x(3) by (auto simp: only_links_def)
    have "tstate (tasks s2) (current_task s) = Some TASK_STATE_READY" using T(1) by simp
    then obtain c2 where c2: "tasks s2 (current_task s) = Some c2" by (auto simp: tstate_Some)
    from switch_into_ok [OF s2(2) xt2(1), of c2] obtain s3 where
      s3: "kbind (upd_task x (t_state_update (\<lambda>_. TASK_STATE_RUNNING)) s2) (switch_task x) = Inr s3"
        "switched_to x (Q(ReadyQ := Q ReadyQ @ [current_task s])) s2 (finish_switch (t_resume xt = Fresh) s3)"
      using L x(3) c2 l xt2(2) by auto
    have "switch_frame s (finish_switch (t_resume xt = Fresh) s3)"
      using switch_frame_trans [OF switch_frame_trans [OF switch_frame_state [OF c] switch_frame_links [OF s2(3)]]]
        s3(2) by (simp add: switched_to_def)
    moreover have "schedule_to x s = Inr (Switched, finish_switch (t_resume xt = Fresh) s3)"
      using running c xt x(3) s2(1) s3(1) upd_task_ok [OF c] by (auto simp: schedule_to_def ld_task_def)
    ultimately show ?thesis using s3(2) T(1) running by (auto simp: switched_to_def)
  next
    case terminated
    from switch_exit_ok [OF rep xt(1) l] obtain s3 where
      s3: "kbind (upd_task x (t_state_update (\<lambda>_. TASK_STATE_RUNNING)) s)
             (\<lambda>s. restore_task x (s\<lparr>current_task := x\<rparr>)) = Inr s3"
        "switched_to x Q s (finish_switch (t_resume xt = Fresh) s3)" by blast
    have "schedule_to x s = Inr (Switched, finish_switch (t_resume xt = Fresh) s3)"
      using terminated c xt x(3) s3(1) by (auto simp: schedule_to_def ld_task_def)
    then show ?thesis using s3(2) terminated by (auto simp: switched_to_def)
  next
    case blocked
    from switch_into_ok [OF rep xt(1) x(3) c l] obtain s3 where
      s3: "kbind (upd_task x (t_state_update (\<lambda>_. TASK_STATE_RUNNING)) s) (switch_task x) = Inr s3"
        "switched_to x Q s (finish_switch (t_resume xt = Fresh) s3)" by blast
    have "schedule_to x s = Inr (Switched, finish_switch (t_resume xt = Fresh) s3)"
      using blocked c xt x(3) s3(1) by (auto simp: schedule_to_def ld_task_def)
    then show ?thesis using s3(2) blocked by (auto simp: switched_to_def)
  qed
qed

lemma blocked_ok_ready [simp]: "blocked_ok bl (Q(ReadyQ := xs)) = blocked_ok bl Q"
proof -
  have "blocks q \<Longrightarrow> q \<noteq> ReadyQ" for q by auto
  then show ?thesis unfolding blocked_ok_def by (metis fun_upd_other qid.distinct(5))
qed

lemma states_ok_tail:
  "states_ok st cur Q \<Longrightarrow> set xs \<subseteq> set (Q q) \<Longrightarrow> states_ok st cur (Q(q := xs))"
  by (auto simp: states_ok_def)

lemma states_okI:
  assumes "\<And>q a. a \<in> set (Q q) \<Longrightarrow> \<exists>u. st a = Some u \<and> state_in q u"
    "\<And>a. st a = Some TASK_STATE_RUNNING \<Longrightarrow> a = cur"
  shows "states_ok st cur Q"
  using assms by (simp add: states_ok_def)

lemma states_okD:
  assumes "states_ok st cur Q"
  shows "a \<in> set (Q q) \<Longrightarrow> \<exists>u. st a = Some u \<and> state_in q u"
    "st a = Some TASK_STATE_RUNNING \<Longrightarrow> a = cur"
  using assms by (auto simp: states_ok_def)

lemma states_ok_switch:
  assumes st: "states_ok st cur Q" and x: "\<And>q. x \<notin> set (Q q)" "x \<noteq> cur" and "st cur = Some u"
  shows "states_ok ((if u = TASK_STATE_RUNNING then st(cur \<mapsto> TASK_STATE_READY) else st)(x \<mapsto> TASK_STATE_RUNNING)) x
    (if u = TASK_STATE_RUNNING then Q(ReadyQ := Q ReadyQ @ [cur]) else Q)" (is "states_ok ?st x ?Q")
proof (rule states_okI)
  fix q a assume a: "a \<in> set (?Q q)"
  then have "a \<noteq> x" using x by (auto split: if_splits)
  moreover have "a \<noteq> cur" if "a \<in> set (Q q)" "u = TASK_STATE_RUNNING"
    using running_not_queued [OF st] assms(4) that by metis
  ultimately show "\<exists>u. ?st a = Some u \<and> state_in q u"
    using states_okD(1) [OF st, of a q] a by (cases "a \<in> set (Q q)") (auto split: if_splits)
next
  fix a assume "?st a = Some TASK_STATE_RUNNING"
  then show "a = x" using states_okD(2) [OF st, of a] assms(4) by (auto split: if_splits)
qed

lemma only_links_cur_state: "only_links s s' \<Longrightarrow> cur_state s' = cur_state s"
  by (simp add: cur_state_def only_links_tasks only_links_simps)

lemma same_env_switch: "switch_frame s s' \<Longrightarrow> same_env s s'"
  using switch_frame_simps [of s s'] by (simp add: same_env_def)

lemma same_env_trans: "same_env s s' \<Longrightarrow> same_env s' s'' \<Longrightarrow> same_env s s''"
  by (simp add: same_env_def)

lemma same_env_refl [simp]: "same_env s s"
  by (simp add: same_env_def)

text \<open>\<open>__schedule\<close> makes the choice of \<open>reschedule\<close>.\<close>

lemma schedule_now_ok:
  assumes wf: "sched_wf s Q" and l: "\<not> ints s" "scheduler_lock_count s = 0" "\<not> postponed_schedule s"
      "\<forall>l. spin s l = 0"
    and u: "cur_state s = Some u" "u \<noteq> TASK_STATE_READY" "in_irq s \<Longrightarrow> u = TASK_STATE_RUNNING"
  shows "\<exists>k s' Q'. schedule_now s = Inr (k, s') \<and>
    (current_task s', Q') = reschedule (u = TASK_STATE_RUNNING) (current_task s, Q) \<and>
    (if k = Kept then s' = s \<and> u = TASK_STATE_RUNNING \<and> Q' = Q else rest s' Q') \<and> same_env s s'"
proof -
  have rep: "queues_rep (tasks s) (queues s) Q" and st: "states_ok (tstate (tasks s)) (current_task s) Q"
    and bl: "blocked_ok (blocked_list s) Q" "scheduler_ready s" using wf by (auto simp: sched_wf_def)
  obtain c where c: "tasks s (current_task s) = Some c" "t_state c = u"
    using u(1) by (auto simp: cur_state_def tstate_Some)
  have c0: "current_task s \<noteq> 0" using queues_repD(1) [OF rep] c(1) by (metis option.distinct(1))
  show ?thesis
  proof (cases "Q ReadyQ")
    case Nil
    note d = task_dequeue_empty [OF rep l(1) Nil]
    show ?thesis
    proof (cases "u = TASK_STATE_RUNNING")
      case True
      then have "schedule_now s = Inr (Kept, s)"
        using c c0 d l by (simp add: schedule_now_def schedule_to_def task_defs)
      then show ?thesis using True Nil by (auto simp: reschedule_def)
    next
      case False
      let ?s = "s\<lparr>idle_of := current_task s, current_task := 0,
                  scheduler_lock_count := scheduler_lock_count s + 1, ints := True\<rparr>"
      have "schedule_now s = Inr (Idle, ?s)"
        using c c0 d l False by (simp add: schedule_now_def task_defs)
      moreover have "states_ok (tstate (tasks s)) 0 Q"
        using st c False by (fastforce simp: states_ok_def tstate_Some)
      then have "rest ?s Q" using rep bl l u(3) c False by (auto simp: rest_def sched_wf_def)
      ultimately show ?thesis using False Nil by (auto simp: reschedule_def same_env_def)
    qed
  next
    case (Cons x xs)
    obtain s1 where s1: "task_dequeue ReadyQ s = Inr (x, s1)"
        "queues_rep (tasks s1) (queues s1) (Q(ReadyQ := xs))" "only_links s s1"
      using task_dequeue_ok [OF rep l(1) Cons] by blast
    note L = only_links_simps [OF s1(3)] and T = only_links_tasks [OF s1(3)]
    let ?Q = "Q(ReadyQ := xs)"
    have "x \<in> set (Q ReadyQ)" using Cons by simp
    then have xq: "x \<notin> set (?Q q)" for q
      using queues_repD(4) [OF rep, of ReadyQ] queues_repD(5) [OF rep, of x ReadyQ q] Cons by auto
    have xr: "tstate (tasks s) x = Some TASK_STATE_READY"
      using st \<open>x \<in> set (Q ReadyQ)\<close> unfolding states_ok_def by fastforce
    then have xc: "x \<noteq> current_task s" using u by (auto simp: cur_state_def)
    have x0: "x \<noteq> 0" using queues_repD(1) [OF rep] xr by (metis option.distinct(1) tstate_Some)
    have st1: "states_ok (tstate (tasks s1)) (current_task s1) ?Q"
      using states_ok_tail [OF st, of xs ReadyQ] Cons T(1) L by auto
    obtain c1 where c1: "tasks s1 (current_task s1) = Some c1" "t_state c1 = u"
      using T(1) L u(1) by (metis cur_state_def tstate_Some)
    let ?Q' = "if u = TASK_STATE_RUNNING then ?Q(ReadyQ := ?Q ReadyQ @ [current_task s1]) else ?Q"
    obtain s2 where s2: "schedule_to x s1 = Inr (Switched, s2)" "current_task s2 = x" "\<not> in_irq s2"
        "queues_rep (tasks s2) (queues s2) ?Q'"
        "tstate (tasks s2) = (if u = TASK_STATE_RUNNING
           then (tstate (tasks s1))(current_task s1 \<mapsto> TASK_STATE_READY) else tstate (tasks s1))
           (x \<mapsto> TASK_STATE_RUNNING)" "switch_frame s1 s2"
      using schedule_to_ok [OF s1(2) st1 _ xq _ c1(1)] T(1) L xr xc l c1(2) by auto
    note F = switch_frame_simps [OF s2(6)]
    have "states_ok (tstate (tasks s2)) x ?Q'"
      unfolding s2(5) using states_ok_switch [OF st1 xq, of u] c1 xc L by (simp add: tstate_Some)
    then have "rest s2 ?Q'"
      using s2 F L bl l x0 by (simp add: rest_def sched_wf_def cur_state_def)
    moreover have "schedule_now s = Inr (Switched, s2)"
      using s1(1) s2(1) c0 l x0 by (simp add: schedule_now_def task_defs)
    moreover have "(current_task s2, ?Q') = reschedule (u = TASK_STATE_RUNNING) (current_task s, Q)"
      using Cons s2(2) L by (simp add: reschedule_def)
    moreover have "same_env s s2"
      using same_env_trans [OF same_env_switch [OF switch_frame_links [OF s1(3)]] same_env_switch [OF s2(6)]] .
    ultimately show ?thesis by (intro exI [of _ Switched] exI [of _ s2] exI [of _ ?Q']) simp
  qed
qed

section \<open>Locking\<close>

text \<open>\<open>ready_to_unlock s u\<close>: the state before the last \<open>scheduler_unlock\<close> of an operation, \<open>u\<close>
  being the state of the current task, which is RUNNING unless a switch is pending.\<close>

definition ready_to_unlock :: "sched \<Rightarrow> (qid \<Rightarrow> addr list) \<Rightarrow> task_state \<Rightarrow> bool" where
  "ready_to_unlock s Q u \<longleftrightarrow> sched_wf s Q \<and> \<not> ints s \<and> scheduler_lock_count s = 1 \<and>
     (\<forall>l. spin s l = 0) \<and> cur_state s = Some u \<and> u \<noteq> TASK_STATE_READY \<and>
     (in_irq s \<longrightarrow> u = TASK_STATE_RUNNING) \<and> (u = TASK_STATE_RUNNING \<or> postponed_schedule s)"

lemma sched_wf_cong:
  "sched_wf s Q \<Longrightarrow> tasks s' = tasks s \<Longrightarrow> queues s' = queues s \<Longrightarrow> current_task s' = current_task s \<Longrightarrow>
   blocked_list s' = blocked_list s \<Longrightarrow> scheduler_ready s' = scheduler_ready s \<Longrightarrow> sched_wf s' Q"
  by (simp add: sched_wf_def)

lemma sched_wf_0: "sched_wf s Q \<Longrightarrow> tasks s 0 = None"
  by (simp add: sched_wf_def queues_rep_def)

lemma cur_state_nonzero: "sched_wf s Q \<Longrightarrow> cur_state s = Some u \<Longrightarrow> current_task s \<noteq> 0"
  using sched_wf_0 by (metis cur_state_def option.distinct(1) tstate_Some)

lemma rest_unlock_tail:
  assumes "sched_wf s Q" "scheduler_lock_count s = 0" "\<not> postponed_schedule s" "\<forall>l. spin s l = 0"
    "cur_state s = Some TASK_STATE_RUNNING"
  shows "rest (irq_exit (unlock_tail s)) Q"
  using assms cur_state_nonzero [OF assms(1,5)] sched_wf_cong [OF assms(1)]
  by (auto simp: rest_def irq_exit_def unlock_tail_def cur_state_def)

lemma unlock_tail_simps [simp]:
  "current_task (unlock_tail s) = current_task s" "in_irq (unlock_tail s) = in_irq s"
  "same_env s' (unlock_tail s) = same_env s' s" "current_task (irq_exit s) = current_task s"
  "same_env s' (irq_exit s) = same_env s' s" "\<not> in_irq s \<Longrightarrow> irq_exit s = s"
  by (auto simp: unlock_tail_def same_env_def irq_exit_def)

lemma rest_not_irq: "rest s Q \<Longrightarrow> \<not> in_irq s"
  by (simp add: rest_def)

theorem unlock_ok:
  assumes "ready_to_unlock s Q u"
  shows "\<exists>s' Q'. scheduler_unlock s = Inr s' \<and>
    (current_task s', Q') = (if postponed_schedule s
       then reschedule (u = TASK_STATE_RUNNING) (current_task s, Q) else (current_task s, Q)) \<and>
    rest (irq_exit s') Q' \<and> (in_irq s' \<longrightarrow> in_irq s) \<and> same_env s s'"
proof (cases "postponed_schedule s")
  case False
  let ?s = "s\<lparr>scheduler_lock_count := 0\<rparr>"
  have a: "sched_wf ?s Q" "cur_state ?s = Some TASK_STATE_RUNNING" "\<forall>l. spin ?s l = 0" "\<not> postponed_schedule ?s"
    using assms False by (auto simp: ready_to_unlock_def sched_wf_def cur_state_def)
  have "scheduler_unlock s = Inr (unlock_tail ?s)"
    using assms False by (simp add: scheduler_unlock_def task_defs ready_to_unlock_def Let_def)
  moreover have "same_env s ?s" by (simp add: same_env_def)
  ultimately show ?thesis using rest_unlock_tail [OF a(1) _ a(4,3,2)] False by simp
next
  case True
  let ?s = "s\<lparr>scheduler_lock_count := 0, postponed_schedule := False\<rparr>"
  have a: "sched_wf ?s Q" "\<not> ints ?s" "cur_state ?s = Some u" "\<forall>l. spin ?s l = 0"
      "in_irq ?s \<Longrightarrow> u = TASK_STATE_RUNNING" "u \<noteq> TASK_STATE_READY" "scheduler_ready s" "same_env s ?s"
    using assms by (auto simp: ready_to_unlock_def sched_wf_def cur_state_def same_env_def)
  obtain k s' Q' where k: "schedule_now ?s = Inr (k, s')"
      "(current_task s', Q') = reschedule (u = TASK_STATE_RUNNING) (current_task s, Q)"
      "if k = Kept then s' = ?s \<and> u = TASK_STATE_RUNNING \<and> Q' = Q else rest s' Q'" "same_env ?s s'"
    using schedule_now_ok [OF a(1,2) _ _ a(4,3,6,5)] by auto
  have e: "same_env s s'" using same_env_trans [OF a(8) k(4)] .
  have un: "scheduler_unlock s = Inr (if k = Kept then unlock_tail s' else s')"
    using assms a(7) True k(1) by (simp add: scheduler_unlock_def task_defs ready_to_unlock_def Let_def)
  show ?thesis
  proof (cases "k = Kept")
    case kept: True
    then have k': "s' = ?s" "u = TASK_STATE_RUNNING" "Q' = Q" using k(3) by auto
    have "rest (irq_exit (unlock_tail s')) Q'"
      using rest_unlock_tail [OF a(1) _ _ a(4)] a(3) k' by simp
    then show ?thesis using kept un k(2) e True k'(1)
      by (intro exI [of _ "unlock_tail s'"] exI [of _ Q']) simp
  next
    case False
    then show ?thesis using k(2,3) un True e rest_not_irq [of s' Q']
      by (intro exI [of _ s'] exI [of _ Q']) simp
  qed
qed

lemma unlock_nested:
  "\<not> ints s \<Longrightarrow> scheduler_lock_count s = Suc (Suc n) \<Longrightarrow>
   scheduler_unlock s = Inr (s\<lparr>scheduler_lock_count := Suc n\<rparr>)"
  by (simp add: scheduler_unlock_def task_defs Let_def)

lemma lock_nested:
  "\<not> ints s \<Longrightarrow> scheduler_lock_count s = Suc n \<Longrightarrow>
   scheduler_lock s = Inr (s\<lparr>scheduler_lock_count := Suc (Suc n)\<rparr>)"
  by (cases s) (simp add: scheduler_lock_def task_defs Let_def)

text \<open>The state after the first \<open>scheduler_lock\<close> of an operation.\<close>

definition locked :: "sched \<Rightarrow> sched" where
  "locked s = s\<lparr>ints := False, enable_ints := enable_ints s \<or> ints s, scheduler_lock_count := 1\<rparr>"

lemma locked_simps [simp]:
  "tasks (locked s) = tasks s" "queues (locked s) = queues s" "current_task (locked s) = current_task s"
  "blocked_list (locked s) = blocked_list s" "scheduler_ready (locked s) = scheduler_ready s"
  "\<not> ints (locked s)" "scheduler_lock_count (locked s) = 1" "spin (locked s) = spin s"
  "timer_ticks (locked s) = timer_ticks s" "sem_count (locked s) = sem_count s"
  "mutex_word (locked s) = mutex_word s" "locked_task (locked s) = locked_task s"
  "in_irq (locked s) = in_irq s" "postponed_schedule (locked s) = postponed_schedule s"
  "cur_state (locked s) = cur_state s" "sched_wf (locked s) Q = sched_wf s Q" "same_env s (locked s)"
  by (simp_all add: locked_def cur_state_def sched_wf_def same_env_def)

lemma scheduler_lock_ok:
  "scheduler_lock_count s = 0 \<Longrightarrow> \<not> postponed_schedule s \<Longrightarrow> scheduler_lock s = Inr (locked s)"
  by (simp add: scheduler_lock_def task_defs locked_def)

lemma schedule_ok:
  "\<not> ints s \<Longrightarrow> scheduler_lock_count s \<noteq> 0 \<Longrightarrow> scheduler_ready s \<Longrightarrow>
   schedule s = Inr (s\<lparr>postponed_schedule := True\<rparr>)"
  by (simp add: schedule_def task_defs)

lemma rest_running:
  assumes "rest s Q" "current_task s \<noteq> 0"
  shows "sched_wf s Q" "scheduler_lock_count s = 0" "\<not> postponed_schedule s" "\<forall>l. spin s l = 0"
    "cur_state s = Some TASK_STATE_RUNNING" "\<not> in_irq s" "scheduler_ready s"
  using assms by (auto simp: rest_def sched_wf_def)

section \<open>Blocking and waking\<close>

text \<open>What blocking and waking change: the tasks, the queues and \<open>blocked_list\<close>.\<close>

definition queue_frame :: "sched \<Rightarrow> sched \<Rightarrow> bool" where
  "queue_frame s s' \<longleftrightarrow> payload (tasks s') = payload (tasks s) \<and>
     s'\<lparr>tasks := tasks s, queues := queues s, blocked_list := blocked_list s\<rparr> = s"

lemma queue_frame_simps:
  assumes "queue_frame s s'"
  shows "payload (tasks s') = payload (tasks s)" "ints s' = ints s" "current_task s' = current_task s"
    "scheduler_ready s' = scheduler_ready s" "scheduler_lock_count s' = scheduler_lock_count s"
    "postponed_schedule s' = postponed_schedule s" "in_irq s' = in_irq s" "idle_of s' = idle_of s"
    "timer_ticks s' = timer_ticks s" "sem_count s' = sem_count s" "spin s' = spin s"
    "mutex_word s' = mutex_word s" "locked_task s' = locked_task s" "enable_ints s' = enable_ints s"
  using assms by (cases s, cases s'; auto simp: queue_frame_def)+

lemma queue_frame_trans: "queue_frame s s' \<Longrightarrow> queue_frame s' s'' \<Longrightarrow> queue_frame s s''"
  by (cases s, cases s', cases s'') (auto simp: queue_frame_def)

lemma queue_frame_links: "only_links s s' \<Longrightarrow> queue_frame s s'"
  using only_links_tasks(2) [of s s'] by (cases s, cases s') (auto simp: queue_frame_def only_links_def)

lemma queue_frame_state:
  "tasks s a = Some t \<Longrightarrow> queue_frame s (s\<lparr>tasks := (tasks s)(a \<mapsto> t\<lparr>t_state := u\<rparr>)\<rparr>)"
  by (cases s) (auto simp: queue_frame_def payload_def)

lemma queue_frame_blocked: "queue_frame s s' \<Longrightarrow> queue_frame s (s'\<lparr>blocked_list := bl\<rparr>)"
  by (cases s, cases s') (auto simp: queue_frame_def)

lemma queue_frame_env: "queue_frame s s' \<Longrightarrow> same_env s s'"
  using queue_frame_simps [of s s'] by (simp add: same_env_def)

text \<open>A task that is in no queue gets a new state and enters the queue that fits it.\<close>

lemma enqueue_state_ok:
  assumes rep: "queues_rep (tasks s) (queues s) Q" and t: "tasks s a = Some t" "\<And>q. a \<notin> set (Q q)"
    and "\<not> ints s"
  shows "\<exists>s'. kbind (upd_task a (t_state_update (\<lambda>_. u)) s) (task_queue q a) = Inr s' \<and>
    queues_rep (tasks s') (queues s') (Q(q := Q q @ [a])) \<and>
    tstate (tasks s') = (tstate (tasks s))(a \<mapsto> u) \<and> queue_frame s s' \<and> blocked_list s' = blocked_list s"
proof -
  let ?s1 = "s\<lparr>tasks := (tasks s)(a \<mapsto> t\<lparr>t_state := u\<rparr>)\<rparr>"
  have "queues_rep (tasks ?s1) (queues ?s1) Q" using rep t by simp
  then obtain s2 where s2: "task_queue q a ?s1 = Inr s2"
      "queues_rep (tasks s2) (queues s2) (Q(q := Q q @ [a]))" "only_links ?s1 s2"
    using task_queue_ok [of ?s1 Q a "t\<lparr>t_state := u\<rparr>" q] t(2) assms(4) by auto
  have "queue_frame s s2"
    using queue_frame_trans [OF queue_frame_state [OF t(1)] queue_frame_links [OF s2(3)]] .
  then show ?thesis using s2 upd_task_ok [OF t(1)] only_links_tasks(1) [OF s2(3)] only_links_simps(3) [OF s2(3)]
    by auto
qed

lemma states_ok_enqueue:
  assumes st: "states_ok st cur Q" and a: "\<And>q. a \<notin> set (Q q)" "state_in q u" "u \<noteq> TASK_STATE_RUNNING"
  shows "states_ok (st(a \<mapsto> u)) cur (Q(q := Q q @ [a]))"
proof (rule states_okI)
  fix q' b assume "b \<in> set ((Q(q := Q q @ [a])) q')"
  then consider "b \<in> set (Q q')" | "b = a" "q' = q" by (auto split: if_splits)
  then show "\<exists>v. (st(a \<mapsto> u)) b = Some v \<and> state_in q' v"
  proof cases
    case 1
    then have "b \<noteq> a" using a(1) by auto
    with states_okD(1) [OF st 1] show ?thesis by simp
  qed (use a in simp)
next
  fix b assume "(st(a \<mapsto> u)) b = Some TASK_STATE_RUNNING"
  then show "b = cur" using states_okD(2) [OF st] a(3) by (auto split: if_splits)
qed

lemma state_in_not_running: "state_in q u \<Longrightarrow> u \<noteq> TASK_STATE_RUNNING"
  by (cases q) auto

text \<open>\<open>__task_block\<close> on the running task.\<close>

lemma blocked_ok_block:
  assumes "blocked_ok bl Q" "\<And>q. a \<notin> set (Q q)" "blocks q"
  shows "blocked_ok (bl @ [a]) (Q(q := Q q @ [a]))"
proof -
  have nb: "a \<notin> set bl" using assms(1,2) unfolding blocked_ok_def by blast
  have "\<exists>q'. blocks q' \<and> x \<in> set ((Q(q := Q q @ [a])) q')" if x: "x \<in> set (bl @ [a])" for x
  proof (cases "x = a")
    case False
    then obtain q' where "blocks q'" "x \<in> set (Q q')" using x assms(1) by (auto simp: blocked_ok_def)
    then show ?thesis by (intro exI [of _ q']) auto
  qed (use assms(3) in auto)
  moreover have "x \<in> set (bl @ [a])" if "x \<in> set ((Q(q := Q q @ [a])) (BlockQ c))" for c x
    using that assms(1) unfolding blocked_ok_def by (auto split: if_splits)
  ultimately show ?thesis using nb assms(1) unfolding blocked_ok_def by simp
qed

lemma task_block_locked_ok:
  assumes wf: "sched_wf s Q" and l: "\<not> ints s" "scheduler_lock_count s \<noteq> 0"
    and c: "cur_state s = Some TASK_STATE_RUNNING" and q: "state_in q u" "blocks q"
  shows "\<exists>s'. task_block_locked q (current_task s) u s = Inr s' \<and>
    sched_wf s' (Q(q := Q q @ [current_task s])) \<and> cur_state s' = Some u \<and> queue_frame s s'"
proof -
  have rep: "queues_rep (tasks s) (queues s) Q" and st: "states_ok (tstate (tasks s)) (current_task s) Q"
    and bl: "blocked_ok (blocked_list s) Q" "scheduler_ready s" using wf by (auto simp: sched_wf_def)
  obtain t where t: "tasks s (current_task s) = Some t" using c by (auto simp: cur_state_def tstate_Some)
  have cq: "current_task s \<notin> set (Q q)" for q using running_not_queued [OF st] c by (simp add: cur_state_def)
  obtain s1 where s1: "kbind (upd_task (current_task s) (t_state_update (\<lambda>_. u)) s) (task_queue q (current_task s)) = Inr s1"
      "queues_rep (tasks s1) (queues s1) (Q(q := Q q @ [current_task s]))"
      "tstate (tasks s1) = (tstate (tasks s))(current_task s \<mapsto> u)" "queue_frame s s1"
      "blocked_list s1 = blocked_list s"
    using enqueue_state_ok [OF rep t cq l(1)] by metis
  note F = queue_frame_simps [OF s1(4)]
  let ?s' = "s1\<lparr>blocked_list := blocked_list s1 @ [current_task s]\<rparr>"
  have "task_block_locked q (current_task s) u s = Inr ?s'"
    using s1(1) l cur_state_nonzero [OF wf c] by (auto simp: task_block_locked_def task_defs)
  moreover have "states_ok (tstate (tasks s1)) (current_task s) (Q(q := Q q @ [current_task s]))"
    unfolding s1(3) using states_ok_enqueue [OF st cq q(1) state_in_not_running [OF q(1)]] .
  then have "sched_wf ?s' (Q(q := Q q @ [current_task s]))"
    using s1(2,5) F bl(2) blocked_ok_block [OF bl(1) cq q(2)] by (simp add: sched_wf_def)
  moreover have "cur_state ?s' = Some u" using s1(3) F by (simp add: cur_state_def)
  ultimately show ?thesis using queue_frame_blocked [OF s1(4)] by blast
qed

lemma blocked_ok_remove:
  assumes "blocked_ok bl Q0" "\<And>q. blocks q \<Longrightarrow> set (Q q) = set (Q0 q) - {a}"
  shows "blocked_ok (remove1 a bl) Q"
proof -
  have bl: "distinct bl" "set (remove1 a bl) = set bl - {a}" using assms(1) by (auto simp: blocked_ok_def)
  have "\<exists>q. blocks q \<and> x \<in> set (Q q)" if "x \<in> set (remove1 a bl)" for x
    using that assms bl unfolding blocked_ok_def by fast
  moreover have "x \<in> set (remove1 a bl)" if "x \<in> set (Q (BlockQ b))" for b x
    using that assms(1) assms(2) [of "BlockQ b"] bl by (auto simp: blocked_ok_def)
  ultimately show ?thesis using bl by (simp add: blocked_ok_def)
qed

text \<open>\<open>__task_unblock\<close> on a task just taken out of a blocking queue; \<open>Q0\<close> are the queues before.\<close>

lemma task_unblock_locked_ok:
  assumes rep: "queues_rep (tasks s) (queues s) Q" and st: "states_ok (tstate (tasks s)) (current_task s) Q"
    and bl: "blocked_ok (blocked_list s) Q0" "\<And>q. blocks q \<Longrightarrow> set (Q q) = set (Q0 q) - {a}" "scheduler_ready s"
    and a: "tasks s a = Some t" "\<And>q. a \<notin> set (Q q)" and l: "\<not> ints s" "scheduler_lock_count s \<noteq> 0"
  shows "\<exists>s'. task_unblock_locked a s = Inr s' \<and> sched_wf s' (Q(ReadyQ := Q ReadyQ @ [a])) \<and>
    tstate (tasks s') = (tstate (tasks s))(a \<mapsto> TASK_STATE_READY) \<and> queue_frame s s'"
proof -
  obtain s1 where s1: "kbind (upd_task a (t_state_update (\<lambda>_. TASK_STATE_READY)) s) (task_queue ReadyQ a) = Inr s1"
      "queues_rep (tasks s1) (queues s1) (Q(ReadyQ := Q ReadyQ @ [a]))"
      "tstate (tasks s1) = (tstate (tasks s))(a \<mapsto> TASK_STATE_READY)" "queue_frame s s1"
      "blocked_list s1 = blocked_list s"
    using enqueue_state_ok [OF rep a l(1)] by metis
  note F = queue_frame_simps [OF s1(4)]
  let ?s' = "s1\<lparr>blocked_list := remove1 a (blocked_list s1)\<rparr>"
  have a0: "a \<noteq> 0" using queues_repD(1) [OF rep] a(1) by (metis option.distinct(1))
  have "task_unblock_locked a s = Inr ?s'"
    using s1(1) l a0 by (auto simp: task_unblock_locked_def task_defs)
  moreover have "states_ok (tstate (tasks s1)) (current_task s) (Q(ReadyQ := Q ReadyQ @ [a]))"
    unfolding s1(3) using states_ok_enqueue [OF st a(2)] by simp
  then have "sched_wf ?s' (Q(ReadyQ := Q ReadyQ @ [a]))"
    using s1(2,5) F bl(3) blocked_ok_remove [OF bl(1,2)] by (simp add: sched_wf_def)
  ultimately show ?thesis using queue_frame_blocked [OF s1(4)] s1(3) by (intro exI [of _ ?s']) simp
qed

lemma unblock_next_body:
  assumes wf: "sched_wf s Q" and l: "\<not> ints s" "scheduler_lock_count s \<noteq> 0"
    and c: "cur_state s = Some TASK_STATE_RUNNING" and q: "blocks q" and x: "Q q = x # xs"
  shows "\<exists>s1 s'. task_dequeue q s = Inr (x, s1) \<and> task_unblock_locked x s1 = Inr s' \<and> x \<noteq> 0 \<and>
    sched_wf s' ((Q(q := xs))(ReadyQ := Q ReadyQ @ [x])) \<and> cur_state s' = Some TASK_STATE_RUNNING \<and> queue_frame s s'"
proof -
  have rep: "queues_rep (tasks s) (queues s) Q" and st: "states_ok (tstate (tasks s)) (current_task s) Q"
    and bl: "blocked_ok (blocked_list s) Q" "scheduler_ready s" using wf by (auto simp: sched_wf_def)
  let ?Q = "Q(q := xs)"
  obtain s1 where s1: "task_dequeue q s = Inr (x, s1)" "queues_rep (tasks s1) (queues s1) ?Q" "only_links s s1"
    using task_dequeue_ok [OF rep l(1) x] by blast
  note L = only_links_simps [OF s1(3)] and T = only_links_tasks [OF s1(3)]
  have xq: "x \<in> set (Q q)" "x \<notin> set xs" using x queues_repD(4) [OF rep, of q] by auto
  have xq': "x \<notin> set (?Q q')" for q' using queues_repD(5) [OF rep xq(1), of q'] xq(2) by (cases "q' = q") auto
  have sets: "set (?Q q') = set (Q q') - {x}" for q'
    using xq(2) xq' [of q'] x by (cases "q' = q") simp_all
  have st1: "states_ok (tstate (tasks s1)) (current_task s1) ?Q"
    using states_ok_tail [OF st, of xs q] x T L by auto
  obtain u where u: "tstate (tasks s1) x = Some u" "state_in q u" using states_okD(1) [OF st xq(1)] T by auto
  then obtain t where t: "tasks s1 x = Some t" by (auto simp: tstate_Some)
  have b1: "blocked_ok (blocked_list s1) Q" "scheduler_ready s1" "\<not> ints s1" "scheduler_lock_count s1 \<noteq> 0"
    using L bl l by simp_all
  obtain s2 where s2: "task_unblock_locked x s1 = Inr s2" "sched_wf s2 (?Q(ReadyQ := ?Q ReadyQ @ [x]))"
      "tstate (tasks s2) = (tstate (tasks s1))(x \<mapsto> TASK_STATE_READY)" "queue_frame s1 s2"
    using task_unblock_locked_ok [OF s1(2) st1 b1(1) sets b1(2) t xq' b1(3,4)] by blast
  note F = queue_frame_simps [OF s2(4)]
  have ne: "x \<noteq> current_task s" using running_not_queued [OF st, of "current_task s" q] xq c by (auto simp: cur_state_def)
  have "cur_state s2 = Some TASK_STATE_RUNNING"
    using s2(3) T L F c ne by (simp add: cur_state_def)
  moreover have "x \<noteq> 0" using sched_wf_0 [OF wf] queues_repD(7) [OF rep xq(1)] by (metis option.distinct(1))
  moreover have "q \<noteq> ReadyQ" using q by auto
  ultimately show ?thesis
    using s1(1) s2(1,2) queue_frame_trans [OF queue_frame_links [OF s1(3)] s2(4)] by auto
qed

end
