(* ===== verification/Sched_Props.thy ===== *)
theory Sched_Props
  imports Sched_Inv
begin

text \<open>
  The operations of the scheduler refine the abstract scheduler of \<open>Sched_Inv\<close>: from every
  state of the invariant \<open>rest\<close> they return, re-establish it, and change the running task and
  the queues as the specification says. The last section closes the operations into one step
  relation, whose reachable states all satisfy the invariant.
\<close>

lemma unlock_done:
  assumes "ready_to_unlock s Q u" "\<not> in_irq s"
  shows "\<exists>s' Q'. scheduler_unlock s = Inr s' \<and>
    (current_task s', Q') = (if postponed_schedule s
       then reschedule (u = TASK_STATE_RUNNING) (current_task s, Q) else (current_task s, Q)) \<and>
    rest s' Q' \<and> same_env s s'"
proof -
  from unlock_ok [OF assms(1)] obtain s' Q' where s': "scheduler_unlock s = Inr s'"
    "(current_task s', Q') = (if postponed_schedule s
       then reschedule (u = TASK_STATE_RUNNING) (current_task s, Q) else (current_task s, Q))"
    "rest (irq_exit s') Q'" "in_irq s' \<longrightarrow> in_irq s" "same_env s s'" by blast
  then show ?thesis using assms(2) by (intro exI [of _ s'] exI [of _ Q']) simp
qed

text \<open>The common end of the operations: \<open>schedule(); scheduler_unlock();\<close>\<close>

lemma schedule_unlock:
  assumes "sched_wf s Q" "\<not> ints s" "scheduler_lock_count s = 1" "\<forall>l. spin s l = 0"
    "cur_state s = Some u" "u \<noteq> TASK_STATE_READY" "\<not> in_irq s"
  shows "\<exists>s' Q'. kbind (schedule s) scheduler_unlock = Inr s' \<and>
    (current_task s', Q') = reschedule (u = TASK_STATE_RUNNING) (current_task s, Q) \<and>
    rest s' Q' \<and> same_env s s'"
proof -
  let ?s = "s\<lparr>postponed_schedule := True\<rparr>"
  have "ready_to_unlock ?s Q u" using assms by (simp add: ready_to_unlock_def sched_wf_def cur_state_def)
  from unlock_done [OF this] assms(7) obtain s' Q' where "scheduler_unlock ?s = Inr s'"
    "(current_task s', Q') = reschedule (u = TASK_STATE_RUNNING) (current_task s, Q)" "rest s' Q'" "same_env ?s s'"
    by auto
  moreover have "schedule s = Inr ?s" using assms by (simp add: schedule_ok sched_wf_def)
  ultimately show ?thesis by (intro exI [of _ s'] exI [of _ Q']) (simp add: same_env_def)
qed

text \<open>\<open>yield\<close> is round robin. From every state between two operations it returns, the first
  ready task runs next, the caller goes to the end of the ready queue (or keeps the CPU when
  nothing else is ready), and nothing else changes.\<close>

lemma yield_ok:
  assumes "rest s Q" "current_task s \<noteq> 0"
  shows "\<exists>s' Q'. yield s = Inr s' \<and> (current_task s', Q') = reschedule True (current_task s, Q) \<and>
    rest s' Q' \<and> same_env s s'"
proof -
  note R = rest_running [OF assms]
  obtain s' Q' where s': "kbind (schedule (locked s)) scheduler_unlock = Inr s'"
    "(current_task s', Q') = reschedule True (current_task s, Q)" "rest s' Q'" "same_env (locked s) s'"
    using schedule_unlock [of "locked s" Q TASK_STATE_RUNNING] R by auto
  moreover have "yield s = kbind (schedule (locked s)) scheduler_unlock"
    using scheduler_lock_ok [of s] R by (simp add: yield_def)
  ultimately show ?thesis using same_env_trans [OF locked_simps(17) s'(4)] by auto
qed

text \<open>Blocking inside a locked section, at lock depth one.\<close>

lemma block_and_switch:
  assumes wf: "sched_wf s Q" and l: "\<not> ints s" "scheduler_lock_count s = 1" "\<forall>l. spin s l = 0" "\<not> in_irq s"
    and c: "cur_state s = Some TASK_STATE_RUNNING" and q: "state_in q u" "blocks q"
  shows "\<exists>s' Q'. kbind (task_block_locked q (current_task s) u s) (\<lambda>s. kbind (schedule s) scheduler_unlock) = Inr s' \<and>
    (current_task s', Q') = spec_block q (current_task s, Q) \<and> rest s' Q' \<and> same_env s s'"
proof -
  from task_block_locked_ok [OF wf l(1) _ c q] l(2) obtain s1 where
    s1: "task_block_locked q (current_task s) u s = Inr s1" "sched_wf s1 (Q(q := Q q @ [current_task s]))"
      "cur_state s1 = Some u" "queue_frame s s1" by auto
  note F = queue_frame_simps [OF s1(4)]
  have "u \<noteq> TASK_STATE_READY" using q by (cases q) auto
  with schedule_unlock [OF s1(2) _ _ _ s1(3)] F l obtain s' Q' where
    s': "kbind (schedule s1) scheduler_unlock = Inr s'"
      "(current_task s', Q') = reschedule (u = TASK_STATE_RUNNING) (current_task s1, Q(q := Q q @ [current_task s]))"
      "rest s' Q'" "same_env s1 s'" by auto
  have "u \<noteq> TASK_STATE_RUNNING" using state_in_not_running [OF q(1)] .
  then show ?thesis
    using s1(1) s' F same_env_trans [OF queue_frame_env [OF s1(4)] s'(4)]
    by (intro exI [of _ s'] exI [of _ Q']) (simp add: spec_block_def)
qed

text \<open>\<open>task_block\<close> appends the caller to the queue, with the reason as its state, and gives
  the CPU to the first ready task, or idles when there is none.\<close>

lemma task_block_ok:
  assumes "rest s Q" "current_task s \<noteq> 0" "state_in q u" "blocks q"
  shows "\<exists>s' Q'. task_block q u s = Inr s' \<and> (current_task s', Q') = spec_block q (current_task s, Q) \<and>
    rest s' Q' \<and> same_env s s'"
proof -
  note R = rest_running [OF assms(1,2)]
  obtain s' Q' where s': "kbind (task_block_locked q (current_task s) u (locked s)) (\<lambda>s. kbind (schedule s) scheduler_unlock) = Inr s'"
    "(current_task s', Q') = spec_block q (current_task s, Q)" "rest s' Q'" "same_env (locked s) s'"
    using block_and_switch [of "locked s" Q q u] R assms(3,4) by auto
  moreover have "task_block q u s = kbind (task_block_locked q (current_task s) u (locked s)) (\<lambda>s. kbind (schedule s) scheduler_unlock)"
    using scheduler_lock_ok [of s] R by (simp add: task_block_def assert_panic_def)
  ultimately show ?thesis using same_env_trans [OF locked_simps(17) s'(4)] by auto
qed

lemma unblock_next_nested:
  assumes wf: "sched_wf s Q" and l: "\<not> ints s" "scheduler_lock_count s = Suc n"
    and c: "cur_state s = Some TASK_STATE_RUNNING" and q: "blocks q" "Q q = x # xs"
  shows "\<exists>s'. task_unblock_next q s = Inr s' \<and> sched_wf s' ((Q(q := xs))(ReadyQ := Q ReadyQ @ [x])) \<and>
    cur_state s' = Some TASK_STATE_RUNNING \<and> queue_frame (s\<lparr>postponed_schedule := True\<rparr>) s'"
proof -
  let ?s = "s\<lparr>scheduler_lock_count := Suc (Suc n)\<rparr>"
  have "sched_wf ?s Q" "cur_state ?s = Some TASK_STATE_RUNNING" using wf c by (auto simp: sched_wf_def cur_state_def)
  then obtain s1 s2 where s2: "task_dequeue q ?s = Inr (x, s1)" "task_unblock_locked x s1 = Inr s2" "x \<noteq> 0"
      "sched_wf s2 ((Q(q := xs))(ReadyQ := Q ReadyQ @ [x]))" "cur_state s2 = Some TASK_STATE_RUNNING" "queue_frame ?s s2"
    using unblock_next_body [of ?s Q q x xs] l q by auto
  note F = queue_frame_simps [OF s2(6)]
  let ?s' = "s2\<lparr>postponed_schedule := True, scheduler_lock_count := Suc n\<rparr>"
  have "task_unblock_next q s = Inr ?s'"
    using lock_nested [OF l] s2 F l schedule_ok [of s2]
      unlock_nested [of "s2\<lparr>postponed_schedule := True\<rparr>" n]
    by (simp add: task_unblock_next_def sched_wf_def)
  moreover have "queue_frame (s\<lparr>postponed_schedule := True\<rparr>) ?s'"
    using s2(6) l by (cases s, cases s2) (auto simp: queue_frame_def)
  ultimately show ?thesis using s2(4,5) by (auto simp: sched_wf_def cur_state_def)
qed

text \<open>\<open>task_unblock_next\<close> makes the longest waiting task of a queue ready and yields; on an
  empty queue it does nothing.\<close>

lemma unblock_next_ok:
  assumes "rest s Q" "current_task s \<noteq> 0" "blocks q"
  shows "\<exists>s' Q'. task_unblock_next q s = Inr s' \<and>
    (current_task s', Q') = spec_unblock_next q (current_task s, Q) \<and> rest s' Q' \<and> same_env s s'"
proof (cases "Q q")
  case Nil
  note R = rest_running [OF assms(1,2)]
  have d: "task_dequeue q (locked s) = Inr (0, locked s)"
    using task_dequeue_empty [of "locked s" Q q] R(1) Nil by (simp add: sched_wf_def)
  have u: "ready_to_unlock (locked s) Q TASK_STATE_RUNNING" using R by (simp add: ready_to_unlock_def)
  have "task_unblock_next q s = scheduler_unlock (locked s)"
    using scheduler_lock_ok [of s] R d by (simp add: task_unblock_next_def)
  with unlock_done [OF u] R Nil show ?thesis
    using same_env_trans [OF locked_simps(17)] by (auto simp: spec_unblock_next_def)
next
  case (Cons x xs)
  note R = rest_running [OF assms(1,2)]
  let ?Q = "(Q(q := xs))(ReadyQ := Q ReadyQ @ [x])"
  obtain s1 s2 where s2: "task_dequeue q (locked s) = Inr (x, s1)" "task_unblock_locked x s1 = Inr s2" "x \<noteq> 0"
      "sched_wf s2 ?Q" "cur_state s2 = Some TASK_STATE_RUNNING" "queue_frame (locked s) s2"
    using unblock_next_body [of "locked s" Q q x xs] R assms(3) Cons by auto
  note F = queue_frame_simps [OF s2(6)]
  obtain s' Q' where s': "kbind (schedule s2) scheduler_unlock = Inr s'"
      "(current_task s', Q') = reschedule True (current_task s, ?Q)" "rest s' Q'" "same_env s2 s'"
    using schedule_unlock [OF s2(4) _ _ _ s2(5)] F R by auto
  have "task_unblock_next q s = Inr s'"
    using scheduler_lock_ok [of s] R s2(1-3) s'(1) by (auto simp: task_unblock_next_def)
  moreover have "same_env s s'"
    using same_env_trans [OF same_env_trans [OF locked_simps(17) queue_frame_env [OF s2(6)]] s'(4)] .
  ultimately show ?thesis using s' Cons by (intro exI [of _ s'] exI [of _ Q']) (simp add: spec_unblock_next_def)
qed

section \<open>Semaphores\<close>

lemma spin_unlock_done:
  assumes "sched_wf s Q" "\<not> ints s" "scheduler_lock_count s = 1" "spin s = (\<lambda>_. 0)(a := 1)"
    "cur_state s = Some u" "u \<noteq> TASK_STATE_READY" "\<not> in_irq s" "u = TASK_STATE_RUNNING \<or> postponed_schedule s"
  shows "\<exists>s' Q'. spin_unlock a s = Inr s' \<and>
    (current_task s', Q') = (if postponed_schedule s
       then reschedule (u = TASK_STATE_RUNNING) (current_task s, Q) else (current_task s, Q)) \<and>
    rest s' Q' \<and> same_env s s'"
proof -
  let ?s = "s\<lparr>spin := (spin s)(a := 0)\<rparr>"
  have "ready_to_unlock ?s Q u" using assms by (auto simp: ready_to_unlock_def sched_wf_def cur_state_def)
  from unlock_done [OF this] assms(7) obtain s' Q' where "scheduler_unlock ?s = Inr s'"
    "(current_task s', Q') = (if postponed_schedule s
       then reschedule (u = TASK_STATE_RUNNING) (current_task s, Q) else (current_task s, Q))"
    "rest s' Q'" "same_env ?s s'" by (auto cong: if_cong)
  moreover have "spin_unlock a s = scheduler_unlock ?s" using assms(4) by (simp add: spin_unlock_def)
  ultimately show ?thesis by (intro exI [of _ s'] exI [of _ Q']) (simp add: same_env_def)
qed

text \<open>The state inside \<open>spin_lock\<close> \<dots> \<open>spin_unlock\<close>, at depth one.\<close>

definition spun :: "addr \<Rightarrow> sched \<Rightarrow> sched" where
  "spun a s = (locked s)\<lparr>spin := (spin s)(a := 1)\<rparr>"

lemma spin_lock_ok:
  assumes "rest s Q" "current_task s \<noteq> 0"
  shows "spin_lock a s = Inr (spun a s)"
  using rest_running [OF assms] scheduler_lock_ok [of s] by (simp add: spin_lock_def spun_def)

lemma spun_simps [simp]:
  "tasks (spun a s) = tasks s" "queues (spun a s) = queues s" "current_task (spun a s) = current_task s"
  "blocked_list (spun a s) = blocked_list s" "scheduler_ready (spun a s) = scheduler_ready s"
  "\<not> ints (spun a s)" "scheduler_lock_count (spun a s) = 1" "spin (spun a s) = (spin s)(a := 1)"
  "sem_count (spun a s) = sem_count s" "in_irq (spun a s) = in_irq s" "cur_state (spun a s) = cur_state s"
  "postponed_schedule (spun a s) = postponed_schedule s" "sched_wf (spun a s) Q = sched_wf s Q"
  "same_env s (spun a s)"
  by (simp_all add: spun_def cur_state_def sched_wf_def same_env_def)

text \<open>\<open>semaphore_acquire\<close> takes a unit when there is one; otherwise the caller is queued on
  the semaphore and the CPU goes to the next ready task. The count never wraps, and the spin
  lock is free again when the function ends.\<close>

lemma semaphore_acquire_ok:
  assumes "rest s Q" "current_task s \<noteq> 0"
  shows "\<exists>s' Q'. semaphore_acquire a s = Inr s' \<and> rest s' Q' \<and>
    (if 0 < sem_count s a
     then (current_task s', Q') = (current_task s, Q) \<and> sem_count s' = (sem_count s)(a := sem_count s a - 1)
     else (current_task s', Q') = spec_block (BlockQ a) (current_task s, Q) \<and> sem_count s' = sem_count s)"
proof -
  note R = rest_running [OF assms]
  note sl = spin_lock_ok [OF assms, of a]
  have sp: "(spin s)(a := 1) = (\<lambda>_. 0)(a := 1)" using R(4) by auto
  show ?thesis
  proof (cases "0 < sem_count s a")
    case True
    let ?s = "(spun a s)\<lparr>sem_count := (sem_count s)(a := sem_count s a - 1)\<rparr>"
    have "sched_wf ?s Q" "cur_state ?s = Some TASK_STATE_RUNNING"
      using R by (auto simp: sched_wf_def cur_state_def)
    then obtain s' Q' where s': "spin_unlock a ?s = Inr s'" "(current_task s', Q') = (current_task s, Q)"
        "rest s' Q'" "same_env ?s s'"
      using spin_unlock_done [of ?s Q a TASK_STATE_RUNNING] R sp by auto
    have "semaphore_acquire a s = spin_unlock a ?s" using sl True by (simp add: semaphore_acquire_def)
    then show ?thesis using s' True by (intro exI [of _ s'] exI [of _ Q']) (simp add: same_env_def)
  next
    case False
    let ?s = "(spun a s)\<lparr>scheduler_lock_count := 2\<rparr>"
    have "sched_wf ?s Q" "cur_state ?s = Some TASK_STATE_RUNNING"
      using R by (auto simp: sched_wf_def cur_state_def)
    then obtain s1 where s1: "task_block_locked (BlockQ a) (current_task s) TASK_STATE_BLOCKED_LOCK ?s = Inr s1"
        "sched_wf s1 (Q(BlockQ a := Q (BlockQ a) @ [current_task s]))"
        "cur_state s1 = Some TASK_STATE_BLOCKED_LOCK" "queue_frame ?s s1"
      using task_block_locked_ok [of ?s Q "BlockQ a" TASK_STATE_BLOCKED_LOCK] by auto
    note F = queue_frame_simps [OF s1(4)]
    let ?s2 = "s1\<lparr>postponed_schedule := True, scheduler_lock_count := 1\<rparr>"
    have "sched_wf ?s2 (Q(BlockQ a := Q (BlockQ a) @ [current_task s]))" "cur_state ?s2 = Some TASK_STATE_BLOCKED_LOCK"
      using s1 by (auto simp: sched_wf_def cur_state_def)
    then obtain s' Q' where s': "spin_unlock a ?s2 = Inr s'"
        "(current_task s', Q') = reschedule False (current_task s, Q(BlockQ a := Q (BlockQ a) @ [current_task s]))"
        "rest s' Q'" "same_env ?s2 s'"
      using spin_unlock_done [of ?s2 "Q(BlockQ a := Q (BlockQ a) @ [current_task s])" a TASK_STATE_BLOCKED_LOCK] F R sp by auto
    have "kbind (schedule s1) scheduler_unlock = Inr ?s2"
      using schedule_ok [of s1] unlock_nested [of "s1\<lparr>postponed_schedule := True\<rparr>" 0] F R
      by (simp add: numeral_2_eq_2)
    then have "semaphore_acquire a s = spin_unlock a ?s2"
      using sl False s1(1) lock_nested [of "spun a s" 0]
      by (auto simp: semaphore_acquire_def numeral_2_eq_2)
    then show ?thesis using s' False F
      by (intro exI [of _ s'] exI [of _ Q']) (simp add: same_env_def spec_block_def)
  qed
qed

text \<open>\<open>semaphore_release\<close> hands the unit to the longest waiting task, if there is one: the
  count then stays as it is, so no other task can take the unit first (no lost wake-up).
  Otherwise the count goes up by one.\<close>

lemma semaphore_release_ok:
  assumes "rest s Q" "current_task s \<noteq> 0"
  shows "\<exists>s' Q'. semaphore_release a s = Inr s' \<and> rest s' Q' \<and>
    (current_task s', Q') = spec_unblock_next (BlockQ a) (current_task s, Q) \<and>
    sem_count s' = (if Q (BlockQ a) = [] then (sem_count s)(a := sem_count s a + 1) else sem_count s)"
proof -
  note R = rest_running [OF assms]
  note sl = spin_lock_ok [OF assms, of a]
  have sp: "(spin s)(a := 1) = (\<lambda>_. 0)(a := 1)" using R(4) by auto
  have first: "q_first (queues s (BlockQ a)) = 0 \<longleftrightarrow> Q (BlockQ a) = []"
    using R(1) qpath_null [OF queues_repD(2)] by (auto simp: sched_wf_def)
  show ?thesis
  proof (cases "Q (BlockQ a)")
    case Nil
    let ?s = "(spun a s)\<lparr>sem_count := (sem_count s)(a := sem_count s a + 1)\<rparr>"
    have "sched_wf ?s Q" "cur_state ?s = Some TASK_STATE_RUNNING"
      using R by (auto simp: sched_wf_def cur_state_def)
    then obtain s' Q' where s': "spin_unlock a ?s = Inr s'" "(current_task s', Q') = (current_task s, Q)"
        "rest s' Q'" "same_env ?s s'"
      using spin_unlock_done [of ?s Q a TASK_STATE_RUNNING] R sp by auto
    have "semaphore_release a s = spin_unlock a ?s" using sl first Nil by (simp add: semaphore_release_def)
    then show ?thesis using s' Nil
      by (intro exI [of _ s'] exI [of _ Q']) (simp add: same_env_def spec_unblock_next_def)
  next
    case (Cons x xs)
    let ?s = "(spun a s)\<lparr>scheduler_lock_count := 2\<rparr>"
    let ?Q = "(Q(BlockQ a := xs))(ReadyQ := Q ReadyQ @ [x])"
    have "sched_wf ?s Q" "cur_state ?s = Some TASK_STATE_RUNNING"
      using R by (auto simp: sched_wf_def cur_state_def)
    then obtain s1 where s1: "task_unblock_next (BlockQ a) ?s = Inr s1" "sched_wf s1 ?Q"
        "cur_state s1 = Some TASK_STATE_RUNNING" "queue_frame (?s\<lparr>postponed_schedule := True\<rparr>) s1"
      using unblock_next_nested [of ?s Q 1 "BlockQ a" x xs] Cons by auto
    note F = queue_frame_simps [OF s1(4)]
    let ?s2 = "s1\<lparr>scheduler_lock_count := 1\<rparr>"
    have "sched_wf ?s2 ?Q" "cur_state ?s2 = Some TASK_STATE_RUNNING"
      using s1 by (auto simp: sched_wf_def cur_state_def)
    then obtain s' Q' where s': "spin_unlock a ?s2 = Inr s'"
        "(current_task s', Q') = reschedule True (current_task s, ?Q)" "rest s' Q'" "same_env ?s2 s'"
      using spin_unlock_done [of ?s2 ?Q a TASK_STATE_RUNNING] F R sp by auto
    have "semaphore_release a s = spin_unlock a ?s2"
      using sl first Cons s1(1) lock_nested [of "spun a s" 0] unlock_nested [of s1 0] F
      by (simp add: semaphore_release_def numeral_2_eq_2)
    then show ?thesis using s' Cons F
      by (intro exI [of _ s'] exI [of _ Q']) (simp add: same_env_def spec_unblock_next_def)
  qed
qed

section \<open>Mutexes\<close>

text \<open>\<open>mutex_wf\<close>: a mutex whose word is 0 has no owner and no waiters.\<close>

definition mutex_wf :: "addr \<Rightarrow> sched \<Rightarrow> (qid \<Rightarrow> addr list) \<Rightarrow> bool" where
  "mutex_wf m s Q \<longleftrightarrow> mutex_word s m \<le> 1 \<and>
     (mutex_word s m = 0 \<longrightarrow> locked_task s m = 0 \<and> Q (BlockQ m) = [])"

lemma rest_mutex [simp]:
  "rest (s\<lparr>mutex_word := w\<rparr>) Q = rest s Q" "rest (s\<lparr>locked_task := o'\<rparr>) Q = rest s Q"
  by (simp_all add: rest_def sched_wf_def cur_state_def)

lemma reschedule_blockq: "(c, Q') = reschedule r (cur, Q) \<Longrightarrow> Q' (BlockQ b) = Q (BlockQ b)"
  by (auto simp: reschedule_def split: list.splits if_splits)

text \<open>\<open>mutex_lock\<close> takes a free mutex for the caller; a mutex that is taken, or is being
  handed over, keeps its owner and the caller waits for it in line.\<close>

lemma mutex_lock_ok:
  assumes "rest s Q" "current_task s \<noteq> 0" "mutex_word s m = 0 \<longrightarrow> locked_task s m = 0"
  shows "\<exists>s' Q'. mutex_lock m s = Inr s' \<and> rest s' Q' \<and> mutex_wf m s' Q' \<and> mutex_word s' m = 1 \<and>
    (if mutex_word s m = 0
     then (current_task s', Q') = (current_task s, Q) \<and> locked_task s' = (locked_task s)(m := current_task s)
     else (current_task s', Q') = spec_block (BlockQ m) (current_task s, Q) \<and> locked_task s' = locked_task s)"
proof (cases "mutex_word s m = 0")
  case True
  then show ?thesis using assms
    by (auto simp: mutex_lock_def mutex_acquired_def mutex_wf_def Let_def)
next
  case False
  let ?s = "s\<lparr>mutex_word := (mutex_word s)(m := 1)\<rparr>"
  have r: "rest ?s Q" using assms(1) by simp
  note R = rest_running [OF r]
  obtain s' Q' where s': "kbind (task_block_locked (BlockQ m) (current_task s) TASK_STATE_BLOCKED_LOCK (locked ?s))
      (\<lambda>s. kbind (schedule s) scheduler_unlock) = Inr s'"
    "(current_task s', Q') = spec_block (BlockQ m) (current_task s, Q)" "rest s' Q'" "same_env (locked ?s) s'"
    using block_and_switch [of "locked ?s" Q "BlockQ m" TASK_STATE_BLOCKED_LOCK] R assms(2) by auto
  have "mutex_lock m s = Inr s'"
    using scheduler_lock_ok [of ?s] R False s'(1) assms(2) by (simp add: mutex_lock_def Let_def)
  then show ?thesis using s' False
    by (intro exI [of _ s'] exI [of _ Q']) (simp add: same_env_def mutex_wf_def)
qed

text \<open>\<open>mutex_unlock\<close> by the owner releases the mutex. With waiters the word stays 1, so the
  mutex passes to the longest waiting task and nobody else can take it; without, it is free.\<close>

lemma mutex_unlock_ok:
  assumes "rest s Q" "current_task s \<noteq> 0" "mutex_word s m = 1" "locked_task s m = current_task s"
  shows "\<exists>s' Q'. mutex_unlock m s = Inr s' \<and> rest s' Q' \<and> mutex_wf m s' Q' \<and>
    locked_task s' = (locked_task s)(m := 0) \<and>
    (current_task s', Q') = spec_unblock_next (BlockQ m) (current_task s, Q) \<and>
    mutex_word s' m = (if Q (BlockQ m) = [] then 0 else 1)"
proof -
  note w = assms(3)
  let ?s = "s\<lparr>mutex_word := (mutex_word s)(m := 1), locked_task := (locked_task s)(m := 0)\<rparr>"
  have r: "rest ?s Q" using assms(1) by simp
  have first: "q_first (queues s (BlockQ m)) = 0 \<longleftrightarrow> Q (BlockQ m) = []"
    using rest_running(1) [OF assms(1,2)] qpath_null [OF queues_repD(2)] by (auto simp: sched_wf_def)
  show ?thesis
  proof (cases "Q (BlockQ m)")
    case Nil
    then show ?thesis using assms w first
      by (auto simp: mutex_unlock_def Let_def mutex_wf_def spec_unblock_next_def)
  next
    case (Cons x xs)
    from unblock_next_ok [OF r, of "BlockQ m"] assms(2) obtain s' Q' where
      s': "task_unblock_next (BlockQ m) ?s = Inr s'"
        "(current_task s', Q') = spec_unblock_next (BlockQ m) (current_task s, Q)" "rest s' Q'" "same_env ?s s'"
      by auto
    have "mutex_unlock m s = task_unblock_next (BlockQ m) ?s"
      using w assms(4) first Cons by (simp add: mutex_unlock_def Let_def)
    then show ?thesis using s' Cons
      by (intro exI [of _ s'] exI [of _ Q']) (simp add: same_env_def mutex_wf_def)
  qed
qed

section \<open>Sleeping\<close>

definition wait_of :: "sched \<Rightarrow> addr \<Rightarrow> u64 option" where
  "wait_of s a = map_option t_wait (tasks s a)"

lemma wait_of_payload: "payload (tasks s') = payload (tasks s) \<Longrightarrow> wait_of s' = wait_of s"
proof
  fix a assume "payload (tasks s') = payload (tasks s)"
  then have "payload (tasks s') a = payload (tasks s) a" by simp
  then show "wait_of s' a = wait_of s a"
    by (cases "tasks s a"; cases "tasks s' a") (auto simp: payload_def wait_of_def)
qed

lemma blocked_ok_wait:
  assumes "blocked_ok bl Q"
  shows "blocked_ok bl (Q(WaitQ := Q WaitQ @ [a]))"
proof -
  have "\<exists>q. blocks q \<and> x \<in> set ((Q(WaitQ := Q WaitQ @ [a])) q)" if x: "x \<in> set bl" for x
  proof -
    obtain q where "blocks q" "x \<in> set (Q q)" using x assms by (auto simp: blocked_ok_def)
    then show ?thesis by (intro exI [of _ q]) auto
  qed
  then show ?thesis using assms by (simp add: blocked_ok_def)
qed

text \<open>\<open>task_sleep_until\<close>: a target that has passed is a no-op, otherwise the caller enters the wait
  queue with that target.\<close>

lemma task_sleep_until_ok:
  assumes "rest s Q" "current_task s \<noteq> 0"
  shows "\<exists>s' Q'. task_sleep_until target s = Inr s' \<and> rest s' Q' \<and> timer_ticks s' = timer_ticks s \<and>
    (if target \<le> timer_ticks s then s' = s \<and> Q' = Q
     else (current_task s', Q') = spec_block WaitQ (current_task s, Q) \<and>
          wait_of s' = (wait_of s)(current_task s \<mapsto> target))"
proof (cases "target \<le> timer_ticks s")
  case True
  then show ?thesis using assms by (auto simp: task_sleep_until_def)
next
  case False
  note R = rest_running [OF assms]
  have rep: "queues_rep (tasks s) (queues s) Q" and st: "states_ok (tstate (tasks s)) (current_task s) Q"
    and bl: "blocked_ok (blocked_list s) Q" "scheduler_ready s" using R(1) by (auto simp: sched_wf_def)
  obtain t where t: "tasks s (current_task s) = Some t" "t_state t = TASK_STATE_RUNNING"
    using R(5) by (auto simp: cur_state_def tstate_Some)
  have cq: "current_task s \<notin> set (Q q)" for q using running_not_queued [OF st] R(5) by (simp add: cur_state_def)
  let ?t = "t\<lparr>t_state := TASK_STATE_WAITING, t_wait := target\<rparr>"
  let ?s = "(locked s)\<lparr>tasks := (tasks s)(current_task s \<mapsto> ?t)\<rparr>"
  let ?Q = "Q(WaitQ := Q WaitQ @ [current_task s])"
  have "queues_rep (tasks ?s) (queues ?s) Q" using rep t(1) by simp
  then obtain s1 where s1: "task_queue WaitQ (current_task s) ?s = Inr s1"
      "queues_rep (tasks s1) (queues s1) ?Q" "only_links ?s s1"
    using task_queue_ok [of ?s Q "current_task s" ?t WaitQ] cq by auto
  note L = only_links_simps [OF s1(3)] and T = only_links_tasks [OF s1(3)]
  have ts: "tstate (tasks s1) = (tstate (tasks s))(current_task s \<mapsto> TASK_STATE_WAITING)" using T(1) by simp
  have "states_ok (tstate (tasks s1)) (current_task s) ?Q"
    unfolding ts using states_ok_enqueue [OF st cq, of WaitQ TASK_STATE_WAITING] by simp
  then have wf1: "sched_wf s1 ?Q" using s1(2) L bl blocked_ok_wait [OF bl(1)] by (simp add: sched_wf_def)
  have c1: "cur_state s1 = Some TASK_STATE_WAITING" using ts L by (simp add: cur_state_def)
  obtain s' Q' where s': "kbind (schedule s1) scheduler_unlock = Inr s'"
      "(current_task s', Q') = reschedule False (current_task s, ?Q)" "rest s' Q'" "same_env s1 s'"
    using schedule_unlock [OF wf1 _ _ _ c1] L R by auto
  have "task_sleep_until target s = Inr s'"
    using False scheduler_lock_ok [of s] R t upd_task_ok [of "locked s" "current_task s" t] s1(1) s'(1) assms(2)
    by (auto simp: task_sleep_until_def assert_panic_def ld_task_def)
  moreover have "payload (tasks s') = payload (tasks ?s)" using s'(4) T(2) by (simp add: same_env_def)
  then have "wait_of s' = wait_of ?s" by (rule wait_of_payload)
  then have "wait_of s' = (wait_of s)(current_task s \<mapsto> target)" by (auto simp: wait_of_def)
  ultimately show ?thesis using s' False L
    by (intro exI [of _ s'] exI [of _ Q']) (simp add: same_env_def spec_block_def)
qed

section \<open>The timer\<close>

text \<open>
  \<open>scheduler_wakeup\<close> walks over the old wait queue while it fills the ready queue and the new
  wait queue. The tasks not yet visited are a chain \<open>xs\<close> that no queue head points to;
  \<open>pending h Q xs s\<close> sees it as the contents of \<open>terminated_queue\<close>, which the code never uses.
\<close>

definition pending :: "task_queue_t \<Rightarrow> (qid \<Rightarrow> addr list) \<Rightarrow> addr list \<Rightarrow> sched \<Rightarrow> bool" where
  "pending h Q xs s \<longleftrightarrow> Q TerminatedQ = [] \<and> queues s TerminatedQ = \<lparr>q_first = 0, q_last = 0\<rparr> \<and>
     queues_rep (tasks s) ((queues s)(TerminatedQ := h)) (Q(TerminatedQ := xs))"

lemma pending_enqueue:
  assumes p: "pending h Q xs s" and a: "tasks s a = Some t" "\<And>q. a \<notin> set (Q q)" "a \<notin> set xs"
    and "\<not> ints s" and q: "q \<noteq> TerminatedQ"
  shows "\<exists>s'. task_queue q a s = Inr s' \<and> pending h (Q(q := Q q @ [a])) xs s' \<and> only_links s s'"
proof -
  let ?s = "s\<lparr>queues := (queues s)(TerminatedQ := h)\<rparr>"
  have "a \<notin> set ((Q(TerminatedQ := xs)) q')" for q' using a by simp
  then obtain s1 where s1: "task_queue q a ?s = Inr s1" "only_links ?s s1"
      "queues_rep (tasks s1) (queues s1) ((Q(TerminatedQ := xs))(q := Q q @ [a]))"
    using task_queue_ok [of ?s "Q(TerminatedQ := xs)" a t q] p a(1) assms(5) q by (auto simp: pending_def)
  let ?s' = "s1\<lparr>queues := (queues s1)(TerminatedQ := queues s TerminatedQ)\<rparr>"
  have "task_queue q a s = Inr ?s' \<and> queues s1 TerminatedQ = h"
    using s1(1) q assms(5) a(1)
    by (cases s) (auto simp: task_queue_def task_defs kassert_def fun_upd_twist split: if_splits option.splits)
  moreover have "only_links s ?s'" using s1(2) by (cases s, cases s1) (auto simp: only_links_def)
  moreover have "(queues s1)(TerminatedQ := h) = queues s1" using calculation(1) by auto
  ultimately show ?thesis using s1(3) p q
    by (intro exI [of _ ?s']) (auto simp: pending_def fun_upd_twist)
qed

lemma pending_unlink:
  assumes p: "pending h Q (a # xs) s" and t: "tasks s a = Some t"
  shows "pending \<lparr>q_first = t_next t, q_last = end_of 0 xs\<rparr> Q xs
    (s\<lparr>tasks := (tasks s)(a \<mapsto> t\<lparr>t_next := 0\<rparr>)\<rparr>)" "a \<notin> set (Q q)" "a \<notin> set xs"
proof -
  have rep: "queues_rep (tasks s) ((queues s)(TerminatedQ := h)) (Q(TerminatedQ := a # xs))"
    and Q: "Q TerminatedQ = []" using p by (auto simp: pending_def)
  from queues_rep_unlink [OF rep, of TerminatedQ a xs t] t
  show "pending \<lparr>q_first = t_next t, q_last = end_of 0 xs\<rparr> Q xs
    (s\<lparr>tasks := (tasks s)(a \<mapsto> t\<lparr>t_next := 0\<rparr>)\<rparr>)" using p by (simp add: pending_def)
  show "a \<notin> set xs" using queues_repD(4) [OF rep, of TerminatedQ] by simp
  show "a \<notin> set (Q q)" using queues_repD(5) [OF rep, of a TerminatedQ q] Q by (cases "q = TerminatedQ") auto
qed

lemma pending_upd:
  "pending h Q xs s \<Longrightarrow> tasks s a = Some t \<Longrightarrow> t_next t' = t_next t \<Longrightarrow>
   pending h Q xs (s\<lparr>tasks := (tasks s)(a \<mapsto> t')\<rparr>)"
  by (simp add: pending_def)

definition due :: "sched \<Rightarrow> addr \<Rightarrow> bool" where
  "due s a = (case wait_of s a of None \<Rightarrow> False | Some w \<Rightarrow> w \<le> timer_ticks s)"

lemma due_cong: "tasks s' = tasks s \<Longrightarrow> timer_ticks s' = timer_ticks s \<Longrightarrow> due s' = due s"
  by (rule ext) (simp add: due_def wait_of_def split: option.split)

text \<open>The frame of the wake-up: \<open>wait_target\<close> is reset for the tasks \<open>D\<close> that were woken.\<close>

definition wake_frame :: "addr set \<Rightarrow> sched \<Rightarrow> sched \<Rightarrow> bool" where
  "wake_frame D s s' \<longleftrightarrow> wait_of s' = (\<lambda>a. if a \<in> D then Some 0 else wait_of s a) \<and>
     s'\<lparr>tasks := tasks s, queues := queues s, blocked_list := blocked_list s\<rparr> = s"

lemma wake_frame_simps:
  assumes "wake_frame D s s'"
  shows "ints s' = ints s" "current_task s' = current_task s"
    "scheduler_ready s' = scheduler_ready s" "scheduler_lock_count s' = scheduler_lock_count s"
    "postponed_schedule s' = postponed_schedule s" "in_irq s' = in_irq s" "idle_of s' = idle_of s"
    "timer_ticks s' = timer_ticks s" "sem_count s' = sem_count s" "spin s' = spin s"
    "mutex_word s' = mutex_word s" "locked_task s' = locked_task s" "enable_ints s' = enable_ints s"
  using assms by (cases s, cases s'; auto simp: wake_frame_def)+

lemma wake_frame_trans: "wake_frame D s s' \<Longrightarrow> wake_frame E s' s'' \<Longrightarrow> wake_frame (D \<union> E) s s''"
  by (cases s, cases s', cases s'') (auto simp: wake_frame_def)

lemma wake_frame_links: "only_links s s' \<Longrightarrow> wake_frame {} s s'"
  using wait_of_payload [OF only_links_tasks(2)] by (cases s, cases s') (auto simp: wake_frame_def only_links_def)

lemma wake_frame_head:
  assumes "wake_frame D (upd_queue q f s) s'"
  shows "wake_frame D s s'"
proof -
  have w: "wait_of (upd_queue q f s) = wait_of s" by (simp add: wait_of_def upd_queue_def fun_eq_iff)
  have "s'\<lparr>tasks := tasks s, queues := queues s, blocked_list := blocked_list s\<rparr> = s"
    if "s'\<lparr>tasks := tasks s, queues := r, blocked_list := blocked_list s\<rparr> = s\<lparr>queues := r\<rparr>" for r
    using that by (cases s, cases s') simp
  moreover have "s'\<lparr>tasks := tasks s, queues := (queues s)(q := f (queues s q)), blocked_list := blocked_list s\<rparr> =
      s\<lparr>queues := (queues s)(q := f (queues s q))\<rparr>"
    using assms by (simp add: wake_frame_def upd_queue_def)
  ultimately show ?thesis using assms unfolding wake_frame_def w by blast
qed

lemma wake_frame_wait:
  "tasks s a = Some t \<Longrightarrow> t_wait t' = (if a \<in> D then 0 else t_wait t) \<Longrightarrow> D \<subseteq> {a} \<Longrightarrow>
   wake_frame D s (s\<lparr>tasks := (tasks s)(a \<mapsto> t')\<rparr>)"
  unfolding wake_frame_def by (intro conjI, fastforce simp: wait_of_def, cases s, simp)

lemma wake_frame_blocked: "wake_frame D s s' \<Longrightarrow> wake_frame D s (s'\<lparr>blocked_list := bl\<rparr>)"
proof -
  have "wait_of (s'\<lparr>blocked_list := bl\<rparr>) = wait_of s'" by (simp add: wait_of_def fun_eq_iff)
  then show "wake_frame D s s' \<Longrightarrow> ?thesis" by (simp add: wake_frame_def)
qed

lemma wakeup_one_keep:
  assumes p: "pending h Q (a # xs) s" and t: "tasks s a = Some t" "t_state t = TASK_STATE_WAITING"
    and st: "states_ok (tstate (tasks s)) (current_task s) Q" and l: "\<not> ints s"
    and d: "\<not> due s a"
  shows "\<exists>s'. wakeup_one a t s = Inr s' \<and> pending \<lparr>q_first = t_next t, q_last = end_of 0 xs\<rparr> (Q(WaitQ := Q WaitQ @ [a])) xs s' \<and>
    states_ok (tstate (tasks s')) (current_task s') (Q(WaitQ := Q WaitQ @ [a])) \<and>
    tstate (tasks s') = tstate (tasks s) \<and> blocked_list s' = blocked_list s \<and> wake_frame {} s s'"
proof -
  let ?s = "s\<lparr>tasks := (tasks s)(a \<mapsto> t\<lparr>t_next := 0\<rparr>)\<rparr>"
  note u = pending_unlink [OF p t(1)]
  obtain s' where s': "task_queue WaitQ a ?s = Inr s'" "only_links ?s s'"
      "pending \<lparr>q_first = t_next t, q_last = end_of 0 xs\<rparr> (Q(WaitQ := Q WaitQ @ [a])) xs s'"
    using pending_enqueue [OF u(1) _ u(2,3), of "t\<lparr>t_next := 0\<rparr>" WaitQ] l by auto
  have "\<not> t_wait t \<le> timer_ticks s" using d t by (simp add: due_def wait_of_def)
  then have "wakeup_one a t s = Inr s'"
    using s'(1) t(1) upd_task_ok [OF t(1)] by (simp add: wakeup_one_def)
  moreover have ts: "tstate (tasks s') = tstate (tasks s)"
    using only_links_tasks(1) [OF s'(2)] t by (auto simp: tstate_def)
  moreover have "states_ok (tstate (tasks s')) (current_task s') (Q(WaitQ := Q WaitQ @ [a]))"
    using states_ok_enqueue [OF st u(2), of WaitQ TASK_STATE_WAITING] ts t only_links_simps(2) [OF s'(2)]
    by (simp add: fun_upd_idem tstate_Some)
  moreover have "wake_frame {} s s'"
    using wake_frame_trans [OF wake_frame_wait [OF t(1)] wake_frame_links [OF s'(2)]] by simp
  ultimately show ?thesis using s'(3) only_links_simps(3) [OF s'(2)] by auto
qed

lemma wakeup_one_wake:
  assumes p: "pending h Q (a # xs) s" and t: "tasks s a = Some t"
    and st: "states_ok (tstate (tasks s)) (current_task s) Q" and l: "\<not> ints s" "scheduler_lock_count s \<noteq> 0"
    and d: "due s a"
  shows "\<exists>s'. wakeup_one a t s = Inr s' \<and> pending \<lparr>q_first = t_next t, q_last = end_of 0 xs\<rparr> (Q(ReadyQ := Q ReadyQ @ [a])) xs s' \<and>
    states_ok (tstate (tasks s')) (current_task s') (Q(ReadyQ := Q ReadyQ @ [a])) \<and>
    tstate (tasks s') = (tstate (tasks s))(a \<mapsto> TASK_STATE_READY) \<and>
    blocked_list s' = remove1 a (blocked_list s) \<and> wake_frame {a} s s'"
proof -
  note u = pending_unlink [OF p t(1)]
  let ?t = "t\<lparr>t_next := 0, t_wait := 0, t_state := TASK_STATE_READY\<rparr>"
  let ?s = "s\<lparr>tasks := (tasks s)(a \<mapsto> ?t)\<rparr>"
  have "pending \<lparr>q_first = t_next t, q_last = end_of 0 xs\<rparr> Q xs ?s"
    using pending_upd [OF u(1), of a "t\<lparr>t_next := 0\<rparr>" ?t] by simp
  then obtain s1 where s1: "task_queue ReadyQ a ?s = Inr s1" "only_links ?s s1"
      "pending \<lparr>q_first = t_next t, q_last = end_of 0 xs\<rparr> (Q(ReadyQ := Q ReadyQ @ [a])) xs s1"
    using pending_enqueue [of _ Q xs ?s a ?t ReadyQ] u(2,3) l by auto
  let ?s' = "s1\<lparr>blocked_list := remove1 a (blocked_list s)\<rparr>"
  note L = only_links_simps [OF s1(2)]
  have "t_wait t \<le> timer_ticks s" using d t by (simp add: due_def wait_of_def)
  moreover have "a \<noteq> 0" using p t queues_repD(1) by (metis option.distinct(1) pending_def)
  ultimately have "wakeup_one a t s = Inr ?s'"
    using s1(1) t(1) l L by (simp add: wakeup_one_def task_unblock_locked_def task_defs)
  moreover have ts: "tstate (tasks ?s') = (tstate (tasks s))(a \<mapsto> TASK_STATE_READY)"
    using only_links_tasks(1) [OF s1(2)] by simp
  moreover have "states_ok (tstate (tasks ?s')) (current_task ?s') (Q(ReadyQ := Q ReadyQ @ [a]))"
    unfolding ts using states_ok_enqueue [OF st u(2), of ReadyQ TASK_STATE_READY] L by simp
  moreover have "wake_frame {a} s s1"
    using wake_frame_trans [OF wake_frame_wait [OF t(1), of ?t "{a}"] wake_frame_links [OF s1(2)]] by simp
  then have "wake_frame {a} s ?s'" by (rule wake_frame_blocked)
  ultimately show ?thesis using s1(3) by (intro exI [of _ ?s']) (simp add: pending_def)
qed

lemma wakeup_loop_ok:
  assumes "pending h Q xs s" "states_ok (tstate (tasks s)) (current_task s) Q"
    "blocked_ok (blocked_list s) (Q(WaitQ := Q WaitQ @ xs))"
    "\<forall>a \<in> set xs. tstate (tasks s) a = Some TASK_STATE_WAITING"
    "\<not> ints s" "scheduler_lock_count s \<noteq> 0" "scheduler_ready s"
  shows "\<exists>s'. wakeup_loop (q_first h) s = Some (Inr s') \<and>
    sched_wf s' (Q(WaitQ := Q WaitQ @ filter (\<lambda>a. \<not> due s a) xs, ReadyQ := Q ReadyQ @ filter (due s) xs)) \<and>
    (\<forall>a. a \<notin> set xs \<longrightarrow> tstate (tasks s') a = tstate (tasks s) a) \<and>
    wake_frame {a \<in> set xs. due s a} s s'"
  using assms
proof (induction xs arbitrary: h Q s)
  case Nil
  have rep: "queues_rep (tasks s) ((queues s)(TerminatedQ := h)) (Q(TerminatedQ := []))"
    and T: "Q TerminatedQ = []" "queues s TerminatedQ = \<lparr>q_first = 0, q_last = 0\<rparr>"
    using Nil.prems(1) by (auto simp: pending_def)
  from queues_repD(2,3) [OF rep, of TerminatedQ] have "q_first h = 0" "q_last h = 0" by auto
  then have "h = \<lparr>q_first = 0, q_last = 0\<rparr>" by (cases h) simp
  with T rep have "queues_rep (tasks s) (queues s) Q" by (simp add: fun_upd_idem)
  then have "sched_wf s Q" using Nil.prems by (simp add: sched_wf_def fun_upd_idem)
  moreover have "wake_frame {} s s" by (cases s) (simp add: wake_frame_def)
  ultimately show ?case using \<open>q_first h = 0\<close> by (subst wakeup_loop.simps) (simp add: fun_upd_idem)
next
  case (Cons a xs)
  obtain t where t: "tasks s a = Some t" "t_state t = TASK_STATE_WAITING"
    using Cons.prems(4) by (auto simp: tstate_Some)
  have rep: "queues_rep (tasks s) ((queues s)(TerminatedQ := h)) (Q(TerminatedQ := a # xs))"
    using Cons.prems(1) by (simp add: pending_def)
  from queues_repD(2) [OF rep, of TerminatedQ] have h: "q_first h = a" "a \<noteq> 0" by auto
  note u = pending_unlink [OF Cons.prems(1) t(1)]
  define q where "q = (if due s a then ReadyQ else WaitQ)"
  let ?h = "\<lparr>q_first = t_next t, q_last = end_of 0 xs\<rparr>"
  have "\<exists>s1. wakeup_one a t s = Inr s1 \<and> pending ?h (Q(q := Q q @ [a])) xs s1 \<and>
      states_ok (tstate (tasks s1)) (current_task s1) (Q(q := Q q @ [a])) \<and>
      (\<forall>b. b \<noteq> a \<longrightarrow> tstate (tasks s1) b = tstate (tasks s) b) \<and>
      blocked_ok (blocked_list s1) ((Q(q := Q q @ [a]))(WaitQ := (Q(q := Q q @ [a])) WaitQ @ xs)) \<and>
      wake_frame {x \<in> {a}. due s a} s s1"
  proof (cases "due s a")
    case True
    obtain s1 where s1: "wakeup_one a t s = Inr s1" "pending ?h (Q(ReadyQ := Q ReadyQ @ [a])) xs s1"
      "states_ok (tstate (tasks s1)) (current_task s1) (Q(ReadyQ := Q ReadyQ @ [a]))"
      "tstate (tasks s1) = (tstate (tasks s))(a \<mapsto> TASK_STATE_READY)"
      "blocked_list s1 = remove1 a (blocked_list s)" "wake_frame {a} s s1"
      using wakeup_one_wake [OF Cons.prems(1) t(1) Cons.prems(2,5,6) True] by blast
    have "blocked_ok (remove1 a (blocked_list s)) (Q(WaitQ := Q WaitQ @ xs))"
      by (rule blocked_ok_remove [OF Cons.prems(3)]) (use u(2,3) in auto)
    then have "blocked_ok (remove1 a (blocked_list s)) ((Q(WaitQ := Q WaitQ @ xs))(ReadyQ := Q ReadyQ @ [a]))" by simp
    then show ?thesis using s1 True by (intro exI [of _ s1]) (simp add: q_def fun_upd_twist)
  next
    case False
    obtain s1 where s1: "wakeup_one a t s = Inr s1" "pending ?h (Q(WaitQ := Q WaitQ @ [a])) xs s1"
      "states_ok (tstate (tasks s1)) (current_task s1) (Q(WaitQ := Q WaitQ @ [a]))"
      "tstate (tasks s1) = tstate (tasks s)" "blocked_list s1 = blocked_list s" "wake_frame {} s s1"
      using wakeup_one_keep [OF Cons.prems(1) t Cons.prems(2,5) False] by blast
    moreover have "blocked_ok (blocked_list s1)
        ((Q(WaitQ := Q WaitQ @ [a]))(WaitQ := (Q(WaitQ := Q WaitQ @ [a])) WaitQ @ xs))"
      using Cons.prems(3) s1(5) by (simp only: fun_upd_same fun_upd_upd append_assoc append.simps)
    ultimately show ?thesis using False by (intro exI [of _ s1]) (simp add: q_def)
  qed
  then obtain s1 where s1: "wakeup_one a t s = Inr s1" "pending ?h (Q(q := Q q @ [a])) xs s1"
      "states_ok (tstate (tasks s1)) (current_task s1) (Q(q := Q q @ [a]))"
      "\<And>b. b \<noteq> a \<Longrightarrow> tstate (tasks s1) b = tstate (tasks s) b"
      "blocked_ok (blocked_list s1) ((Q(q := Q q @ [a]))(WaitQ := (Q(q := Q q @ [a])) WaitQ @ xs))"
      "wake_frame {x \<in> {a}. due s a} s s1" by blast
  note F = wake_frame_simps [OF s1(6)]
  have due: "due s1 x = due s x" if "x \<in> set xs" for x
  proof -
    have "x \<noteq> a" using u(3) that by auto
    then have "wait_of s1 x = wait_of s x" using s1(6) by (simp add: wake_frame_def)
    then show ?thesis using F(8) by (simp add: due_def split: option.split)
  qed
  then have fl: "filter (due s1) xs = filter (due s) xs" "filter (\<lambda>a. \<not> due s1 a) xs = filter (\<lambda>a. \<not> due s a) xs"
      "{x \<in> set xs. due s1 x} = {x \<in> set xs. due s x}" by (auto cong: filter_cong)
  have w: "\<forall>x \<in> set xs. tstate (tasks s1) x = Some TASK_STATE_WAITING"
    using Cons.prems(4) s1(4) u(3) by (metis list.set_intros(2))
  have "\<not> ints s1" "scheduler_lock_count s1 \<noteq> 0" "scheduler_ready s1" using F Cons.prems(5-7) by auto
  from Cons.IH [OF s1(2,3,5) w this, unfolded fl task_queue_t.select_convs] obtain s' where
    s': "wakeup_loop (t_next t) s1 = Some (Inr s')"
      "sched_wf s' ((Q(q := Q q @ [a]))(WaitQ := (Q(q := Q q @ [a])) WaitQ @ filter (\<lambda>a. \<not> due s a) xs,
         ReadyQ := (Q(q := Q q @ [a])) ReadyQ @ filter (due s) xs))"
      "\<And>b. b \<notin> set xs \<Longrightarrow> tstate (tasks s') b = tstate (tasks s1) b"
      "wake_frame {x \<in> set xs. due s x} s1 s'" by blast
  have loop: "wakeup_loop (q_first h) s = Some (Inr s')"
    using s'(1) s1(1) t h by (subst wakeup_loop.simps) (simp add: ld_task_def)
  have Qeq: "(Q(q := Q q @ [a]))(WaitQ := (Q(q := Q q @ [a])) WaitQ @ filter (\<lambda>a. \<not> due s a) xs,
         ReadyQ := (Q(q := Q q @ [a])) ReadyQ @ filter (due s) xs) =
      Q(WaitQ := Q WaitQ @ filter (\<lambda>a. \<not> due s a) (a # xs), ReadyQ := Q ReadyQ @ filter (due s) (a # xs))"
    by (auto simp: q_def fun_eq_iff)
  have D: "{x \<in> {a}. due s a} \<union> {x \<in> set xs. due s x} = {x \<in> set (a # xs). due s x}" by auto
  have ts: "tstate (tasks s') b = tstate (tasks s) b" if "b \<notin> set (a # xs)" for b
    using that s'(3) s1(4) by simp
  show ?case using loop s'(2) [unfolded Qeq] ts wake_frame_trans [OF s1(6) s'(4), unfolded D] by blast
qed

lemma queues_rep_move:
  assumes rep: "queues_rep tk qs Q" and v: "Q v = []" "q \<noteq> v"
  shows "queues_rep tk (qs(q := \<lparr>q_first = 0, q_last = 0\<rparr>, v := qs q)) (Q(q := [], v := Q q))"
proof -
  have "set ((Q(q := [], v := Q q)) q1) \<inter> set ((Q(q := [], v := Q q)) q2) = {}" if "q1 \<noteq> q2" for q1 q2
    using that rep v unfolding queues_rep_def by auto
  moreover have "t_next t = 0" if "tk a = Some t" "\<forall>q'. a \<notin> set ((Q(q := [], v := Q q)) q')" for a t
  proof -
    have "a \<notin> set (Q q')" for q'
      using that(2) [THEN spec, of v] that(2) [THEN spec, of q'] v by (cases "q' = v"; cases "q' = q") auto
    then show ?thesis using queues_repD(6) [OF rep that(1)] by blast
  qed
  ultimately show ?thesis using rep v unfolding queues_rep_def queue_rep_def by auto
qed

lemma states_ok_term: "states_ok st cur Q \<Longrightarrow> Q TerminatedQ = []"
  using states_okD(1) [of st cur Q _ TerminatedQ] by (cases "Q TerminatedQ") auto

text \<open>The loop of \<open>scheduler_wakeup\<close> from a locked state.\<close>

lemma wakeup_body:
  assumes wf: "sched_wf s Q" and l: "\<not> ints s" "scheduler_lock_count s \<noteq> 0"
  shows "\<exists>s'. wakeup_loop (q_first (queues s WaitQ)) (upd_queue WaitQ (\<lambda>_. \<lparr>q_first = 0, q_last = 0\<rparr>) s) = Some (Inr s') \<and>
    sched_wf s' (spec_wakeup (due s) Q) \<and> wake_frame {a \<in> set (Q WaitQ). due s a} s s' \<and>
    (\<forall>a. a \<notin> set (Q WaitQ) \<longrightarrow> tstate (tasks s') a = tstate (tasks s) a)"
proof -
  have rep: "queues_rep (tasks s) (queues s) Q" and st: "states_ok (tstate (tasks s)) (current_task s) Q"
    and bl: "blocked_ok (blocked_list s) Q" "scheduler_ready s" using wf by (auto simp: sched_wf_def)
  let ?s = "upd_queue WaitQ (\<lambda>_. \<lparr>q_first = 0, q_last = 0\<rparr>) s"
  let ?Q = "Q(WaitQ := [])"
  have T: "Q TerminatedQ = []" using states_ok_term [OF st] .
  have "queues s TerminatedQ = \<lparr>q_first = 0, q_last = 0\<rparr>"
    using queues_repD(2,3) [OF rep, of TerminatedQ] T by (cases "queues s TerminatedQ") auto
  then have p: "pending (queues s WaitQ) ?Q (Q WaitQ) ?s"
    using queues_rep_move [OF rep T, of WaitQ] T by (simp add: pending_def upd_queue_def)
  have st': "states_ok (tstate (tasks ?s)) (current_task ?s) ?Q"
    using states_ok_tail [OF st, of "[]" WaitQ] by (simp add: upd_queue_def)
  have bl': "blocked_ok (blocked_list ?s) (?Q(WaitQ := ?Q WaitQ @ Q WaitQ))"
    using bl by (simp add: upd_queue_def fun_upd_idem)
  have w: "\<forall>a \<in> set (Q WaitQ). tstate (tasks ?s) a = Some TASK_STATE_WAITING"
    using states_okD(1) [OF st, of _ WaitQ] by (fastforce simp: upd_queue_def)
  have d: "due ?s = due s" by (rule due_cong) (simp_all add: upd_queue_def)
  have "\<not> ints ?s" "scheduler_lock_count ?s \<noteq> 0" "scheduler_ready ?s" using l bl by (auto simp: upd_queue_def)
  from wakeup_loop_ok [OF p st' bl' w this, unfolded d] obtain s' where
    s': "wakeup_loop (q_first (queues s WaitQ)) ?s = Some (Inr s')"
      "sched_wf s' (?Q(WaitQ := ?Q WaitQ @ filter (\<lambda>a. \<not> due s a) (Q WaitQ), ReadyQ := ?Q ReadyQ @ filter (due s) (Q WaitQ)))"
      "\<forall>a. a \<notin> set (Q WaitQ) \<longrightarrow> tstate (tasks s') a = tstate (tasks ?s) a"
      "wake_frame {a \<in> set (Q WaitQ). due s a} ?s s'" by blast
  have "wake_frame {a \<in> set (Q WaitQ). due s a} s s'" using wake_frame_head [OF s'(4)] .
  then show ?thesis using s' by (intro exI [of _ s']) (simp add: spec_wakeup_def upd_queue_def)
qed

lemma wake_frame_dom: "wake_frame D s s' \<Longrightarrow> tasks s a \<noteq> None \<Longrightarrow> tasks s' a \<noteq> None"
proof -
  assume "wake_frame D s s'" "tasks s a \<noteq> None"
  then have "wait_of s' a \<noteq> None" by (auto simp: wake_frame_def wait_of_def)
  then show ?thesis by (simp add: wait_of_def)
qed

text \<open>The timer interrupt (\<open>irq0_handler\<close>) over a running task: the due sleepers become ready, in
  the order in which they went to sleep, and the running task is preempted.\<close>

abbreviation ticked :: "sched \<Rightarrow> sched" where
  "ticked s \<equiv> s\<lparr>timer_ticks := timer_ticks s + 1\<rparr>"

lemma due_irq: "due (s\<lparr>ints := i, in_irq := j, timer_ticks := n\<rparr>) = due (s\<lparr>timer_ticks := n\<rparr>)"
  by (rule due_cong) simp_all

lemma due_locked: "due (locked s) = due s"
  by (rule due_cong) simp_all

lemma irq0_running_ok:
  assumes r: "rest s Q" and c: "current_task s \<noteq> 0"
  shows "\<exists>s' Q'. irq0_handler s = Some (Inr s') \<and> rest s' Q' \<and> timer_ticks s' = timer_ticks s + 1 \<and>
    (current_task s', Q') = reschedule True (current_task s, spec_wakeup (due (ticked s)) Q)"
proof -
  note R = rest_running [OF assms]
  let ?s = "s\<lparr>ints := False, in_irq := True, timer_ticks := timer_ticks s + 1\<rparr>"
  have lk: "scheduler_lock ?s = Inr (locked ?s)" using R by (intro scheduler_lock_ok) auto
  have wf: "sched_wf (locked ?s) Q" using R(1) by (simp add: sched_wf_def)
  from wakeup_body [OF wf] obtain s1 where s1:
    "wakeup_loop (q_first (queues s WaitQ)) (upd_queue WaitQ (\<lambda>_. \<lparr>q_first = 0, q_last = 0\<rparr>) (locked ?s)) = Some (Inr s1)"
    "sched_wf s1 (spec_wakeup (due (ticked s)) Q)" "wake_frame {a \<in> set (Q WaitQ). due (locked ?s) a} (locked ?s) s1"
    "\<forall>a. a \<notin> set (Q WaitQ) \<longrightarrow> tstate (tasks s1) a = tstate (tasks s) a"
    unfolding due_locked due_irq by auto
  note F = wake_frame_simps [OF s1(3)]
  have "current_task s \<notin> set (Q WaitQ)"
    using running_not_queued [of "tstate (tasks s)" "current_task s" Q] R(1,5) by (simp add: sched_wf_def cur_state_def)
  then have c1: "cur_state s1 = Some TASK_STATE_RUNNING" using s1(4) R(5) F by (simp add: cur_state_def)
  let ?s2 = "s1\<lparr>postponed_schedule := True\<rparr>"
  have "ready_to_unlock ?s2 (spec_wakeup (due (ticked s)) Q) TASK_STATE_RUNNING"
    using s1(2) F R c1 by (simp add: ready_to_unlock_def sched_wf_def cur_state_def)
  from unlock_ok [OF this] obtain s' Q' where s': "scheduler_unlock ?s2 = Inr s'"
      "(current_task s', Q') = reschedule True (current_task s, spec_wakeup (due (ticked s)) Q)"
      "rest (irq_exit s') Q'" "same_env ?s2 s'" using F by auto
  have "schedule s1 = Inr ?s2" using schedule_ok [of s1] F R by simp
  then have "irq0_handler s = Some (Inr (irq_exit s'))"
    using lk s1(1) s'(1) R(7) by (simp add: irq0_handler_def scheduler_wakeup_def)
  moreover have "timer_ticks (irq_exit s') = timer_ticks s + 1"
    using s'(4) F by (simp add: same_env_def irq_exit_def)
  ultimately show ?thesis using s' by (intro exI [of _ "irq_exit s'"] exI [of _ Q']) simp
qed

text \<open>The same interrupt while the idle loop waits.\<close>

lemma irq0_idle_ok:
  assumes r: "rest s Q" and c: "current_task s = 0"
  shows "\<exists>s'. irq0_handler s = Some (Inr s') \<and> rest s' (spec_wakeup (due (ticked s)) Q) \<and>
    current_task s' = 0 \<and> timer_ticks s' = timer_ticks s + 1"
proof -
  let ?s = "s\<lparr>ints := False, in_irq := True, timer_ticks := timer_ticks s + 1\<rparr>"
  let ?l = "?s\<lparr>scheduler_lock_count := 2\<rparr>"
  have lk: "scheduler_lock ?s = Inr ?l" using lock_nested [of ?s 0] r c by (simp add: rest_def numeral_2_eq_2)
  have "sched_wf ?l Q" using r by (simp add: sched_wf_def rest_def)
  from wakeup_body [OF this] obtain s1 where s1:
    "wakeup_loop (q_first (queues s WaitQ)) (upd_queue WaitQ (\<lambda>_. \<lparr>q_first = 0, q_last = 0\<rparr>) ?l) = Some (Inr s1)"
    "sched_wf s1 (spec_wakeup (due ?l) Q)" "wake_frame {a \<in> set (Q WaitQ). due ?l a} ?l s1" by auto
  have d: "due ?l = due (ticked s)" by (rule due_cong) simp_all
  note F = wake_frame_simps [OF s1(3)]
  let ?s2 = "s1\<lparr>postponed_schedule := True, scheduler_lock_count := 1\<rparr>"
  have "kbind (schedule s1) scheduler_unlock = Inr ?s2"
    using schedule_ok [of s1] unlock_nested [of "s1\<lparr>postponed_schedule := True\<rparr>" 0] F r
    by (simp add: rest_def sched_wf_def numeral_2_eq_2)
  then have "irq0_handler s = Some (Inr (irq_exit ?s2))"
    using lk s1(1) r by (auto simp: irq0_handler_def scheduler_wakeup_def rest_def sched_wf_def)
  moreover have "rest (irq_exit ?s2) (spec_wakeup (due ?l) Q)"
    using s1(2) F r c wake_frame_dom [OF s1(3)] by (auto simp: rest_def irq_exit_def sched_wf_def)
  ultimately show ?thesis using F c d by (intro exI [of _ "irq_exit ?s2"]) (simp add: irq_exit_def)
qed

lemma states_ok_run:
  assumes st: "states_ok st c Q" and "\<And>a. st a \<noteq> Some TASK_STATE_RUNNING" "\<And>q. x \<notin> set (Q q)"
  shows "states_ok (st(x \<mapsto> TASK_STATE_RUNNING)) x Q"
proof (rule states_okI)
  fix q a assume a: "a \<in> set (Q q)"
  then have "a \<noteq> x" using assms(3) by auto
  then show "\<exists>u. (st(x \<mapsto> TASK_STATE_RUNNING)) a = Some u \<and> state_in q u" using states_okD(1) [OF st a] by simp
qed (use assms(2) in \<open>simp split: if_splits\<close>)

text \<open>The idle loop after an interrupt: it keeps waiting, or runs the first ready task.\<close>

lemma idle_loop_ok:
  assumes r: "rest s Q" and c: "current_task s = 0"
  shows "\<exists>s' Q'. idle_loop s = Inr s' \<and> rest s' Q' \<and> (current_task s', Q') = reschedule False (0, Q) \<and>
    timer_ticks s' = timer_ticks s"
proof -
  have I: "scheduler_lock_count s = 1" "ints s" "\<not> in_irq s" "\<forall>l. spin s l = 0" "sched_wf s Q"
    using r c by (auto simp: rest_def)
  have rep: "queues_rep (tasks s) (queues s) Q" and st: "states_ok (tstate (tasks s)) 0 Q"
    and bl: "blocked_ok (blocked_list s) Q" "scheduler_ready s" using I(5) c by (auto simp: sched_wf_def)
  obtain t0 where t0: "tasks s (idle_of s) = Some t0" using r c by (auto simp: rest_def)
  have norun: "tstate (tasks s) a \<noteq> Some TASK_STATE_RUNNING" for a
    using states_okD(2) [OF st, of a] queues_repD(1) [OF rep] by (auto simp: tstate_def)
  have st': "states_ok (tstate (tasks s)) (idle_of s) Q" using st norun by (auto simp: states_ok_def)
  show ?thesis
  proof (cases "Q ReadyQ")
    case Nil
    then have "q_first (queues s ReadyQ) = 0" using qpath_null [OF queues_repD(2) [OF rep]] by blast
    then have "idle_loop s = Inr s" using I(2) by (cases s) (simp add: idle_loop_def Let_def)
    then show ?thesis using r c Nil by (auto simp: reschedule_def)
  next
    case (Cons x xs)
    then have qf: "q_first (queues s ReadyQ) \<noteq> 0" using qpath_null [OF queues_repD(2) [OF rep]] by force
    let ?s = "s\<lparr>ints := False, postponed_schedule := False, current_task := idle_of s, idle_of := 0,
                scheduler_lock_count := 0\<rparr>"
    let ?Q = "Q(ReadyQ := xs)"
    obtain s1 where s1: "task_dequeue ReadyQ ?s = Inr (x, s1)" "queues_rep (tasks s1) (queues s1) ?Q" "only_links ?s s1"
      using task_dequeue_ok [of ?s Q ReadyQ x xs] rep Cons by auto
    note L = only_links_simps [OF s1(3)] and T = only_links_tasks [OF s1(3)]
    have xin: "x \<in> set (Q ReadyQ)" using Cons by simp
    have xq: "x \<notin> set (?Q q)" for q
      using queues_repD(4) [OF rep, of ReadyQ] queues_repD(5) [OF rep xin, of q] Cons by auto
    have xr: "tstate (tasks s1) x = Some TASK_STATE_READY" using states_okD(1) [OF st xin] T(1) by auto
    then obtain xt where xt: "tasks s1 x = Some xt" "t_state xt = TASK_STATE_READY" by (auto simp: tstate_Some)
    have x0: "x \<noteq> 0" using queues_repD(1) [OF s1(2)] xt(1) by (metis option.distinct(1))
    have st1: "states_ok (tstate (tasks s1)) (current_task s1) ?Q"
      using states_ok_tail [OF st', of xs ReadyQ] Cons T(1) L by auto
    have "tstate (tasks s1) (idle_of s) = tstate (tasks s) (idle_of s)" using T(1) by simp
    then obtain c1 where c1: "tasks s1 (idle_of s) = Some c1" "t_state c1 \<noteq> TASK_STATE_RUNNING"
      using norun [of "idle_of s"] t0 by (auto simp: tstate_def)
    have run: "states_ok ((tstate (tasks s1))(x \<mapsto> TASK_STATE_RUNNING)) x ?Q"
      by (rule states_ok_run [OF st1]) (use norun T(1) xq in auto)
    have res: "(x, ?Q) = reschedule False (0, Q)" using Cons by (simp add: reschedule_def)
    show ?thesis
    proof (cases "idle_of s = x")
      case True
      let ?s2 = "s1\<lparr>tasks := (tasks s1)(x \<mapsto> xt\<lparr>t_state := TASK_STATE_RUNNING\<rparr>)\<rparr>"
      let ?s' = "finish_switch False ?s2"
      have "idle_loop s = Inr ?s'"
        using I qf s1(1) x0 xt True L
        by (simp add: idle_loop_def Let_def task_defs schedule_to_def)
      moreover have "rest ?s' ?Q"
        using run s1(2) xt x0 True L bl I
        by (simp add: rest_def sched_wf_def finish_switch_def irq_exit_def unlock_tail_def cur_state_def)
      moreover have "current_task ?s' = x" "timer_ticks ?s' = timer_ticks s" using L True
        by (auto simp: finish_switch_def irq_exit_def unlock_tail_def)
      ultimately show ?thesis using res by metis
    next
      case False
      obtain s2 where s2: "schedule_to x s1 = Inr (Switched, s2)" "current_task s2 = x" "\<not> in_irq s2"
          "queues_rep (tasks s2) (queues s2) ?Q"
          "tstate (tasks s2) = (tstate (tasks s1))(x \<mapsto> TASK_STATE_RUNNING)" "switch_frame s1 s2"
        using schedule_to_ok [OF s1(2) st1 xr xq] c1 L False by auto
      note F = switch_frame_simps [OF s2(6)]
      have "idle_loop s = Inr s2" using I qf s1(1) x0 False L s2(1) by (simp add: idle_loop_def Let_def task_defs)
      moreover have "rest s2 ?Q" using run s2 F L bl I x0 by (simp add: rest_def sched_wf_def cur_state_def)
      moreover have "timer_ticks s2 = timer_ticks s" using F L by simp
      ultimately show ?thesis using res s2(2) by metis
    qed
  qed
qed

section \<open>Starting and ending tasks\<close>

lemma task_sleep_ms_ok:
  assumes "rest s Q" "current_task s \<noteq> 0"
  shows "\<exists>s' Q'. task_sleep_miliseconds n s = Inr s' \<and> rest s' Q' \<and> timer_ticks s' = timer_ticks s \<and>
    (current_task s', Q') = spec_block WaitQ (current_task s, Q) \<and>
    wait_of s' = (wait_of s)(current_task s \<mapsto> timer_ticks s + n)"
proof -
  note R = rest_running [OF assms]
  obtain t where t: "tasks s (current_task s) = Some t" "t_state t = TASK_STATE_RUNNING"
    using R(5) by (auto simp: cur_state_def tstate_Some)
  let ?t = "t\<lparr>t_wait := timer_ticks s + n\<rparr>"
  let ?s = "(locked s)\<lparr>tasks := (tasks s)(current_task s \<mapsto> ?t)\<rparr>"
  have "tstate (tasks ?s) = tstate (tasks s)" using t by (auto simp: tstate_def)
  then have wf: "sched_wf ?s Q" and c: "cur_state ?s = Some TASK_STATE_RUNNING"
    using R(1,5) t by (auto simp: sched_wf_def cur_state_def)
  obtain s' Q' where s': "kbind (task_block_locked WaitQ (current_task s) TASK_STATE_WAITING ?s)
      (\<lambda>s. kbind (schedule s) scheduler_unlock) = Inr s'"
    "(current_task s', Q') = spec_block WaitQ (current_task s, Q)" "rest s' Q'" "same_env ?s s'"
    using block_and_switch [OF wf _ _ _ _ c, of WaitQ TASK_STATE_WAITING] R by auto
  have "task_sleep_miliseconds n s = Inr s'"
    using scheduler_lock_ok [of s] R upd_task_ok [of "locked s" "current_task s" t] t s'(1) assms(2)
    by (simp add: task_sleep_miliseconds_def)
  moreover have "wait_of s' = wait_of ?s" using s'(4) by (intro wait_of_payload) (simp add: same_env_def)
  then have "wait_of s' = (wait_of s)(current_task s \<mapsto> timer_ticks s + n)" by (auto simp: wait_of_def)
  ultimately show ?thesis using s' by (intro exI [of _ s'] exI [of _ Q']) (simp add: same_env_def)
qed

text \<open>\<open>task_add\<close> of a new task, in no queue: it becomes the last of the ready queue; the caller keeps
  running.\<close>

lemma task_add_ok:
  assumes "rest s Q" "current_task s \<noteq> 0" and t: "tasks s a = Some t" "t_obj t \<noteq> 0" "\<And>q. a \<notin> set (Q q)"
    and ne: "a \<noteq> current_task s"
  shows "\<exists>s'. task_add a s = Inr s' \<and> rest s' (Q(ReadyQ := Q ReadyQ @ [a])) \<and>
    current_task s' = current_task s \<and> same_env s s'"
proof -
  note R = rest_running [OF assms(1,2)]
  have rep: "queues_rep (tasks s) (queues s) Q" and st: "states_ok (tstate (tasks s)) (current_task s) Q"
    and bl: "blocked_ok (blocked_list s) Q" "scheduler_ready s" using R(1) by (auto simp: sched_wf_def)
  have a0: "a \<noteq> 0" using queues_repD(1) [OF rep] t(1) by (metis option.distinct(1))
  let ?Q = "Q(ReadyQ := Q ReadyQ @ [a])"
  have "\<not> ints (locked s)" by simp
  from enqueue_state_ok [of "locked s" Q a t TASK_STATE_READY ReadyQ, OF _ _ t(3) this] rep t(1) obtain s1 where
    s1: "kbind (upd_task a (t_state_update (\<lambda>_. TASK_STATE_READY)) (locked s)) (task_queue ReadyQ a) = Inr s1"
      "queues_rep (tasks s1) (queues s1) ?Q" "tstate (tasks s1) = (tstate (tasks s))(a \<mapsto> TASK_STATE_READY)"
      "queue_frame (locked s) s1" "blocked_list s1 = blocked_list s" by auto
  note F = queue_frame_simps [OF s1(4)]
  have "states_ok (tstate (tasks s1)) (current_task s) ?Q"
    unfolding s1(3) using states_ok_enqueue [OF st t(3)] by simp
  then have "ready_to_unlock s1 ?Q TASK_STATE_RUNNING"
    using s1 F R bl ne by (simp add: ready_to_unlock_def sched_wf_def cur_state_def)
  from unlock_done [OF this] F R obtain s' where s': "scheduler_unlock s1 = Inr s'"
    "current_task s' = current_task s" "rest s' ?Q" "same_env s1 s'" by auto
  let ?s0 = "s\<lparr>tasks := (tasks s)(a \<mapsto> t\<lparr>t_state := TASK_STATE_READY\<rparr>)\<rparr>"
  have eq: "locked ?s0 = (locked s)\<lparr>tasks := (tasks s)(a \<mapsto> t\<lparr>t_state := TASK_STATE_READY\<rparr>)\<rparr>"
    by (cases s) (simp add: locked_def)
  have "scheduler_lock ?s0 = Inr (locked ?s0)" using R by (intro scheduler_lock_ok) auto
  moreover have "task_queue ReadyQ a (locked ?s0) = Inr s1"
    using s1(1) upd_task_ok [of "locked s" a t] t(1) by (simp add: eq)
  ultimately have "task_add a s = Inr s'"
    using t a0 upd_task_ok [OF t(1)] s'(1) by (simp add: task_add_def ld_task_def)
  then show ?thesis using s' same_env_trans [OF same_env_trans [OF locked_simps(17) queue_frame_env [OF s1(4)]] s'(4)]
    by auto
qed

text \<open>\<open>task_exit\<close>, called with the scheduler locked once: the caller is terminated, in no queue, and
  never runs again unless it is added anew.\<close>

lemma task_exit_ok:
  assumes "rest s Q" "current_task s \<noteq> 0"
  shows "\<exists>k s' Q'. kbind (scheduler_lock s) task_exit = Inr (k, s') \<and> k \<noteq> Kept \<and> rest s' Q' \<and>
    (current_task s', Q') = reschedule False (current_task s, Q) \<and> same_env s s'"
proof -
  note R = rest_running [OF assms]
  obtain t where t: "tasks s (current_task s) = Some t" "t_state t = TASK_STATE_RUNNING"
    using R(5) by (auto simp: cur_state_def tstate_Some)
  let ?s = "(locked s)\<lparr>tasks := (tasks s)(current_task s \<mapsto> t\<lparr>t_state := TASK_STATE_TERMINATED\<rparr>),
              scheduler_lock_count := 0, postponed_schedule := False\<rparr>"
  have st: "states_ok (tstate (tasks s)) (current_task s) Q" using R(1) by (simp add: sched_wf_def)
  have "current_task s \<notin> set (Q q)" for q using running_not_queued [OF st] R(5) by (simp add: cur_state_def)
  then have "states_ok ((tstate (tasks s))(current_task s \<mapsto> TASK_STATE_TERMINATED)) (current_task s) Q"
    using st by (auto simp: states_ok_def)
  then have "sched_wf ?s Q" "cur_state ?s = Some TASK_STATE_TERMINATED"
    using R(1) t by (auto simp: sched_wf_def cur_state_def)
  with schedule_now_ok [of ?s Q TASK_STATE_TERMINATED] R obtain k s' Q' where
    k: "schedule_now ?s = Inr (k, s')" "(current_task s', Q') = reschedule False (current_task s, Q)"
      "k \<noteq> Kept \<and> rest s' Q'" "same_env ?s s'" by (auto split: if_splits)
  have "kbind (scheduler_lock s) task_exit = schedule_now ?s"
    using scheduler_lock_ok [of s] R t upd_task_ok [of "locked s" "current_task s" t]
    by (simp add: task_exit_def ld_task_def)
  moreover have "same_env s ?s" using t by (simp add: same_env_def payload_upd)
  ultimately show ?thesis using k same_env_trans by (intro exI [of _ k] exI [of _ s'] exI [of _ Q']) (auto simp: same_env_def)
qed

text \<open>\<open>boot s Q\<close>: the state in which \<open>tasking_enable\<close> is called, with at least one task added.\<close>

definition boot :: "sched \<Rightarrow> (qid \<Rightarrow> addr list) \<Rightarrow> bool" where
  "boot s Q \<longleftrightarrow> queues_rep (tasks s) (queues s) Q \<and> states_ok (tstate (tasks s)) 0 Q \<and>
     blocked_ok (blocked_list s) Q \<and> \<not> scheduler_ready s \<and> current_task s = 0 \<and> Q ReadyQ \<noteq> [] \<and>
     scheduler_lock_count s = 0 \<and> \<not> postponed_schedule s \<and> (\<forall>l. spin s l = 0) \<and>
     (\<forall>a t. tasks s a = Some t \<longrightarrow> t_resume t = Fresh)"

lemma tasking_enable_ok:
  assumes b: "boot s Q"
  shows "\<exists>s' Q'. tasking_enable s = Inr s' \<and> rest s' Q' \<and> (current_task s', Q') = reschedule False (0, Q)"
proof -
  have rep: "queues_rep (tasks s) (queues s) Q" and st: "states_ok (tstate (tasks s)) 0 Q"
    and bl: "blocked_ok (blocked_list s) Q" using b by (auto simp: boot_def)
  obtain x xs where x: "Q ReadyQ = x # xs" using b by (cases "Q ReadyQ") (auto simp: boot_def)
  let ?s = "s\<lparr>ints := False, scheduler_ready := True\<rparr>"
  let ?Q = "Q(ReadyQ := xs)"
  obtain s1 where s1: "task_dequeue ReadyQ ?s = Inr (x, s1)" "queues_rep (tasks s1) (queues s1) ?Q" "only_links ?s s1"
    using task_dequeue_ok [of ?s Q ReadyQ x xs] rep x by auto
  note L = only_links_simps [OF s1(3)] and T = only_links_tasks [OF s1(3)]
  have xin: "x \<in> set (Q ReadyQ)" using x by simp
  have xq: "x \<notin> set (?Q q)" for q
    using queues_repD(4) [OF rep, of ReadyQ] queues_repD(5) [OF rep xin, of q] x by auto
  have norun: "tstate (tasks s) a \<noteq> Some TASK_STATE_RUNNING" for a
    using states_okD(2) [OF st, of a] queues_repD(1) [OF rep] by (auto simp: tstate_def)
  have st1: "states_ok (tstate (tasks s1)) 0 ?Q" using states_ok_tail [OF st, of xs ReadyQ] x T(1) by auto
  have run: "states_ok ((tstate (tasks s1))(x \<mapsto> TASK_STATE_RUNNING)) x ?Q"
    by (rule states_ok_run [OF st1]) (use norun T(1) xq in auto)
  have "tstate (tasks s1) x = Some TASK_STATE_READY" using states_okD(1) [OF st xin] T(1) by auto
  then obtain xt where xt: "tasks s1 x = Some xt" "t_state xt = TASK_STATE_READY" by (auto simp: tstate_Some)
  obtain xt0 where xt0: "tasks s x = Some xt0" using queues_repD(7) [OF rep xin] by blast
  have "t_resume xt = t_resume xt0"
    using tview_agree [of "tasks s1" "tasks ?s" t_resume x] s1(3) xt(1) xt0 by (simp add: only_links_def)
  then have fresh: "t_resume xt = Fresh" using b xt0 by (simp add: boot_def)
  have x0: "x \<noteq> 0" using queues_repD(1) [OF s1(2)] xt(1) by (metis option.distinct(1))
  let ?s2 = "s1\<lparr>tasks := (tasks s1)(x \<mapsto> xt\<lparr>t_state := TASK_STATE_RUNNING\<rparr>), current_task := x\<rparr>"
  obtain s' where s': "restore_task x ?s2 = Inr s'" "ctx_only ?s2 s'" "\<not> in_irq s'"
    using restore_task_ok [of ?s2 x "xt\<lparr>t_state := TASK_STATE_RUNNING\<rparr>"] L b fresh by (auto simp: boot_def)
  note C = ctx_only_simps [OF s'(2)] and CT = ctx_only_tasks [OF s'(2)]
  have "queues_rep (tasks ?s2) (queues ?s2) ?Q" using s1(2) xt(1) by simp
  then have "rest s' ?Q"
    using run bl s' C CT(1,3) L x0 b by (simp add: rest_def sched_wf_def cur_state_def boot_def)
  moreover have "tasking_enable s = Inr s'"
    using b s1(1) xt L x0 s'(1) by (simp add: tasking_enable_def boot_def Let_def task_defs)
  ultimately show ?thesis using C x
    by (intro exI [of _ s'] exI [of _ ?Q]) (simp add: reschedule_def)
qed

end
