(* ===== verification/Sched_Reach.thy ===== *)
theory Sched_Reach
  imports Sched_Props
begin

text \<open>
  The scheduler as a transition system: from \<open>tasking_enable\<close> on, a step is one operation of the
  running task, one timer interrupt over it, or one timer interrupt over the idle loop. The
  properties of the scheduler follow from the refinement lemmas of \<open>Sched_Props\<close>.
\<close>

text \<open>A task allocated by \<open>kcalloc\<close> and filled in, before \<open>task_add\<close>.\<close>

definition new_task :: "addr \<Rightarrow> task_t \<Rightarrow> sched \<Rightarrow> sched" where
  "new_task a t s = s\<lparr>tasks := (tasks s)(a \<mapsto> t\<lparr>t_next := 0, t_state := TASK_STATE_READY, t_resume := Fresh\<rparr>)\<rparr>"

inductive sched_step :: "sched \<Rightarrow> sched \<Rightarrow> bool" where
  yield: "current_task s \<noteq> 0 \<Longrightarrow> yield s = Inr s' \<Longrightarrow> sched_step s s'"
| block: "current_task s \<noteq> 0 \<Longrightarrow> state_in (BlockQ b) u \<Longrightarrow> task_block (BlockQ b) u s = Inr s' \<Longrightarrow> sched_step s s'"
| unblock: "current_task s \<noteq> 0 \<Longrightarrow> task_unblock_next (BlockQ b) s = Inr s' \<Longrightarrow> sched_step s s'"
| sleep_until: "current_task s \<noteq> 0 \<Longrightarrow> task_sleep_until target s = Inr s' \<Longrightarrow> sched_step s s'"
| sleep: "current_task s \<noteq> 0 \<Longrightarrow> task_sleep_miliseconds n s = Inr s' \<Longrightarrow> sched_step s s'"
| acquire: "current_task s \<noteq> 0 \<Longrightarrow> semaphore_acquire a s = Inr s' \<Longrightarrow> sched_step s s'"
| release: "current_task s \<noteq> 0 \<Longrightarrow> semaphore_release a s = Inr s' \<Longrightarrow> sched_step s s'"
| lock: "current_task s \<noteq> 0 \<Longrightarrow> mutex_lock m s = Inr s' \<Longrightarrow> sched_step s s'"
| acquired: "current_task s \<noteq> 0 \<Longrightarrow> mutex_acquired m s = Inr s' \<Longrightarrow> sched_step s s'"
| unlock: "current_task s \<noteq> 0 \<Longrightarrow> mutex_unlock m s = Inr s' \<Longrightarrow> sched_step s s'"
| add: "current_task s \<noteq> 0 \<Longrightarrow> tasks s a = None \<Longrightarrow> a \<noteq> 0 \<Longrightarrow> t_obj t \<noteq> 0 \<Longrightarrow>
    task_add a (new_task a t s) = Inr s' \<Longrightarrow> sched_step s s'"
| exit: "current_task s \<noteq> 0 \<Longrightarrow> kbind (scheduler_lock s) task_exit = Inr (k, s') \<Longrightarrow> sched_step s s'"
| timer: "current_task s \<noteq> 0 \<Longrightarrow> ints s \<Longrightarrow> irq0_handler s = Some (Inr s') \<Longrightarrow> sched_step s s'"
| idle: "current_task s = 0 \<Longrightarrow> irq0_handler s = Some (Inr s1) \<Longrightarrow> idle_loop s1 = Inr s' \<Longrightarrow> sched_step s s'"

inductive sched_reachable :: "sched \<Rightarrow> bool" where
  start: "boot s Q \<Longrightarrow> tasking_enable s = Inr s' \<Longrightarrow> sched_reachable s'"
| step: "sched_reachable s \<Longrightarrow> sched_step s s' \<Longrightarrow> sched_reachable s'"

lemma rest_new_task:
  assumes r: "rest s Q" and n: "tasks s a = None" "a \<noteq> 0" "current_task s \<noteq> 0"
  shows "rest (new_task a t s) Q" "\<And>q. a \<notin> set (Q q)"
proof -
  have rep: "queues_rep (tasks s) (queues s) Q" and st: "states_ok (tstate (tasks s)) (current_task s) Q"
    using r by (auto simp: rest_def sched_wf_def)
  show aq: "a \<notin> set (Q q)" for q using queues_repD(7) [OF rep, of a q] n(1) by auto
  let ?t = "t\<lparr>t_next := 0, t_state := TASK_STATE_READY, t_resume := Fresh\<rparr>"
  have "queue_rep ((tasks s)(a \<mapsto> ?t)) (queues s q) (Q q)" for q
    using rep aq by (simp add: queues_rep_def queue_rep_def)
  then have "queues_rep ((tasks s)(a \<mapsto> ?t)) (queues s) Q"
    using rep n(2) by (simp add: queues_rep_def)
  moreover have "states_ok ((tstate (tasks s))(a \<mapsto> TASK_STATE_READY)) (current_task s) Q"
  proof (rule states_okI)
    fix q b assume b: "b \<in> set (Q q)"
    then have "b \<noteq> a" using aq by auto
    then show "\<exists>u. ((tstate (tasks s))(a \<mapsto> TASK_STATE_READY)) b = Some u \<and> state_in q u"
      using states_okD(1) [OF st b] by simp
  qed (use states_okD(2) [OF st] in \<open>auto split: if_splits\<close>)
  moreover have "current_task s \<noteq> a" using rest_running(5) [OF r n(3)] n(1) by (auto simp: cur_state_def tstate_def)
  ultimately show "rest (new_task a t s) Q"
    using r n(3) by (simp add: rest_def sched_wf_def new_task_def cur_state_def)
qed

lemma sched_step_rest:
  assumes "sched_step s s'" "rest s Q"
  shows "\<exists>Q'. rest s' Q'"
  using assms
proof (induction arbitrary: Q rule: sched_step.induct)
  case (yield s s')
  then show ?case using yield_ok [of s Q] by auto
next
  case (block s b u s')
  then show ?case using task_block_ok [of s Q "BlockQ b" u] by auto
next
  case (unblock s b s')
  then show ?case using unblock_next_ok [of s Q "BlockQ b"] by auto
next
  case (sleep_until s target s')
  then show ?case using task_sleep_until_ok [of s Q target] by auto
next
  case (sleep s n s')
  then show ?case using task_sleep_ms_ok [of s Q n] by auto
next
  case (acquire s a s')
  then show ?case using semaphore_acquire_ok [of s Q a] by auto
next
  case (release s a s')
  then show ?case using semaphore_release_ok [of s Q a] by auto
next
  case (lock s m s')
  have "mutex_word s m = 0 \<longrightarrow> locked_task s m = 0"
    using lock.hyps by (auto simp: mutex_lock_def mutex_acquired_def Let_def)
  then show ?case using mutex_lock_ok [of s Q m] lock by auto
next
  case (acquired s m s')
  then show ?case by (auto simp: mutex_acquired_def)
next
  case (unlock s m s')
  have "mutex_word s m = 1" "locked_task s m = current_task s"
    using unlock.hyps by (auto simp: mutex_unlock_def Let_def)
  then show ?case using mutex_unlock_ok [of s Q m] unlock by auto
next
  case (add s a t s')
  note n = rest_new_task [OF add.prems add.hyps(2,3,1)]
  have "a \<noteq> current_task s" using rest_running(5) [OF add.prems add.hyps(1)] add.hyps(2)
    by (auto simp: cur_state_def tstate_def)
  then have "\<exists>s'. task_add a (new_task a t s) = Inr s' \<and> rest s' (Q(ReadyQ := Q ReadyQ @ [a]))"
    using task_add_ok [of "new_task a t s" Q a, OF n(1) _ _ _ n(2)] add.hyps by (auto simp: new_task_def)
  then show ?case using add.hyps(5) by auto
next
  case (exit s k s')
  then show ?case using task_exit_ok [of s Q] by auto
next
  case (timer s s')
  then show ?case using irq0_running_ok [of s Q] by auto
next
  case (idle s s1 s')
  obtain Q1 where "rest s1 Q1" "current_task s1 = 0" using irq0_idle_ok [OF idle.prems idle.hyps(1)] idle.hyps(2) by auto
  then show ?case using idle_loop_ok [of s1 Q1] idle.hyps(3) by auto
qed

lemma reachable_rest: "sched_reachable s \<Longrightarrow> \<exists>Q. rest s Q"
proof (induction rule: sched_reachable.induct)
  case (start s Q s')
  then show ?case using tasking_enable_ok by fastforce
next
  case (step s s')
  then show ?case using sched_step_rest by blast
qed

section \<open>Properties\<close>

text \<open>C1: Safety of the scheduler. In every state that it can reach after \<open>tasking_enable\<close>, by any
  interleaving of the operations of the tasks and of timer interrupts, the pointer queues are
  well formed and disjoint, the state of every queued task fits its queue, at most the current
  task is RUNNING, and no lock is left held.\<close>

theorem sched_reachable_safe:
  assumes "sched_reachable s"
  shows "\<exists>Q. rest s Q \<and> (\<forall>a t. tasks s a = Some t \<and> t_state t = TASK_STATE_RUNNING \<longrightarrow> a = current_task s) \<and>
    (\<forall>a q q'. a \<in> set (Q q) \<and> a \<in> set (Q q') \<longrightarrow> q = q') \<and>
    (current_task s \<noteq> 0 \<longrightarrow> scheduler_lock_count s = 0 \<and> (\<forall>q. current_task s \<notin> set (Q q)))"
proof -
  obtain Q where r: "rest s Q" using reachable_rest [OF assms] by blast
  then have rep: "queues_rep (tasks s) (queues s) Q" and st: "states_ok (tstate (tasks s)) (current_task s) Q"
    by (auto simp: rest_def sched_wf_def)
  have "a = current_task s" if "tasks s a = Some t" "t_state t = TASK_STATE_RUNNING" for a t
    using states_okD(2) [OF st, of a] that by (simp add: tstate_Some)
  moreover have "q = q'" if "a \<in> set (Q q)" "a \<in> set (Q q')" for a q q'
    using queues_repD(5) [OF rep that] .
  moreover have "scheduler_lock_count s = 0" "current_task s \<notin> set (Q q)" if "current_task s \<noteq> 0" for q
    using rest_running [OF r that] running_not_queued [OF st] by (auto simp: cur_state_def)
  ultimately show ?thesis using r by blast
qed


text \<open>C29: Round robin. Yielding \<open>n\<close> times rotates the running task and the ready queue \<open>n\<close> times, so
  with \<open>k\<close> ready tasks every one of them gets the CPU within \<open>k\<close> yields, in order, and the
  first one has it again after \<open>k + 1\<close>.\<close>

primrec yields :: "nat \<Rightarrow> sched \<Rightarrow> sched res" where
  "yields 0 s = Inr s"
| "yields (Suc n) s = kbind (yield s) (yields n)"

theorem yield_round_robin:
  assumes "rest s Q" "current_task s \<noteq> 0"
  shows "\<exists>s' Q'. yields n s = Inr s' \<and> rest s' Q' \<and> current_task s' \<noteq> 0 \<and>
    current_task s' # Q' ReadyQ = rotate n (current_task s # Q ReadyQ) \<and> (\<forall>q. q \<noteq> ReadyQ \<longrightarrow> Q' q = Q q)"
  using assms
proof (induction n arbitrary: s Q)
  case (Suc n)
  obtain s1 Q1 where s1: "yield s = Inr s1" "rest s1 Q1" "(current_task s1, Q1) = reschedule True (current_task s, Q)"
    using yield_ok [OF Suc.prems] by blast
  have rep: "queues_rep (tasks s) (queues s) Q" using Suc.prems by (auto simp: rest_def sched_wf_def)
  have rot: "current_task s1 # Q1 ReadyQ = rotate1 (current_task s # Q ReadyQ)" "\<And>q. q \<noteq> ReadyQ \<Longrightarrow> Q1 q = Q q"
    using s1(3) by (auto simp: reschedule_def split: list.splits)
  have "current_task s1 \<noteq> 0"
  proof (cases "Q ReadyQ")
    case (Cons x xs)
    then have "x \<noteq> 0" using qpath_in [OF queues_repD(2) [OF rep, of ReadyQ], of x] by simp
    then show ?thesis using s1(3) Cons by (simp add: reschedule_def)
  qed (use s1(3) Suc.prems in \<open>simp add: reschedule_def\<close>)
  from Suc.IH [OF s1(2) this] obtain s' Q' where s': "yields n s1 = Inr s'" "rest s' Q'" "current_task s' \<noteq> 0"
    "current_task s' # Q' ReadyQ = rotate n (current_task s1 # Q1 ReadyQ)" "\<forall>q. q \<noteq> ReadyQ \<longrightarrow> Q' q = Q1 q" by blast
  have "rotate (Suc n) (current_task s # Q ReadyQ) = rotate n (current_task s1 # Q1 ReadyQ)"
    unfolding rot(1) by (simp only: rotate_Suc rotate1_rotate_swap)
  with s' s1(1) rot(2) show ?case by (intro exI [of _ s'] exI [of _ Q']) simp
qed auto


text \<open>C16: Mutual exclusion across the hand-over. When the owner unlocks a mutex with waiters, the
  mutex stays locked without an owner and the longest waiting task can run; whichever task runs
  next and tries to lock it has to wait, so only the woken task can become the owner.\<close>

theorem mutex_handover_excludes:
  assumes r: "rest s Q" and c: "current_task s \<noteq> 0" and o: "locked_task s m = current_task s" "mutex_word s m = 1"
    and q: "Q (BlockQ m) = x # xs"
  shows "\<exists>s1 Q1. mutex_unlock m s = Inr s1 \<and> rest s1 Q1 \<and> x \<in> set (current_task s1 # Q1 ReadyQ) \<and>
    Q1 (BlockQ m) = xs \<and> mutex_word s1 m = 1 \<and> locked_task s1 m = 0 \<and>
    (\<exists>s2 Q2. mutex_lock m s1 = Inr s2 \<and> rest s2 Q2 \<and> locked_task s2 m = 0 \<and> Q2 (BlockQ m) = xs @ [current_task s1])"
proof -
  obtain s1 Q1 where s1: "mutex_unlock m s = Inr s1" "rest s1 Q1" "locked_task s1 m = 0" "mutex_word s1 m = 1"
      "(current_task s1, Q1) = spec_unblock_next (BlockQ m) (current_task s, Q)"
    using mutex_unlock_ok [OF r c o(2,1)] q by auto
  have v: "x \<in> set (current_task s1 # Q1 ReadyQ) \<and> Q1 (BlockQ m) = xs"
    using s1(5) q by (cases "Q ReadyQ") (auto simp: spec_unblock_next_def reschedule_def)
  have rep: "queues_rep (tasks s) (queues s) Q" using r by (auto simp: rest_def sched_wf_def)
  have x0: "x \<noteq> 0" using qpath_in [OF queues_repD(2) [OF rep, of "BlockQ m"], of x] q by simp
  have "current_task s1 \<noteq> 0"
  proof (cases "Q ReadyQ")
    case (Cons z zs)
    then have "z \<noteq> 0" using qpath_in [OF queues_repD(2) [OF rep, of ReadyQ], of z] by simp
    then show ?thesis using s1(5) q Cons by (simp add: spec_unblock_next_def reschedule_def)
  qed (use s1(5) q x0 in \<open>simp add: spec_unblock_next_def reschedule_def\<close>)
  then obtain s2 Q2 where s2: "mutex_lock m s1 = Inr s2" "rest s2 Q2" "locked_task s2 = locked_task s1"
      "(current_task s2, Q2) = spec_block (BlockQ m) (current_task s1, Q1)"
    using mutex_lock_ok [OF s1(2), of m] s1(3,4) by auto
  have "Q2 (BlockQ m) = xs @ [current_task s1]"
    using reschedule_blockq [of "current_task s2" Q2 False "current_task s1"] s2(4) v by (simp add: spec_block_def)
  then show ?thesis using s1 s2 v by (intro exI [of _ s1] exI [of _ Q1]) auto
qed

lemma reschedule_runnable:
  "(c', Q') = reschedule r (c, Q) \<Longrightarrow> a \<in> set (Q ReadyQ) \<Longrightarrow> a \<in> set (c' # Q' ReadyQ)"
  by (auto simp: reschedule_def split: list.splits)

lemma reschedule_other: "(c', Q') = reschedule r (c, Q) \<Longrightarrow> q \<noteq> ReadyQ \<Longrightarrow> Q' q = Q q"
  by (auto simp: reschedule_def split: list.splits)

text \<open>C17: The timer wakes exactly the sleepers whose time has come, over a running task and over the
  idle loop: those become runnable, every other one stays in the wait queue, in the same order,
  and no ready task is lost.\<close>

theorem timer_wakes_exactly_due:
  assumes r: "rest s Q"
  shows "\<exists>s' Q'. irq0_handler s = Some (Inr s') \<and> rest s' Q' \<and> timer_ticks s' = timer_ticks s + 1 \<and>
    Q' WaitQ = filter (\<lambda>a. \<not> due (ticked s) a) (Q WaitQ) \<and>
    (\<forall>a. a \<in> set (Q ReadyQ) \<or> a \<in> set (Q WaitQ) \<and> due (ticked s) a \<longrightarrow> a \<in> set (current_task s' # Q' ReadyQ))"
proof (cases "current_task s = 0")
  case True
  from irq0_idle_ok [OF r True] show ?thesis
    by (auto simp: spec_wakeup_def intro!: exI [of _ "spec_wakeup (due (ticked s)) Q"])
next
  case False
  from irq0_running_ok [OF r False] obtain s' Q' where s': "irq0_handler s = Some (Inr s')" "rest s' Q'"
    "timer_ticks s' = timer_ticks s + 1"
    "(current_task s', Q') = reschedule True (current_task s, spec_wakeup (due (ticked s)) Q)" by blast
  have "Q' WaitQ = filter (\<lambda>a. \<not> due (ticked s) a) (Q WaitQ)"
    using reschedule_other [OF s'(4), of WaitQ] by (simp add: spec_wakeup_def)
  moreover have "a \<in> set (current_task s' # Q' ReadyQ)"
    if "a \<in> set (Q ReadyQ) \<or> a \<in> set (Q WaitQ) \<and> due (ticked s) a" for a
    using reschedule_runnable [OF s'(4), of a] that by (auto simp: spec_wakeup_def)
  ultimately show ?thesis using s'(1-3) by (intro exI [of _ s'] exI [of _ Q']) blast
qed

text \<open>\<open>_sleep\<close> never waits: its loop condition is \<open>target < timer_ticks\<close> with \<open>target\<close> in the
  future, so \<open>hlt\<close> is executed only when the addition wraps around at 64 bits.\<close>

lemma sleep_halts_only_on_overflow:
  "sleep_halts delta s \<longleftrightarrow> 2 ^ 64 \<le> unat delta + unat (timer_ticks s)"
proof -
  have lt: "unat delta < 2 ^ 64" "unat (timer_ticks s) < 2 ^ 64" 
    using unsigned_less [of delta, where 'a = nat] unsigned_less [of "timer_ticks s", where 'a = nat] by simp_all
  have "unat (delta + timer_ticks s) = (unat delta + unat (timer_ticks s)) mod 2 ^ 64"
    by (simp add: unat_word_ariths)
  moreover have "(unat delta + unat (timer_ticks s)) mod 2 ^ 64 =
      (if unat delta + unat (timer_ticks s) < 2 ^ 64 then unat delta + unat (timer_ticks s)
       else unat delta + unat (timer_ticks s) - 2 ^ 64)"
    using lt by (simp add: mod_if)
  ultimately show ?thesis using lt by (auto simp: sleep_halts_def word_less_nat_alt)
qed

section \<open>Examples\<close>

text \<open>A running scheduler: task 100 runs and owns the mutex 70, task 200 is ready, 300 sleeps until
  tick 5, 400 waits for the mutex; and the state before \<open>tasking_enable\<close> with two tasks.\<close>

definition ex_task :: "addr \<Rightarrow> task_state \<Rightarrow> u64 \<Rightarrow> resume \<Rightarrow> task_t" where
  "ex_task nxt st w r = \<lparr>t_type = TASK_TYPE_KTASK, t_obj = 900, t_kstack = 0, t_next = nxt,
     t_state = st, t_wait = w, t_resume = r\<rparr>"

fun ex_queues :: "qid \<Rightarrow> addr list" where
  "ex_queues ReadyQ = [200]"
| "ex_queues WaitQ = [300]"
| "ex_queues TerminatedQ = []"
| "ex_queues (BlockQ a) = (if a = 70 then [400] else [])"

definition ex_sched :: sched where
  "ex_sched = \<lparr>tasks = [100 \<mapsto> ex_task 0 TASK_STATE_RUNNING 0 InCall, 200 \<mapsto> ex_task 0 TASK_STATE_READY 0 InCall,
       300 \<mapsto> ex_task 0 TASK_STATE_WAITING 5 InCall, 400 \<mapsto> ex_task 0 TASK_STATE_BLOCKED_LOCK 0 InCall],
     queues = (\<lambda>q. case ex_queues q of [] \<Rightarrow> \<lparr>q_first = 0, q_last = 0\<rparr> | x # _ \<Rightarrow> \<lparr>q_first = x, q_last = x\<rparr>),
     current_task = 100, blocked_list = [400], scheduler_ready = True, scheduler_lock_count = 0,
     postponed_schedule = False, enable_ints = False, ints = True, in_irq = False, idle_of = 0, timer_ticks = 4,
     tss_esp0 = 0, sem_count = (\<lambda>_. 0), spin = (\<lambda>_. 0), mutex_word = (\<lambda>_. 0)(70 := 1),
     locked_task = (\<lambda>_. 0)(70 := 100)\<rparr>"

definition ex_boot_queues :: "qid \<Rightarrow> addr list" where
  "ex_boot_queues = (\<lambda>_. [])(ReadyQ := [100, 200])"

definition ex_boot :: sched where
  "ex_boot = ex_sched\<lparr>tasks := [100 \<mapsto> ex_task 200 TASK_STATE_READY 0 Fresh, 200 \<mapsto> ex_task 0 TASK_STATE_READY 0 Fresh],
     queues := (\<lambda>_. \<lparr>q_first = 0, q_last = 0\<rparr>)(ReadyQ := \<lparr>q_first = 100, q_last = 200\<rparr>),
     current_task := 0, blocked_list := [], scheduler_ready := False\<rparr>"

lemma ex_queues_in: "a \<in> set (ex_queues q) \<longleftrightarrow>
    q = ReadyQ \<and> a = 200 \<or> q = WaitQ \<and> a = 300 \<or> q = BlockQ 70 \<and> a = 400"
  by (cases q) auto

lemma ex_sched_rest: "rest ex_sched ex_queues"
proof -
  have "queue_rep (tasks ex_sched) (queues ex_sched q) (ex_queues q)" for q
    by (cases q) (auto simp: ex_sched_def queue_rep_def ex_task_def)
  then have "queues_rep (tasks ex_sched) (queues ex_sched) ex_queues"
    by (auto simp: queues_rep_def ex_queues_in ex_sched_def ex_task_def)
  moreover have "states_ok (tstate (tasks ex_sched)) (current_task ex_sched) ex_queues"
    by (rule states_okI) (auto simp: ex_queues_in ex_sched_def ex_task_def tstate_def split: if_splits)
  moreover have "blocked_ok (blocked_list ex_sched) ex_queues"
    by (auto simp: blocked_ok_def ex_queues_in ex_sched_def intro: exI [of _ "BlockQ 70"])
  ultimately show ?thesis
    by (simp add: rest_def sched_wf_def cur_state_def ex_sched_def ex_task_def tstate_def)
qed

lemma ex_sched_cur: "current_task ex_sched = 100"
  by (simp add: ex_sched_def)

lemma ex_boot_boot: "boot ex_boot ex_boot_queues"
proof -
  have "queues_rep (tasks ex_boot) (queues ex_boot) ex_boot_queues"
    by (auto simp: queues_rep_def queue_rep_def ex_boot_def ex_boot_queues_def ex_task_def split: if_splits)
  moreover have "states_ok (tstate (tasks ex_boot)) 0 ex_boot_queues"
    by (rule states_okI) (auto simp: ex_boot_queues_def ex_boot_def ex_task_def tstate_def split: if_splits)
  ultimately show ?thesis
    by (auto simp: boot_def blocked_ok_def ex_boot_def ex_boot_queues_def ex_sched_def ex_task_def split: if_splits)
qed

theorem sched_reachable_safe_witness:
  "\<exists>s Q. tasking_enable ex_boot = Inr s \<and> current_task s = 100 \<and> rest s Q \<and>
     (\<forall>a t. tasks s a = Some t \<and> t_state t = TASK_STATE_RUNNING \<longrightarrow> a = 100)"
proof -
  obtain s Q where s: "tasking_enable ex_boot = Inr s" "(current_task s, Q) = reschedule False (0, ex_boot_queues)"
    using tasking_enable_ok [OF ex_boot_boot] by blast
  then have c: "current_task s = 100" by (simp add: reschedule_def ex_boot_queues_def)
  have "sched_reachable s" using sched_reachable.start [OF ex_boot_boot s(1)] .
  from sched_reachable_safe [OF this] s(1) c show ?thesis by auto
qed


theorem yield_round_robin_witness:
  "\<exists>s Q. yields 2 ex_sched = Inr s \<and> rest s Q \<and> current_task s = 100 \<and> Q ReadyQ = [200]"
proof -
  have "rotate 2 [100, 200 :: addr] = [100, 200]" by (simp add: numeral_2_eq_2)
  with yield_round_robin [OF ex_sched_rest, of 2] show ?thesis by (auto simp: ex_sched_cur)
qed


theorem mutex_handover_excludes_witness:
  "\<exists>s1 Q1. mutex_unlock 70 ex_sched = Inr s1 \<and> rest s1 Q1 \<and> 400 \<in> set (current_task s1 # Q1 ReadyQ) \<and>
     mutex_word s1 70 = 1 \<and> locked_task s1 70 = 0"
proof -
  have "locked_task ex_sched 70 = current_task ex_sched" "mutex_word ex_sched 70 = 1" "ex_queues (BlockQ 70) = [400]"
    by (simp_all add: ex_sched_def)
  from mutex_handover_excludes [OF ex_sched_rest _ this] show ?thesis by (auto simp: ex_sched_cur)
qed

theorem timer_wakes_exactly_due_witness:
  "\<exists>s Q. irq0_handler ex_sched = Some (Inr s) \<and> rest s Q \<and> Q WaitQ = [] \<and> 300 \<in> set (current_task s # Q ReadyQ)"
proof -
  have "due (ticked ex_sched) 300" by (simp add: due_def wait_of_def ex_sched_def ex_task_def)
  with timer_wakes_exactly_due [OF ex_sched_rest] show ?thesis by auto
qed

end
