(* ===== verification/Vmm.thy ===== *)
theory Vmm
  imports Pmm
begin

text \<open>
  The virtual memory manager, src/kernel/vmm.c. A page directory and its tables are arrays of
  1024 entries, indexed by the ten address bits that the code masks out: an index is a
  \<open>10 word\<close>, so \<open>assert(i < 1024)\<close> cannot fail. Page tables are objects of a store indexed by
  the kernel virtual address they are mapped at (\<open>tables[i]\<close> of the code), directories by the
  address of their \<open>page_directory_t\<close>; \<open>pd_entries\<close> are the words at \<open>physical_tables\<close>.
  \<open>get_table_alloc\<close> and \<open>find_vspace\<close> call each other, on a user directory and on the kernel
  directory; since the kernel directory never allocates a table, the loop of \<open>find_vspace\<close> is
  defined over the lookup function it uses (\<open>fv_loop\<close>) and instantiated twice. \<open>invlpg\<close>, the
  loading of \<open>cr3\<close> and printed messages are left out.
\<close>

type_synonym ix = "10 word"
type_synonym page_table = "ix \<Rightarrow> u32"

definition PAGE_PRESENT :: u32 where "PAGE_PRESENT = 0x01"
definition PAGE_READWRITE :: u32 where "PAGE_READWRITE = 0x02"
definition PAGE_USER :: u32 where "PAGE_USER = 0x04"
definition PAGE_TABLE_FLAGS :: u32 where "PAGE_TABLE_FLAGS = 0x01 OR 0x02 OR 0x04"
definition PAGE_VALUE_GUARD :: u32 where "PAGE_VALUE_GUARD = 0xFFFFF000"
definition PAGE_VALUE_RESERVED :: u32 where "PAGE_VALUE_RESERVED = 0xFFFF100"

record page_directory_t =
  pd_virt :: u32
  pd_entries :: "ix \<Rightarrow> u32"
  pd_tables :: "ix \<Rightarrow> u32"
  pd_phys :: u32
  pd_refcount :: int

record vmm =
  vpm :: pmm
  ptabs :: "u32 \<rightharpoonup> page_table"
  pdirs :: "u32 \<rightharpoonup> page_directory_t"
  kernel_directory :: u32

definition dir_index :: "u32 \<Rightarrow> ix" where
  "dir_index v = ucast (drop_bit 22 v)"

definition page_index :: "u32 \<Rightarrow> ix" where
  "page_index v = ucast (drop_bit 12 v AND 0x3FF)"

definition ld_dir :: "vmm \<Rightarrow> u32 \<Rightarrow> page_directory_t res" where
  "ld_dir s d = (case pdirs s d of None \<Rightarrow> Inl MemFault | Some pd \<Rightarrow> Inr pd)"

definition ld_tab :: "vmm \<Rightarrow> u32 \<Rightarrow> page_table res" where
  "ld_tab s t = (case ptabs s t of None \<Rightarrow> Inl MemFault | Some pt \<Rightarrow> Inr pt)"

definition upd_dir :: "u32 \<Rightarrow> (page_directory_t \<Rightarrow> page_directory_t) \<Rightarrow> vmm \<Rightarrow> vmm res" where
  "upd_dir d f s = kbind (ld_dir s d) (\<lambda>pd. Inr (s\<lparr>pdirs := (pdirs s)(d \<mapsto> f pd)\<rparr>))"

definition page_directory_reference :: "u32 \<Rightarrow> vmm \<Rightarrow> (u32 \<times> vmm) res" where
  "page_directory_reference d s =
     kbind (kassert (d \<noteq> 0)) (\<lambda>_.
     kbind (upd_dir d (\<lambda>pd. if pd_refcount pd \<noteq> -1 then pd\<lparr>pd_refcount := pd_refcount pd + 1\<rparr> else pd) s) (\<lambda>s.
     Inr (d, s)))"

definition invalidate_page :: "u32 \<Rightarrow> unit res" where
  "invalidate_page v = kassert (v AND 0x3FF = 0)"

definition get_table :: "u32 \<Rightarrow> u32 \<Rightarrow> vmm \<Rightarrow> u32 res" where
  "get_table v d s =
     kbind (kassert (d \<noteq> 0)) (\<lambda>_.
     kbind (ld_dir s d) (\<lambda>pd. Inr (pd_tables pd (dir_index v))))"

definition get_page :: "u32 \<Rightarrow> u32 \<Rightarrow> vmm \<Rightarrow> u32 res" where
  "get_page t v s =
     kbind (kassert (t \<noteq> 0)) (\<lambda>_.
     kbind (ld_tab s t) (\<lambda>pt. Inr (pt (page_index v))))"

definition set_page :: "u32 \<Rightarrow> u32 \<Rightarrow> u32 \<Rightarrow> vmm \<Rightarrow> vmm res" where
  "set_page t v page s =
     kbind (kassert (t \<noteq> 0)) (\<lambda>_.
     kbind (ld_tab s t) (\<lambda>pt.
     Inr (s\<lparr>ptabs := (ptabs s)(t \<mapsto> pt(page_index v := page))\<rparr>)))"

definition map_page :: "u32 \<Rightarrow> u32 \<Rightarrow> u32 \<Rightarrow> u32 \<Rightarrow> vmm \<Rightarrow> vmm res" where
  "map_page t v phys flags s =
     kbind (kassert (t \<noteq> 0)) (\<lambda>_.
     kbind (kassert (v AND 0x3FF = 0)) (\<lambda>_.
     kbind (kassert (t AND 0x3FF = 0)) (\<lambda>_.
     kbind (ld_tab s t) (\<lambda>pt.
     Inr (s\<lparr>ptabs := (ptabs s)(t \<mapsto> pt(page_index v := phys OR flags))\<rparr>)))))"

text \<open>\<open>find_vspace\<close>: \<open>tab\<close> is \<open>get_table_alloc(\<sqdot>, dir)\<close>. \<open>fv_run\<close> is the \<open>while (length < n)\<close> loop,
  \<open>fv_reserve\<close> the loop that marks the pages found (\<open>start\<close> is a multiple of the page size, so
  it runs over every page below \<open>start + length * BLOCK_SIZE\<close>, a 32-bit sum), \<open>fv_loop\<close> the
  \<open>for\<close> loop over the page numbers.\<close>

function fv_run :: "(u32 \<Rightarrow> vmm \<Rightarrow> (u32 \<times> vmm) res) \<Rightarrow> u32 \<Rightarrow> nat \<Rightarrow> nat \<Rightarrow> vmm \<Rightarrow> (nat \<times> vmm) res" where
  "fv_run tab v n len s =
     (if len < n
      then let v2 = v + of_nat (len * BLOCK_SIZE)
           in kbind (tab v2 s) (\<lambda>(t, s).
              kbind (get_page t v2 s) (\<lambda>p.
                if p = 0 then fv_run tab v n (len + 1) s else Inr (len, s)))
      else Inr (len, s))"
  by pat_completeness auto
termination by (relation "measure (\<lambda>(tab, v, n, len, s). n - len)") auto

definition fv_reserve :: "u32 \<Rightarrow> u32 \<Rightarrow> nat \<Rightarrow> vmm \<Rightarrow> vmm res" where
  "fv_reserve d start len s =
     (let stop = start + of_nat (len * BLOCK_SIZE)
      in if start < stop
         then kfor (\<lambda>k s. let i = start + of_nat (k * BLOCK_SIZE)
                          in kbind (get_table i d s) (\<lambda>t. map_page t i PAGE_VALUE_RESERVED 0 s))
                [0..<unat (stop - start) div BLOCK_SIZE] s
         else Inr s)"

function fv_loop :: "(u32 \<Rightarrow> vmm \<Rightarrow> (u32 \<times> vmm) res) \<Rightarrow> u32 \<Rightarrow> nat \<Rightarrow> nat \<Rightarrow> vmm \<Rightarrow> (u32 \<times> vmm) res" where
  "fv_loop tab d n i s =
     (if i < 0x100000
      then let v = of_nat (i * BLOCK_SIZE)
           in kbind (tab v s) (\<lambda>(t, s).
              kbind (get_page t v s) (\<lambda>p.
                if p \<noteq> 0 then fv_loop tab d n (i + 1) s
                else kbind (fv_run tab v n 1 s) (\<lambda>(len, s).
                       if len = n then kbind (fv_reserve d v len s) (\<lambda>s. Inr (v, s))
                       else fv_loop tab d n (i + len + 1) s)))
      else Inr (-1, s))"
  by pat_completeness auto
termination by (relation "measure (\<lambda>(tab, d, n, i, s). 0x100000 - i)") auto

declare fv_run.simps [simp del] fv_loop.simps [simp del]

text \<open>\<open>get_table_alloc\<close> on the kernel directory, and \<open>find_vspace\<close> there.\<close>

definition kernel_table :: "u32 \<Rightarrow> vmm \<Rightarrow> (u32 \<times> vmm) res" where
  "kernel_table v s =
     kbind (get_table v (kernel_directory s) s) (\<lambda>t.
     kbind (kassert (t \<noteq> 0)) (\<lambda>_. Inr (t, s)))"

definition find_kernel_vspace :: "nat \<Rightarrow> vmm \<Rightarrow> (u32 \<times> vmm) res" where
  "find_kernel_vspace n s =
     kbind (kassert (n \<noteq> 0)) (\<lambda>_. fv_loop kernel_table (kernel_directory s) n 1 s)"

definition get_table_alloc :: "u32 \<Rightarrow> u32 \<Rightarrow> vmm \<Rightarrow> (u32 \<times> vmm) res" where
  "get_table_alloc v d s =
     kbind (get_table v d s) (\<lambda>t.
       if t \<noteq> 0 then Inr (t, s)
       else kbind (kassert (d \<noteq> kernel_directory s)) (\<lambda>_.
            kbind (pmm_alloc_blocks_safe (vpm s) 1) (\<lambda>(phys, m).
            kbind (find_kernel_vspace 1 (s\<lparr>vpm := m\<rparr>)) (\<lambda>(virt, s).
            kbind (kassert (virt \<noteq> 0)) (\<lambda>_.
            kbind (upd_dir d (\<lambda>pd. pd\<lparr>pd_entries := (pd_entries pd)(dir_index v := phys OR PAGE_TABLE_FLAGS),
                                     pd_tables := (pd_tables pd)(dir_index v := virt)\<rparr>) s) (\<lambda>s.
            kbind (get_table virt (kernel_directory s) s) (\<lambda>kt.
            kbind (map_page kt virt phys (PAGE_PRESENT OR PAGE_READWRITE) s) (\<lambda>s.
            kbind (invalidate_page v) (\<lambda>_.
            Inr (virt, s\<lparr>ptabs := (ptabs s)(virt \<mapsto> (\<lambda>_. 0))\<rparr>))))))))))"

definition find_vspace :: "u32 \<Rightarrow> nat \<Rightarrow> vmm \<Rightarrow> (u32 \<times> vmm) res" where
  "find_vspace d n s =
     kbind (kassert (d \<noteq> 0)) (\<lambda>_.
     kbind (kassert (n \<noteq> 0)) (\<lambda>_. fv_loop (\<lambda>v. get_table_alloc v d) d n 1 s))"

text \<open>\<open>page_directory_new\<close>: \<open>a\<close> is the address \<open>kcalloc\<close> returned. The \<open>memset\<close> writes to the page
  just mapped.\<close>

definition page_directory_new :: "u32 \<Rightarrow> vmm \<Rightarrow> (u32 \<times> vmm) res" where
  "page_directory_new a s =
     kbind (kassert (a \<noteq> 0)) (\<lambda>_.
     kbind (pmm_alloc_blocks_safe (vpm s) 1) (\<lambda>(phys, m).
     kbind (find_vspace (kernel_directory s) 1 (s\<lparr>vpm := m\<rparr>)) (\<lambda>(virt, s).
     kbind (get_table_alloc virt (kernel_directory s) s) (\<lambda>(t, s).
     kbind (map_page t virt phys (PAGE_PRESENT OR PAGE_READWRITE) s) (\<lambda>s.
     page_directory_reference a
       (s\<lparr>pdirs := (pdirs s)(a \<mapsto> \<lparr>pd_virt = virt, pd_entries = (\<lambda>_. 0), pd_tables = (\<lambda>_. 0),
                                  pd_phys = phys, pd_refcount = 0\<rparr>)\<rparr>))))))"

definition ixs :: "ix list" where
  "ixs = map of_nat [0..<1024]"

definition page_table_free :: "u32 \<Rightarrow> u32 \<Rightarrow> vmm \<Rightarrow> vmm res" where
  "page_table_free t phys_table s =
     kbind (kassert (t \<noteq> 0)) (\<lambda>_.
     kbind (kassert (phys_table \<noteq> 0)) (\<lambda>_.
     kbind (kassert (phys_table AND PAGE_PRESENT \<noteq> 0)) (\<lambda>_.
     kbind (ld_tab s t) (\<lambda>pt.
     kbind (kfor (\<lambda>i _. kassert (pt i = 0)) ixs ()) (\<lambda>_.
     kbind (get_table t (kernel_directory s) s) (\<lambda>kt.
     kbind (map_page kt t 0 0 s) (\<lambda>s.
     kbind (invalidate_page t) (\<lambda>_.
     kbind (pmm_free_blocks (vpm s) (phys_table AND NOT 0x3FF) 1) (\<lambda>m.
     Inr (s\<lparr>vpm := m, ptabs := (ptabs s)(t := None)\<rparr>))))))))))"

definition pdf_entry :: "u32 \<Rightarrow> ix \<Rightarrow> vmm \<Rightarrow> vmm res" where
  "pdf_entry d i s =
     kbind (ld_dir s d) (\<lambda>pd.
     kbind (if pd_entries pd i AND PAGE_PRESENT \<noteq> 0
            then kbind (kassert (pd_tables pd i \<noteq> 0)) (\<lambda>_.
                 kbind (page_table_free (pd_tables pd i) (pd_entries pd i) s) (\<lambda>s.
                 upd_dir d (\<lambda>pd. pd\<lparr>pd_entries := (pd_entries pd)(i := 0), pd_tables := (pd_tables pd)(i := 0)\<rparr>) s))
            else Inr s) (\<lambda>s.
     kbind (ld_dir s d) (\<lambda>pd.
     kbind (kassert (pd_tables pd i = 0)) (\<lambda>_. Inr s))))"

definition page_directory_free :: "u32 \<Rightarrow> vmm \<Rightarrow> vmm res" where
  "page_directory_free d s =
     kbind (kassert (d \<noteq> 0)) (\<lambda>_.
     kbind (ld_dir s d) (\<lambda>pd.
     kbind (kassert (pd_refcount pd = 0)) (\<lambda>_.
     kbind (kfor (pdf_entry d) ixs s) (\<lambda>s.
     kbind (pmm_free_blocks (vpm s) (pd_phys pd) 1) (\<lambda>m.
     kbind (get_table (pd_virt pd) (kernel_directory s) (s\<lparr>vpm := m\<rparr>)) (\<lambda>kt.
     kbind (map_page kt (pd_virt pd) 0 0 (s\<lparr>vpm := m\<rparr>)) (\<lambda>s.
     kbind (invalidate_page (pd_virt pd)) (\<lambda>_.
     Inr (s\<lparr>pdirs := (pdirs s)(d := None)\<rparr>)))))))))"

definition page_directory_release :: "u32 \<Rightarrow> vmm \<Rightarrow> vmm res" where
  "page_directory_release d s =
     kbind (kassert (d \<noteq> 0)) (\<lambda>_.
     kbind (ld_dir s d) (\<lambda>pd.
     kbind (kassert (pd_refcount pd \<noteq> -1)) (\<lambda>_.
     kbind (upd_dir d (pd_refcount_update (\<lambda>r. r - 1)) s) (\<lambda>s.
       if pd_refcount pd - 1 = 0 then page_directory_free d s else Inr s))))"

text \<open>\<open>map_pages\<close>: both ends are rounded to 1024 bytes only, so the 32-bit counter may step over
  \<open>end\<close> and wrap around; \<open>None\<close> is a loop that does not end.\<close>

partial_function (option) mp_loop :: "u32 \<Rightarrow> u32 \<Rightarrow> u32 \<Rightarrow> vmm \<Rightarrow> vmm res option" where
  "mp_loop i stop flags s =
     (if i < stop
      then case kbind (get_table i (kernel_directory s) s) (\<lambda>t. map_page t i i flags s) of
             Inl e \<Rightarrow> Some (Inl e)
           | Inr s' \<Rightarrow> mp_loop (i + of_nat BLOCK_SIZE) stop flags s'
      else Some (Inr s))"

definition map_pages :: "u32 \<Rightarrow> u32 \<Rightarrow> u32 \<Rightarrow> vmm \<Rightarrow> vmm res option" where
  "map_pages start stop flags s =
     (let start = (if start AND 0x3FF \<noteq> 0 then start AND NOT 0x3FF else start);
          stop = (if stop AND 0x3FF \<noteq> 0 then (stop AND NOT 0x3FF) + of_nat BLOCK_SIZE else stop)
      in mp_loop start stop flags s)"

definition map_direct_kernel :: "u32 \<Rightarrow> vmm \<Rightarrow> vmm res" where
  "map_direct_kernel v s =
     kbind (kassert (v AND 0x3FF = 0)) (\<lambda>_.
     kbind (get_table v (kernel_directory s) s) (\<lambda>t.
     kbind (get_page t v s) (\<lambda>o_page.
     kbind (kassert (o_page = 0 \<or> o_page AND NOT 0x3FF = v)) (\<lambda>_.
     kbind (get_table v (kernel_directory s) s) (\<lambda>t.
     kbind (map_page t v v (PAGE_PRESENT OR PAGE_READWRITE) s) (\<lambda>s.
     kbind (invalidate_page v) (\<lambda>_. Inr s)))))))"

text \<open>\<open>vmm_find_dma_region\<close>: \<open>dma_run\<close> is its \<open>while\<close> loop, \<open>dma_loop i (Some j)\<close> the inner and
  \<open>dma_loop i None\<close> the outer \<open>for\<close> loop. The inner counter is a \<open>uint8_t\<close>, so
  \<open>j = j + len\<close> is taken modulo 256; a loop that does not end is \<open>None\<close>.\<close>

function dma_run :: "nat \<Rightarrow> nat \<Rightarrow> nat \<Rightarrow> vmm \<Rightarrow> nat res" where
  "dma_run start n len s =
     (if len < n
      then let v = of_nat ((start + len) * BLOCK_SIZE)
           in kbind (pmm_test_block (vpm s) (start + len)) (\<lambda>used.
                if used then Inr len
                else kbind (get_table v (kernel_directory s) s) (\<lambda>t.
                     kbind (get_page t v s) (\<lambda>p.
                       if p \<noteq> 0 then Inr len else dma_run start n (len + 1) s)))
      else Inr len)"
  by pat_completeness auto
termination by (relation "measure (\<lambda>(start, n, len, s). n - len)") auto

declare dma_run.simps [simp del]

partial_function (option) dma_loop :: "nat \<Rightarrow> nat \<Rightarrow> nat option \<Rightarrow> vmm \<Rightarrow> nat res option" where
  "dma_loop n i jo s =
     (case jo of
        None \<Rightarrow>
          (if i < block_map_size (vpm s) div 32
           then case kload (block_map (vpm s)) i of
                  Inl e \<Rightarrow> Some (Inl e)
                | Inr w \<Rightarrow> if w = 0xFFFFFFFF then dma_loop n (i + 1) None s else dma_loop n i (Some 0) s
           else Some (Inr 0))
      | Some j \<Rightarrow>
          (if j < 32
           then case dma_run (i * 32 + j) n 0 s of
                  Inl e \<Rightarrow> Some (Inl e)
                | Inr len \<Rightarrow> if len = n then Some (Inr (i * 32 + j))
                             else dma_loop n (i + len div 32) (Some ((j + len) mod 256 + 1)) s
           else dma_loop n (i + 1) None s))"

definition vmm_find_dma_region :: "nat \<Rightarrow> vmm \<Rightarrow> nat res option" where
  "vmm_find_dma_region n s =
     (if n = 0 then Some (Inl AssertFailed) else dma_loop n 0 None s)"

definition dma_malloc :: "nat \<Rightarrow> vmm \<Rightarrow> (u32 \<times> vmm) res option" where
  "dma_malloc m s =
     (if m = 0 then Some (Inl AssertFailed)
      else let n = (BLOCK_SIZE - 1 + m) div BLOCK_SIZE
           in map_option (\<lambda>r. kbind r (\<lambda>v.
                kbind (kassert (v \<noteq> 0)) (\<lambda>_.
                kbind (kfor (\<lambda>i s. kbind (pmm_set_block (vpm s) (v + i)) (\<lambda>m.
                              map_direct_kernel (of_nat ((v + i) * BLOCK_SIZE)) (s\<lparr>vpm := m\<rparr>)))
                         [0..<n] s) (\<lambda>s.
                Inr (of_nat (v * BLOCK_SIZE), s)))))
                (vmm_find_dma_region n s))"

text \<open>\<open>dump_table\<close> and \<open>dump_directory\<close>: the lines printed, as pairs of an address and its entry.\<close>

definition dump_table :: "u32 \<Rightarrow> u32 \<Rightarrow> vmm \<Rightarrow> (u32 \<times> u32) list res" where
  "dump_table t base s =
     kbind (kassert (t \<noteq> 0)) (\<lambda>_.
     kbind (kassert (base AND 0x3FF = 0)) (\<lambda>_.
     kbind (ld_tab s t) (\<lambda>pt.
     Inr (map (\<lambda>i. (base OR push_bit 12 (ucast i), pt i)) (filter (\<lambda>i. pt i \<noteq> 0) ixs)))))"

definition dump_directory :: "u32 \<Rightarrow> vmm \<Rightarrow> (u32 \<times> u32) list res" where
  "dump_directory d s =
     kbind (kassert (d \<noteq> 0)) (\<lambda>_.
     kbind (ld_dir s d) (\<lambda>pd.
     kfor (\<lambda>i out.
        if pd_entries pd i = 0
        then kbind (kassert (pd_tables pd i = 0)) (\<lambda>_. Inr out)
        else if pd_entries pd i AND PAGE_PRESENT \<noteq> 0
             then kbind (dump_table (pd_tables pd i) (push_bit 22 (ucast i)) s) (\<lambda>ls. Inr (out @ ls))
             else Inr out) ixs []))"

text \<open>The page fault handler: what it reports of the error code (mode, action, cause), and the end,
  \<open>halt\<close>, in either mode.\<close>

definition page_fault_report :: "u32 \<Rightarrow> string \<times> string \<times> string" where
  "page_fault_report err =
     (if err AND 0x4 \<noteq> 0 then ''user'' else ''kernel'',
      if err AND 0x10 \<noteq> 0 then ''instruction fetch'' else if err AND 0x2 \<noteq> 0 then ''write'' else ''read'',
      if err AND 0x8 \<noteq> 0 then ''page directory entry reserved bit set''
      else if err AND 0x1 \<noteq> 0 then ''protection violation'' else ''non-present page'')"

definition page_fault :: "u32 \<Rightarrow> u32 \<Rightarrow> u32 option \<Rightarrow> vmm \<Rightarrow> unit res" where
  "page_fault err cr2 process_dir s =
     kbind (if err AND 0x4 \<noteq> 0
            then (case process_dir of None \<Rightarrow> Inl AssertFailed | Some d \<Rightarrow> Inr d)
            else Inr (kernel_directory s)) (\<lambda>d.
     kbind (kassert (d \<noteq> 0)) (\<lambda>_.
     kbind (get_table cr2 d s) (\<lambda>t.
     kbind (if t = 0 then Inr 0 else get_page t cr2 s) (\<lambda>_.
     kbind (dump_directory d s) (\<lambda>_. Inl Halted)))))"

text \<open>\<open>vmm_init\<close>: \<open>kd\<close> is the address of \<open>_kernel_dir\<close>. Paging is still off, so the tables are written
  at their physical addresses.\<close>

definition vi_table :: "u32 \<Rightarrow> ix \<Rightarrow> vmm \<Rightarrow> vmm res" where
  "vi_table kd i s =
     kbind (pmm_alloc_blocks_safe (vpm s) 1) (\<lambda>(phys, m).
     upd_dir kd (\<lambda>pd. pd\<lparr>pd_entries := (pd_entries pd)(i := phys OR 0x01 OR 0x02 OR 0x08 OR 0x10),
                         pd_tables := (pd_tables pd)(i := phys)\<rparr>)
       (s\<lparr>vpm := m, ptabs := (ptabs s)(phys \<mapsto> (\<lambda>_. 0))\<rparr>))"

definition vmm_init :: "u32 \<Rightarrow> vmm \<Rightarrow> vmm res" where
  "vmm_init kd s =
     kbind (pmm_alloc_blocks_safe (vpm s) 1) (\<lambda>(phys, m).
     let s = s\<lparr>vpm := m, kernel_directory := kd,
               pdirs := (pdirs s)(kd \<mapsto> \<lparr>pd_virt = phys, pd_entries = (\<lambda>_. 0), pd_tables = (\<lambda>_. 0),
                                        pd_phys = phys, pd_refcount = -1\<rparr>)\<rparr>
     in kbind (kfor (vi_table kd) ixs s) (\<lambda>s.
        kbind (kfor (\<lambda>i s. kbind (ld_dir s kd) (\<lambda>pd. map_direct_kernel (pd_tables pd i) s)) ixs s) (\<lambda>s.
        kbind (map_direct_kernel phys s) (\<lambda>s.
        kbind (get_table 0 kd s) (\<lambda>t. map_page t 0 0 0 s)))))"

section \<open>The kernel directory\<close>

text \<open>\<open>pn\<close> is the page number of an address: both indices together.\<close>

definition pn :: "u32 \<Rightarrow> u32" where
  "pn v = drop_bit 12 v"

lemma mask10: "(0x3FF :: u32) = mask 10"
  by (simp add: mask_eq_exp_minus_1)

lemma mask12: "(0xFFF :: u32) = mask 12"
  by (simp add: mask_eq_exp_minus_1)

lemma index_eq_iff: "dir_index v = dir_index w \<and> page_index v = page_index w \<longleftrightarrow> pn v = pn w"
proof
  assume e: "dir_index v = dir_index w \<and> page_index v = page_index w"
  show "pn v = pn w"
  proof (rule bit_word_eqI)
    fix n assume n: "n < LENGTH(32)"
    have d: "bit (dir_index v) m = bit (dir_index w) m" and p: "bit (page_index v) m = bit (page_index w) m" for m
      using e by simp_all
    consider "n < 10" | "10 \<le> n" "n < 20" | "20 \<le> n" by linarith
    then show "bit (pn v) n = bit (pn w) n"
    proof cases
      case 1
      then show ?thesis using p [of n]
        by (simp add: page_index_def pn_def mask10 bit_simps)
    next
      case 2
      then have "n - 10 < 10" by simp
      with 2 show ?thesis using d [of "n - 10"] by (simp add: dir_index_def pn_def bit_simps)
    next
      case 3
      then have "\<not> bit v (12 + n)" "\<not> bit w (12 + n)" using bit_imp_le_length by fastforce+
      then show ?thesis by (simp add: pn_def bit_drop_bit_eq)
    qed
  qed
next
  assume "pn v = pn w"
  moreover have "dir_index x = ucast (drop_bit 10 (pn x))" "page_index x = ucast (pn x AND 0x3FF)" for x
    by (simp_all add: dir_index_def page_index_def pn_def)
  ultimately show "dir_index v = dir_index w \<and> page_index v = page_index w" by simp
qed

lemma unat_page: "unat (of_nat (i * BLOCK_SIZE) :: u32) = i mod 2 ^ 20 * 4096"
  unfolding unat_of_nat BLOCK_SIZE_def using mult_mod_left [of i "2 ^ 20" 4096] by simp

lemma pn_of_nat: "pn (of_nat (i * BLOCK_SIZE)) = of_nat (i mod 2 ^ 20)"
proof -
  have "unat (pn (of_nat (i * 4096))) = i mod 2 ^ 20"
    using unat_page [of i] unfolding pn_def unat_drop_bit_eq by (simp add: drop_bit_eq_div BLOCK_SIZE_def)
  moreover have "unat (of_nat (i mod 2 ^ 20) :: u32) = i mod 2 ^ 20"
    using mod_less_divisor [of "2 ^ 20" i] by (simp add: unat_of_nat)
  ultimately show ?thesis by (simp add: BLOCK_SIZE_def word_unat_eq_iff)
qed

lemma page_aligned: "of_nat (i * BLOCK_SIZE) AND (0x3FF :: u32) = 0"
proof -
  have "of_nat (i * 4096) = push_bit 12 (of_nat i :: u32)" by (simp add: push_bit_eq_mult mult.commute)
  then show ?thesis by (intro bit_word_eqI) (simp add: BLOCK_SIZE_def mask10 bit_simps)
qed

lemma page_aligned12: "of_nat (i * BLOCK_SIZE) AND (0xFFF :: u32) = 0"
proof -
  have "of_nat (i * 4096) = push_bit 12 (of_nat i :: u32)" by (simp add: push_bit_eq_mult mult.commute)
  then show ?thesis by (intro bit_word_eqI) (simp add: BLOCK_SIZE_def mask12 bit_simps)
qed

text \<open>\<open>kdir_wf\<close>: every table of the kernel directory is allocated, at an aligned address of its own.
  \<open>kpage s v\<close> is the entry of address \<open>v\<close> in the kernel directory.\<close>

definition kdir_wf :: "vmm \<Rightarrow> bool" where
  "kdir_wf s \<longleftrightarrow> kernel_directory s \<noteq> 0 \<and>
     (case pdirs s (kernel_directory s) of None \<Rightarrow> False
      | Some pd \<Rightarrow> inj (pd_tables pd) \<and>
          (\<forall>i. pd_tables pd i \<noteq> 0 \<and> pd_tables pd i AND 0x3FF = 0 \<and> ptabs s (pd_tables pd i) \<noteq> None))"

definition kpage :: "vmm \<Rightarrow> u32 \<Rightarrow> u32" where
  "kpage s v = (case pdirs s (kernel_directory s) of None \<Rightarrow> 0
     | Some pd \<Rightarrow> (case ptabs s (pd_tables pd (dir_index v)) of None \<Rightarrow> 0 | Some pt \<Rightarrow> pt (page_index v)))"

lemmas vmm_defs = ld_dir_def ld_tab_def upd_dir_def get_table_def get_page_def map_page_def invalidate_page_def

lemma kdir_wfD:
  assumes "kdir_wf s"
  shows "\<exists>pd. pdirs s (kernel_directory s) = Some pd \<and> kernel_directory s \<noteq> 0 \<and> inj (pd_tables pd) \<and>
    (\<forall>i. pd_tables pd i \<noteq> 0) \<and> (\<forall>i. pd_tables pd i AND 0x3FF = 0) \<and> (\<forall>i. \<exists>pt. ptabs s (pd_tables pd i) = Some pt)"
  using assms by (auto simp: kdir_wf_def split: option.splits)

lemma kpage_pn: "pn v = pn w \<Longrightarrow> kpage s v = kpage s w"
  using index_eq_iff [of v w] by (auto simp: kpage_def split: option.split)

lemma kernel_table_ok:
  assumes "kdir_wf s"
  shows "\<exists>t. kernel_table v s = Inr (t, s) \<and> t \<noteq> 0 \<and> get_table v (kernel_directory s) s = Inr t \<and>
    get_page t v s = Inr (kpage s v)"
proof -
  from kdir_wfD [OF assms] obtain pd where pd: "pdirs s (kernel_directory s) = Some pd" "kernel_directory s \<noteq> 0"
    "\<And>i. pd_tables pd i \<noteq> 0" "\<And>i. \<exists>pt. ptabs s (pd_tables pd i) = Some pt" by blast
  from pd(4) [of "dir_index v"] obtain pt where "ptabs s (pd_tables pd (dir_index v)) = Some pt" by blast
  with pd show ?thesis by (simp add: kernel_table_def vmm_defs kpage_def)
qed

text \<open>What a change of kernel mappings leaves alone: everything but the tables of the kernel directory.\<close>

definition ktab_frame :: "vmm \<Rightarrow> vmm \<Rightarrow> bool" where
  "ktab_frame s s' \<longleftrightarrow> s'\<lparr>ptabs := ptabs s\<rparr> = s \<and> dom (ptabs s') = dom (ptabs s) \<and>
     (\<forall>t. (\<forall>pd i. pdirs s (kernel_directory s) = Some pd \<longrightarrow> t \<noteq> pd_tables pd i) \<longrightarrow> ptabs s' t = ptabs s t)"

lemma ktab_frame_simps:
  assumes "ktab_frame s s'"
  shows "vpm s' = vpm s" "pdirs s' = pdirs s" "kernel_directory s' = kernel_directory s"
    "dom (ptabs s') = dom (ptabs s)"
  using assms by (cases s, cases s'; auto simp: ktab_frame_def)+

lemma ktab_frame_trans: "ktab_frame s s' \<Longrightarrow> ktab_frame s' s'' \<Longrightarrow> ktab_frame s s''"
  by (cases s, cases s', cases s'') (auto simp: ktab_frame_def)

lemma ktab_frame_refl [simp]: "ktab_frame s s"
  by (simp add: ktab_frame_def)

text \<open>Mapping a page of the kernel changes that page and no other.\<close>

lemma kmap_ok:
  assumes wf: "kdir_wf s" and v: "v AND 0x3FF = 0"
  shows "\<exists>s'. kbind (get_table v (kernel_directory s) s) (\<lambda>t. map_page t v p f s) = Inr s' \<and> kdir_wf s' \<and>
    (\<forall>w. kpage s' w = (if pn w = pn v then p OR f else kpage s w)) \<and> ktab_frame s s'"
proof -
  from kdir_wfD [OF wf] obtain pd where pd: "pdirs s (kernel_directory s) = Some pd" "kernel_directory s \<noteq> 0" "inj (pd_tables pd)"
    "\<And>i. pd_tables pd i \<noteq> 0" "\<And>i. pd_tables pd i AND 0x3FF = 0" "\<And>i. \<exists>pt. ptabs s (pd_tables pd i) = Some pt"
    by blast
  let ?t = "pd_tables pd (dir_index v)"
  obtain pt where pt: "ptabs s ?t = Some pt" using pd(6) by blast
  let ?s = "s\<lparr>ptabs := (ptabs s)(?t \<mapsto> pt(page_index v := p OR f))\<rparr>"
  have "kbind (get_table v (kernel_directory s) s) (\<lambda>t. map_page t v p f s) = Inr ?s"
    using pd(1,2,4,5) pt v by (simp add: vmm_defs)
  moreover have "kdir_wf ?s" using pd(1-6) by (auto simp: kdir_wf_def)
  moreover have "kpage ?s w = (if pn w = pn v then p OR f else kpage s w)" for w
  proof -
    have *: "pn w = pn v \<longleftrightarrow> pd_tables pd (dir_index w) = ?t \<and> page_index w = page_index v"
      using index_eq_iff [of w v] pd(3) by (auto simp: inj_eq)
    show ?thesis
    proof (cases "pd_tables pd (dir_index w) = ?t")
      case True
      then show ?thesis using * pd(1) pt by (simp add: kpage_def)
    next
      case False
      then show ?thesis using * pd(1) by (simp add: kpage_def)
    qed
  qed
  moreover have "ktab_frame s ?s" using pt pd(1) by (auto simp: ktab_frame_def)
  ultimately show ?thesis by blast
qed

section \<open>\<open>find_vspace\<close>\<close>

text \<open>The page with number \<open>i\<close>, modulo the address space as in the code.\<close>

definition kvfree :: "vmm \<Rightarrow> nat \<Rightarrow> bool" where
  "kvfree s i \<longleftrightarrow> kpage s (of_nat (i * BLOCK_SIZE)) = 0"

lemma addr_add: "of_nat (i * BLOCK_SIZE) + of_nat (k * BLOCK_SIZE) = (of_nat ((i + k) * BLOCK_SIZE) :: u32)"
  by (simp add: algebra_simps)

lemma fv_run_ok:
  assumes wf: "kdir_wf s" and "len \<le> n" "\<forall>k<len. kvfree s (i + k)"
  shows "\<exists>m. fv_run kernel_table (of_nat (i * BLOCK_SIZE)) n len s = Inr (m, s) \<and> len \<le> m \<and> m \<le> n \<and>
    (\<forall>k<m. kvfree s (i + k)) \<and> (m = n \<or> \<not> kvfree s (i + m))"
  using assms(2,3)
proof (induction "n - len" arbitrary: len)
  case 0
  then show ?case by (subst fv_run.simps) auto
next
  case (Suc d)
  let ?v = "of_nat (i * BLOCK_SIZE) + of_nat (len * BLOCK_SIZE) :: u32"
  obtain t where t: "kernel_table ?v s = Inr (t, s)" "get_page t ?v s = Inr (kpage s ?v)"
    using kernel_table_ok [OF wf, of ?v] by auto
  have free: "kpage s ?v = 0 \<longleftrightarrow> kvfree s (i + len)" unfolding kvfree_def addr_add by simp
  show ?case
  proof (cases "kpage s ?v = 0")
    case True
    have len: "d = n - (len + 1)" "len + 1 \<le> n" using Suc.hyps(2) by auto
    from True Suc.prems free have "\<forall>k<len + 1. kvfree s (i + k)" by (simp add: less_Suc_eq)
    then obtain m where "fv_run kernel_table (of_nat (i * BLOCK_SIZE)) n (len + 1) s = Inr (m, s)" "len + 1 \<le> m"
      "m \<le> n" "\<forall>k<m. kvfree s (i + k)" "m = n \<or> \<not> kvfree s (i + m)"
      using Suc.hyps(1) [OF len(1,2)] by blast
    then show ?thesis using t True Suc.hyps(2)
      by (subst fv_run.simps) (auto simp: Let_def)
  next
    case False
    then show ?thesis using t free Suc.hyps(2) Suc.prems
      by (subst fv_run.simps) (auto simp: Let_def)
  qed
qed

text \<open>The pages that \<open>fv_reserve\<close> marks.\<close>

lemma page_number_eq:
  assumes "i < 2 ^ 20" "j < 2 ^ 20"
  shows "pn (of_nat (i * BLOCK_SIZE)) = pn (of_nat (j * BLOCK_SIZE)) \<longleftrightarrow> i = j"
  unfolding pn_of_nat using assms by (auto simp: word_unat_eq_iff unat_of_nat)

lemma reserve_pages:
  assumes wf: "kdir_wf s" and kd: "kd = kernel_directory s" and m: "i + m \<le> 2 ^ 20"
  shows "\<exists>s'. kfor (\<lambda>k s. let a = of_nat (i * BLOCK_SIZE) + of_nat (k * BLOCK_SIZE)
                in kbind (get_table a kd s) (\<lambda>t. map_page t a PAGE_VALUE_RESERVED 0 s)) [0..<m] s = Inr s' \<and>
    kdir_wf s' \<and> ktab_frame s s' \<and>
    (\<forall>j<2 ^ 20. kpage s' (of_nat (j * BLOCK_SIZE)) =
       (if i \<le> j \<and> j < i + m then PAGE_VALUE_RESERVED else kpage s (of_nat (j * BLOCK_SIZE))))"
  using m
proof (induction m)
  case 0
  then show ?case using wf by auto
next
  case (Suc m)
  let ?f = "\<lambda>k s. let a = of_nat (i * BLOCK_SIZE) + of_nat (k * BLOCK_SIZE)
                in kbind (get_table a kd s) (\<lambda>t. map_page t a PAGE_VALUE_RESERVED 0 s)"
  from Suc obtain s1 where s1: "kfor ?f [0..<m] s = Inr s1" "kdir_wf s1" "ktab_frame s s1"
    "\<forall>j<2 ^ 20. kpage s1 (of_nat (j * BLOCK_SIZE)) =
       (if i \<le> j \<and> j < i + m then PAGE_VALUE_RESERVED else kpage s (of_nat (j * BLOCK_SIZE)))" by auto
  let ?a = "of_nat ((i + m) * BLOCK_SIZE) :: u32"
  obtain s2 where s2: "kbind (get_table ?a (kernel_directory s1) s1) (\<lambda>t. map_page t ?a PAGE_VALUE_RESERVED 0 s1) = Inr s2"
    "kdir_wf s2" "\<forall>w. kpage s2 w = (if pn w = pn ?a then PAGE_VALUE_RESERVED OR 0 else kpage s1 w)"
    "ktab_frame s1 s2"
    using kmap_ok [OF s1(2) page_aligned, of "i + m" PAGE_VALUE_RESERVED 0] by blast
  have "?f m s1 = Inr s2" using s2(1) kd ktab_frame_simps(3) [OF s1(3)] by (simp only: addr_add Let_def)
  then have "kfor ?f [0..<Suc m] s = Inr s2" using s1(1) by (simp add: kfor_append)
  moreover have "kpage s2 (of_nat (j * BLOCK_SIZE)) =
      (if i \<le> j \<and> j < i + Suc m then PAGE_VALUE_RESERVED else kpage s (of_nat (j * BLOCK_SIZE)))" if "j < 2 ^ 20" for j
  proof -
    have "pn (of_nat (j * BLOCK_SIZE)) = pn ?a \<longleftrightarrow> j = i + m"
      using page_number_eq [OF that, of "i + m"] Suc.prems by simp
    then show ?thesis using s2(3) s1(4) that by (auto simp del: of_nat_mult of_nat_add)
  qed
  ultimately show ?case using s2(2) ktab_frame_trans [OF s1(3) s2(4)] by blast
qed

lemma fv_reserve_ok:
  assumes wf: "kdir_wf s" and i: "1 \<le> i" "i < 2 ^ 20" "n < 2 ^ 20" "1 \<le> n"
  shows "\<exists>s'. fv_reserve (kernel_directory s) (of_nat (i * BLOCK_SIZE)) n s = Inr s' \<and> kdir_wf s' \<and> ktab_frame s s' \<and>
    (\<forall>j<2 ^ 20. kpage s' (of_nat (j * BLOCK_SIZE)) =
       (if i + n < 2 ^ 20 \<and> i \<le> j \<and> j < i + n then PAGE_VALUE_RESERVED else kpage s (of_nat (j * BLOCK_SIZE))))"
proof -
  let ?a = "of_nat (i * BLOCK_SIZE) :: u32" and ?e = "of_nat ((i + n) * BLOCK_SIZE) :: u32"
  have ua: "unat ?a = i * 4096" using unat_page [of i] i by (simp del: of_nat_mult)
  show ?thesis
  proof (cases "i + n < 2 ^ 20")
    case True
    then have ue: "unat ?e = (i + n) * 4096" using unat_page [of "i + n"] by (simp del: of_nat_mult of_nat_add)
    then have lt: "?a < ?e" using ua i(4) by (simp add: word_less_nat_alt del: of_nat_mult of_nat_add)
    moreover have "unat (?e - ?a) = n * 4096"
      using unat_sub [OF less_imp_le [OF lt]] ua ue by (simp add: algebra_simps del: of_nat_mult of_nat_add)
    then have "unat (?e - ?a) div BLOCK_SIZE = n" by (simp add: BLOCK_SIZE_def)
    ultimately have "fv_reserve kd ?a n s =
        kfor (\<lambda>k s. let a = ?a + of_nat (k * BLOCK_SIZE)
                in kbind (get_table a kd s) (\<lambda>t. map_page t a PAGE_VALUE_RESERVED 0 s)) [0..<n] s" for kd
      unfolding fv_reserve_def addr_add Let_def by simp
    then show ?thesis using reserve_pages [OF wf refl, of i n] True by simp
  next
    case False
    then have "(i + n) mod 2 ^ 20 = i + n - 2 ^ 20" using i by (simp add: mod_if)
    then have "unat ?e = (i + n - 2 ^ 20) * 4096" using unat_page [of "i + n"] by (simp del: of_nat_mult of_nat_add)
    then have "\<not> ?a < ?e" using ua i False by (simp add: word_less_nat_alt del: of_nat_mult of_nat_add)
    then have "fv_reserve (kernel_directory s) ?a n s = Inr s"
      by (simp add: fv_reserve_def addr_add Let_def del: of_nat_mult of_nat_add)
    then show ?thesis using wf False by auto
  qed
qed

lemma fv_loop_ok:
  assumes wf: "kdir_wf s" and n: "1 \<le> n" "n < 2 ^ 20" and "1 \<le> i"
    and "\<forall>j. 1 \<le> j \<and> j < i \<longrightarrow> (\<exists>k<n. \<not> kvfree s (j + k))"
  shows "\<exists>v s'. fv_loop kernel_table (kernel_directory s) n i s = Inr (v, s') \<and> kdir_wf s' \<and> ktab_frame s s' \<and>
    (v = -1 \<and> s' = s \<and> (\<forall>j. 1 \<le> j \<and> j < 2 ^ 20 \<longrightarrow> (\<exists>k<n. \<not> kvfree s (j + k))) \<or>
     (\<exists>b. v = of_nat (b * BLOCK_SIZE) \<and> 1 \<le> b \<and> b < 2 ^ 20 \<and> (\<forall>k<n. kvfree s (b + k)) \<and>
        (\<forall>j. 1 \<le> j \<and> j < b \<longrightarrow> (\<exists>k<n. \<not> kvfree s (j + k))) \<and>
        (\<forall>j<2 ^ 20. kpage s' (of_nat (j * BLOCK_SIZE)) =
           (if b + n < 2 ^ 20 \<and> b \<le> j \<and> j < b + n then PAGE_VALUE_RESERVED else kpage s (of_nat (j * BLOCK_SIZE))))))"
  using assms(4,5)
proof (induction "0x100000 - i" arbitrary: i rule: less_induct)
  case less
  show ?case
  proof (cases "i < 0x100000")
    case False
    then have "fv_loop kernel_table (kernel_directory s) n i s = Inr (-1, s)" by (subst fv_loop.simps) simp
    then show ?thesis using wf less.prems(2) False by auto
  next
    case True
    let ?v = "of_nat (i * BLOCK_SIZE) :: u32"
    obtain t where t: "kernel_table ?v s = Inr (t, s)" "get_page t ?v s = Inr (kpage s ?v)"
      using kernel_table_ok [OF wf, of ?v] by auto
    show ?thesis
    proof (cases "kpage s ?v = 0")
      case False
      have "\<exists>k<n. \<not> kvfree s (i + k)" using False n(1) by (intro exI [of _ 0]) (simp add: kvfree_def)
      then have "\<forall>j. 1 \<le> j \<and> j < i + 1 \<longrightarrow> (\<exists>k<n. \<not> kvfree s (j + k))"
        using less.prems(2) by (metis less_Suc_eq Suc_eq_plus1)
      moreover have "fv_loop kernel_table (kernel_directory s) n i s = fv_loop kernel_table (kernel_directory s) n (i + 1) s"
        using True t False by (subst fv_loop.simps) (simp add: Let_def)
      ultimately show ?thesis using less.hyps [of "i + 1"] True less.prems(1) by simp
    next
      case free: True
      then have k0: "\<forall>k<1. kvfree s (i + k)" by (simp add: kvfree_def)
      obtain m where m: "fv_run kernel_table ?v n 1 s = Inr (m, s)" "1 \<le> m" "m \<le> n" "\<forall>k<m. kvfree s (i + k)"
          "m = n \<or> \<not> kvfree s (i + m)"
        using fv_run_ok [OF wf n(1) k0] by blast
      show ?thesis
      proof (cases "m = n")
        case True
        from fv_reserve_ok [OF wf less.prems(1) _ n(2,1)] \<open>i < 0x100000\<close> obtain s' where
          s': "fv_reserve (kernel_directory s) ?v n s = Inr s'" "kdir_wf s'" "ktab_frame s s'"
            "\<forall>j<2 ^ 20. kpage s' (of_nat (j * BLOCK_SIZE)) =
              (if i + n < 2 ^ 20 \<and> i \<le> j \<and> j < i + n then PAGE_VALUE_RESERVED else kpage s (of_nat (j * BLOCK_SIZE)))"
          by auto
        have "fv_loop kernel_table (kernel_directory s) n i s = Inr (?v, s')"
          using \<open>i < 0x100000\<close> t free m(1) s'(1) True by (subst fv_loop.simps) (simp add: Let_def)
        moreover have "i < 2 ^ 20" using \<open>i < 0x100000\<close> by simp
        ultimately show ?thesis using s'(2-4) m(4) True less.prems
          by (intro exI [of _ ?v] exI [of _ s'] conjI disjI2 exI [of _ i]) simp_all
      next
        case False
        then have nf: "\<not> kvfree s (i + m)" "m < n" using m by auto
        have "\<exists>k<n. \<not> kvfree s (j + k)" if "1 \<le> j" "j < i + m + 1" for j
        proof (cases "j < i")
          case False
          then have "j + (i + m - j) = i + m" "i + m - j < n" using that nf(2) by auto
          then show ?thesis using nf(1) by metis
        qed (use less.prems(2) that in auto)
        moreover have "fv_loop kernel_table (kernel_directory s) n i s = fv_loop kernel_table (kernel_directory s) n (i + m + 1) s"
          using \<open>i < 0x100000\<close> t free m(1) False by (subst fv_loop.simps) (simp add: Let_def)
        ultimately show ?thesis using less.hyps [of "i + m + 1"] \<open>i < 0x100000\<close> by simp
      qed
    qed
  qed
qed

text \<open>On the kernel directory \<open>get_table_alloc\<close> is a lookup, so both instances of the loop agree.\<close>

lemma kernel_get_table_alloc:
  "get_table_alloc v (kernel_directory s) s = kernel_table v s"
  by (cases "get_table v (kernel_directory s) s") (auto simp: get_table_alloc_def kernel_table_def)

lemma kernel_table_state: "kernel_table v s = Inr (t, s') \<Longrightarrow> s' = s"
  by (auto simp: kernel_table_def)

lemma fv_run_cong:
  assumes "\<And>v. tab v s = kernel_table v s"
  shows "fv_run tab v n len s = fv_run kernel_table v n len s"
proof (induction "n - len" arbitrary: len)
  case 0
  then show ?case by (simp add: fv_run.simps)
next
  case (Suc d)
  then have "d = n - (len + 1)" by simp
  from Suc.hyps(1) [OF this] show ?case
    by (subst (1 2) fv_run.simps) (auto simp: Let_def assms intro!: kbind_cong dest!: kernel_table_state)
qed

lemma fv_run_state: "fv_run kernel_table v n len s = Inr (m, s') \<Longrightarrow> s' = s"
proof (induction "n - len" arbitrary: len)
  case (Suc e)
  then have e: "e = n - (len + 1)" by simp
  show ?case using Suc.prems Suc.hyps(1) [OF e]
    by (subst (asm) (1) fv_run.simps) (auto simp: Let_def dest!: kernel_table_state split: if_splits)
qed (simp add: fv_run.simps)

lemma fv_loop_cong:
  assumes "\<And>v. tab v s = kernel_table v s"
  shows "fv_loop tab d n i s = fv_loop kernel_table d n i s"
proof (induction "0x100000 - i" arbitrary: i rule: less_induct)
  case less
  show ?case
  proof (cases "i < 0x100000")
    case True
    have run: "fv_run tab v n len s = fv_run kernel_table v n len s" for v len by (rule fv_run_cong [of tab s, OF assms])
    have "fv_loop tab d n (i + 1) s = fv_loop kernel_table d n (i + 1) s"
      "\<And>m. fv_loop tab d n (i + m + 1) s = fv_loop kernel_table d n (i + m + 1) s"
      using less.hyps True by auto
    then show ?thesis
      by (subst (1 2) fv_loop.simps)
         (auto simp: Let_def assms run intro!: kbind_cong dest!: kernel_table_state fv_run_state)
  qed (simp add: fv_loop.simps)
qed

lemma find_vspace_kernel:
  "kernel_directory s \<noteq> 0 \<Longrightarrow> find_vspace (kernel_directory s) n s = find_kernel_vspace n s"
  using fv_loop_cong [of "\<lambda>v. get_table_alloc v (kernel_directory s)" s] kernel_get_table_alloc
  by (simp add: find_vspace_def find_kernel_vspace_def)

lemma find_kernel_vspace_ok:
  assumes "kdir_wf s" "1 \<le> n" "n < 2 ^ 20"
  shows "\<exists>v s'. find_kernel_vspace n s = Inr (v, s') \<and> kdir_wf s' \<and> ktab_frame s s' \<and>
    (v = -1 \<and> s' = s \<and> (\<forall>j. 1 \<le> j \<and> j < 2 ^ 20 \<longrightarrow> (\<exists>k<n. \<not> kvfree s (j + k))) \<or>
     (\<exists>b. v = of_nat (b * BLOCK_SIZE) \<and> 1 \<le> b \<and> b < 2 ^ 20 \<and> (\<forall>k<n. kvfree s (b + k)) \<and>
        (\<forall>j. 1 \<le> j \<and> j < b \<longrightarrow> (\<exists>k<n. \<not> kvfree s (j + k))) \<and>
        (\<forall>j<2 ^ 20. kpage s' (of_nat (j * BLOCK_SIZE)) =
           (if b + n < 2 ^ 20 \<and> b \<le> j \<and> j < b + n then PAGE_VALUE_RESERVED else kpage s (of_nat (j * BLOCK_SIZE))))))"
  using fv_loop_ok [OF assms, of 1] assms by (simp add: find_kernel_vspace_def)


section \<open>Directories and tables\<close>

text \<open>\<open>vmm_wf\<close>: besides \<open>kdir_wf\<close>, every page table is mapped in the kernel directory, on a page of
  its own.\<close>

definition vmm_wf :: "vmm \<Rightarrow> bool" where
  "vmm_wf s \<longleftrightarrow> kdir_wf s \<and> pmm_wf (vpm s) \<and> (\<forall>t \<in> dom (ptabs s). kpage s t \<noteq> 0 \<and> t AND 0xFFF = 0)"

lemma kpage_cong: "pdirs s' (kernel_directory s') = pdirs s (kernel_directory s) \<Longrightarrow> ptabs s' = ptabs s \<Longrightarrow> kpage s' = kpage s"
  by (rule ext) (simp add: kpage_def split: option.split)

lemma alloc_one:
  assumes "pmm_wf m" "pmm_alloc_blocks_safe m 1 = Inr (phys, m')"
  shows "\<exists>b. unat phys = b * BLOCK_SIZE \<and> b \<notin> pmm_used m \<and> b < block_map_size m \<and> pmm_used m' = insert b (pmm_used m) \<and>
    pmm_wf m' \<and> block_map_size m' = block_map_size m \<and> phys \<noteq> 0"
proof -
  have "pmm_alloc_blocks m 1 = Inr (phys, m')" "phys \<noteq> 0"
    using assms(2) by (auto simp: pmm_alloc_blocks_safe_def split: if_splits)
  from alloc_blocks_cases [OF assms(1) this] this(2) show ?thesis by (auto simp: region_free_def)
qed

lemma ld_dir_Inr [simp]: "ld_dir s d = Inr pd \<longleftrightarrow> pdirs s d = Some pd"
  by (auto simp: ld_dir_def split: option.splits)

lemma upd_dir_Inr: "upd_dir d f s = Inr s' \<longleftrightarrow> (\<exists>pd. pdirs s d = Some pd \<and> s' = s\<lparr>pdirs := (pdirs s)(d \<mapsto> f pd)\<rparr>)"
  by (auto simp: upd_dir_def)

lemma minus_one_unaligned: "(-1 :: u32) AND 0x3FF \<noteq> 0"
  by (simp add: mask10)

lemma pn_cases: "\<exists>j<2 ^ 20. pn (of_nat (j * BLOCK_SIZE)) = pn w"
proof -
  define j where "j = unat (pn w)"
  have "unat w < 2 ^ 32" using unsigned_less [of w, where 'a = nat] by simp
  then have "j < 2 ^ 20" unfolding j_def pn_def unat_drop_bit_eq by (simp add: drop_bit_eq_div)
  then show ?thesis unfolding pn_of_nat by (intro exI [of _ j]) (simp add: j_def)
qed

text \<open>What \<open>find_vspace(kernel_directory, 1)\<close> gives to a caller that goes on to map the page: the
  assertion of \<open>map_page\<close> on the alignment is what catches the failure value \<open>-1\<close>.\<close>

lemma vspace_found:
  assumes wf: "kdir_wf s" and f: "find_kernel_vspace 1 s = Inr (v, s1)" and a: "v AND 0x3FF = 0"
  shows "kdir_wf s1 \<and> ktab_frame s s1 \<and> kpage s v = 0 \<and> v AND 0xFFF = 0 \<and> v \<noteq> 0 \<and>
    (\<forall>w. pn w \<noteq> pn v \<longrightarrow> kpage s1 w = kpage s w)"
proof -
  have "v \<noteq> -1" using a minus_one_unaligned by metis
  then obtain b where b: "kdir_wf s1" "ktab_frame s s1" "v = of_nat (b * BLOCK_SIZE)" "1 \<le> b" "b < 2 ^ 20" "kvfree s b"
      "\<forall>j<2 ^ 20. kpage s1 (of_nat (j * BLOCK_SIZE)) =
           (if b + 1 < 2 ^ 20 \<and> b \<le> j \<and> j < b + 1 then PAGE_VALUE_RESERVED else kpage s (of_nat (j * BLOCK_SIZE)))"
    using find_kernel_vspace_ok [OF wf, of 1] f by auto
  have "kpage s1 w = kpage s w" if "pn w \<noteq> pn v" for w
  proof -
    obtain j where j: "j < 2 ^ 20" "pn (of_nat (j * BLOCK_SIZE)) = pn w" using pn_cases by blast
    then have "j \<noteq> b" using that b(3) by auto
    then have "\<not> (b \<le> j \<and> j < b + 1)" by simp
    then have "kpage s1 (of_nat (j * BLOCK_SIZE)) = kpage s (of_nat (j * BLOCK_SIZE))" using b(7) j(1) by metis
    then show ?thesis using kpage_pn [OF j(2)] by simp
  qed
  moreover have "unat v = b * 4096" using unat_page [of b] b(3,5) by simp
  then have "v \<noteq> 0" using b(4) by auto
  moreover have "v AND 0xFFF = 0" using page_aligned12 [of b] b(3) by simp
  ultimately show ?thesis using b(1,2,3,6) by (auto simp: kvfree_def)
qed

lemma kdir_wf_cong:
  "pdirs s' (kernel_directory s') = pdirs s (kernel_directory s) \<Longrightarrow> ptabs s' = ptabs s \<Longrightarrow>
   kernel_directory s' = kernel_directory s \<Longrightarrow> kdir_wf s' = kdir_wf s"
  by (simp add: kdir_wf_def split: option.split)

text \<open>Adding a table at a page that no table uses.\<close>

lemma new_table:
  assumes wf: "kdir_wf s" and n: "ptabs s t = None"
  shows "kdir_wf (s\<lparr>ptabs := (ptabs s)(t \<mapsto> pt)\<rparr>)" "kpage (s\<lparr>ptabs := (ptabs s)(t \<mapsto> pt)\<rparr>) = kpage s"
proof -
  obtain pd where pd: "pdirs s (kernel_directory s) = Some pd" "\<And>i. \<exists>pt. ptabs s (pd_tables pd i) = Some pt"
    using kdir_wfD [OF wf] by blast
  then have ne: "pd_tables pd i \<noteq> t" for i using n by (metis option.distinct(1))
  then show "kpage (s\<lparr>ptabs := (ptabs s)(t \<mapsto> pt)\<rparr>) = kpage s" using pd(1) by (auto simp: kpage_def)
  show "kdir_wf (s\<lparr>ptabs := (ptabs s)(t \<mapsto> pt)\<rparr>)" using wf pd(1) ne by (auto simp: kdir_wf_def)
qed

text \<open>A page table that \<open>get_table_alloc\<close> creates for a user directory is zeroed and aliases
  nothing: it is put on a kernel page that was not mapped, no other directory and no other
  user table changes, its block was free, and the memory state stays well formed.\<close>

lemma get_table_alloc_fresh:
  assumes wf: "vmm_wf s" and d: "pdirs s d = Some pd" "d \<noteq> kernel_directory s" "pd_tables pd (dir_index v) = 0"
    and g: "get_table_alloc v d s = Inr (t, s')"
  shows "vmm_wf s' \<and> ptabs s t = None \<and> ptabs s' t = Some (\<lambda>_. 0) \<and> kpage s t = 0 \<and>
    (\<exists>phys b. unat phys = b * BLOCK_SIZE \<and> b \<notin> pmm_used (vpm s) \<and> pmm_used (vpm s') = insert b (pmm_used (vpm s)) \<and>
       (\<forall>w. kpage s' w = (if pn w = pn t then phys OR 3 else kpage s w)) \<and>
       pdirs s' = (pdirs s)(d \<mapsto> pd\<lparr>pd_entries := (pd_entries pd)(dir_index v := phys OR 7),
                                    pd_tables := (pd_tables pd)(dir_index v := t)\<rparr>)) \<and>
    (\<forall>t'. t' \<noteq> t \<and> (\<forall>kd i. pdirs s (kernel_directory s) = Some kd \<longrightarrow> t' \<noteq> pd_tables kd i) \<longrightarrow> ptabs s' t' = ptabs s t')"
proof -
  have k: "kdir_wf s" "pmm_wf (vpm s)" "\<And>t. t \<in> dom (ptabs s) \<Longrightarrow> kpage s t \<noteq> 0 \<and> t AND 0xFFF = 0"
    using wf by (auto simp: vmm_wf_def)
  let ?f = "\<lambda>phys. \<lambda>pd. pd\<lparr>pd_entries := (pd_entries pd)(dir_index v := phys OR PAGE_TABLE_FLAGS),
               pd_tables := (pd_tables pd)(dir_index v := t)\<rparr>"
  from g d(1,3) obtain phys m s1 s3 where
    m: "pmm_alloc_blocks_safe (vpm s) 1 = Inr (phys, m)" and
    s1: "find_kernel_vspace 1 (s\<lparr>vpm := m\<rparr>) = Inr (t, s1)" and
    s3: "\<exists>s2. upd_dir d (?f phys) s1 = Inr s2 \<and>
         kbind (get_table t (kernel_directory s2) s2) (\<lambda>kt. map_page kt t phys (PAGE_PRESENT OR PAGE_READWRITE) s2) = Inr s3" and
    s': "s' = s3\<lparr>ptabs := (ptabs s3)(t \<mapsto> (\<lambda>_. 0))\<rparr>"
    by (auto simp: get_table_alloc_def get_table_def)
  from s3 obtain s2 where s2: "upd_dir d (?f phys) s1 = Inr s2"
    "kbind (get_table t (kernel_directory s2) s2) (\<lambda>kt. map_page kt t phys (PAGE_PRESENT OR PAGE_READWRITE) s2) = Inr s3"
    by blast
  obtain b where b: "unat phys = b * BLOCK_SIZE" "b \<notin> pmm_used (vpm s)" "pmm_used m = insert b (pmm_used (vpm s))" "pmm_wf m"
    using alloc_one [OF k(2) m] by blast
  have al: "t AND 0x3FF = 0" using s2(2) by (auto simp: map_page_def)
  let ?s0 = "s\<lparr>vpm := m\<rparr>"
  have kp0: "kpage ?s0 = kpage s" by (rule kpage_cong) simp_all
  have "kdir_wf ?s0" using k(1) kdir_wf_cong [of ?s0 s] by simp
  from vspace_found [OF this s1 al] have v: "kdir_wf s1" "ktab_frame ?s0 s1" "kpage s t = 0" "t AND 0xFFF = 0"
    "\<And>w. pn w \<noteq> pn t \<Longrightarrow> kpage s1 w = kpage s w" unfolding kp0 by auto
  note F1 = ktab_frame_simps [OF v(2)]
  have s2eq: "s2 = s1\<lparr>pdirs := (pdirs s)(d \<mapsto> ?f phys pd)\<rparr>" using s2(1) d(1) F1 by (simp add: upd_dir_Inr)
  have kd2: "pdirs s2 (kernel_directory s2) = pdirs s1 (kernel_directory s1)" "kernel_directory s2 = kernel_directory s"
    using s2eq d(2) F1 by auto
  have "kdir_wf s2" using v(1) kdir_wf_cong [OF kd2(1)] s2eq by simp
  from kmap_ok [OF this al, of phys "PAGE_PRESENT OR PAGE_READWRITE"] s2(2) have
    m3: "kdir_wf s3" "\<And>w. kpage s3 w = (if pn w = pn t then phys OR (PAGE_PRESENT OR PAGE_READWRITE) else kpage s2 w)"
      "ktab_frame s2 s3" by auto
  note F3 = ktab_frame_simps [OF m3(3)]
  have kp2: "kpage s2 = kpage s1" by (rule kpage_cong [OF kd2(1)]) (simp add: s2eq)
  have flags: "phys OR (PAGE_PRESENT OR PAGE_READWRITE) = phys OR 3" "phys OR PAGE_TABLE_FLAGS = phys OR 7"
    by (simp_all add: PAGE_PRESENT_def PAGE_READWRITE_def PAGE_TABLE_FLAGS_def)
  have kp3: "kpage s3 w = (if pn w = pn t then phys OR 3 else kpage s w)" for w
    using m3(2) v(5) kp2 flags by simp
  have tn: "ptabs s t = None" using k(3) [of t] v(3) by (metis domIff)
  have "t \<notin> dom (ptabs s3)" using tn F3(4) F1(4) s2eq by auto
  then have "ptabs s3 t = None" by blast
  note N = new_table [OF m3(1) this, of "\<lambda>_. 0"]
  have "kpage s' t' \<noteq> 0 \<and> t' AND 0xFFF = 0" if "t' \<in> dom (ptabs s')" for t'
  proof (cases "t' = t")
    case False
    then have "t' \<in> dom (ptabs s)" using that F3(4) F1(4) s2eq s' by auto
    then have o: "kpage s t' \<noteq> 0" "t' AND 0xFFF = 0" using k(3) by auto
    then have "pn t' \<noteq> pn t" using kpage_pn v(3) by metis
    then show ?thesis using o kp3 N(2) s' by simp
  next
    case True
    have "phys OR 3 \<noteq> 0" by (simp add: or_eq_0_iff)
    then show ?thesis using True kp3 N(2) s' v(4) by simp
  qed
  moreover have "vpm s' = m" using s' F3(1) s2eq F1(1) by simp
  ultimately have "vmm_wf s'" using N(1) s' b(4) by (simp add: vmm_wf_def)
  moreover have "kpage s' w = (if pn w = pn t then phys OR 3 else kpage s w)" for w using kp3 N(2) s' by simp
  moreover have "pdirs s' = (pdirs s)(d \<mapsto> pd\<lparr>pd_entries := (pd_entries pd)(dir_index v := phys OR 7),
                                    pd_tables := (pd_tables pd)(dir_index v := t)\<rparr>)"
    using s' F3(2) s2eq flags by simp
  moreover have "ptabs s' t' = ptabs s t'"
    if "t' \<noteq> t" "\<forall>kd i. pdirs s (kernel_directory s) = Some kd \<longrightarrow> t' \<noteq> pd_tables kd i" for t'
  proof -
    have "ptabs s1 t' = ptabs s t'" using v(2) that(2) by (simp add: ktab_frame_def)
    moreover have "ptabs s3 t' = ptabs s2 t'" using m3(3) that(2) kd2 F1 by (simp add: ktab_frame_def)
    ultimately show ?thesis using that(1) s' s2eq by simp
  qed
  ultimately show ?thesis using tn v(3) s' b \<open>vpm s' = m\<close> by (intro conjI exI [of _ phys] exI [of _ b]) auto
qed

lemma free_one:
  assumes "pmm_wf m" "unat p = b * BLOCK_SIZE" "b < block_map_size m"
  shows "\<exists>m'. pmm_free_blocks m p 1 = Inr m' \<and> pmm_used m' = pmm_used m - {b} \<and> pmm_wf m'"
  using blocks.unset_range_used [OF assms(1), of b 1] assms
  by (auto simp: pmm_free_blocks_def Let_def BLOCK_SIZE_def)

lemma pdf_empty:
  assumes "pdirs s d = Some pd" "pd_entries pd = (\<lambda>_. 0)" "pd_tables pd = (\<lambda>_. 0)"
  shows "kfor (pdf_entry d) xs s = Inr s"
  using assms by (induction xs) (simp_all add: pdf_entry_def ld_dir_def)

text \<open>C19: Creating a page directory and dropping its only reference gives everything back: the
  same blocks are in use, the kernel directory has the same mappings, and the directory is
  gone.\<close>

theorem page_directory_roundtrip:
  assumes k: "kdir_wf s" and p: "pmm_wf (vpm s)" and a: "pdirs s a = None"
    and n: "page_directory_new a s = Inr (d, s1)"
  shows "\<exists>s2. page_directory_release d s1 = Inr s2 \<and> pmm_used (vpm s2) = pmm_used (vpm s) \<and>
    kpage s2 = kpage s \<and> pdirs s2 = pdirs s \<and> kdir_wf s2"
proof -
  have kd0: "kernel_directory s \<noteq> 0" using k by (simp add: kdir_wf_def)
  have ak: "a \<noteq> kernel_directory s" using k a by (auto simp: kdir_wf_def)
  from n obtain phys m v sv t sm where
    m: "pmm_alloc_blocks_safe (vpm s) 1 = Inr (phys, m)" and
    sv: "find_vspace (kernel_directory s) 1 (s\<lparr>vpm := m\<rparr>) = Inr (v, sv)" and
    t: "\<exists>sv'. get_table_alloc v (kernel_directory sv) sv = Inr (t, sv') \<and>
        map_page t v phys (PAGE_PRESENT OR PAGE_READWRITE) sv' = Inr sm" and
    s1: "page_directory_reference a (sm\<lparr>pdirs := (pdirs sm)(a \<mapsto> \<lparr>pd_virt = v, pd_entries = (\<lambda>_. 0), pd_tables = (\<lambda>_. 0),
                                  pd_phys = phys, pd_refcount = 0\<rparr>)\<rparr>) = Inr (d, s1)" and a0: "a \<noteq> 0"
    by (auto simp: page_directory_new_def)
  let ?s0 = "s\<lparr>vpm := m\<rparr>"
  obtain b where b: "unat phys = b * BLOCK_SIZE" "b \<notin> pmm_used (vpm s)" "pmm_used m = insert b (pmm_used (vpm s))" "pmm_wf m"
      "b < block_map_size m"
    using alloc_one [OF p m] by metis
  have kp0: "kpage ?s0 = kpage s" by (rule kpage_cong) simp_all
  have k0: "kdir_wf ?s0" using k kdir_wf_cong [of ?s0 s] by simp
  have f: "find_kernel_vspace 1 ?s0 = Inr (v, sv)" using sv find_vspace_kernel [of ?s0 1] kd0 by simp
  have al: "v AND 0x3FF = 0" using t by (auto simp: map_page_def)
  from vspace_found [OF k0 f al] have v: "kdir_wf sv" "ktab_frame ?s0 sv" "kpage s v = 0"
    "\<And>w. pn w \<noteq> pn v \<Longrightarrow> kpage sv w = kpage s w" unfolding kp0 by auto
  note F1 = ktab_frame_simps [OF v(2)]
  have "kbind (get_table v (kernel_directory sv) sv) (\<lambda>t. map_page t v phys (PAGE_PRESENT OR PAGE_READWRITE) sv) = Inr sm"
    using t kernel_get_table_alloc [of v sv] by (auto simp: kernel_table_def)
  with kmap_ok [OF v(1) al, of phys "PAGE_PRESENT OR PAGE_READWRITE"] have sm: "kdir_wf sm" "ktab_frame sv sm"
    "\<And>w. kpage sm w = (if pn w = pn v then phys OR (PAGE_PRESENT OR PAGE_READWRITE) else kpage sv w)" by auto
  note F2 = ktab_frame_simps [OF sm(2)]
  let ?pd = "\<lparr>pd_virt = v, pd_entries = (\<lambda>_. 0), pd_tables = (\<lambda>_. 0), pd_phys = phys, pd_refcount = 1\<rparr>"
  have s1eq: "d = a" "s1 = sm\<lparr>pdirs := (pdirs s)(a \<mapsto> ?pd)\<rparr>"
    using s1 F1 F2 by (auto simp: page_directory_reference_def upd_dir_Inr)
  have vm: "vpm s1 = m" and kd1: "kernel_directory s1 = kernel_directory s" using s1eq F1 F2 by auto
  let ?s2 = "s1\<lparr>pdirs := (pdirs s)(a \<mapsto> ?pd\<lparr>pd_refcount := 0\<rparr>)\<rparr>"
  obtain m' where m': "pmm_free_blocks m phys 1 = Inr m'" "pmm_used m' = pmm_used m - {b}" "pmm_wf m'"
    using free_one [OF b(4,1,5)] by blast
  let ?s3 = "?s2\<lparr>vpm := m'\<rparr>"
  have kd3: "pdirs ?s3 (kernel_directory ?s3) = pdirs sm (kernel_directory sm)" "kernel_directory ?s3 = kernel_directory sm"
    "ptabs ?s3 = ptabs sm" using s1eq ak F1 F2 kd1 by auto
  have "kdir_wf ?s3" using sm(1) kdir_wf_cong [OF kd3(1,3,2)] by simp
  from kmap_ok [OF this al, of 0 0] obtain s4 where s4:
    "kbind (get_table v (kernel_directory ?s3) ?s3) (\<lambda>t. map_page t v 0 0 ?s3) = Inr s4" "kdir_wf s4"
    "\<And>w. kpage s4 w = (if pn w = pn v then 0 OR 0 else kpage ?s3 w)" "ktab_frame ?s3 s4" by blast
  note F4 = ktab_frame_simps [OF s4(4)]
  let ?s5 = "s4\<lparr>pdirs := (pdirs s4)(a := None)\<rparr>"
  have "page_directory_free a ?s2 = Inr ?s5"
    using a0 pdf_empty [of ?s2 a "?pd\<lparr>pd_refcount := 0\<rparr>" ixs] vm m'(1) s4(1) al
    by (auto simp: page_directory_free_def ld_dir_def invalidate_page_def)
  then have "page_directory_release d s1 = Inr ?s5"
    using a0 s1eq by (simp add: page_directory_release_def ld_dir_def upd_dir_def)
  moreover have "pdirs ?s5 = pdirs s" using F4(2) a by auto
  moreover have "pmm_used (vpm ?s5) = pmm_used (vpm s)" using F4(1) m'(2) b by auto
  moreover have kd5: "pdirs ?s5 (kernel_directory ?s5) = pdirs s4 (kernel_directory s4)" using F4 kd1 ak by simp
  then have "kpage ?s5 = kpage s4" by (rule kpage_cong) simp
  moreover have "kpage s4 w = kpage s w" for w
  proof -
    have "kpage ?s3 = kpage sm" by (rule kpage_cong [OF kd3(1,3)])
    then show ?thesis using s4(3) sm(3) v(3,4) kpage_pn [of w v s] by auto
  qed
  moreover have "kdir_wf ?s5" using s4(2) kdir_wf_cong [OF kd5] by simp
  ultimately show ?thesis by (intro exI [of _ ?s5]) auto
qed

section \<open>Examples\<close>

text \<open>A kernel directory whose tables are the pages 1024 to 2047, with page 1 as the only free page,
  and an empty user directory.\<close>

definition ex_kdir :: page_directory_t where
  "ex_kdir = \<lparr>pd_virt = 0x300000, pd_entries = (\<lambda>_. 0), pd_tables = (\<lambda>i. of_nat ((1024 + unat i) * BLOCK_SIZE)),
     pd_phys = 0x300000, pd_refcount = -1\<rparr>"

definition ex_udir :: page_directory_t where
  "ex_udir = \<lparr>pd_virt = 0x301000, pd_entries = (\<lambda>_. 0), pd_tables = (\<lambda>_. 0), pd_phys = 0x301000, pd_refcount = 1\<rparr>"

definition ex_vmm :: vmm where
  "ex_vmm = \<lparr>vpm = demo_pmm,
     ptabs = (\<lambda>t. if 0x400000 \<le> t \<and> t < 0x800000 \<and> t AND 0xFFF = 0
                  then Some (\<lambda>j. if t = 0x400000 \<and> j = 1 then 0 else 1) else None),
     pdirs = [64 \<mapsto> ex_kdir, 128 \<mapsto> ex_udir], kernel_directory = 64\<rparr>"

lemma ex_tables:
  "0x400000 \<le> pd_tables ex_kdir i" "pd_tables ex_kdir i < 0x800000" "pd_tables ex_kdir i AND 0xFFF = 0"
  "pd_tables ex_kdir i AND 0x3FF = 0" "inj (pd_tables ex_kdir)"
proof -
  have i: "unat j < 1024" for j :: ix using unsigned_less [of j, where 'a = nat] by simp
  have u: "unat (pd_tables ex_kdir j) = (1024 + unat j) * 4096" for j
    using unat_page [of "1024 + unat j"] i [of j] by (simp add: ex_kdir_def del: of_nat_mult of_nat_add)
  show "0x400000 \<le> pd_tables ex_kdir i" "pd_tables ex_kdir i < 0x800000"
    using i [of i] by (simp_all add: word_le_nat_alt word_less_nat_alt u)
  show "pd_tables ex_kdir i AND 0xFFF = 0" "pd_tables ex_kdir i AND 0x3FF = 0"
    using page_aligned12 page_aligned by (simp_all add: ex_kdir_def del: of_nat_mult of_nat_add)
  show "inj (pd_tables ex_kdir)"
  proof (rule injI)
    fix x y assume "pd_tables ex_kdir x = pd_tables ex_kdir y"
    then have "unat (pd_tables ex_kdir x) = unat (pd_tables ex_kdir y)" by simp
    then show "x = y" unfolding u by (simp add: word_unat_eq_iff)
  qed
qed

lemma ex_kdir_wf: "kdir_wf ex_vmm"
proof -
  have "pd_tables ex_kdir i \<noteq> 0" for i using ex_tables(1) [of i] by (auto simp: word_le_nat_alt)
  then show ?thesis using ex_tables by (auto simp: kdir_wf_def ex_vmm_def)
qed

lemma ex_kpage: "kpage ex_vmm v = (if pd_tables ex_kdir (dir_index v) = 0x400000 \<and> page_index v = 1 then 0 else 1)"
  using ex_tables(1-3) [of "dir_index v"] by (simp add: kpage_def ex_vmm_def)

lemma ex_first_table: "pd_tables ex_kdir 0 = 0x400000" "dir_index 0x1000 = 0" "page_index 0x1000 = 1"
  by (simp_all add: ex_kdir_def BLOCK_SIZE_def dir_index_def page_index_def drop_bit_eq_div)

lemma ex_kpage_other: "pn t \<noteq> pn 0x1000 \<Longrightarrow> kpage ex_vmm t = 1"
proof -
  assume "pn t \<noteq> pn 0x1000"
  then have "\<not> (dir_index t = 0 \<and> page_index t = 1)" using index_eq_iff [of t "0x1000"] ex_first_table by simp
  moreover have "pd_tables ex_kdir (dir_index t) = 0x400000 \<longleftrightarrow> dir_index t = 0"
    using ex_first_table(1) ex_tables(5) by (metis injD)
  ultimately show ?thesis using ex_kpage [of t] by auto
qed

lemma ex_vmm_wf: "vmm_wf ex_vmm"
proof -
  have "kpage ex_vmm t = 1" if t: "0x400000 \<le> t" for t
  proof -
    have "unat (pn t) \<ge> 1024" using t unfolding pn_def unat_drop_bit_eq by (simp add: drop_bit_eq_div word_le_nat_alt)
    then have "pn t \<noteq> pn 0x1000" by (auto simp: pn_def drop_bit_eq_div)
    then show ?thesis by (rule ex_kpage_other)
  qed
  then have "\<forall>t \<in> dom (ptabs ex_vmm). kpage ex_vmm t \<noteq> 0 \<and> t AND 0xFFF = 0"
    by (auto simp: ex_vmm_def dom_def)
  then show ?thesis using ex_kdir_wf demo_pmm_wf by (simp add: vmm_wf_def ex_vmm_def)
qed


lemma ex_alloc: "pmm_alloc_blocks_safe demo_pmm 1 = Inr (4096, demo_pmm\<lparr>block_map := [0xFFFFFFF3]\<rparr>)"
  by code_simp

lemma ex_found:
  "\<exists>s1. find_kernel_vspace 1 (ex_vmm\<lparr>vpm := m\<rparr>) = Inr (0x1000, s1) \<and> kdir_wf s1 \<and> ktab_frame (ex_vmm\<lparr>vpm := m\<rparr>) s1"
proof -
  let ?s = "ex_vmm\<lparr>vpm := m\<rparr>"
  have "kdir_wf ?s" using ex_kdir_wf kdir_wf_cong [of ?s ex_vmm] by simp
  moreover have "kvfree ?s 1"
    using ex_kpage [of "0x1000"] ex_first_table kpage_cong [of ?s ex_vmm] by (simp add: kvfree_def BLOCK_SIZE_def)
  moreover obtain v s1 where v: "find_kernel_vspace 1 ?s = Inr (v, s1)" "kdir_wf s1" "ktab_frame ?s s1"
      "(v = -1 \<and> (\<forall>j. 1 \<le> j \<and> j < 2 ^ 20 \<longrightarrow> (\<exists>k<1. \<not> kvfree ?s (j + k)))) \<or>
       (\<exists>b. v = of_nat (b * BLOCK_SIZE) \<and> 1 \<le> b \<and> (\<forall>j. 1 \<le> j \<and> j < b \<longrightarrow> (\<exists>k<1. \<not> kvfree ?s (j + k))))"
    using find_kernel_vspace_ok [of ?s 1] calculation(1) by auto
  moreover have "v = 0x1000"
    using v(4)
  proof (elim disjE conjE exE)
    assume a: "\<forall>j. 1 \<le> j \<and> j < 2 ^ 20 \<longrightarrow> (\<exists>k<1. \<not> kvfree ?s (j + k))"
    show ?thesis using a [rule_format, of 1] calculation(2) by simp
  next
    fix b assume b: "v = of_nat (b * BLOCK_SIZE)" "1 \<le> b" "\<forall>j. 1 \<le> j \<and> j < b \<longrightarrow> (\<exists>k<1. \<not> kvfree ?s (j + k))"
    then have "\<not> 1 < b" using b(3) [rule_format, of 1] calculation(2) by auto
    then have "b = 1" using b(2) by simp
    then show ?thesis using b(1) by (simp add: BLOCK_SIZE_def)
  qed
  ultimately show ?thesis by (intro exI [of _ s1]) simp
qed

lemma ex_map:
  assumes "kdir_wf s"
  shows "\<exists>t s'. get_table 0x1000 (kernel_directory s) s = Inr t \<and> t \<noteq> 0 \<and>
    map_page t 0x1000 p (PAGE_PRESENT OR PAGE_READWRITE) s = Inr s'"
proof -
  have "kdir_wf s \<Longrightarrow> (0x1000 :: u32) AND 0x3FF = 0" by simp
  from kmap_ok [OF assms this [OF assms], of p "PAGE_PRESENT OR PAGE_READWRITE"]
  show ?thesis by (auto simp: map_page_def)
qed

theorem page_directory_roundtrip_witness:
  "\<exists>s1 s2. page_directory_new 256 ex_vmm = Inr (256, s1) \<and> page_directory_release 256 s1 = Inr s2 \<and>
     pmm_used (vpm s2) = pmm_used demo_pmm \<and> pdirs s2 = pdirs ex_vmm"
proof -
  let ?m = "demo_pmm\<lparr>block_map := [0xFFFFFFF3]\<rparr>"
  obtain s1 where s1: "find_kernel_vspace 1 (ex_vmm\<lparr>vpm := ?m\<rparr>) = Inr (0x1000, s1)" "kdir_wf s1" using ex_found by blast
  have u: "kernel_directory ex_vmm = 64" "vpm ex_vmm = demo_pmm" "pdirs ex_vmm 256 = None" by (simp_all add: ex_vmm_def)
  from ex_map [OF s1(2), of 4096] obtain t s2 where s2: "get_table 0x1000 (kernel_directory s1) s1 = Inr t" "t \<noteq> 0"
    "map_page t 0x1000 4096 (PAGE_PRESENT OR PAGE_READWRITE) s1 = Inr s2" by blast
  have f: "find_vspace 64 1 (ex_vmm\<lparr>vpm := ?m\<rparr>) = Inr (0x1000, s1)"
    using s1(1) find_vspace_kernel [of "ex_vmm\<lparr>vpm := ?m\<rparr>" 1] u by simp
  have g: "get_table_alloc 0x1000 (kernel_directory s1) s1 = Inr (t, s1)"
    using s2(1,2) kernel_get_table_alloc [of "0x1000" s1] by (simp add: kernel_table_def)
  have "\<exists>s3. page_directory_new 256 ex_vmm = Inr (256, s3)"
    using u ex_alloc f g s2(3)
    by (simp add: page_directory_new_def page_directory_reference_def upd_dir_def ld_dir_def)
  then obtain s3 where n: "page_directory_new 256 ex_vmm = Inr (256, s3)" by blast
  have "pmm_wf (vpm ex_vmm)" using demo_pmm_wf u by simp
  from page_directory_roundtrip [OF ex_kdir_wf this u(3) n] n u show ?thesis by auto
qed

end
