(* ===== verification/Kstring.thy ===== *)
theory Kstring
  imports Prelude
begin

text \<open>
  The byte routines of src/kernel/string.c and src/kernel/arch/i686/memcpy.c over a flat memory
  \<open>u32 \<Rightarrow> u8\<close>. Every routine is the loop of the source; addresses wrap at 4 GiB. A loop that
  never meets a terminator is \<open>None\<close> (\<open>strlen\<close>); the others are bounded by their length argument.
  \<open>char\<close> is signed on i686, so \<open>memcmp\<close> subtracts signed values. \<open>strndup\<close> is in the theory of
  the heap it allocates from.
\<close>

type_synonym mem = "u32 \<Rightarrow> u8"

partial_function (option) strlen_loop :: "mem \<Rightarrow> u32 \<Rightarrow> u32 \<Rightarrow> u32 option" where
  "strlen_loop m str len = (if m (str + len) \<noteq> 0 then strlen_loop m str (len + 1) else Some len)"

definition strlen :: "mem \<Rightarrow> u32 \<Rightarrow> u32 res option" where
  "strlen m str = (if str = 0 then Some (Inl AssertFailed) else map_option Inr (strlen_loop m str 0))"

function strncpy_copy :: "u32 \<Rightarrow> u32 \<Rightarrow> u32 \<Rightarrow> u32 \<Rightarrow> mem \<Rightarrow> u32 \<times> mem" where
  "strncpy_copy dest src n i m =
     (if i < n \<and> m (src + i) \<noteq> 0
      then strncpy_copy dest src n (i + 1) (m(dest + i := m (src + i)))
      else (i, m))"
  by pat_completeness auto
termination by (relation "measure (\<lambda>(dest, src, n, i, m). unat (n - i))") (auto simp: word_loop_step)

function strncpy_fill :: "u32 \<Rightarrow> u32 \<Rightarrow> u32 \<Rightarrow> mem \<Rightarrow> mem" where
  "strncpy_fill dest n i m = (if i < n then strncpy_fill dest n (i + 1) (m(dest + i := 0)) else m)"
  by pat_completeness auto
termination by (relation "measure (\<lambda>(dest, n, i, m). unat (n - i))") (auto simp: word_loop_step)

definition strncpy :: "u32 \<Rightarrow> u32 \<Rightarrow> u32 \<Rightarrow> mem \<Rightarrow> (u32 \<times> mem) res" where
  "strncpy dest src n m =
     kbind (kassert (dest \<noteq> 0)) (\<lambda>_.
     kbind (kassert (src \<noteq> 0)) (\<lambda>_.
     let (i, m) = strncpy_copy dest src n 0 m in Inr (dest, strncpy_fill dest n i m)))"

function memcmp_loop :: "mem \<Rightarrow> u32 \<Rightarrow> u32 \<Rightarrow> u32 \<Rightarrow> u32 \<Rightarrow> int" where
  "memcmp_loop m s1 s2 len i =
     (if i < len
      then if m (s1 + i) \<noteq> m (s2 + i) then sint (m (s1 + i)) - sint (m (s2 + i))
           else memcmp_loop m s1 s2 len (i + 1)
      else 0)"
  by pat_completeness auto
termination by (relation "measure (\<lambda>(m, s1, s2, len, i). unat (len - i))") (auto simp: word_loop_step)

definition memcmp :: "mem \<Rightarrow> u32 \<Rightarrow> u32 \<Rightarrow> u32 \<Rightarrow> int res" where
  "memcmp m v1 v2 len =
     kbind (kassert (v1 \<noteq> 0)) (\<lambda>_. kbind (kassert (v2 \<noteq> 0)) (\<lambda>_. Inr (memcmp_loop m v1 v2 len 0)))"

function memset_loop :: "u32 \<Rightarrow> u8 \<Rightarrow> u32 \<Rightarrow> mem \<Rightarrow> mem" where
  "memset_loop d c len m = (if len \<noteq> 0 then memset_loop (d + 1) c (len - 1) (m(d := c)) else m)"
  by pat_completeness auto
termination by (relation "measure (\<lambda>(d, c, len, m). unat len)") (auto simp: measure_unat)

definition memset :: "u32 \<Rightarrow> u32 \<Rightarrow> u32 \<Rightarrow> mem \<Rightarrow> (u32 \<times> mem) res" where
  "memset dest c len m =
     kbind (kassert (dest \<noteq> 0)) (\<lambda>_.
     kbind (kassert (len \<noteq> 0)) (\<lambda>_. Inr (dest, memset_loop dest (ucast c) len m)))"

text \<open>\<open>rep movsb\<close>: one byte at a time, upwards; \<open>dest\<close> is an output of the instruction, so the value
  \<open>memcpy\<close> returns is the end of the copy.\<close>

function rep_movsb :: "u32 \<Rightarrow> u32 \<Rightarrow> u32 \<Rightarrow> mem \<Rightarrow> u32 \<times> mem" where
  "rep_movsb di si cx m =
     (if cx \<noteq> 0 then rep_movsb (di + 1) (si + 1) (cx - 1) (m(di := m si)) else (di, m))"
  by pat_completeness auto
termination by (relation "measure (\<lambda>(di, si, cx, m). unat cx)") (auto simp: measure_unat)

definition memcpy :: "u32 \<Rightarrow> u32 \<Rightarrow> u32 \<Rightarrow> mem \<Rightarrow> (u32 \<times> mem) res" where
  "memcpy dest src len m =
     kbind (kassert (dest \<noteq> 0)) (\<lambda>_.
     kbind (kassert (src \<noteq> 0)) (\<lambda>_.
     kbind (kassert (len \<noteq> 0)) (\<lambda>_. Inr (rep_movsb dest src len m))))"

declare strncpy_copy.simps [simp del] strncpy_fill.simps [simp del] memcmp_loop.simps [simp del]
  memset_loop.simps [simp del] rep_movsb.simps [simp del]

section \<open>What the loops compute\<close>

text \<open>\<open>strlen\<close> finds the first zero byte; it fails to return only on a memory without one.\<close>

lemma strlen_loop_first:
  assumes "m (str + l) = 0" "i \<le> l" "\<And>j. i \<le> j \<Longrightarrow> j < l \<Longrightarrow> m (str + j) \<noteq> 0"
  shows "strlen_loop m str i = Some l"
  using assms
proof (induction "unat (l - i)" arbitrary: i rule: less_induct)
  case less
  show ?case
  proof (cases "i = l")
    case True
    then show ?thesis using less.prems by (subst strlen_loop.simps) simp
  next
    case False
    then have il: "i < l" using less.prems(2) by simp
    have "strlen_loop m str (i + 1) = Some l"
    proof (rule less.hyps)
      show "unat (l - (i + 1)) < unat (l - i)" by (rule word_loop_step [OF il])
      show "i + 1 \<le> l" using inc_le [OF il] by (simp add: add.commute)
      then show "m (str + j) \<noteq> 0" if "i + 1 \<le> j" "j < l" for j
        using less.prems(3) [of j] that word_loop_succ [OF il] by (simp add: word_le_nat_alt word_less_nat_alt)
    qed (rule less.prems(1))
    then show ?thesis using less.prems(3) [of i] il by (subst strlen_loop.simps) simp
  qed
qed

lemma strlen_loop_sound: "strlen_loop m str i = Some l \<Longrightarrow> m (str + l) = 0"
  by (rule strlen_loop.raw_induct [where P = "\<lambda>m str i l. m (str + l) = 0"]) (auto split: if_splits)

lemma memset_loop_range: "memset_loop d c n m = (\<lambda>a. if a - d < n then c else m a)"
proof (induction "unat n" arbitrary: d n m)
  case 0
  then show ?case by (simp add: memset_loop.simps unat_eq_0)
next
  case (Suc k)
  then have n: "n \<noteq> 0" by auto
  then have k: "k = unat (n - 1)" using Suc.hyps(2) by (simp add: unat_minus_one)
  have range: "a - (d + 1) < n - 1 \<or> a = d \<longleftrightarrow> a - d < n" for a
  proof (cases "a = d")
    case False
    then have "unat (a - d - 1) = unat (a - d) - 1" "unat (n - 1) = unat n - 1" "0 < unat (a - d)"
      using n by (simp_all add: unat_minus_one unat_gt_0)
    then show ?thesis using False by (auto simp: word_less_nat_alt diff_diff_eq [symmetric])
  qed (use n in \<open>simp add: word_neq_0_conv\<close>)
  have "memset_loop (d + 1) c (n - 1) (m(d := c)) a = (if a - d < n then c else m a)" for a
    using range [of a] by (subst Suc.hyps(1) [OF k]) (simp only: fun_upd_apply, metis)
  then show ?case using n by (subst memset_loop.simps) (simp add: fun_eq_iff)
qed

text \<open>Copying upwards is right unless the destination starts inside the source.\<close>

definition copy_safe :: "u32 \<Rightarrow> u32 \<Rightarrow> u32 \<Rightarrow> bool" where
  "copy_safe dest src n \<longleftrightarrow> dest = src \<or> n \<le> dest - src"

lemma rep_movsb_range:
  assumes "copy_safe d s n"
  shows "rep_movsb d s n m = (d + n, \<lambda>a. if a - d < n then m (s + (a - d)) else m a)"
  using assms
proof (induction "unat n" arbitrary: d s n m)
  case 0
  then show ?case by (simp add: rep_movsb.simps unat_eq_0)
next
  case (Suc k)
  then have n: "n \<noteq> 0" by auto
  then have k: "k = unat (n - 1)" using Suc.hyps(2) by (simp add: unat_minus_one)
  have n1: "unat (n - 1) = unat n - 1" "0 < unat n" using n by (simp_all add: unat_minus_one unat_gt_0)
  have safe: "copy_safe (d + 1) (s + 1) (n - 1)"
    using Suc.prems n1 by (auto simp: copy_safe_def word_le_nat_alt)
  let ?m = "m(d := m s)"
  have "(if a - (d + 1) < n - 1 then ?m (s + 1 + (a - (d + 1))) else ?m a) =
        (if a - d < n then m (s + (a - d)) else m a)" for a
  proof (cases "a = d")
    case True
    have "\<not> (- 1 :: u32) < n - 1" by (simp add: not_less)
    then show ?thesis using True n by (simp add: word_neq_0_conv)
  next
    case False
    have u: "unat (a - (d + 1)) = unat (a - d) - 1" "0 < unat (a - d)"
      using False by (simp_all add: diff_diff_eq [symmetric] unat_minus_one unat_gt_0)
    have e: "s + 1 + (a - (d + 1)) = s + (a - d)" by simp
    have "s + (a - d) \<noteq> d \<or> s = d" if "a - d < n"
    proof (rule ccontr)
      assume "\<not> ?thesis"
      then have "a - d = d - s" "s \<noteq> d" by (auto simp: algebra_simps)
      then show False using that Suc.prems by (simp add: copy_safe_def)
    qed
    moreover have "a - (d + 1) < n - 1 \<longleftrightarrow> a - d < n" using u n1 by (auto simp: word_less_nat_alt)
    ultimately show ?thesis using False by (auto simp: e)
  qed
  then show ?case using n Suc.hyps(1) [OF k safe, of ?m]
    by (subst rep_movsb.simps) (simp add: fun_eq_iff)
qed

lemma strncpy_fill_range:
  "i \<le> n \<Longrightarrow> strncpy_fill d n i m = (\<lambda>a. if i \<le> a - d \<and> a - d < n then 0 else m a)"
proof (induction "unat (n - i)" arbitrary: i m rule: less_induct)
  case less
  show ?case
  proof (cases "i < n")
    case False
    then show ?thesis using less.prems by (subst strncpy_fill.simps) (auto simp: fun_eq_iff)
  next
    case True
    have "i + 1 \<le> n" using inc_le [OF True] by (simp add: add.commute)
    note IH = less.hyps [OF word_loop_step [OF True] this]
    have "i + 1 \<le> a - d \<and> a - d < n \<or> a = d + i \<longleftrightarrow> i \<le> a - d \<and> a - d < n" for a
      using word_range_Suc [OF True, of a d] True by (auto simp: not_less [symmetric])
    then have "strncpy_fill d n (i + 1) (m(d + i := 0)) a = (if i \<le> a - d \<and> a - d < n then 0 else m a)" for a
      by (simp only: IH fun_upd_apply) metis
    then show ?thesis using True by (subst strncpy_fill.simps) (simp add: fun_eq_iff)
  qed
qed

lemma strncpy_copy_range:
  assumes "copy_safe d s n" "i \<le> n"
  shows "\<exists>l. i \<le> l \<and> l \<le> n \<and> (\<forall>j. i \<le> j \<and> j < l \<longrightarrow> m (s + j) \<noteq> 0) \<and> (l = n \<or> m (s + l) = 0) \<and>
    strncpy_copy d s n i m = (l, \<lambda>a. if i \<le> a - d \<and> a - d < l then m (s + (a - d)) else m a)"
  using assms(2)
proof (induction "unat (n - i)" arbitrary: i m rule: less_induct)
  case less
  show ?case
  proof (cases "i < n \<and> m (s + i) \<noteq> 0")
    case False
    then have "i = n \<or> m (s + i) = 0" using less.prems by auto
    moreover have "strncpy_copy d s n i m = (i, m)" using False by (subst strncpy_copy.simps) auto
    ultimately show ?thesis using less.prems by (intro exI [of _ i]) (auto simp: fun_eq_iff)
  next
    case True
    then have i: "i < n" by simp
    note u = word_loop_succ [OF i]
    let ?m = "m(d + i := m (s + i))"
    have i1: "i + 1 \<le> n" using inc_le [OF i] by (simp add: add.commute)
    have same: "?m (s + j) = m (s + j)" if "i + 1 \<le> j" "j < n" for j
    proof -
      have "i < j" using that(1) u by (simp add: word_le_nat_alt word_less_nat_alt)
      then have "unat (j - i) = unat j - unat i" by (simp add: unat_sub)
      then have "j - i < n" using that(2) by (simp add: word_less_nat_alt)
      moreover have "d - s = j - i" if "s + j = d + i" using that by (simp add: algebra_simps)
      ultimately have "m (s + i) = m (s + j)" if "s + j = d + i"
        using assms(1) that by (auto simp: copy_safe_def)
      then show ?thesis by auto
    qed
    obtain l where l: "i + 1 \<le> l" "l \<le> n" "\<And>j. i + 1 \<le> j \<Longrightarrow> j < l \<Longrightarrow> ?m (s + j) \<noteq> 0" "l = n \<or> ?m (s + l) = 0"
      "strncpy_copy d s n (i + 1) ?m = (l, \<lambda>a. if i + 1 \<le> a - d \<and> a - d < l then ?m (s + (a - d)) else ?m a)"
      using less.hyps [OF word_loop_step [OF i] i1, of ?m] by blast
    have "m (s + j) \<noteq> 0" if "i \<le> j" "j < l" for j
    proof (cases "j = i")
      case False
      then have j: "i + 1 \<le> j" using inc_le [of i j] that(1) by (simp add: add.commute)
      then show ?thesis using l(3) [OF j that(2)] same [OF j] l(2) that(2) by (metis order.strict_trans2)
    qed (use True in simp)
    moreover have "l = n \<or> m (s + l) = 0" using l(2,4) same [OF l(1)] by (metis order.order_iff_strict)
    moreover have il: "i < l" using l(1) u by (simp add: word_le_nat_alt word_less_nat_alt)
    moreover have "(if i + 1 \<le> a - d \<and> a - d < l then ?m (s + (a - d)) else ?m a) =
        (if i \<le> a - d \<and> a - d < l then m (s + (a - d)) else m a)" for a
    proof (cases "a = d + i")
      case True
      have "\<not> i + 1 \<le> i" using u by (simp add: word_le_nat_alt)
      then show ?thesis using True il by simp
    next
      case False
      then have "i + 1 \<le> a - d \<longleftrightarrow> i \<le> a - d" using word_range_Suc [OF i, of a d] by (auto simp: not_less [symmetric])
      then show ?thesis using False same [of "a - d"] l(2) by auto
    qed
    ultimately show ?thesis using l(2,5) True by (intro exI [of _ l]) (subst strncpy_copy.simps, auto)
  qed
qed

lemma memcmp_loop_0: "memcmp_loop m p q n i = 0 \<longleftrightarrow> (\<forall>j. i \<le> j \<and> j < n \<longrightarrow> m (p + j) = m (q + j))"
proof (induction "unat (n - i)" arbitrary: i rule: less_induct)
  case less
  show ?case
  proof (cases "i < n")
    case False
    then show ?thesis by (subst memcmp_loop.simps) auto
  next
    case True
    have "i + 1 \<le> j \<and> j < n \<or> j = i \<longleftrightarrow> i \<le> j \<and> j < n" for j
      using word_range_Suc [OF True, of j 0] True by (auto simp: not_less [symmetric])
    then have "(\<forall>j. i \<le> j \<and> j < n \<longrightarrow> m (p + j) = m (q + j)) \<longleftrightarrow>
        m (p + i) = m (q + i) \<and> (\<forall>j. i + 1 \<le> j \<and> j < n \<longrightarrow> m (p + j) = m (q + j))" by metis
    moreover have "memcmp_loop m p q n i = 0 \<longleftrightarrow> m (p + i) = m (q + i) \<and> memcmp_loop m p q n (i + 1) = 0"
      using True by (subst memcmp_loop.simps) (auto dest: signed_word_eqI)
    ultimately show ?thesis using less.hyps [OF word_loop_step [OF True]] by simp
  qed
qed

section \<open>Properties\<close>

text \<open>\<open>strlen\<close> returns on every memory that has a zero byte, and what it returns is the distance
  to the first one; on a memory without one it runs forever.\<close>

lemma strlen_first_nul:
  assumes "str \<noteq> 0"
  shows "if \<exists>i. m (str + i) = 0
         then \<exists>l. strlen m str = Some (Inr l) \<and> m (str + l) = 0 \<and> (\<forall>j<l. m (str + j) \<noteq> 0)
         else strlen m str = None"
proof (cases "\<exists>i. m (str + i) = 0")
  case True
  then obtain i where i: "m (str + i) = 0" ..
  define k where "k = (LEAST k. m (str + of_nat k) = 0 \<and> k < 2 ^ 32)"
  have k: "m (str + of_nat k) = 0 \<and> k < 2 ^ 32"
    unfolding k_def by (rule LeastI [of _ "unat i"]) (use i unsigned_less [of i, where 'a = nat] in simp)
  have least: "m (str + j) \<noteq> 0" if "j < of_nat k" for j
  proof
    assume "m (str + j) = 0"
    then have "k \<le> unat j" unfolding k_def
      by (intro Least_le) (use unsigned_less [of j, where 'a = nat] in simp)
    then show False using that k by (simp add: word_less_nat_alt unat_of_nat)
  qed
  have "strlen_loop m str 0 = Some (of_nat k)"
    by (rule strlen_loop_first) (use k least in auto)
  then show ?thesis using True k least assms by (auto simp: strlen_def)
next
  case False
  have "strlen_loop m str 0 = None" using False strlen_loop_sound by (cases "strlen_loop m str 0") blast+
  then show ?thesis using False assms by (simp add: strlen_def)
qed

text \<open>When the destination does not start inside the source, \<open>memcpy\<close> copies exactly \<open>len\<close> bytes and
  changes no other; its return value is the end of the destination.\<close>

lemma memcpy_copies:
  assumes "dest \<noteq> 0" "src \<noteq> 0" "len \<noteq> 0" "copy_safe dest src len"
  shows "memcpy dest src len m = Inr (dest + len, \<lambda>a. if a - dest < len then m (src + (a - dest)) else m a)"
  using assms by (simp add: memcpy_def rep_movsb_range)

text \<open>\<open>strncpy\<close> fills exactly \<open>n\<close> bytes: the source up to its terminator, then zeros. Nothing
  terminates the copy when the source has no zero byte among its first \<open>n\<close>.\<close>

lemma strncpy_copies_and_pads:
  assumes "dest \<noteq> 0" "src \<noteq> 0" "copy_safe dest src n"
  shows "strncpy dest src n m = Inr (dest, \<lambda>a.
    if a - dest < n then (if \<forall>j\<le>a - dest. m (src + j) \<noteq> 0 then m (src + (a - dest)) else 0) else m a)"
proof -
  obtain l where l: "l \<le> n" "\<And>j. j < l \<Longrightarrow> m (src + j) \<noteq> 0" "l = n \<or> m (src + l) = 0"
    "strncpy_copy dest src n 0 m = (l, \<lambda>a. if 0 \<le> a - dest \<and> a - dest < l then m (src + (a - dest)) else m a)"
    using strncpy_copy_range [OF assms(3), of 0 m] by auto
  have "(if l \<le> k \<and> k < n then 0 else if k < l then m (src + k) else m a) =
    (if k < n then (if \<forall>j\<le>k. m (src + j) \<noteq> 0 then m (src + k) else 0) else m a)" for a k
    using l(1-3) by (cases "k < l") (auto simp: not_less)
  then show ?thesis using assms(1,2) by (simp add: strncpy_def l(4) strncpy_fill_range [OF l(1)] cong: if_cong)
qed

text \<open>A memory that holds the string "abc" at address 0x1000.\<close>

definition ex_mem :: mem where
  "ex_mem = (\<lambda>_. 0)(0x1000 := 97, 0x1001 := 98, 0x1002 := 99)"

end
