(* ===== verification/Liballoc.thy ===== *)
theory Liballoc
  imports Vmm Kstring
begin

text \<open>
  The kernel heap, src/kernel/liballoc.c. A major block is a run of pages taken from the virtual
  memory manager, a minor an allocation inside it: a 24-byte header followed by its bytes. The
  doubly linked lists of majors (from \<open>l_memRoot\<close>) and of the minors of a major (from
  \<open>maj->first\<close>) are lists in the order of the links; unlinking a node removes it from its list,
  splicing one in inserts it there. \<open>l_majors = []\<close> is \<open>l_memRoot == NULL\<close>. A header carries
  \<open>LIBALLOC_MAGIC\<close> exactly when it is the header of a minor of these lists. \<open>l_mem\<close> are the bytes
  of the allocations, the alignment byte that \<open>ALIGN\<close> stores before a pointer included. All
  address arithmetic is on 32 bits. The counters of warnings and errors, which only a failed
  assertion follows, and printed messages are left out; \<open>l_lock\<close> is the spin lock.
\<close>

record minor =
  mn_addr :: u32
  mn_size :: u32
  mn_req :: u32

record major =
  mj_addr :: u32
  mj_pages :: u32
  mj_size :: u32
  mj_usage :: u32
  mj_minors :: "minor list"

record liballoc =
  l_majors :: "major list"
  l_bestBet :: u32
  l_allocated :: u64
  l_inuse :: u64
  l_lock :: bool
  l_mem :: mem
  l_vmm :: vmm

definition ALIGNMENT :: u32 where "ALIGNMENT = 16"
definition ALIGN_INFO :: u32 where "ALIGN_INFO = 16"

text \<open>\<open>sizeof(struct liballoc_major)\<close> and \<open>sizeof(struct liballoc_minor)\<close>: six words each.\<close>

definition MAJOR_SIZE :: u32 where "MAJOR_SIZE = 24"
definition MINOR_SIZE :: u32 where "MINOR_SIZE = 24"

definition l_pageSize :: u32 where "l_pageSize = 4096"
definition l_pageCount :: u32 where "l_pageCount = 16"

definition ALIGN :: "u32 \<Rightarrow> mem \<Rightarrow> u32 \<times> mem" where
  "ALIGN ptr m =
     (let ptr = ptr + ALIGN_INFO;
          diff = ptr AND (ALIGNMENT - 1);
          (diff, ptr) = (if diff \<noteq> 0 then (ALIGNMENT - diff, ptr + (ALIGNMENT - diff)) else (diff, ptr))
      in (ptr, m(ptr - ALIGN_INFO := ucast (diff + ALIGN_INFO))))"

definition UNALIGN :: "u32 \<Rightarrow> mem \<Rightarrow> u32" where
  "UNALIGN ptr m =
     (let diff = scast (m (ptr - ALIGN_INFO))
      in if diff < ALIGNMENT + ALIGN_INFO then ptr - diff else ptr)"

definition liballoc_lock :: "liballoc \<Rightarrow> liballoc res" where
  "liballoc_lock s = kbind (kassert (\<not> l_lock s)) (\<lambda>_. Inr (s\<lparr>l_lock := True\<rparr>))"

definition liballoc_unlock :: "liballoc \<Rightarrow> liballoc res" where
  "liballoc_unlock s = kbind (kassert (l_lock s)) (\<lambda>_. Inr (s\<lparr>l_lock := False\<rparr>))"

text \<open>The pages of a major: virtual pages of the kernel directory, backed block by block. Out of
  physical memory the code frees what it took and halts.\<close>

definition lf_page :: "u32 \<Rightarrow> nat \<Rightarrow> vmm \<Rightarrow> vmm res" where
  "lf_page v i s =
     (let vaddr = v + of_nat (i * BLOCK_SIZE)
      in kbind (get_table vaddr (kernel_directory s) s) (\<lambda>table.
         kbind (get_page table vaddr s) (\<lambda>page.
         kbind (map_page table vaddr 0 0 s) (\<lambda>s.
           if page = PAGE_VALUE_RESERVED then Inr s
           else kbind (pmm_free_blocks (vpm s) (page AND NOT 0xFFF) 1) (\<lambda>m. Inr (s\<lparr>vpm := m\<rparr>))))))"

definition liballoc_free :: "u32 \<Rightarrow> nat \<Rightarrow> vmm \<Rightarrow> vmm res" where
  "liballoc_free v pages s = kbind (kassert (v \<noteq> 0)) (\<lambda>_. kfor (lf_page v) [0..<pages] s)"

definition la_page :: "u32 \<Rightarrow> nat \<Rightarrow> vmm \<Rightarrow> vmm res" where
  "la_page v_start i s =
     (let vaddr = v_start + of_nat (i * BLOCK_SIZE)
      in kbind (pmm_alloc_blocks (vpm s) 1) (\<lambda>(real_block, m).
           if real_block = 0
           then kbind (if 0 < i then liballoc_free v_start (i - 1) (s\<lparr>vpm := m\<rparr>) else Inr s) (\<lambda>_. Inl Halted)
           else kbind (get_table_alloc vaddr (kernel_directory s) (s\<lparr>vpm := m\<rparr>)) (\<lambda>(t, s).
                map_page t vaddr real_block (PAGE_PRESENT OR PAGE_READWRITE) s)))"

definition liballoc_alloc :: "nat \<Rightarrow> vmm \<Rightarrow> (u32 \<times> vmm) res" where
  "liballoc_alloc pages s =
     kbind (find_vspace (kernel_directory s) pages s) (\<lambda>(v_start, s).
     kbind (kfor (la_page v_start) [0..<pages] s) (\<lambda>s. Inr (v_start, s)))"

text \<open>The number of pages of a new major, as \<open>allocate_new_page\<close> computes it.\<close>

definition page_count :: "u32 \<Rightarrow> u32" where
  "page_count sz =
     (let st = sz + MAJOR_SIZE + MINOR_SIZE;
          st = (if st mod l_pageSize = 0 then st div l_pageSize else st div l_pageSize + 1)
      in if st < l_pageCount then l_pageCount else st)"

definition allocate_new_page :: "u32 \<Rightarrow> liballoc \<Rightarrow> (major \<times> liballoc) res" where
  "allocate_new_page sz s =
     (let st = page_count sz
      in kbind (liballoc_alloc (unat st) (l_vmm s)) (\<lambda>(maj, vm).
         kbind (kassert (maj \<noteq> 0)) (\<lambda>_.
         Inr (\<lparr>mj_addr = maj, mj_pages = st, mj_size = st * l_pageSize, mj_usage = MAJOR_SIZE, mj_minors = []\<rparr>,
              s\<lparr>l_vmm := vm, l_allocated := l_allocated s + ucast (st * l_pageSize)\<rparr>))))"

definition liballoc_init :: "liballoc \<Rightarrow> liballoc res" where
  "liballoc_init s =
     kbind (kassert (l_majors s = [])) (\<lambda>_.
     kbind (allocate_new_page (ALIGNMENT + ALIGN_INFO) s) (\<lambda>(maj, s).
     Inr (s\<lparr>l_majors := [maj]\<rparr>)))"

text \<open>The search for space inside a major: case 2 (\<open>first_minor\<close>), case 3 (in \<open>fit_minor\<close>), then case 4, the walk over the
  minors (\<open>fit_gap\<close>; 4.1 is the last minor, 4.2 one with a successor). \<open>need\<close> is the size with the
  header; the result is the address of the new header and the new list.\<close>

fun fit_gap :: "u32 \<Rightarrow> u32 \<Rightarrow> u32 \<Rightarrow> minor list \<Rightarrow> (u32 \<times> minor list) option" where
  "fit_gap stop sz req [] = None"
| "fit_gap stop sz req [m] =
     (let diff = stop - mn_addr m - MINOR_SIZE - mn_size m;
          a = mn_addr m + MINOR_SIZE + mn_size m
      in if sz + MINOR_SIZE \<le> diff
         then Some (a, [m, \<lparr>mn_addr = a, mn_size = sz, mn_req = req\<rparr>]) else None)"
| "fit_gap stop sz req (m # n # ms) =
     (let diff = mn_addr n - mn_addr m - MINOR_SIZE - mn_size m;
          a = mn_addr m + MINOR_SIZE + mn_size m
      in if sz + MINOR_SIZE \<le> diff
         then Some (a, m # \<lparr>mn_addr = a, mn_size = sz, mn_req = req\<rparr> # n # ms)
         else map_option (\<lambda>(a, ms). (a, m # ms)) (fit_gap stop sz req (n # ms)))"

definition first_minor :: "u32 \<Rightarrow> u32 \<Rightarrow> major \<Rightarrow> u32 \<times> minor list" where
  "first_minor sz req maj =
     (let a = mj_addr maj + MAJOR_SIZE in (a, [\<lparr>mn_addr = a, mn_size = sz, mn_req = req\<rparr>]))"

definition fit_minor :: "u32 \<Rightarrow> u32 \<Rightarrow> major \<Rightarrow> (u32 \<times> minor list) option" where
  "fit_minor sz req maj =
     (let a = mj_addr maj + MAJOR_SIZE; new = \<lparr>mn_addr = a, mn_size = sz, mn_req = req\<rparr>
      in case mj_minors maj of
           [] \<Rightarrow> Some (first_minor sz req maj)
         | m # ms \<Rightarrow>
             (let diff = mn_addr m - mj_addr maj - MAJOR_SIZE
              in if sz + MINOR_SIZE \<le> diff then Some (a, new # m # ms)
                 else fit_gap (mj_addr maj + mj_size maj) sz req (m # ms)))"

text \<open>What every case does with the space it found: account for it, align the pointer, unlock.\<close>

definition km_place :: "u32 \<Rightarrow> u32 \<times> minor list \<Rightarrow> major list \<Rightarrow> major \<Rightarrow> major list \<Rightarrow> liballoc \<Rightarrow> (u32 \<times> liballoc) res" where
  "km_place sz am before maj next s =
     (let maj' = maj\<lparr>mj_usage := mj_usage maj + sz + MINOR_SIZE, mj_minors := snd am\<rparr>;
          (p, m) = ALIGN (fst am + MINOR_SIZE) (l_mem s)
      in kbind (liballoc_unlock (s\<lparr>l_majors := before @ maj' # next, l_inuse := l_inuse s + ucast sz, l_mem := m\<rparr>)) (\<lambda>s.
         Inr (p, s)))"

text \<open>The loop of \<open>kmalloc\<close> over the majors: \<open>before\<close> are the majors in front of the current one,
  the head of \<open>rest\<close>. A major that \<open>allocate_new_page\<close> returns is empty, so the loop ends.\<close>

definition km_weight :: "major list \<Rightarrow> nat" where
  "km_weight majs = sum_list (map (\<lambda>maj. if mj_minors maj = [] then 1 else 2) majs)"

lemma km_weight_simps [simp]:
  "km_weight [] = 0" "km_weight (maj # majs) = (if mj_minors maj = [] then 1 else 2) + km_weight majs"
  by (simp_all add: km_weight_def)

lemma allocate_new_page_empty: "allocate_new_page sz s = Inr (maj, s') \<Longrightarrow> mj_minors maj = []"
  by (auto simp: allocate_new_page_def Let_def)

lemma fit_minor_None: "fit_minor sz req maj = None \<Longrightarrow> mj_minors maj \<noteq> []"
  by (auto simp: fit_minor_def Let_def)

function km_loop :: "u32 \<Rightarrow> u32 \<Rightarrow> bool \<Rightarrow> u32 \<Rightarrow> major list \<Rightarrow> major list \<Rightarrow> liballoc \<Rightarrow> (u32 \<times> liballoc) res" where
  "km_loop sz req startedBet bestSize before [] s =
     kbind (liballoc_unlock (s\<lparr>l_majors := before\<rparr>)) (\<lambda>s. Inr (0, s))"
| "km_loop sz req startedBet bestSize before (maj # next) s =
     (let diff = mj_size maj - mj_usage maj;
          s' = (if bestSize < diff then s\<lparr>l_bestBet := mj_addr maj\<rparr> else s);
          bestSize' = (if bestSize < diff then diff else bestSize)
      in if diff < sz + MINOR_SIZE
         then (if next \<noteq> [] then km_loop sz req startedBet bestSize' (before @ [maj]) next s'
               else if startedBet then km_loop sz req False bestSize' [] (before @ [maj]) s'
               else kbind (allocate_new_page sz s') (\<lambda>(new, s).
                    km_place sz (first_minor sz req new) (before @ [maj]) new [] s))
         else (case fit_minor sz req maj of
                 Some am \<Rightarrow> km_place sz am before maj next s'
               | None \<Rightarrow>
                   (if next \<noteq> [] then km_loop sz req startedBet bestSize' (before @ [maj]) next s'
                    else if startedBet then km_loop sz req False bestSize' [] (before @ [maj]) s'
                    else kbind (allocate_new_page sz s') (\<lambda>(new, s).
                         km_loop sz req startedBet bestSize' (before @ [maj]) [new] s))))"
  by pat_completeness auto
termination
  by (relation "inv_image (less_than <*lex*> less_than)
        (\<lambda>(sz, req, startedBet, bestSize, before, rest, s). (if startedBet then 1 else 0 :: nat, km_weight rest))")
     (auto dest!: allocate_new_page_empty fit_minor_None)

declare km_loop.simps [simp del]

definition bb_space :: "u32 \<Rightarrow> major list \<Rightarrow> u32 res" where
  "bb_space bet majs =
     (case List.extract (\<lambda>maj. mj_addr maj = bet) majs of
        None \<Rightarrow> Inl MemFault | Some (_, maj, _) \<Rightarrow> Inr (mj_size maj - mj_usage maj))"

definition kmalloc :: "u32 \<Rightarrow> liballoc \<Rightarrow> (u32 \<times> liballoc) res" where
  "kmalloc req_size s =
     (let sz = req_size + ALIGNMENT + ALIGN_INFO
      in kbind (kassert (sz \<noteq> 0)) (\<lambda>_.
         kbind (liballoc_lock s) (\<lambda>s.
         kbind (kassert (l_majors s \<noteq> [])) (\<lambda>_.
           if l_bestBet s = 0 then km_loop sz req_size False 0 [] (l_majors s) s
           else (case List.extract (\<lambda>maj. mj_addr maj = l_bestBet s) (l_majors s) of
                   None \<Rightarrow> Inl MemFault
                 | Some (before, bet, after) \<Rightarrow>
                     let bestSize = mj_size bet - mj_usage bet
                     in if sz + MINOR_SIZE < bestSize
                        then km_loop sz req_size True bestSize before (bet # after) s
                        else km_loop sz req_size False bestSize [] (l_majors s) s)))))"

text \<open>\<open>liballoc_verify_magic\<close> finds the minor of a header, with its major and the neighbours of both.\<close>

definition liballoc_verify_magic :: "u32 \<Rightarrow> liballoc \<Rightarrow>
    (major list \<times> major \<times> major list \<times> minor list \<times> minor \<times> minor list) res" where
  "liballoc_verify_magic hdr s =
     (case List.extract (\<lambda>maj. \<exists>m \<in> set (mj_minors maj). mn_addr m = hdr) (l_majors s) of
        None \<Rightarrow> Inl AssertFailed
      | Some (before, maj, after) \<Rightarrow>
          (case List.extract (\<lambda>m. mn_addr m = hdr) (mj_minors maj) of
             None \<Rightarrow> Inl AssertFailed
           | Some (ms, m, ms') \<Rightarrow> Inr (before, maj, after, ms, m, ms')))"

definition kfree :: "u32 \<Rightarrow> liballoc \<Rightarrow> liballoc res" where
  "kfree ptr s =
     kbind (kassert (ptr \<noteq> 0)) (\<lambda>_.
     let ptr = UNALIGN ptr (l_mem s)
     in kbind (liballoc_lock s) (\<lambda>s.
        kbind (liballoc_verify_magic (ptr - MINOR_SIZE) s) (\<lambda>(before, maj, after, ms, m, ms').
        kbind (memset ptr 0 (mn_size m) (l_mem s)) (\<lambda>(_, mem).
        let maj' = maj\<lparr>mj_usage := mj_usage maj - (mn_size m + MINOR_SIZE), mj_minors := ms @ ms'\<rparr>;
            s = s\<lparr>l_inuse := l_inuse s - ucast (mn_size m), l_mem := mem\<rparr>
        in if mj_minors maj' = []
           then kbind (liballoc_free (mj_addr maj) (unat (mj_pages maj)) (l_vmm s)) (\<lambda>vm.
                liballoc_unlock
                  (s\<lparr>l_majors := before @ after, l_bestBet := (if l_bestBet s = mj_addr maj then 0 else l_bestBet s),
                     l_allocated := l_allocated s - ucast (mj_size maj), l_vmm := vm\<rparr>))
           else let s = s\<lparr>l_majors := before @ maj' # after\<rparr>
                in if l_bestBet s = 0 then liballoc_unlock s
                   else kbind (bb_space (l_bestBet s) (l_majors s)) (\<lambda>bestSize.
                        liballoc_unlock
                          (if sint bestSize < sint (mj_size maj' - mj_usage maj')
                           then s\<lparr>l_bestBet := mj_addr maj\<rparr> else s))))))"

definition kcalloc :: "u32 \<Rightarrow> u32 \<Rightarrow> liballoc \<Rightarrow> (u32 \<times> liballoc) res" where
  "kcalloc nobj sz s =
     (let real_size = nobj * sz
      in kbind (kmalloc real_size s) (\<lambda>(p, s).
         kbind (kassert (p \<noteq> 0)) (\<lambda>_.
           if real_size \<noteq> 0
           then kbind (memset p 0 real_size (l_mem s)) (\<lambda>(_, mem). Inr (p, s\<lparr>l_mem := mem\<rparr>))
           else Inr (p, s))))"

definition krealloc :: "u32 \<Rightarrow> u32 \<Rightarrow> liballoc \<Rightarrow> (u32 \<times> liballoc) res" where
  "krealloc p sz s =
     (if sz = 0 then kbind (kfree p s) (\<lambda>s. Inr (0, s))
      else if p = 0 then kmalloc sz s
      else let ptr = UNALIGN p (l_mem s)
           in kbind (liballoc_lock s) (\<lambda>s.
              kbind (liballoc_verify_magic (ptr - MINOR_SIZE) s) (\<lambda>(before, maj, after, ms, m, ms').
                if sz \<le> mn_req m
                then kbind (liballoc_unlock
                       (s\<lparr>l_majors := before @ maj\<lparr>mj_minors := ms @ m\<lparr>mn_req := sz\<rparr> # ms'\<rparr> # after\<rparr>)) (\<lambda>s.
                     Inr (p, s))
                else kbind (liballoc_unlock s) (\<lambda>s.
                     kbind (kmalloc sz s) (\<lambda>(ptr, s).
                     kbind (kassert (ptr \<noteq> 0)) (\<lambda>_.
                     kbind (memcpy ptr p (mn_req m) (l_mem s)) (\<lambda>(_, mem).
                     kbind (kfree p (s\<lparr>l_mem := mem\<rparr>)) (\<lambda>s.
                     Inr (ptr, s)))))))))"

text \<open>\<open>strndup\<close> of src/kernel/string.c.\<close>

definition strndup :: "u32 \<Rightarrow> u32 \<Rightarrow> liballoc \<Rightarrow> (u32 \<times> liballoc) res option" where
  "strndup str n s =
     map_option (\<lambda>r. kbind r (\<lambda>s_len.
       let len = (if n < s_len then n else s_len)
       in kbind (kmalloc (len + 1) s) (\<lambda>(s2, s).
            if s2 = 0 then Inr (0, s)
            else kbind (strncpy s2 str len (l_mem s)) (\<lambda>(_, mem).
                 Inr (s2, s\<lparr>l_mem := mem(s2 + len := 0)\<rparr>)))))
       (strlen (l_mem s) str)"

end
