(* ===== verification/Liballoc_Inv.thy ===== *)
theory Liballoc_Inv
  imports Liballoc
begin

text \<open>
  The invariant of the kernel heap and what each step of \<open>kmalloc\<close> and \<open>kfree\<close> does to it. Positions
  are natural numbers here: the 32-bit differences of the code are proved equal to the true
  distances.
\<close>

section \<open>Minors\<close>

definition mn_end :: "minor \<Rightarrow> nat" where
  "mn_end m = unat (mn_addr m) + 24 + unat (mn_size m)"

text \<open>The minors of a major lie one after the other between \<open>lo\<close> and \<open>hi\<close>; each has room for the bytes
  asked for and the alignment.\<close>

fun minors_ok :: "nat \<Rightarrow> nat \<Rightarrow> minor list \<Rightarrow> bool" where
  "minors_ok lo hi [] \<longleftrightarrow> lo \<le> hi"
| "minors_ok lo hi (m # ms) \<longleftrightarrow>
     lo \<le> unat (mn_addr m) \<and> unat (mn_req m) + 32 \<le> unat (mn_size m) \<and> minors_ok (mn_end m) hi ms"

lemma minors_ok_le: "minors_ok lo hi ms \<Longrightarrow> lo \<le> hi"
  by (induction ms arbitrary: lo) (force simp: mn_end_def)+

lemma minors_ok_mono: "minors_ok lo hi ms \<Longrightarrow> lo' \<le> lo \<Longrightarrow> minors_ok lo' hi ms"
  by (cases ms) auto

lemma minors_ok_append:
  "minors_ok lo hi (xs @ ys) \<longleftrightarrow> (\<exists>mid. minors_ok lo mid xs \<and> minors_ok mid hi ys)"
proof (induction xs arbitrary: lo)
  case Nil
  show ?case using minors_ok_mono by auto
qed auto

lemma minors_ok_remove: "minors_ok lo hi (pre @ m # post) \<Longrightarrow> minors_ok lo hi (pre @ post)"
proof -
  assume "minors_ok lo hi (pre @ m # post)"
  then obtain mid where "minors_ok lo mid pre" "minors_ok mid hi (m # post)" by (auto simp: minors_ok_append)
  moreover from this(2) have "minors_ok mid hi post"
    using minors_ok_mono [of "mn_end m" hi post mid] by (simp add: mn_end_def)
  ultimately show ?thesis by (auto simp: minors_ok_append)
qed

lemma minors_ok_in: "minors_ok lo hi ms \<Longrightarrow> m \<in> set ms \<Longrightarrow>
    lo \<le> unat (mn_addr m) \<and> mn_end m \<le> hi \<and> unat (mn_req m) + 32 \<le> unat (mn_size m)"
proof (induction ms arbitrary: lo)
  case (Cons n ms)
  then show ?case using minors_ok_le [of "mn_end n" hi ms] by (cases "m = n") (force simp: mn_end_def)+
qed simp

lemma minors_ok_sorted: "minors_ok lo hi ms \<Longrightarrow> sorted_wrt (\<lambda>a b. mn_end a \<le> unat (mn_addr b)) ms"
  by (induction ms arbitrary: lo) (auto dest: minors_ok_in)

text \<open>The bytes in use, headers included.\<close>

definition minors_bytes :: "minor list \<Rightarrow> nat" where
  "minors_bytes ms = sum_list (map (\<lambda>m. unat (mn_size m) + 24) ms)"

lemma minors_bytes_simps [simp]:
  "minors_bytes [] = 0" "minors_bytes (m # ms) = unat (mn_size m) + 24 + minors_bytes ms"
  "minors_bytes (xs @ ys) = minors_bytes xs + minors_bytes ys"
  by (simp_all add: minors_bytes_def)

lemma minors_bytes_le: "minors_ok lo hi ms \<Longrightarrow> lo + minors_bytes ms \<le> hi"
  by (induction ms arbitrary: lo) (force simp: mn_end_def)+

text \<open>The gap behind a minor, as the code computes it.\<close>

lemma gap_diff:
  assumes "mn_end m \<le> hi" "hi \<le> 2 ^ 32"
  shows "unat (of_nat hi - mn_addr m - MINOR_SIZE - mn_size m) = hi - mn_end m"
proof -
  have "of_nat hi - mn_addr m - MINOR_SIZE - mn_size m = (of_nat (hi - mn_end m) :: u32)"
    using assms(1) by (simp add: of_nat_diff mn_end_def MINOR_SIZE_def algebra_simps)
  moreover have "hi - mn_end m < 2 ^ 32" using assms by (simp add: mn_end_def)
  ultimately show ?thesis by (simp add: unat_of_nat)
qed

lemma gap_start:
  assumes "mn_end m < 2 ^ 32"
  shows "unat (mn_addr m + MINOR_SIZE + mn_size m) = mn_end m"
proof -
  have "mn_addr m + MINOR_SIZE + mn_size m = (of_nat (mn_end m) :: u32)" by (simp add: mn_end_def MINOR_SIZE_def)
  then show ?thesis using assms by (simp add: unat_of_nat)
qed

definition new_minor :: "u32 \<Rightarrow> u32 \<Rightarrow> u32 \<Rightarrow> minor" where
  "new_minor a sz req = \<lparr>mn_addr = a, mn_size = sz, mn_req = req\<rparr>"

text \<open>A request whose size and header fit in 32 bits.\<close>

definition req_ok :: "u32 \<Rightarrow> u32 \<Rightarrow> bool" where
  "req_ok sz req \<longleftrightarrow> unat sz = unat req + 32 \<and> unat sz < 2 ^ 31"

lemma req_need: "req_ok sz req \<Longrightarrow> unat (sz + MINOR_SIZE) = unat sz + 24"
  by (simp add: req_ok_def MINOR_SIZE_def unat_word_ariths(1))

lemma minors_ok_new:
  assumes "unat a = lo" "req_ok sz req" "lo + unat sz + 24 \<le> lo'" "minors_ok lo' hi ms"
  shows "minors_ok lo hi (new_minor a sz req # ms)"
  using assms minors_ok_mono [of lo' hi ms] by (simp add: new_minor_def mn_end_def req_ok_def)

lemma gap_fits:
  assumes "sz + MINOR_SIZE \<le> of_nat hi - mn_addr m - MINOR_SIZE - mn_size m" "mn_end m \<le> hi" "hi \<le> 2 ^ 32" "req_ok sz req"
  shows "mn_end m + unat sz + 24 \<le> hi" "unat (mn_addr m + MINOR_SIZE + mn_size m) = mn_end m"
proof -
  have "unat sz + 24 \<le> hi - mn_end m"
    using assms(1) gap_diff [OF assms(2,3)] req_need [OF assms(4)] by (simp add: word_le_nat_alt)
  then show "mn_end m + unat sz + 24 \<le> hi" using assms(2) by simp
  then have "mn_end m < 2 ^ 32" using assms(3) by simp
  then show "unat (mn_addr m + MINOR_SIZE + mn_size m) = mn_end m" by (rule gap_start)
qed

text \<open>Case 4 inserts the new minor between two others or behind the last one, where it fits.\<close>

lemma fit_gap_ok:
  assumes "fit_gap stop sz req ms = Some (a, ms')" "minors_ok lo hi ms" "stop = of_nat hi" "hi \<le> 2 ^ 32" "req_ok sz req"
  shows "\<exists>pre post. ms = pre @ post \<and> ms' = pre @ new_minor a sz req # post \<and> minors_ok lo hi ms'"
  using assms
proof (induction stop sz req ms arbitrary: lo ms' rule: fit_gap.induct)
  case (2 stop sz req m)
  have e: "mn_end m \<le> hi" using "2.prems"(2) by simp
  have g: "sz + MINOR_SIZE \<le> of_nat hi - mn_addr m - MINOR_SIZE - mn_size m" "a = mn_addr m + MINOR_SIZE + mn_size m"
      "ms' = [m] @ new_minor a sz req # []"
    using "2.prems"(1,3) by (auto simp: Let_def new_minor_def split: if_splits)
  note f = gap_fits [OF g(1) e "2.prems"(4,5)]
  have "minors_ok (mn_end m) hi [new_minor a sz req]"
    using f g(2) "2.prems"(5) by (intro minors_ok_new [where lo' = hi]) auto
  then have "minors_ok lo hi ms'" using "2.prems"(2) g(3) by simp
  then show ?case using g(3) by (intro exI [of _ "[m]"] exI [of _ "[]"]) simp
next
  case (3 stop sz req m n ms)
  have n: "mn_end m \<le> unat (mn_addr n)" "unat (mn_addr n) \<le> 2 ^ 32" "minors_ok (mn_end m) hi (n # ms)"
    using "3.prems"(2) unsigned_less [of "mn_addr n", where 'a = nat] by auto
  show ?case
  proof (cases "sz + MINOR_SIZE \<le> mn_addr n - mn_addr m - MINOR_SIZE - mn_size m")
    case True
    then have g: "sz + MINOR_SIZE \<le> of_nat (unat (mn_addr n)) - mn_addr m - MINOR_SIZE - mn_size m"
        "a = mn_addr m + MINOR_SIZE + mn_size m" "ms' = [m] @ new_minor a sz req # n # ms"
      using "3.prems"(1) by (auto simp: Let_def new_minor_def)
    note f = gap_fits [OF g(1) n(1,2) "3.prems"(5)]
    have "minors_ok (mn_end m) hi (new_minor a sz req # n # ms)"
      using f g(2) "3.prems"(5) n(3) by (intro minors_ok_new [where lo' = "unat (mn_addr n)"]) auto
    then have "minors_ok lo hi ms'" using "3.prems"(2) g(3) by simp
    then show ?thesis using g(3) by (intro exI [of _ "[m]"] exI [of _ "n # ms"]) simp
  next
    case False
    then obtain ms2 where ms2: "fit_gap stop sz req (n # ms) = Some (a, ms2)" "ms' = m # ms2"
      using "3.prems"(1) by (auto simp: Let_def)
    then obtain pre post where "n # ms = pre @ post" "ms2 = pre @ new_minor a sz req # post" "minors_ok (mn_end m) hi ms2"
      using "3.IH" [OF refl refl _ ms2(1) n(3) "3.prems"(3-5)] False by auto
    then show ?thesis using "3.prems"(2) ms2(2) by (intro exI [of _ "m # pre"] exI [of _ post]) auto
  qed
qed simp

section \<open>Majors\<close>

definition mj_page :: "major \<Rightarrow> nat" where
  "mj_page maj = unat (mj_addr maj) div BLOCK_SIZE"

definition mj_range :: "major \<Rightarrow> nat set" where
  "mj_range maj = {mj_page maj ..< mj_page maj + unat (mj_pages maj)}"

definition mj_end :: "major \<Rightarrow> nat" where
  "mj_end maj = unat (mj_addr maj) + unat (mj_size maj)"

definition major_ok :: "major \<Rightarrow> bool" where
  "major_ok maj \<longleftrightarrow>
     unat (mj_addr maj) = mj_page maj * BLOCK_SIZE \<and> 1 \<le> mj_page maj \<and> mj_page maj + unat (mj_pages maj) < 2 ^ 20 \<and>
     unat (mj_size maj) = unat (mj_pages maj) * BLOCK_SIZE \<and>
     minors_ok (unat (mj_addr maj) + 24) (mj_end maj) (mj_minors maj) \<and>
     mj_usage maj = of_nat (24 + minors_bytes (mj_minors maj))"

lemma major_bound: "major_ok maj \<Longrightarrow> mj_end maj < 2 ^ 32"
  by (simp add: major_ok_def mj_end_def BLOCK_SIZE_def)

text \<open>A new minor that fits between the others keeps the major well formed.\<close>

definition fitted :: "u32 \<Rightarrow> u32 \<Rightarrow> major \<Rightarrow> u32 \<times> minor list \<Rightarrow> bool" where
  "fitted sz req maj am \<longleftrightarrow>
     (\<exists>pre post. mj_minors maj = pre @ post \<and> snd am = pre @ new_minor (fst am) sz req # post) \<and>
     minors_ok (unat (mj_addr maj) + 24) (mj_end maj) (snd am)"

lemma first_minor_ok:
  assumes "major_ok maj" "mj_minors maj = []" "req_ok sz req" "unat sz + 48 \<le> unat (mj_size maj)"
  shows "fitted sz req maj (first_minor sz req maj)"
proof -
  let ?a = "mj_addr maj + MAJOR_SIZE"
  have a: "unat ?a = unat (mj_addr maj) + 24" using major_bound [OF assms(1)] assms(4)
    by (simp add: MAJOR_SIZE_def unat_word_ariths(1) mj_end_def)
  have "minors_ok (unat (mj_addr maj) + 24) (mj_end maj) [new_minor ?a sz req]"
    by (rule minors_ok_new [OF a assms(3), where lo' = "mj_end maj"]) (use assms(4) in \<open>auto simp: mj_end_def\<close>)
  then show ?thesis using assms(2) by (simp add: fitted_def first_minor_def Let_def new_minor_def [symmetric])
qed

lemma fit_minor_ok:
  assumes maj: "major_ok maj" and f: "fit_minor sz req maj = Some am" and r: "req_ok sz req"
    and space: "\<not> mj_size maj - mj_usage maj < sz + MINOR_SIZE"
  shows "fitted sz req maj am"
proof (cases "mj_minors maj")
  case Nil
  have "mj_usage maj = 24" "24 \<le> unat (mj_size maj)" using maj Nil by (auto simp: major_ok_def mj_end_def)
  then have "unat (mj_size maj - mj_usage maj) = unat (mj_size maj) - 24" by (simp add: unat_sub word_le_nat_alt)
  then have "unat sz + 48 \<le> unat (mj_size maj)" using space req_need [OF r] \<open>24 \<le> unat (mj_size maj)\<close>
    by (simp add: word_less_nat_alt)
  from first_minor_ok [OF maj Nil r this] show ?thesis using f Nil by (simp add: fit_minor_def Let_def)
next
  case (Cons m ms)
  have mo: "minors_ok (unat (mj_addr maj) + 24) (mj_end maj) (m # ms)" using maj Cons by (simp add: major_ok_def)
  let ?a = "mj_addr maj + MAJOR_SIZE"
  show ?thesis
  proof (cases "sz + MINOR_SIZE \<le> mn_addr m - mj_addr maj - MAJOR_SIZE")
    case True
    then have am: "am = (?a, new_minor ?a sz req # m # ms)" using f Cons by (simp add: fit_minor_def Let_def new_minor_def)
    have a: "unat ?a = unat (mj_addr maj) + 24" using major_bound [OF maj] mo minors_ok_le [OF mo]
      by (simp add: MAJOR_SIZE_def unat_word_ariths(1))
    have le: "?a \<le> mn_addr m" using mo a by (simp add: word_le_nat_alt)
    have e: "mn_addr m - mj_addr maj - MAJOR_SIZE = mn_addr m - ?a" by (simp add: diff_diff_eq)
    have "unat (mn_addr m - mj_addr maj - MAJOR_SIZE) = unat (mn_addr m) - unat ?a" unfolding e by (rule unat_sub [OF le])
    then have "unat ?a + unat sz + 24 \<le> unat (mn_addr m)" using True req_need [OF r] le by (simp add: word_le_nat_alt)
    then have "minors_ok (unat (mj_addr maj) + 24) (mj_end maj) (new_minor ?a sz req # m # ms)"
      using mo a by (intro minors_ok_new [OF a r, where lo' = "unat (mn_addr m)"]) auto
    then show ?thesis using am Cons by (auto simp: fitted_def)
  next
    case False
    then have g: "fit_gap (mj_addr maj + mj_size maj) sz req (m # ms) = Some (fst am, snd am)"
      using f Cons by (simp add: fit_minor_def Let_def)
    have stop: "mj_addr maj + mj_size maj = of_nat (mj_end maj)" by (simp add: mj_end_def)
    show ?thesis using fit_gap_ok [OF g mo stop less_imp_le [OF major_bound [OF maj]] r] Cons by (auto simp: fitted_def)
  qed
qed

lemma major_ok_placed:
  assumes "major_ok maj" "fitted sz req maj am"
  shows "major_ok (maj\<lparr>mj_usage := mj_usage maj + sz + MINOR_SIZE, mj_minors := snd am\<rparr>)"
  using assms by (auto simp: major_ok_def fitted_def mj_page_def mj_end_def MINOR_SIZE_def new_minor_def)

lemma major_ok_remove:
  assumes "major_ok maj" "mj_minors maj = ms @ m # ms'"
  shows "major_ok (maj\<lparr>mj_usage := mj_usage maj - (mn_size m + MINOR_SIZE), mj_minors := ms @ ms'\<rparr>)"
  using assms minors_ok_remove by (auto simp: major_ok_def mj_page_def mj_end_def MINOR_SIZE_def)

section \<open>Pages\<close>

text \<open>A page of a major is mapped, to a block of the physical memory manager.\<close>

definition page_entry :: "vmm \<Rightarrow> nat \<Rightarrow> u32" where
  "page_entry vm j = kpage vm (of_nat (j * BLOCK_SIZE))"

definition page_backed :: "vmm \<Rightarrow> nat \<Rightarrow> bool" where
  "page_backed vm j \<longleftrightarrow> page_entry vm j \<noteq> 0 \<and> unat (page_entry vm j AND NOT 0xFFF) div BLOCK_SIZE < block_map_size (vpm vm)"

text \<open>\<open>pages_ok\<close>: the kernel directory and the block map are well formed, and the last page of the
  address space is in use, so that no run of free pages wraps around.\<close>

definition pages_ok :: "vmm \<Rightarrow> bool" where
  "pages_ok vm \<longleftrightarrow> kdir_wf vm \<and> pmm_wf (vpm vm) \<and> page_entry vm 0xFFFFF \<noteq> 0"

text \<open>Mapping the page \<open>j\<close> of the kernel.\<close>

lemma map_kernel_page:
  assumes "kdir_wf vm" "j < 2 ^ 20"
    "kbind (get_table (of_nat (j * BLOCK_SIZE)) (kernel_directory vm) vm) (\<lambda>t. map_page t (of_nat (j * BLOCK_SIZE)) p f vm) = Inr vm'"
  shows "kdir_wf vm'" "vpm vm' = vpm vm" "kernel_directory vm' = kernel_directory vm"
    "i < 2 ^ 20 \<Longrightarrow> page_entry vm' i = (if i = j then p OR f else page_entry vm i)"
proof -
  obtain vm2 where m: "kbind (get_table (of_nat (j * BLOCK_SIZE)) (kernel_directory vm) vm)
      (\<lambda>t. map_page t (of_nat (j * BLOCK_SIZE)) p f vm) = Inr vm2" and r: "kdir_wf vm2" "ktab_frame vm vm2"
    "\<And>w. kpage vm2 w = (if pn w = pn (of_nat (j * BLOCK_SIZE)) then p OR f else kpage vm w)"
    using kmap_ok [OF assms(1) page_aligned [of j], of p f] by blast
  have vm2: "vm2 = vm'" using trans [OF m [symmetric] assms(3)] by simp
  show "kdir_wf vm'" "vpm vm' = vpm vm" "kernel_directory vm' = kernel_directory vm"
    using r(1) ktab_frame_simps [OF r(2)] vm2 by auto
  show "page_entry vm' i = (if i = j then p OR f else page_entry vm i)" if "i < 2 ^ 20"
    using r(3) vm2 that assms(2) page_number_eq [of i j] by (simp add: page_entry_def)
qed

lemma page_addr:
  "v = of_nat (b * BLOCK_SIZE) \<Longrightarrow> v + of_nat (i * BLOCK_SIZE) = (of_nat ((b + i) * BLOCK_SIZE) :: u32)"
  by (simp add: algebra_simps)

lemma block_entry:
  assumes "unat p = b * BLOCK_SIZE" "b < n" "p \<noteq> 0"
  shows "(p OR (PAGE_PRESENT OR PAGE_READWRITE)) \<noteq> 0" "unat ((p OR (PAGE_PRESENT OR PAGE_READWRITE)) AND NOT 0xFFF) div BLOCK_SIZE < n"
proof -
  have p: "p = of_nat (b * BLOCK_SIZE)" unfolding assms(1) [symmetric] by simp
  have a: "p AND 0xFFF = 0" using page_aligned12 [of b] p by simp
  show "(p OR (PAGE_PRESENT OR PAGE_READWRITE)) \<noteq> 0" using assms(3) by (simp add: or_eq_0_iff)
  have "(p OR 3) AND NOT 0xFFF = p"
  proof -
    have "(p OR 3) AND NOT 0xFFF = p AND NOT 0xFFF" by (simp add: bit.conj_disj_distrib2)
    also have "\<dots> = (p AND NOT 0xFFF) OR (p AND 0xFFF)" using a by simp
    also have "\<dots> = p" by (metis and.right_neutral bit.conj_disj_distrib bit.disj_cancel_left)
    finally show ?thesis .
  qed
  then show "unat ((p OR (PAGE_PRESENT OR PAGE_READWRITE)) AND NOT 0xFFF) div BLOCK_SIZE < n"
    using assms(1,2) by (simp add: PAGE_PRESENT_def PAGE_READWRITE_def BLOCK_SIZE_def)
qed

lemma kernel_table_lookup:
  "get_table_alloc v (kernel_directory s) s = Inr (t, s1) \<Longrightarrow> get_table v (kernel_directory s) s = Inr t \<and> s1 = s"
  unfolding kernel_get_table_alloc by (auto simp: kernel_table_def)

lemma la_page_ok:
  assumes s: "kdir_wf s" "pmm_wf (vpm s)" and v: "v = of_nat (b * BLOCK_SIZE)" "b + i < 2 ^ 20" and r: "la_page v i s = Inr s'"
  shows "kdir_wf s'" "pmm_wf (vpm s')" "block_map_size (vpm s') = block_map_size (vpm s)" "page_backed s' (b + i)"
    "j < 2 ^ 20 \<Longrightarrow> j \<noteq> b + i \<Longrightarrow> page_entry s' j = page_entry s j"
proof -
  let ?v = "of_nat ((b + i) * BLOCK_SIZE) :: u32"
  obtain p m t s1 where m: "pmm_alloc_blocks (vpm s) 1 = Inr (p, m)" "p \<noteq> 0"
    and s1: "get_table_alloc ?v (kernel_directory s) (s\<lparr>vpm := m\<rparr>) = Inr (t, s1)"
      "map_page t ?v p (PAGE_PRESENT OR PAGE_READWRITE) s1 = Inr s'"
    using r unfolding la_page_def page_addr [OF v(1)] Let_def by (auto split: if_splits)
  let ?s = "s\<lparr>vpm := m\<rparr>"
  obtain c where c: "unat p = c * BLOCK_SIZE" "c < block_map_size (vpm s)" "pmm_wf m" "block_map_size m = block_map_size (vpm s)"
    using alloc_one [OF s(2), of p m] m by (auto simp: pmm_alloc_blocks_safe_def)
  have t: "get_table ?v (kernel_directory ?s) ?s = Inr t" "s1 = ?s"
    using kernel_table_lookup [of ?v ?s] s1(1) by simp_all
  have kd: "kdir_wf ?s" using s(1) kdir_wf_cong [of ?s s] by simp
  have mp: "kbind (get_table ?v (kernel_directory ?s) ?s) (\<lambda>t. map_page t ?v p (PAGE_PRESENT OR PAGE_READWRITE) ?s) = Inr s'"
    using t s1(2) by simp
  note M = map_kernel_page [OF kd v(2) mp]
  have pe: "page_entry ?s j = page_entry s j" for j
    using kpage_cong [of ?s s] by (simp add: page_entry_def)
  show "kdir_wf s'" "pmm_wf (vpm s')" "block_map_size (vpm s') = block_map_size (vpm s)" using M(1,2) c(3,4) by simp_all
  show "page_backed s' (b + i)" using M(4) [OF v(2)] M(2) block_entry [OF c(1,2) m(2)] c(4) by (simp add: page_backed_def)
  show "page_entry s' j = page_entry s j" if "j < 2 ^ 20" "j \<noteq> b + i" using M(4) [OF that(1)] that(2) pe by simp
qed

text \<open>Taking pages: a run that was not mapped is now backed, nothing else changes.\<close>

lemma liballoc_alloc_ok:
  assumes ok: "pages_ok vm" and n: "1 \<le> n" "n < 2 ^ 20" and r: "liballoc_alloc n vm = Inr (v, vm')"
  shows "\<exists>b. v = of_nat (b * BLOCK_SIZE) \<and> 1 \<le> b \<and> b + n < 2 ^ 20 \<and> pages_ok vm' \<and>
    block_map_size (vpm vm') = block_map_size (vpm vm) \<and>
    (\<forall>j. b \<le> j \<and> j < b + n \<longrightarrow> page_entry vm j = 0 \<and> page_backed vm' j) \<and>
    (\<forall>j<2 ^ 20. \<not> (b \<le> j \<and> j < b + n) \<longrightarrow> page_entry vm' j = page_entry vm j)"
proof -
  obtain vm1 where f: "find_vspace (kernel_directory vm) n vm = Inr (v, vm1)" and loop: "kfor (la_page v) [0..<n] vm1 = Inr vm'"
    using r by (auto simp: liballoc_alloc_def)
  have k: "kdir_wf vm" "pmm_wf (vpm vm)" "page_entry vm 0xFFFFF \<noteq> 0" using ok by (simp_all add: pages_ok_def)
  then have "kernel_directory vm \<noteq> 0" by (simp add: kdir_wf_def)
  with f have f: "find_kernel_vspace n vm = Inr (v, vm1)" by (simp add: find_vspace_kernel)
  have first: "v + of_nat (0 * BLOCK_SIZE) = v" by simp
  have "v AND 0x3FF = 0"
  proof -
    have "0 \<in> set [0..<n]" using n(1) by simp
    then obtain xs where "[0..<n] = 0 # xs" using n(1) by (metis upt_conv_Cons less_le_trans zero_less_one)
    then show ?thesis using loop by (auto simp: la_page_def map_page_def Let_def split: if_splits)
  qed
  then have "v \<noteq> -1" using minus_one_unaligned by metis
  then obtain b where b: "kdir_wf vm1" "ktab_frame vm vm1" "v = of_nat (b * BLOCK_SIZE)" "1 \<le> b" "b < 2 ^ 20"
      "\<And>k. k < n \<Longrightarrow> kvfree vm (b + k)"
      "\<And>j. j < 2 ^ 20 \<Longrightarrow> page_entry vm1 j = (if b + n < 2 ^ 20 \<and> b \<le> j \<and> j < b + n then PAGE_VALUE_RESERVED else page_entry vm j)"
    using find_kernel_vspace_ok [OF k(1) n] f unfolding page_entry_def by auto
  have bn: "b + n < 2 ^ 20"
  proof (rule ccontr)
    assume "\<not> b + n < 2 ^ 20"
    then have "0xFFFFF - b < n" "b + (0xFFFFF - b) = 0xFFFFF" using b(5) by auto
    then show False using b(6) [of "0xFFFFF - b"] k(3) by (simp add: kvfree_def page_entry_def)
  qed
  let ?P = "\<lambda>done s. kdir_wf s \<and> pmm_wf (vpm s) \<and> block_map_size (vpm s) = block_map_size (vpm vm) \<and>
     (\<forall>j<2 ^ 20. if b \<le> j \<and> j < b + length done then page_backed s j else page_entry s j = page_entry vm1 j)"
  have "?P [0..<n] vm'"
  proof (rule kfor_pres [OF loop])
    show "?P [] vm1" using b(1) k(2) ktab_frame_simps [OF b(2)] by auto
  next
    fix "done" i s s'
    assume P: "?P done s" and st: "la_page v i s = Inr s'" and "\<exists>rest. [0..<n] = done @ i # rest"
    then have i: "i = length done" "i < n" using upt_split by fastforce+
    have bi: "b + i < 2 ^ 20" using i bn by simp
    note L = la_page_ok [OF _ _ b(3) bi st]
    have "page_backed s' j" if "page_backed s j" "j \<noteq> b + i" "j < 2 ^ 20" for j
      using that L(3,5) P by (simp add: page_backed_def)
    then show "?P (done @ [i]) s'" using P L i by (auto simp: less_Suc_eq)
  qed
  then have e: "kdir_wf vm'" "pmm_wf (vpm vm')" "block_map_size (vpm vm') = block_map_size (vpm vm)"
    "\<And>j. j < 2 ^ 20 \<Longrightarrow> if b \<le> j \<and> j < b + n then page_backed vm' j else page_entry vm' j = page_entry vm1 j" by auto
  have out: "page_entry vm' j = page_entry vm j" if "j < 2 ^ 20" "\<not> (b \<le> j \<and> j < b + n)" for j
    using e(4) [OF that(1)] b(7) [OF that(1)] that(2) by (simp split: if_splits)
  have "page_entry vm j = 0" "page_backed vm' j" if "b \<le> j" "j < b + n" for j
    using e(4) [of j] that bn b(6) [of "j - b"] by (auto simp: kvfree_def page_entry_def)
  moreover have "page_entry vm' 0xFFFFF \<noteq> 0" using out [of "0xFFFFF"] k(3) bn by simp
  ultimately show ?thesis using b(3,4) bn e(1-3) out by (intro exI [of _ b]) (simp add: pages_ok_def)
qed

text \<open>Giving pages back never fails on backed pages, and unmaps exactly these.\<close>

lemma lf_page_ok:
  assumes s: "kdir_wf s" "pmm_wf (vpm s)" and v: "v = of_nat (b * BLOCK_SIZE)" "b + i < 2 ^ 20" and bk: "page_backed s (b + i)"
  shows "\<exists>s'. lf_page v i s = Inr s' \<and> kdir_wf s' \<and> pmm_wf (vpm s') \<and> block_map_size (vpm s') = block_map_size (vpm s) \<and>
    (\<forall>j<2 ^ 20. page_entry s' j = (if j = b + i then 0 else page_entry s j))"
proof -
  let ?v = "of_nat ((b + i) * BLOCK_SIZE) :: u32" and ?p = "page_entry s (b + i)"
  obtain t where t: "get_table ?v (kernel_directory s) s = Inr t" "get_page t ?v s = Inr ?p"
    using kernel_table_ok [OF s(1), of ?v] by (auto simp: page_entry_def)
  obtain s1 where s1: "kbind (get_table ?v (kernel_directory s) s) (\<lambda>t. map_page t ?v 0 0 s) = Inr s1"
    using kmap_ok [OF s(1) page_aligned [of "b + i"], of 0 0] by blast
  note M = map_kernel_page [OF s(1) v(2) s1]
  have c: "unat (?p AND NOT 0xFFF) div BLOCK_SIZE < block_map_size (vpm s1)" using bk M(2) by (simp add: page_backed_def)
  obtain m where m: "pmm_free_blocks (vpm s1) (?p AND NOT 0xFFF) 1 = Inr m" "pmm_wf m" "block_map_size m = block_map_size (vpm s1)"
    using blocks.unset_range_used [of "vpm s1" "unat (?p AND NOT 0xFFF) div BLOCK_SIZE" 1] s(2) M(2) c
    by (auto simp: pmm_free_blocks_def Let_def)
  let ?s = "if ?p = PAGE_VALUE_RESERVED then s1 else s1\<lparr>vpm := m\<rparr>"
  have "lf_page v i s = Inr ?s"
    using t s1 m(1) unfolding lf_page_def page_addr [OF v(1)] Let_def by auto
  moreover have "kdir_wf ?s" using M(1) kdir_wf_cong [of "s1\<lparr>vpm := m\<rparr>" s1] by simp
  moreover have "page_entry ?s j = page_entry s1 j" for j using kpage_cong [of ?s s1] by (simp add: page_entry_def)
  ultimately show ?thesis using M m(2,3) s(2) by (intro exI [of _ ?s]) auto
qed

lemma liballoc_free_ok:
  assumes ok: "pages_ok vm" and v: "v = of_nat (b * BLOCK_SIZE)" "1 \<le> b" "b + n < 2 ^ 20"
    and bk: "\<And>j. b \<le> j \<Longrightarrow> j < b + n \<Longrightarrow> page_backed vm j"
  shows "\<exists>vm'. liballoc_free v n vm = Inr vm' \<and> pages_ok vm' \<and> block_map_size (vpm vm') = block_map_size (vpm vm) \<and>
    (\<forall>j<2 ^ 20. page_entry vm' j = (if b \<le> j \<and> j < b + n then 0 else page_entry vm j))"
proof -
  let ?P = "\<lambda>done s. kdir_wf s \<and> pmm_wf (vpm s) \<and> block_map_size (vpm s) = block_map_size (vpm vm) \<and>
     (\<forall>j<2 ^ 20. page_entry s j = (if b \<le> j \<and> j < b + length done then 0 else page_entry vm j))"
  have "\<exists>vm'. kfor (lf_page v) [0..<n] vm = Inr vm' \<and> ?P [0..<n] vm'"
  proof (rule kfor_inv)
    show "?P [] vm" using ok by (auto simp: pages_ok_def)
  next
    fix "done" i s
    assume P: "?P done s" and "\<exists>rest. [0..<n] = done @ i # rest"
    then have i: "i = length done" "i < n" using upt_split by fastforce+
    have bi: "b + i < 2 ^ 20" using i v(3) by simp
    have "page_backed s (b + i)" using bk [of "b + i"] P i bi by (auto simp: page_backed_def)
    from lf_page_ok [OF _ _ v(1) bi this] P i show "\<exists>s'. lf_page v i s = Inr s' \<and> ?P (done @ [i]) s'"
      by (auto simp: less_Suc_eq)
  qed
  moreover have "v \<noteq> 0" using unat_page [of b] v by auto
  ultimately show ?thesis using ok v(3) by (auto simp: liballoc_free_def pages_ok_def)
qed

section \<open>The heap\<close>

definition mapped :: "vmm \<Rightarrow> major \<Rightarrow> bool" where
  "mapped vm maj \<longleftrightarrow> (\<forall>j \<in> mj_range maj. page_backed vm j)"

definition heap_ok :: "major list \<Rightarrow> vmm \<Rightarrow> bool" where
  "heap_ok majs vm \<longleftrightarrow> (\<forall>maj \<in> set majs. major_ok maj \<and> mapped vm maj) \<and>
     sorted_wrt (\<lambda>a b. mj_range a \<inter> mj_range b = {}) majs \<and> pages_ok vm"

text \<open>Between two calls the lock is free and the best bet is a block of the list.\<close>

definition bet_ok :: "u32 \<Rightarrow> major list \<Rightarrow> bool" where
  "bet_ok bet majs \<longleftrightarrow> bet = 0 \<or> bet \<in> mj_addr ` set majs"

definition heap_inv :: "liballoc \<Rightarrow> bool" where
  "heap_inv s \<longleftrightarrow> heap_ok (l_majors s) (l_vmm s) \<and> \<not> l_lock s \<and> bet_ok (l_bestBet s) (l_majors s)"

definition live :: "major list \<Rightarrow> minor list" where
  "live majs = concat (map mj_minors majs)"

lemma live_simps [simp]:
  "live [] = []" "live (maj # majs) = mj_minors maj @ live majs" "live (xs @ ys) = live xs @ live ys"
  by (simp_all add: live_def)

text \<open>A fresh major is empty, large enough, and shares no page with the others.\<close>

lemma page_count_ok:
  assumes "unat sz < 2 ^ 31"
  shows "1 \<le> unat (page_count sz)" "unat (page_count sz) < 2 ^ 20" "unat sz + 48 \<le> unat (page_count sz) * BLOCK_SIZE"
    "unat (page_count sz * l_pageSize) = unat (page_count sz) * BLOCK_SIZE"
proof -
  define w where "w = sz + MAJOR_SIZE + MINOR_SIZE"
  have w: "unat w = unat sz + 48" using assms by (simp add: w_def MAJOR_SIZE_def MINOR_SIZE_def unat_word_ariths(1))
  define d where "d = (if w mod l_pageSize = 0 then w div l_pageSize else w div l_pageSize + 1)"
  have md: "w mod l_pageSize = 0 \<longleftrightarrow> unat w mod 4096 = 0" "unat (w div l_pageSize) = unat w div 4096"
    by (simp_all add: word_unat_eq_iff unat_mod_distrib unat_div_distrib l_pageSize_def)
  have "unat w div 4096 < 2 ^ 20 - 1" using w assms by simp
  then have d: "unat d = (if unat w mod 4096 = 0 then unat w div 4096 else unat w div 4096 + 1)"
    using md by (simp add: d_def unat_word_ariths(1))
  have st: "page_count sz = (if d < l_pageCount then l_pageCount else d)"
    by (simp add: page_count_def Let_def d_def w_def)
  have "unat w \<le> unat d * 4096" using d div_mult_mod_eq [of "unat w" 4096] by (auto simp: algebra_simps split: if_splits)
  moreover have "unat d < 2 ^ 20 - 1" using d w assms by auto
  ultimately have b: "1 \<le> unat (page_count sz)" "unat (page_count sz) < 2 ^ 20" "unat w \<le> unat (page_count sz) * 4096"
    by (auto simp: st l_pageCount_def word_less_nat_alt)
  then show "1 \<le> unat (page_count sz)" "unat (page_count sz) < 2 ^ 20" "unat sz + 48 \<le> unat (page_count sz) * BLOCK_SIZE"
    using w by (simp_all add: BLOCK_SIZE_def)
  show "unat (page_count sz * l_pageSize) = unat (page_count sz) * BLOCK_SIZE"
    using b(2) by (simp add: l_pageSize_def unat_word_ariths(2) BLOCK_SIZE_def)
qed

lemma allocate_new_page_ok:
  assumes ok: "heap_ok majs (l_vmm s)" and sz: "unat sz < 2 ^ 31" and r: "allocate_new_page sz s = Inr (new, s')"
  shows "heap_ok (majs @ [new]) (l_vmm s') \<and> mj_minors new = [] \<and> unat sz + 48 \<le> unat (mj_size new) \<and>
    (\<exists>al vm. s' = s\<lparr>l_vmm := vm, l_allocated := al\<rparr>)"
proof -
  let ?n = "page_count sz"
  note n = page_count_ok [OF sz]
  obtain v vm where v: "liballoc_alloc (unat ?n) (l_vmm s) = Inr (v, vm)"
    and new: "new = \<lparr>mj_addr = v, mj_pages = ?n, mj_size = ?n * l_pageSize, mj_usage = MAJOR_SIZE, mj_minors = []\<rparr>"
    and s': "s' = s\<lparr>l_vmm := vm, l_allocated := l_allocated s + ucast (?n * l_pageSize)\<rparr>"
    using r by (auto simp: allocate_new_page_def Let_def)
  have po: "pages_ok (l_vmm s)" using ok by (simp add: heap_ok_def)
  obtain b where b: "v = of_nat (b * BLOCK_SIZE)" "1 \<le> b" "b + unat ?n < 2 ^ 20" "pages_ok vm"
    "block_map_size (vpm vm) = block_map_size (vpm (l_vmm s))"
    "\<And>j. b \<le> j \<Longrightarrow> j < b + unat ?n \<Longrightarrow> page_entry (l_vmm s) j = 0 \<and> page_backed vm j"
    "\<And>j. j < 2 ^ 20 \<Longrightarrow> \<not> (b \<le> j \<and> j < b + unat ?n) \<Longrightarrow> page_entry vm j = page_entry (l_vmm s) j"
    using liballoc_alloc_ok [OF po n(1,2) v] by blast
  have va: "unat v = b * BLOCK_SIZE" using unat_page [of b] b(1,3) by (simp add: BLOCK_SIZE_def)
  then have pg: "mj_page new = b" "mj_range new = {b ..< b + unat ?n}"
    by (simp_all add: mj_page_def new mj_range_def BLOCK_SIZE_def)
  have new_ok: "major_ok new" using va b(2,3) n pg(1)
    by (simp add: major_ok_def new mj_end_def MAJOR_SIZE_def BLOCK_SIZE_def)
  have old: "mapped vm maj \<and> mj_range maj \<inter> mj_range new = {}" if "maj \<in> set majs" for maj
  proof -
    have m: "major_ok maj" "mapped (l_vmm s) maj" using ok that by (auto simp: heap_ok_def)
    have "j < 2 ^ 20 \<and> \<not> (b \<le> j \<and> j < b + unat ?n)" if "j \<in> mj_range maj" for j
    proof -
      have "page_entry (l_vmm s) j \<noteq> 0" using m(2) that by (simp add: mapped_def page_backed_def)
      then have "\<not> (b \<le> j \<and> j < b + unat ?n)" using b(6) by blast
      then show ?thesis using m(1) that by (auto simp: major_ok_def mj_range_def)
    qed
    then show ?thesis using m(2) b(5,7) pg(2) by (fastforce simp: mapped_def page_backed_def)
  qed
  have "heap_ok (majs @ [new]) vm" using ok old new_ok b(4,6) pg(2)
    by (auto simp: heap_ok_def sorted_wrt_append mapped_def)
  then show ?thesis using new s' n(3,4) by auto
qed

section \<open>\<open>kmalloc\<close>\<close>

text \<open>The loop over the majors ends by placing the new minor where it fits, in a heap that differs from
  the one it started with by empty majors only.\<close>

definition placed :: "u32 \<Rightarrow> u32 \<Rightarrow> minor list \<Rightarrow> liballoc \<Rightarrow> u32 \<times> liballoc \<Rightarrow> bool" where
  "placed sz req lv s r \<longleftrightarrow> (\<exists>before maj next am s1.
     km_place sz am before maj next s1 = Inr r \<and> fitted sz req maj am \<and> heap_ok (before @ maj # next) (l_vmm s1) \<and>
     live (before @ maj # next) = lv \<and> bet_ok (l_bestBet s1) (before @ maj # next) \<and>
     l_mem s1 = l_mem s \<and> l_inuse s1 = l_inuse s)"

lemma placedI:
  "km_place sz am before maj next s1 = Inr r \<Longrightarrow> fitted sz req maj am \<Longrightarrow> heap_ok (before @ maj # next) (l_vmm s1) \<Longrightarrow>
   live (before @ maj # next) = lv \<Longrightarrow> bet_ok (l_bestBet s1) (before @ maj # next) \<Longrightarrow>
   l_mem s1 = l_mem s \<Longrightarrow> l_inuse s1 = l_inuse s \<Longrightarrow> placed sz req lv s r"
  unfolding placed_def by blast

lemma placed_frame:
  "placed sz req lv s' r \<Longrightarrow> l_mem s' = l_mem s \<Longrightarrow> l_inuse s' = l_inuse s \<Longrightarrow> placed sz req lv s r"
  unfolding placed_def by simp

lemma bet_ok_append: "bet_ok bet majs \<Longrightarrow> bet_ok bet (majs @ xs)"
  by (auto simp: bet_ok_def)

lemma heap_ok_major: "heap_ok (before @ maj # next) vm \<Longrightarrow> major_ok maj"
  by (simp add: heap_ok_def)

text \<open>The ways an iteration goes on: the next major, the start of the list, a new major, or a fit.\<close>

lemma km_loop_cases:
  fixes maj s best
  defines "diff \<equiv> mj_size maj - mj_usage maj"
  defines "s1 \<equiv> if best < diff then s\<lparr>l_bestBet := mj_addr maj\<rparr> else s"
  defines "best1 \<equiv> if best < diff then diff else best"
  assumes "km_loop sz req started best before (maj # next) s = Inr r"
  obtains
    (Next) "next \<noteq> []" "diff < sz + MINOR_SIZE \<or> fit_minor sz req maj = None"
      "km_loop sz req started best1 (before @ [maj]) next s1 = Inr r"
  | (Restart) "next = []" "started" "diff < sz + MINOR_SIZE \<or> fit_minor sz req maj = None"
      "km_loop sz req False best1 [] (before @ [maj]) s1 = Inr r"
  | (New) new s2 where "next = []" "\<not> started" "diff < sz + MINOR_SIZE" "allocate_new_page sz s1 = Inr (new, s2)"
      "km_place sz (first_minor sz req new) (before @ [maj]) new [] s2 = Inr r"
  | (Full) new s2 where "next = []" "\<not> started" "\<not> diff < sz + MINOR_SIZE" "fit_minor sz req maj = None"
      "allocate_new_page sz s1 = Inr (new, s2)" "km_loop sz req started best1 (before @ [maj]) [new] s2 = Inr r"
  | (Fit) am where "\<not> diff < sz + MINOR_SIZE" "fit_minor sz req maj = Some am" "km_place sz am before maj next s1 = Inr r"
proof -
  have run: "(if diff < sz + MINOR_SIZE
         then (if next \<noteq> [] then km_loop sz req started best1 (before @ [maj]) next s1
               else if started then km_loop sz req False best1 [] (before @ [maj]) s1
               else kbind (allocate_new_page sz s1) (\<lambda>(new, s).
                    km_place sz (first_minor sz req new) (before @ [maj]) new [] s))
         else (case fit_minor sz req maj of
                 Some am \<Rightarrow> km_place sz am before maj next s1
               | None \<Rightarrow>
                   (if next \<noteq> [] then km_loop sz req started best1 (before @ [maj]) next s1
                    else if started then km_loop sz req False best1 [] (before @ [maj]) s1
                    else kbind (allocate_new_page sz s1) (\<lambda>(new, s).
                         km_loop sz req started best1 (before @ [maj]) [new] s)))) = Inr r"
    using assms(4) unfolding diff_def s1_def best1_def km_loop.simps(2) [of sz req started best before maj "next" s] Let_def .
  show ?thesis
  proof (cases "diff < sz + MINOR_SIZE")
    case True
    then show ?thesis using run Next Restart New by (auto split: if_splits)
  next
    case False
    then show ?thesis using run Next Restart Full Fit by (cases "fit_minor sz req maj") (auto split: if_splits)
  qed
qed

lemma km_loop_ok:
  assumes "km_loop sz req started best before rest s = Inr r" "rest \<noteq> []" "heap_ok (before @ rest) (l_vmm s)"
    "bet_ok (l_bestBet s) (before @ rest)" "req_ok sz req"
  shows "placed sz req (live (before @ rest)) s r"
  using assms
proof (induction sz req started best before rest s rule: km_loop.induct)
  case (2 sz req started best before maj "next" s)
  let ?diff = "mj_size maj - mj_usage maj"
  let ?s = "if best < ?diff then s\<lparr>l_bestBet := mj_addr maj\<rparr> else s"
  have b: "bet_ok (l_bestBet ?s) (before @ maj # next)" using "2.prems"(4) by (auto simp: bet_ok_def)
  have h: "heap_ok (before @ maj # next) (l_vmm ?s)" using "2.prems"(3) by simp
  have fr: "l_mem ?s = l_mem s" "l_inuse ?s = l_inuse s" by simp_all
  have sz: "unat sz < 2 ^ 31" using "2.prems"(5) by (simp add: req_ok_def)
  from "2.prems"(1) show ?case
  proof (cases rule: km_loop_cases)
    case Next
    have "placed sz req (live ((before @ [maj]) @ next)) ?s r"
    proof (cases "?diff < sz + MINOR_SIZE")
      case True
      show ?thesis using Next(1,3) h b "2.prems"(5) by (intro "2.IH"(1) [OF refl refl refl True Next(1)]) auto
    next
      case False
      then have "fit_minor sz req maj = None" using Next(2) by simp
      then show ?thesis using Next(1,3) h b "2.prems"(5) by (intro "2.IH"(3) [OF refl refl refl False _ Next(1)]) auto
    qed
    then show ?thesis using placed_frame [OF _ fr] by simp
  next
    case Restart
    have "placed sz req (live ([] @ before @ [maj])) ?s r"
    proof (cases "?diff < sz + MINOR_SIZE")
      case True
      show ?thesis using Restart h b "2.prems"(5) by (intro "2.IH"(2) [OF refl refl refl True]) auto
    next
      case False
      then have "fit_minor sz req maj = None" using Restart(3) by simp
      then show ?thesis using Restart h b "2.prems"(5) by (intro "2.IH"(4) [OF refl refl refl False]) auto
    qed
    then show ?thesis using placed_frame [OF _ fr] Restart(1) by simp
  next
    case (New new s2)
    from New(1) h b have h': "heap_ok (before @ [maj]) (l_vmm ?s)" "bet_ok (l_bestBet ?s) (before @ [maj])" by simp_all
    from allocate_new_page_ok [OF h'(1) sz New(4)] have
      a: "heap_ok ((before @ [maj]) @ [new]) (l_vmm s2)" "mj_minors new = []" "unat sz + 48 \<le> unat (mj_size new)"
        "l_mem s2 = l_mem s" "l_inuse s2 = l_inuse s" "l_bestBet s2 = l_bestBet ?s" by auto
    have "fitted sz req new (first_minor sz req new)"
      by (rule first_minor_ok [OF heap_ok_major [OF a(1)] a(2) "2.prems"(5) a(3)])
    then show ?thesis using bet_ok_append [OF h'(2)] a(2,6) New(1)
      by (intro placedI [OF New(5) _ a(1) _ _ a(4,5)]) simp_all
  next
    case (Full new s2)
    from Full(1) h b have h': "heap_ok (before @ [maj]) (l_vmm ?s)" "bet_ok (l_bestBet ?s) (before @ [maj])" by simp_all
    from allocate_new_page_ok [OF h'(1) sz Full(5)] have
      a: "heap_ok ((before @ [maj]) @ [new]) (l_vmm s2)" "mj_minors new = []"
        "l_mem s2 = l_mem s" "l_inuse s2 = l_inuse s" "l_bestBet s2 = l_bestBet ?s" by auto
    have "bet_ok (l_bestBet s2) ((before @ [maj]) @ [new])" using bet_ok_append [OF h'(2)] a(5) by simp
    from "2.IH"(5) [OF refl refl refl Full(3,4) _ Full(2) Full(5) refl Full(6) _ a(1) this "2.prems"(5)]
    have "placed sz req (live ((before @ [maj]) @ [new])) s2 r" using Full(1) by simp
    then show ?thesis using placed_frame [OF _ a(3,4)] a(2) Full(1) by simp
  next
    case (Fit am)
    have "fitted sz req maj am" by (rule fit_minor_ok [OF heap_ok_major [OF h] Fit(2) "2.prems"(5) Fit(1)])
    then show ?thesis by (rule placedI [OF Fit(3) _ h refl b fr])
  qed
qed simp

text \<open>\<open>ALIGN\<close> moves the pointer up by 16 to 31 bytes, to a multiple of 16, and remembers by how much;
  \<open>UNALIGN\<close> undoes it as long as the remembered byte is intact.\<close>

lemma small_char: "unat d < 32 \<Longrightarrow> scast (ucast (d :: u32) :: u8) = d"
proof -
  assume "unat d < 32"
  then have "unat d \<in> set [0..<32]" by simp
  moreover have "\<forall>k \<in> set [0..<32]. scast (ucast (of_nat k :: u32) :: u8) = (of_nat k :: u32)" by code_simp
  ultimately have "scast (ucast (of_nat (unat d) :: u32) :: u8) = (of_nat (unat d) :: u32)" by blast
  then show ?thesis by simp
qed

lemma unat_and_15: "unat ((x :: u32) AND 15) = unat x mod 16"
proof -
  have "x AND 15 = x mod 16" using take_bit_eq_mask [of 4 x] by (simp add: take_bit_eq_mod mask_eq_exp_minus_1)
  then show ?thesis by (simp add: unat_mod_distrib)
qed

lemma ALIGN_ok:
  assumes "unat p0 + 32 < 2 ^ 32" "ALIGN p0 m = (p, m')"
  shows "p AND 15 = 0" "unat p0 + 16 \<le> unat p" "unat p < unat p0 + 32" "m' = m(p - 16 := ucast (p - p0))"
    "m2 (p - 16) = ucast (p - p0) \<Longrightarrow> UNALIGN p m2 = p0"
proof -
  define d where "d = (p0 + 16) AND 15"
  have d: "unat d = (unat p0 + 16) mod 16" using assms(1)
    by (simp add: d_def unat_and_15 unat_word_ariths(1))
  then have d15: "unat d < 16" by simp
  define e where "e = (if d = 0 then 0 else 16 - d)"
  have e: "unat e = (if unat d = 0 then 0 else 16 - unat d)"
    using d15 by (auto simp: e_def unat_sub word_le_nat_alt unat_eq_0)
  have p: "p = p0 + 16 + e" "m' = m(p - 16 := ucast (e + 16))"
    using assms(2) unfolding ALIGN_def Let_def ALIGN_INFO_def ALIGNMENT_def by (auto simp: d_def e_def split: if_splits)
  have up: "unat p = unat p0 + 16 + unat e" using assms(1) e d15 by (simp add: p(1) unat_word_ariths(1))
  then show "unat p0 + 16 \<le> unat p" "unat p < unat p0 + 32" using e d15 by (auto split: if_splits)
  have "unat p mod 16 = 0" using up e d d15 by (auto split: if_splits) presburger+
  then show "p AND 15 = 0" by (simp add: word_unat_eq_iff unat_and_15)
  have pd: "p - p0 = e + 16" by (simp add: p(1))
  then show "m' = m(p - 16 := ucast (p - p0))" using p(2) by simp
  have "unat (e + 16) < 32" using e d15 by (auto simp: unat_word_ariths(1) split: if_splits)
  then show "UNALIGN p m2 = p0" if "m2 (p - 16) = ucast (p - p0)"
  proof -
    assume lt: "unat (e + 16) < 32"
    have "scast (m2 (p - 16)) = p - p0" unfolding that by (rule small_char) (simp add: pd lt)
    moreover have "p - p0 < 32" using lt pd by (simp add: word_less_nat_alt)
    ultimately show ?thesis by (simp add: UNALIGN_def ALIGN_INFO_def ALIGNMENT_def Let_def)
  qed
qed

text \<open>The bytes of a minor, header included.\<close>

definition mn_span :: "minor \<Rightarrow> nat set" where
  "mn_span m = {unat (mn_addr m) ..< mn_end m}"

lemma span_in_major:
  assumes "major_ok maj" "m \<in> set (mj_minors maj)"
  shows "mn_span m \<subseteq> {x. x div BLOCK_SIZE \<in> mj_range maj}" "mn_end m < 2 ^ 32" "unat (mn_req m) + 32 \<le> unat (mn_size m)"
proof -
  have m: "unat (mj_addr maj) + 24 \<le> unat (mn_addr m)" "mn_end m \<le> mj_end maj" "unat (mn_req m) + 32 \<le> unat (mn_size m)"
    using assms minors_ok_in [OF _ assms(2)] by (auto simp: major_ok_def)
  then show "mn_end m < 2 ^ 32" "unat (mn_req m) + 32 \<le> unat (mn_size m)" using major_bound [OF assms(1)] by simp_all
  have "x div BLOCK_SIZE \<in> mj_range maj" if "x \<in> mn_span m" for x
  proof -
    have a: "unat (mj_addr maj) = mj_page maj * 4096" "unat (mj_size maj) = unat (mj_pages maj) * 4096"
      using assms(1) by (simp_all add: major_ok_def BLOCK_SIZE_def)
    have "mj_page maj * 4096 \<le> x" "x < (mj_page maj + unat (mj_pages maj)) * 4096"
      using that m a by (auto simp: mn_span_def mj_end_def algebra_simps)
    then show ?thesis unfolding mj_range_def BLOCK_SIZE_def by (simp add: less_mult_imp_div_less less_eq_div_iff_mult_less_eq)
  qed
  then show "mn_span m \<subseteq> {x. x div BLOCK_SIZE \<in> mj_range maj}" by blast
qed

lemma live_in: "m \<in> set (live majs) \<longleftrightarrow> (\<exists>maj \<in> set majs. m \<in> set (mj_minors maj))"
  by (simp add: live_def)

text \<open>No two allocations overlap.\<close>

lemma live_disjoint: "heap_ok majs vm \<Longrightarrow> sorted_wrt (\<lambda>a b. mn_span a \<inter> mn_span b = {}) (live majs)"
proof (induction majs)
  case (Cons maj majs)
  then have ok: "heap_ok majs vm" "major_ok maj" "\<And>b. b \<in> set majs \<Longrightarrow> major_ok b \<and> mj_range maj \<inter> mj_range b = {}"
    by (auto simp: heap_ok_def)
  have "sorted_wrt (\<lambda>a b. mn_span a \<inter> mn_span b = {}) (mj_minors maj)"
    by (rule sorted_wrt_mono_rel [OF _ minors_ok_sorted]) (use ok(2) in \<open>auto simp: major_ok_def mn_span_def\<close>)
  moreover have "mn_span x \<inter> mn_span y = {}" if "x \<in> set (mj_minors maj)" "y \<in> set (live majs)" for x y
  proof -
    obtain b where b: "b \<in> set majs" "y \<in> set (mj_minors b)" using \<open>y \<in> set (live majs)\<close> unfolding live_in by blast
    then show ?thesis using span_in_major(1) [OF ok(2) that(1)] span_in_major(1) [of b y] ok(3) [OF b(1)] by blast
  qed
  ultimately show ?case using Cons.IH [OF ok(1)] by (simp add: sorted_wrt_append)
qed simp

lemma sorted_wrt_middle:
  "sorted_wrt P (xs @ y # ys) \<Longrightarrow> (\<And>a b. P a b \<Longrightarrow> P b a) \<Longrightarrow> z \<in> set (xs @ ys) \<Longrightarrow> P y z"
  by (auto simp: sorted_wrt_append)

text \<open>Replacing a major by one with the same pages.\<close>

lemma heap_ok_replace:
  assumes "heap_ok (before @ maj # next) vm" "major_ok maj'" "mj_addr maj' = mj_addr maj" "mj_pages maj' = mj_pages maj"
  shows "heap_ok (before @ maj' # next) vm"
proof -
  have "mj_range maj' = mj_range maj" using assms(3,4) by (simp add: mj_range_def mj_page_def)
  then show ?thesis using assms(1,2) by (simp add: heap_ok_def sorted_wrt_append mapped_def)
qed

lemma bet_ok_replace:
  "bet_ok bet (before @ maj # next) \<Longrightarrow> mj_addr maj' = mj_addr maj \<Longrightarrow> bet_ok bet (before @ maj' # next)"
  by (auto simp: bet_ok_def)

text \<open>What \<open>kmalloc\<close> promises of a request it grants: \<open>m\<close> is the new minor, \<open>p\<close> the pointer.\<close>

definition granted :: "u32 \<Rightarrow> liballoc \<Rightarrow> u32 \<Rightarrow> liballoc \<Rightarrow> minor \<Rightarrow> bool" where
  "granted req s p s' m \<longleftrightarrow> heap_inv s' \<and>
     (\<exists>pre post. live (l_majors s) = pre @ post \<and> live (l_majors s') = pre @ m # post) \<and>
     mn_req m = req \<and> mn_size m = req + 32 \<and> p = fst (ALIGN (mn_addr m + MINOR_SIZE) (l_mem s)) \<and>
     l_mem s' = (l_mem s)(p - 16 := ucast (p - (mn_addr m + MINOR_SIZE))) \<and>
     l_inuse s' = l_inuse s + ucast (mn_size m)"

lemma km_place_ok:
  assumes pl: "placed sz req (live (l_majors s)) s (p, s')" and r: "req_ok sz req"
  shows "\<exists>m. granted req s p s' m"
proof -
  obtain before maj "next" am s1 where k: "km_place sz am before maj next s1 = Inr (p, s')" "fitted sz req maj am"
    "heap_ok (before @ maj # next) (l_vmm s1)" "live (before @ maj # next) = live (l_majors s)"
    "bet_ok (l_bestBet s1) (before @ maj # next)" "l_mem s1 = l_mem s" "l_inuse s1 = l_inuse s"
    using pl by (auto simp: placed_def)
  let ?m = "new_minor (fst am) sz req"
  let ?maj = "maj\<lparr>mj_usage := mj_usage maj + sz + MINOR_SIZE, mj_minors := snd am\<rparr>"
  obtain pre post where f: "mj_minors maj = pre @ post" "snd am = pre @ ?m # post" using k(2) by (auto simp: fitted_def)
  obtain m' where al: "ALIGN (fst am + MINOR_SIZE) (l_mem s1) = (p, m')"
    and s': "s' = s1\<lparr>l_majors := before @ ?maj # next, l_inuse := l_inuse s1 + ucast sz, l_mem := m', l_lock := False\<rparr>"
    using k(1) by (auto simp: km_place_def Let_def liballoc_unlock_def split: prod.splits)
  have mj: "major_ok ?maj" by (rule major_ok_placed [OF heap_ok_major [OF k(3)] k(2)])
  have "?m \<in> set (mj_minors ?maj)" using f(2) by simp
  note sp = span_in_major [OF mj this]
  have sz: "unat sz = unat req + 32" using r by (simp add: req_ok_def)
  have e: "unat (fst am) + 24 + unat sz < 2 ^ 32" using sp(2) by (simp add: mn_end_def new_minor_def)
  then have p0: "unat (fst am + MINOR_SIZE) = unat (fst am) + 24" by (simp add: MINOR_SIZE_def unat_word_ariths(1))
  have "unat (fst am + MINOR_SIZE) + 32 < 2 ^ 32" using e p0 sz by simp
  note A = ALIGN_ok [OF this al]
  have "heap_inv s'" using heap_ok_replace [OF k(3) mj] bet_ok_replace [OF k(5), of ?maj] s' by (simp add: heap_inv_def)
  moreover have "live (l_majors s) = (live before @ pre) @ post @ live next"
    "live (l_majors s') = (live before @ pre) @ ?m # post @ live next" using k(4) f s' by simp_all
  then have "\<exists>pre post. live (l_majors s) = pre @ post \<and> live (l_majors s') = pre @ ?m # post" by blast
  moreover have "sz = req + 32" using sz r by (simp add: word_unat_eq_iff unat_word_ariths(1) req_ok_def)
  moreover have "p = fst (ALIGN (fst am + MINOR_SIZE) (l_mem s))" using al k(6) by simp
  moreover have "l_mem s' = (l_mem s)(p - 16 := ucast (p - (fst am + MINOR_SIZE)))" using s' A(4) k(6) by simp
  moreover have "l_inuse s' = l_inuse s + ucast sz" using k(7) s' by simp
  ultimately have "granted req s p s' ?m"
    unfolding granted_def by (simp add: new_minor_def)
  then show ?thesis ..
qed

lemma kmalloc_granted:
  assumes inv: "heap_inv s" and r: "unat req + 32 < 2 ^ 31" and k: "kmalloc req s = Inr (p, s')"
  shows "\<exists>m. granted req s p s' m"
proof -
  let ?sz = "req + ALIGNMENT + ALIGN_INFO"
  have rq: "req_ok ?sz req" using r by (simp add: req_ok_def ALIGNMENT_def ALIGN_INFO_def unat_word_ariths(1))
  let ?s = "s\<lparr>l_lock := True\<rparr>"
  have h: "heap_ok (l_majors s) (l_vmm ?s)" "bet_ok (l_bestBet ?s) (l_majors s)" using inv by (simp_all add: heap_inv_def)
  have "placed ?sz req (live (l_majors s)) ?s (p, s')"
  proof -
    consider best where "km_loop ?sz req False best [] (l_majors s) ?s = Inr (p, s')" "l_majors s \<noteq> []"
      | best before bet after where "l_majors s = before @ bet # after" "km_loop ?sz req True best before (bet # after) ?s = Inr (p, s')"
      using k by (auto simp: kmalloc_def Let_def liballoc_lock_def extract_Some_iff split: if_splits option.splits)
    then show ?thesis
    proof cases
      case 1
      then show ?thesis using km_loop_ok [OF 1 _ _ rq] h by simp
    next
      case 2
      then show ?thesis using km_loop_ok [OF 2(2) _ _ _ rq] h by simp
    qed
  qed
  then have "placed ?sz req (live (l_majors s)) s (p, s')" by (rule placed_frame) simp_all
  then show ?thesis by (rule km_place_ok [OF _ rq])
qed

section \<open>\<open>kfree\<close>\<close>

lemma sorted_wrt_sym: "sorted_wrt P xs \<Longrightarrow> (\<And>a b. P a b \<Longrightarrow> P b a) \<Longrightarrow> x \<in> set xs \<Longrightarrow> y \<in> set xs \<Longrightarrow> x \<noteq> y \<Longrightarrow> P x y"
  by (induction xs) auto

lemma live_unique:
  assumes "heap_ok majs vm" "x \<in> set (live majs)" "y \<in> set (live majs)" "mn_addr x = mn_addr y"
  shows "x = y"
proof (rule ccontr)
  assume "x \<noteq> y"
  then have "mn_span x \<inter> mn_span y = {}" by (intro sorted_wrt_sym [OF live_disjoint [OF assms(1)] _ assms(2,3)]) auto
  moreover have "unat (mn_addr x) \<in> mn_span x" "unat (mn_addr x) \<in> mn_span y" using assms(4) by (auto simp: mn_span_def mn_end_def)
  ultimately show False by blast
qed

lemma verify_magic_found:
  assumes "heap_ok (l_majors s) vm" "m \<in> set (live (l_majors s))"
  shows "\<exists>before maj after ms ms'.
    liballoc_verify_magic (mn_addr m) s = Inr (before, maj, after, ms, m, ms') \<and>
    l_majors s = before @ maj # after \<and> mj_minors maj = ms @ m # ms'"
proof -
  let ?P = "\<lambda>maj. \<exists>n \<in> set (mj_minors maj). mn_addr n = mn_addr m"
  have "List.extract ?P (l_majors s) \<noteq> None" using assms(2) unfolding live_in extract_None_iff by auto
  then obtain before maj after where M: "List.extract ?P (l_majors s) = Some (before, maj, after)" by auto
  then have M': "l_majors s = before @ maj # after" "?P maj" by (simp_all add: extract_Some_iff)
  then have "List.extract (\<lambda>n. mn_addr n = mn_addr m) (mj_minors maj) \<noteq> None" unfolding extract_None_iff by auto
  then obtain ms n ms' where N: "List.extract (\<lambda>n. mn_addr n = mn_addr m) (mj_minors maj) = Some (ms, n, ms')" by auto
  then have N': "mj_minors maj = ms @ n # ms'" "mn_addr n = mn_addr m" by (simp_all add: extract_Some_iff)
  have "n \<in> set (live (l_majors s))" using M'(1) N'(1) by simp
  from live_unique [OF assms(1) this assms(2) N'(2)] have "n = m" .
  then show ?thesis using M N M'(1) N'(1) by (simp add: liballoc_verify_magic_def)
qed

lemma heap_ok_remove:
  assumes ok: "heap_ok (before @ maj # after) vm"
  shows "\<exists>vm'. liballoc_free (mj_addr maj) (unat (mj_pages maj)) vm = Inr vm' \<and> heap_ok (before @ after) vm'"
proof -
  have maj: "major_ok maj" "mapped vm maj" and po: "pages_ok vm" using ok by (auto simp: heap_ok_def)
  have a: "unat (mj_addr maj) = mj_page maj * BLOCK_SIZE" using maj(1) by (simp add: major_ok_def)
  have "mj_addr maj = of_nat (mj_page maj * BLOCK_SIZE)" unfolding a [symmetric] by simp
  then have addr: "mj_addr maj = of_nat (mj_page maj * BLOCK_SIZE)" "1 \<le> mj_page maj" "mj_page maj + unat (mj_pages maj) < 2 ^ 20"
    using maj(1) by (simp_all add: major_ok_def)
  obtain vm' where vm': "liballoc_free (mj_addr maj) (unat (mj_pages maj)) vm = Inr vm'" "pages_ok vm'"
    "block_map_size (vpm vm') = block_map_size (vpm vm)"
    "\<And>j. j < 2 ^ 20 \<Longrightarrow> page_entry vm' j = (if mj_page maj \<le> j \<and> j < mj_page maj + unat (mj_pages maj) then 0 else page_entry vm j)"
    using liballoc_free_ok [OF po addr] maj(2) by (auto simp: mapped_def mj_range_def)
  have "mapped vm' b" if b: "b \<in> set (before @ after)" for b
    unfolding mapped_def
  proof
    fix j assume j: "j \<in> mj_range b"
    have bo: "major_ok b" "mapped vm b" "mj_range maj \<inter> mj_range b = {}" using ok b by (auto simp: heap_ok_def sorted_wrt_append)
    then have "j < 2 ^ 20" "j \<notin> mj_range maj" using j by (auto simp: major_ok_def mj_range_def)
    then have "page_entry vm' j = page_entry vm j" using vm'(4) [of j] by (auto simp: mj_range_def)
    then show "page_backed vm' j" using bo(2) j vm'(3) by (simp add: mapped_def page_backed_def)
  qed
  then have "heap_ok (before @ after) vm'" using ok vm'(2) by (simp add: heap_ok_def sorted_wrt_append)
  then show ?thesis using vm'(1) by blast
qed

text \<open>What \<open>kfree\<close> promises: the minor is gone, its bytes are zero, everything else is as it was.\<close>

definition released :: "liballoc \<Rightarrow> minor \<Rightarrow> liballoc \<Rightarrow> bool" where
  "released s m s' \<longleftrightarrow> heap_inv s' \<and>
     (\<exists>pre post. live (l_majors s) = pre @ m # post \<and> live (l_majors s') = pre @ post) \<and>
     (\<forall>maj. l_majors s = [maj] \<longrightarrow> mj_minors maj = [m] \<longrightarrow> l_majors s' = []) \<and>
     l_mem s' = (\<lambda>a. if a - (mn_addr m + MINOR_SIZE) < mn_size m then 0 else l_mem s a) \<and>
     l_inuse s' = l_inuse s - ucast (mn_size m)"

lemma releasedI:
  "heap_inv s' \<Longrightarrow> live (l_majors s) = pre @ m # post \<Longrightarrow> live (l_majors s') = pre @ post \<Longrightarrow>
   (\<And>maj. l_majors s = [maj] \<Longrightarrow> mj_minors maj = [m] \<Longrightarrow> l_majors s' = []) \<Longrightarrow>
   l_mem s' = (\<lambda>a. if a - (mn_addr m + MINOR_SIZE) < mn_size m then 0 else l_mem s a) \<Longrightarrow>
   l_inuse s' = l_inuse s - ucast (mn_size m) \<Longrightarrow> released s m s'"
  unfolding released_def by blast

lemma bb_space_ok: "bet_ok bet majs \<Longrightarrow> bet \<noteq> 0 \<Longrightarrow> \<exists>x. bb_space bet majs = Inr x"
  by (auto simp: bb_space_def bet_ok_def extract_None_iff split: option.splits)

lemma kfree_released:
  assumes inv: "heap_inv s" and m: "m \<in> set (live (l_majors s))" and p: "p \<noteq> 0" "UNALIGN p (l_mem s) = mn_addr m + MINOR_SIZE"
  shows "\<exists>s'. kfree p s = Inr s' \<and> released s m s'"
proof -
  let ?s = "s\<lparr>l_lock := True\<rparr>"
  have ok: "heap_ok (l_majors ?s) (l_vmm s)" "\<not> l_lock s" "bet_ok (l_bestBet s) (l_majors s)" using inv by (simp_all add: heap_inv_def)
  have m': "m \<in> set (live (l_majors ?s))" using m by simp
  obtain before maj after ms ms' where v: "liballoc_verify_magic (mn_addr m) ?s = Inr (before, maj, after, ms, m, ms')"
    "l_majors s = before @ maj # after" "mj_minors maj = ms @ m # ms'"
    using verify_magic_found [OF ok(1) m'] by auto
  have ok': "heap_ok (before @ maj # after) (l_vmm s)" using ok(1) v(2) by simp
  have mj: "major_ok maj" by (rule heap_ok_major [OF ok'])
  have "m \<in> set (mj_minors maj)" using v(3) by simp
  note sp = span_in_major [OF mj this]
  have sz: "mn_size m \<noteq> 0" using sp(3) by auto
  have "unat (mn_addr m + MINOR_SIZE) = unat (mn_addr m) + 24"
    using sp(2) by (simp add: mn_end_def MINOR_SIZE_def unat_word_ariths(1))
  then have ptr: "mn_addr m + MINOR_SIZE \<noteq> 0" by auto
  let ?mem = "\<lambda>a. if a - (mn_addr m + MINOR_SIZE) < mn_size m then 0 else l_mem s a"
  have ms: "memset (mn_addr m + MINOR_SIZE) 0 (mn_size m) (l_mem s) = Inr (mn_addr m + MINOR_SIZE, ?mem)"
    using ptr sz by (simp add: memset_def memset_loop_range)
  let ?maj = "maj\<lparr>mj_usage := mj_usage maj - (mn_size m + MINOR_SIZE), mj_minors := ms @ ms'\<rparr>"
  have mj': "major_ok ?maj" by (rule major_ok_remove [OF mj v(3)])
  have lv: "live (l_majors s) = (live before @ ms) @ m # ms' @ live after" using v(2,3) by simp
  show ?thesis
  proof (cases "ms @ ms' = []")
    case True
    obtain vm' where vm': "liballoc_free (mj_addr maj) (unat (mj_pages maj)) (l_vmm s) = Inr vm'" "heap_ok (before @ after) vm'"
      using heap_ok_remove [OF ok'] by blast
    let ?s' = "s\<lparr>l_inuse := l_inuse s - ucast (mn_size m), l_mem := ?mem, l_majors := before @ after,
      l_bestBet := (if l_bestBet s = mj_addr maj then 0 else l_bestBet s),
      l_allocated := l_allocated s - ucast (mj_size maj), l_vmm := vm', l_lock := False\<rparr>"
    have "kfree p s = Inr ?s'"
      using p ok(2) v(1) ms vm'(1) True by (simp add: kfree_def Let_def liballoc_lock_def liballoc_unlock_def)
    moreover have "bet_ok (l_bestBet ?s') (before @ after)" using ok(3) v(2) by (auto simp: bet_ok_def)
    then have "heap_inv ?s'" using vm'(2) by (simp add: heap_inv_def)
    moreover have "live (l_majors ?s') = (live before @ ms) @ ms' @ live after" using True by simp
    moreover have "l_majors s = [b] \<Longrightarrow> l_majors ?s' = []" for b using v(2) by (auto simp: append_eq_Cons_conv)
    ultimately show ?thesis using releasedI [OF _ lv, of ?s'] by auto
  next
    case False
    let ?majs = "before @ ?maj # after"
    have b: "bet_ok (l_bestBet s) ?majs" using ok(3) v(2) bet_ok_replace [of _ before maj after ?maj] by simp
    let ?s' = "\<lambda>bet. s\<lparr>l_inuse := l_inuse s - ucast (mn_size m), l_mem := ?mem, l_majors := ?majs, l_bestBet := bet, l_lock := False\<rparr>"
    obtain bet where bet: "bet \<in> {l_bestBet s, mj_addr maj}" "kfree p s = Inr (?s' bet)"
    proof (cases "l_bestBet s = 0")
      case True
      then show ?thesis using that [of 0] p ok(2) v(1) ms False
        by (auto simp: kfree_def Let_def liballoc_lock_def liballoc_unlock_def)
    next
      case nz: False
      then obtain x where "bb_space (l_bestBet s) ?majs = Inr x" using bb_space_ok [OF b] by blast
      then show ?thesis using that [of "if sint x < sint (mj_size ?maj - mj_usage ?maj) then mj_addr maj else l_bestBet s"]
          p ok(2) v(1) ms False nz
        by (auto simp: kfree_def Let_def liballoc_lock_def liballoc_unlock_def)
    qed
    have "heap_inv (?s' bet)" using heap_ok_replace [OF ok' mj'] b bet(1) by (auto simp: heap_inv_def bet_ok_def)
    moreover have "live (l_majors (?s' bet)) = (live before @ ms) @ ms' @ live after" by simp
    moreover have "l_majors s = [b] \<Longrightarrow> mj_minors b \<noteq> [m]" for b using v(2,3) False by (auto simp: append_eq_Cons_conv)
    ultimately show ?thesis using releasedI [OF _ lv, of "?s' bet"] bet(2) by auto
  qed
qed

end
