(* ===== verification/Liballoc_Props.thy ===== *)
theory Liballoc_Props
  imports Liballoc_Inv
begin

text \<open>
  What the heap promises its callers, in terms of the blocks they hold: a map from pointers to
  sizes. The interface is the locale \<open>allocator\<close>; \<open>kmalloc\<close> and \<open>kfree\<close> are its instance.
\<close>

section \<open>The interface\<close>

locale allocator =
  fixes alloc :: "u32 \<Rightarrow> 's \<Rightarrow> (u32 \<times> 's) res"
    and release :: "u32 \<Rightarrow> 's \<Rightarrow> 's res"
    and inv :: "'s \<Rightarrow> bool"
    and held :: "'s \<Rightarrow> u32 \<rightharpoonup> u32"
    and contents :: "'s \<Rightarrow> mem"
    and small :: "u32 \<Rightarrow> bool"
  assumes alloc_inv: "inv s \<Longrightarrow> small n \<Longrightarrow> alloc n s = Inr (p, s') \<Longrightarrow> inv s' \<and> p \<noteq> 0"
    and alloc_held: "inv s \<Longrightarrow> small n \<Longrightarrow> alloc n s = Inr (p, s') \<Longrightarrow> held s p = None \<and> held s' = (held s)(p \<mapsto> n)"
    and alloc_contents: "inv s \<Longrightarrow> small n \<Longrightarrow> alloc n s = Inr (p, s') \<Longrightarrow> held s q = Some k \<Longrightarrow> a - q < k \<Longrightarrow>
      contents s' a = contents s a"
    and held_disjoint: "inv s \<Longrightarrow> held s p = Some n \<Longrightarrow> held s q = Some k \<Longrightarrow> p \<noteq> q \<Longrightarrow> a - p < n \<Longrightarrow> \<not> a - q < k"
    and release_ok: "inv s \<Longrightarrow> held s p = Some n \<Longrightarrow>
      \<exists>s'. release p s = Inr s' \<and> inv s' \<and> held s' = (held s)(p := None) \<and>
        (\<forall>q k a. q \<noteq> p \<longrightarrow> held s q = Some k \<longrightarrow> a - q < k \<longrightarrow> contents s' a = contents s a)"
begin

text \<open>Taking a block and giving it back leaves what the caller held, and its bytes, alone.\<close>

lemma alloc_release:
  assumes "inv s" "small n" "alloc n s = Inr (p, s1)"
  shows "\<exists>s2. release p s1 = Inr s2 \<and> inv s2 \<and> held s2 = held s \<and>
    (\<forall>q k a. held s q = Some k \<longrightarrow> a - q < k \<longrightarrow> contents s2 a = contents s a)"
proof -
  note A = alloc_inv [OF assms] alloc_held [OF assms]
  obtain s2 where s2: "release p s1 = Inr s2" "inv s2" "held s2 = (held s1)(p := None)"
    "\<And>q k a. q \<noteq> p \<Longrightarrow> held s1 q = Some k \<Longrightarrow> a - q < k \<Longrightarrow> contents s2 a = contents s1 a"
    using release_ok [of s1 p n] A by auto
  have "contents s2 a = contents s a" if q: "held s q = Some k" "a - q < k" for q k a
  proof -
    have "q \<noteq> p" using q(1) A by auto
    then have "contents s2 a = contents s1 a" using s2(4) [of q k a] q A by simp
    then show ?thesis using alloc_contents [OF assms q] by simp
  qed
  then show ?thesis using s2(1-3) A by auto
qed

text \<open>Moving a block to a new one, as \<open>krealloc\<close> does: allocate, copy, release.\<close>

lemma two_blocks:
  assumes "inv s" "small n" "alloc n s = Inr (p, s1)" "held s q = Some k"
  shows "p \<noteq> q" "held s1 q = Some k" "a - p < n \<Longrightarrow> \<not> a - q < k"
proof -
  note A = alloc_inv [OF assms(1-3)] alloc_held [OF assms(1-3)]
  show pq: "p \<noteq> q" using A assms(4) by auto
  then show "held s1 q = Some k" using A assms(4) by simp
  then show "\<not> a - q < k" if "a - p < n" using held_disjoint [of s1 p n q k a] A pq that by simp
qed

end

section \<open>Pointers\<close>

text \<open>The pointer of a minor, and the invariant that its alignment byte is intact.\<close>

definition mn_ptr :: "minor \<Rightarrow> u32" where
  "mn_ptr m = fst (ALIGN (mn_addr m + MINOR_SIZE) (\<lambda>_. 0))"

definition tagged :: "mem \<Rightarrow> minor \<Rightarrow> bool" where
  "tagged mem m \<longleftrightarrow> mem (mn_ptr m - 16) = ucast (mn_ptr m - (mn_addr m + MINOR_SIZE))"

definition kheap_inv :: "liballoc \<Rightarrow> bool" where
  "kheap_inv s \<longleftrightarrow> heap_inv s \<and> (\<forall>m \<in> set (live (l_majors s)). tagged (l_mem s) m)"

definition blocks_of :: "liballoc \<Rightarrow> u32 \<rightharpoonup> u32" where
  "blocks_of s = map_of (map (\<lambda>m. (mn_ptr m, mn_req m)) (live (l_majors s)))"

lemma ALIGN_fst: "fst (ALIGN p0 m) = fst (ALIGN p0 m')"
  by (simp add: ALIGN_def Let_def)

lemma mn_ptr_ok:
  assumes "mn_end m < 2 ^ 32" "unat (mn_req m) + 32 \<le> unat (mn_size m)"
  shows "unat (mn_addr m) + 40 \<le> unat (mn_ptr m)" "unat (mn_ptr m) + unat (mn_req m) \<le> mn_end m"
    "unat (mn_ptr m) < unat (mn_addr m) + 56" "unat (mn_ptr m - 16) = unat (mn_ptr m) - 16" "mn_ptr m AND 15 = 0"
    "tagged mem m \<Longrightarrow> UNALIGN (mn_ptr m) mem = mn_addr m + MINOR_SIZE"
proof -
  have p0: "unat (mn_addr m + MINOR_SIZE) = unat (mn_addr m) + 24"
    using assms by (simp add: mn_end_def MINOR_SIZE_def unat_word_ariths(1))
  have "unat (mn_addr m + MINOR_SIZE) + 32 < 2 ^ 32" using p0 assms by (simp add: mn_end_def)
  note A = ALIGN_ok [OF this, of "\<lambda>_. 0" "mn_ptr m" "snd (ALIGN (mn_addr m + MINOR_SIZE) (\<lambda>_. 0))"]
  have eq: "ALIGN (mn_addr m + MINOR_SIZE) (\<lambda>_. 0) = (mn_ptr m, snd (ALIGN (mn_addr m + MINOR_SIZE) (\<lambda>_. 0)))"
    by (simp add: mn_ptr_def)
  show "unat (mn_addr m) + 40 \<le> unat (mn_ptr m)" "unat (mn_ptr m) + unat (mn_req m) \<le> mn_end m"
    "unat (mn_ptr m) < unat (mn_addr m) + 56" "mn_ptr m AND 15 = 0"
    using A(1-3) [OF eq] p0 assms by (simp_all add: mn_end_def)
  then show "unat (mn_ptr m - 16) = unat (mn_ptr m) - 16" by (simp add: unat_sub word_le_nat_alt)
  show "UNALIGN (mn_ptr m) mem = mn_addr m + MINOR_SIZE" if "tagged mem m"
    using A(5) [OF eq] that by (simp add: tagged_def)
qed

lemma live_ptr:
  assumes "heap_ok majs vm" "m \<in> set (live majs)"
  shows "unat (mn_ptr m) \<in> mn_span m" "unat (mn_ptr m - 16) \<in> mn_span m" "mn_ptr m \<noteq> 0"
    "a - mn_ptr m < mn_req m \<Longrightarrow> unat a \<in> mn_span m" "tagged mem m \<Longrightarrow> UNALIGN (mn_ptr m) mem = mn_addr m + MINOR_SIZE"
    "a - (mn_addr m + MINOR_SIZE) < mn_size m \<Longrightarrow> unat a \<in> mn_span m" "mn_ptr m AND 15 = 0"
    "mn_ptr m - 16 - (mn_addr m + MINOR_SIZE) < mn_size m" "\<not> mn_ptr m - 16 - mn_ptr m < mn_req m"
    "unat (mn_ptr m - MINOR_SIZE) \<in> mn_span m"
proof -
  obtain maj where maj: "maj \<in> set majs" "m \<in> set (mj_minors maj)" using assms(2) unfolding live_in by blast
  have "major_ok maj" using assms(1) maj(1) by (simp add: heap_ok_def)
  note sp = span_in_major(2,3) [OF this maj(2)]
  note P = mn_ptr_ok [OF sp]
  show "unat (mn_ptr m) \<in> mn_span m" "unat (mn_ptr m - 16) \<in> mn_span m" "mn_ptr m \<noteq> 0"
    using P(1-4) sp(2) by (auto simp: mn_span_def mn_end_def)
  show "tagged mem m \<Longrightarrow> UNALIGN (mn_ptr m) mem = mn_addr m + MINOR_SIZE" by (rule P(6))
  show "mn_ptr m AND 15 = 0" by (rule P(5))
  have r: "unat (mn_ptr m) + unat (mn_req m) \<le> 2 ^ LENGTH(32)" using P(2) sp(1) by simp
  show "unat a \<in> mn_span m" if "a - mn_ptr m < mn_req m"
    using that P(1,2) unfolding word_range_nat [OF r] by (simp add: mn_span_def)
  have p0: "unat (mn_addr m + MINOR_SIZE) = unat (mn_addr m) + 24"
    using sp by (simp add: mn_end_def MINOR_SIZE_def unat_word_ariths(1))
  then have r0: "unat (mn_addr m + MINOR_SIZE) + unat (mn_size m) \<le> 2 ^ LENGTH(32)" using sp(1) by (simp add: mn_end_def)
  show "unat a \<in> mn_span m" if "a - (mn_addr m + MINOR_SIZE) < mn_size m"
    using that p0 unfolding word_range_nat [OF r0] by (simp add: mn_span_def mn_end_def)
  show "mn_ptr m - 16 - (mn_addr m + MINOR_SIZE) < mn_size m"
    unfolding word_range_nat [OF r0] P(4) p0 using P(1-3) sp(2) by (intro conjI) linarith+
  show "\<not> mn_ptr m - 16 - mn_ptr m < mn_req m"
    unfolding word_range_nat [OF r] using P(1,4) by simp
  have "unat (mn_ptr m - MINOR_SIZE) = unat (mn_ptr m) - 24" using P(1) by (simp add: MINOR_SIZE_def unat_sub word_le_nat_alt)
  then show "unat (mn_ptr m - MINOR_SIZE) \<in> mn_span m" using P(1,3) sp(2) by (simp add: mn_span_def mn_end_def) linarith
qed

lemma live_ptr_inj:
  assumes "heap_ok majs vm" "x \<in> set (live majs)" "y \<in> set (live majs)" "mn_ptr x = mn_ptr y"
  shows "x = y"
proof (rule ccontr)
  assume "x \<noteq> y"
  then have "mn_span x \<inter> mn_span y = {}" by (intro sorted_wrt_sym [OF live_disjoint [OF assms(1)] _ assms(2,3)]) auto
  then show False using live_ptr(1) [OF assms(1,2)] live_ptr(1) [OF assms(1,3)] assms(4) by auto
qed

lemma sorted_wrt_distinct: "sorted_wrt (\<noteq>) xs \<Longrightarrow> distinct xs"
  by (induction xs) auto

lemma live_distinct: "heap_ok majs vm \<Longrightarrow> distinct (live majs)"
proof -
  assume h: "heap_ok majs vm"
  have "sorted_wrt (\<noteq>) (live majs)"
  proof (rule sorted_wrt_mono_rel [OF _ live_disjoint [OF h]])
    fix x y assume "x \<in> set (live majs)" "mn_span x \<inter> mn_span y = {}"
    then show "x \<noteq> y" using live_ptr(1) [OF h] by blast
  qed
  then show ?thesis by (rule sorted_wrt_distinct)
qed

lemma distinct_ptrs: "heap_ok majs vm \<Longrightarrow> distinct (map fst (map (\<lambda>m. (mn_ptr m, mn_req m)) (live majs)))"
  using live_distinct live_ptr_inj by (auto simp: distinct_map inj_on_def)

lemma blocks_of_iff:
  assumes "heap_ok (l_majors s) vm"
  shows "blocks_of s p = Some n \<longleftrightarrow> (\<exists>m \<in> set (live (l_majors s)). mn_ptr m = p \<and> mn_req m = n)"
  using map_of_eq_Some_iff [OF distinct_ptrs [OF assms]] by (auto simp: blocks_of_def)

lemma span_disjoint:
  "heap_ok majs vm \<Longrightarrow> x \<in> set (live majs) \<Longrightarrow> y \<in> set (live majs) \<Longrightarrow> x \<noteq> y \<Longrightarrow> mn_span x \<inter> mn_span y = {}"
  by (rule sorted_wrt_sym [OF live_disjoint]) auto

text \<open>A minor in the middle of the list, present after and absent before.\<close>

lemma blocks_middle:
  assumes h: "heap_ok (l_majors s) vm" and l: "live (l_majors s) = pre @ m # post" "live (l_majors s') = pre @ post"
  shows "blocks_of s = (blocks_of s')(mn_ptr m \<mapsto> mn_req m)" "blocks_of s' (mn_ptr m) = None"
    "\<And>x. x \<in> set (pre @ post) \<Longrightarrow> mn_span x \<inter> mn_span m = {}"
proof -
  let ?g = "\<lambda>m. (mn_ptr m, mn_req m)"
  have d: "distinct (map fst (map ?g (pre @ m # post)))" using distinct_ptrs [OF h] l(1) by simp
  then have n: "mn_ptr m \<notin> mn_ptr ` set (pre @ post)" by auto
  have "map_of (map ?g (pre @ post)) (mn_ptr m) = None" unfolding map_of_eq_None_iff using n by (auto simp: image_iff)
  then show "blocks_of s' (mn_ptr m) = None" by (simp add: blocks_of_def l(2))
  show "blocks_of s = (blocks_of s')(mn_ptr m \<mapsto> mn_req m)"
  proof
    fix p
    show "blocks_of s p = ((blocks_of s')(mn_ptr m \<mapsto> mn_req m)) p"
    proof (cases "p = mn_ptr m")
      case True
      show ?thesis using True h l(1) blocks_of_iff [OF h, of p "mn_req m"] by auto
    next
      case False
      then show ?thesis by (simp add: blocks_of_def l map_add_def split: option.split)
    qed
  qed
  show "mn_span x \<inter> mn_span m = {}" if "x \<in> set (pre @ post)" for x
  proof (rule span_disjoint [OF h])
    show "x \<in> set (live (l_majors s))" "m \<in> set (live (l_majors s))" using that l(1) by auto
    show "x \<noteq> m" using that n by auto
  qed
qed

lemma kmalloc_blocks:
  assumes inv: "kheap_inv s" and r: "unat req + 32 < 2 ^ 31" and k: "kmalloc req s = Inr (p, s')"
  shows "kheap_inv s' \<and> p \<noteq> 0 \<and> p AND 15 = 0 \<and> blocks_of s p = None \<and> blocks_of s' = (blocks_of s)(p \<mapsto> req) \<and>
    (\<forall>q n a. blocks_of s q = Some n \<longrightarrow> a - q < n \<longrightarrow> l_mem s' a = l_mem s a)"
proof -
  have hi: "heap_inv s" and tg: "\<And>m. m \<in> set (live (l_majors s)) \<Longrightarrow> tagged (l_mem s) m" using inv by (auto simp: kheap_inv_def)
  obtain m where g: "granted req s p s' m" using kmalloc_granted [OF hi r k] by blast
  then obtain pre post where l: "live (l_majors s) = pre @ post" "live (l_majors s') = pre @ m # post"
    and hi': "heap_inv s'" by (auto simp: granted_def)
  have h: "heap_ok (l_majors s) (l_vmm s)" and h': "heap_ok (l_majors s') (l_vmm s')" using hi hi' by (simp_all add: heap_inv_def)
  have p: "p = mn_ptr m" "mn_req m = req" using g ALIGN_fst by (auto simp: granted_def mn_ptr_def)
  have mem: "l_mem s' = (l_mem s)(p - 16 := ucast (p - (mn_addr m + MINOR_SIZE)))" using g by (simp add: granted_def)
  note B = blocks_middle [OF h' l(2,1)]
  have mm: "m \<in> set (live (l_majors s'))" using l(2) by simp
  note M = live_ptr [OF h' mm]
  have other: "l_mem s' a = l_mem s a" if "x \<in> set (live (l_majors s))" "unat a \<in> mn_span x" for x a
    using B(3) [of x] that l(1) M(2) p(1) by (auto simp: mem)
  have "tagged (l_mem s') x" if "x \<in> set (live (l_majors s'))" for x
  proof (cases "x = m")
    case True
    then show ?thesis using p(1) by (simp add: tagged_def mem)
  next
    case False
    then have x: "x \<in> set (live (l_majors s))" using that l by auto
    show ?thesis using tg [OF x] other [OF x live_ptr(2) [OF h x]] by (simp add: tagged_def)
  qed
  moreover have "l_mem s' a = l_mem s a" if "blocks_of s q = Some n" "a - q < n" for q n a
    using that other live_ptr(4) [OF h] by (auto simp: blocks_of_iff [OF h])
  ultimately show ?thesis using hi' M(3,7) B(1,2) p by (auto simp: kheap_inv_def)
qed

lemma kfree_blocks:
  assumes inv: "kheap_inv s" and b: "blocks_of s p = Some n"
  shows "\<exists>s'. kfree p s = Inr s' \<and> kheap_inv s' \<and> blocks_of s' = (blocks_of s)(p := None) \<and>
    (\<forall>q k a. q \<noteq> p \<longrightarrow> blocks_of s q = Some k \<longrightarrow> a - q < k \<longrightarrow> l_mem s' a = l_mem s a)"
proof -
  have hi: "heap_inv s" and tg: "\<And>m. m \<in> set (live (l_majors s)) \<Longrightarrow> tagged (l_mem s) m" using inv by (auto simp: kheap_inv_def)
  have h: "heap_ok (l_majors s) (l_vmm s)" using hi by (simp add: heap_inv_def)
  obtain m where m: "m \<in> set (live (l_majors s))" "mn_ptr m = p" using b by (auto simp: blocks_of_iff [OF h])
  note M = live_ptr [OF h m(1)]
  have "p \<noteq> 0" "UNALIGN p (l_mem s) = mn_addr m + MINOR_SIZE" using M(3) M(5) [OF tg [OF m(1)]] m(2) by auto
  then obtain s' where s': "kfree p s = Inr s'" "released s m s'" using kfree_released [OF hi m(1)] by blast
  then obtain pre post where l: "live (l_majors s) = pre @ m # post" "live (l_majors s') = pre @ post" and hi': "heap_inv s'"
    and mem: "l_mem s' = (\<lambda>a. if a - (mn_addr m + MINOR_SIZE) < mn_size m then 0 else l_mem s a)"
    by (auto simp: released_def)
  note B = blocks_middle [OF h l]
  have other: "l_mem s' a = l_mem s a" if "x \<in> set (live (l_majors s'))" "unat a \<in> mn_span x" for x a
    using B(3) [of x] that l(2) M(6) [of a] by (auto simp: mem)
  have "tagged (l_mem s') x" if "x \<in> set (live (l_majors s'))" for x
  proof -
    have x: "x \<in> set (live (l_majors s))" using that l by auto
    show ?thesis using tg [OF x] other [OF that live_ptr(2) [OF h x]] by (simp add: tagged_def)
  qed
  moreover have h': "heap_ok (l_majors s') (l_vmm s')" using hi' by (simp add: heap_inv_def)
  have "l_mem s' a = l_mem s a" if "blocks_of s q = Some k" "q \<noteq> p" "a - q < k" for q k a
  proof -
    have "blocks_of s' q = Some k" using that(1,2) B(1) m(2) by simp
    then show ?thesis using that(3) other live_ptr(4) [OF h'] by (auto simp: blocks_of_iff [OF h'])
  qed
  ultimately show ?thesis using s'(1) hi' B(1,2) m(2) by (auto simp: kheap_inv_def fun_upd_idem_iff)
qed

definition small_req :: "u32 \<Rightarrow> bool" where
  "small_req n \<longleftrightarrow> unat n + 32 < 2 ^ 31"

interpretation kheap: allocator kmalloc kfree kheap_inv blocks_of l_mem small_req
proof
  fix s p q n k and a :: u32
  assume "kheap_inv s" "blocks_of s p = Some n" "blocks_of s q = Some k" "p \<noteq> q" "a - p < n"
  moreover from this(1) have h: "heap_ok (l_majors s) (l_vmm s)" by (simp add: kheap_inv_def heap_inv_def)
  ultimately obtain x y where x: "x \<in> set (live (l_majors s))" "mn_ptr x = p" "mn_req x = n"
    and y: "y \<in> set (live (l_majors s))" "mn_ptr y = q" "mn_req y = k" by (auto simp: blocks_of_iff [OF h])
  then show "\<not> a - q < k"
    using span_disjoint [OF h x(1) y(1)] live_ptr(4) [OF h x(1)] live_ptr(4) [OF h y(1)] \<open>p \<noteq> q\<close> \<open>a - p < n\<close> by blast
qed (use kmalloc_blocks kfree_blocks in \<open>auto simp: small_req_def\<close>)

text \<open>Writing to the blocks keeps the invariant: the alignment bytes lie outside all of them.\<close>

lemma kheap_write:
  assumes inv: "kheap_inv s" and w: "\<And>a. mem a \<noteq> l_mem s a \<Longrightarrow> \<exists>q k. blocks_of s q = Some k \<and> a - q < k"
  shows "kheap_inv (s\<lparr>l_mem := mem\<rparr>)" "blocks_of (s\<lparr>l_mem := mem\<rparr>) = blocks_of s"
proof -
  have h: "heap_ok (l_majors s) (l_vmm s)" using inv by (simp add: kheap_inv_def heap_inv_def)
  have "tagged mem m" if m: "m \<in> set (live (l_majors s))" for m
  proof -
    have "mem (mn_ptr m - 16) = l_mem s (mn_ptr m - 16)"
    proof (rule ccontr)
      assume "mem (mn_ptr m - 16) \<noteq> l_mem s (mn_ptr m - 16)"
      then obtain x where x: "x \<in> set (live (l_majors s))" "mn_ptr m - 16 - mn_ptr x < mn_req x"
        using w by (auto simp: blocks_of_iff [OF h])
      then show False using live_ptr(2,9) [OF h m] live_ptr(4) [OF h x(1,2)] span_disjoint [OF h x(1) m] by blast
    qed
    then show ?thesis using inv m by (simp add: tagged_def kheap_inv_def)
  qed
  then show "kheap_inv (s\<lparr>l_mem := mem\<rparr>)" using inv by (simp add: kheap_inv_def heap_inv_def)
  show "blocks_of (s\<lparr>l_mem := mem\<rparr>) = blocks_of s" by (simp add: blocks_of_def)
qed

section \<open>\<open>krealloc\<close>\<close>

text \<open>Shrinking a block changes the size on record only.\<close>

lemma minors_ok_shrink:
  "minors_ok lo hi (ms @ m # ms') \<Longrightarrow> unat r \<le> unat (mn_req m) \<Longrightarrow> minors_ok lo hi (ms @ m\<lparr>mn_req := r\<rparr> # ms')"
  by (auto simp: minors_ok_append mn_end_def)

lemma krealloc_shrink:
  assumes inv: "kheap_inv s" and m: "m \<in> set (live (l_majors s))" and sz: "sz \<noteq> 0" "sz \<le> mn_req m"
  shows "\<exists>s'. krealloc (mn_ptr m) sz s = Inr (mn_ptr m, s') \<and> kheap_inv s' \<and>
    blocks_of s' = (blocks_of s)(mn_ptr m \<mapsto> sz) \<and> l_mem s' = l_mem s"
proof -
  have hi: "heap_inv s" and h: "heap_ok (l_majors s) (l_vmm s)" using inv by (simp_all add: kheap_inv_def heap_inv_def)
  have tg: "tagged (l_mem s) x" if "x \<in> set (live (l_majors s))" for x using inv that by (simp add: kheap_inv_def)
  note M = live_ptr [OF h m]
  have u: "UNALIGN (mn_ptr m) (l_mem s) = mn_addr m + MINOR_SIZE" by (rule M(5) [OF tg [OF m]])
  let ?s = "s\<lparr>l_lock := True\<rparr>" and ?m = "m\<lparr>mn_req := sz\<rparr>"
  obtain before maj after ms ms' where v: "liballoc_verify_magic (mn_addr m) ?s = Inr (before, maj, after, ms, m, ms')"
    "l_majors s = before @ maj # after" "mj_minors maj = ms @ m # ms'"
    using verify_magic_found [of ?s "l_vmm s" m] h m by auto
  let ?maj = "maj\<lparr>mj_minors := ms @ ?m # ms'\<rparr>"
  let ?s' = "s\<lparr>l_majors := before @ ?maj # after, l_lock := False\<rparr>"
  have "krealloc (mn_ptr m) sz s = Inr (mn_ptr m, ?s')"
    using sz M(3) u v(1) hi by (simp add: krealloc_def Let_def liballoc_lock_def liballoc_unlock_def heap_inv_def)
  moreover have ok: "heap_ok (before @ maj # after) (l_vmm s)" using h v(2) by simp
  have same: "mj_end ?maj = mj_end maj" "mj_page ?maj = mj_page maj" by (simp_all add: mj_end_def mj_page_def)
  have "minors_ok (unat (mj_addr maj) + 24) (mj_end maj) (ms @ ?m # ms')"
    by (rule minors_ok_shrink) (use heap_ok_major [OF ok] v(3) sz(2) in \<open>auto simp: major_ok_def word_le_nat_alt\<close>)
  then have "major_ok ?maj" using heap_ok_major [OF ok] v(3) by (simp add: major_ok_def same)
  then have h': "heap_ok (before @ ?maj # after) (l_vmm s)" by (rule heap_ok_replace [OF ok]) simp_all
  have b': "bet_ok (l_bestBet s) (before @ ?maj # after)"
    using hi v(2) bet_ok_replace [of _ before maj after ?maj] by (simp add: heap_inv_def)
  have p: "mn_ptr ?m = mn_ptr m" by (simp add: mn_ptr_def)
  have "tagged (l_mem s) x" if "x \<in> set (live (l_majors ?s'))" for x
    using that tg v(2,3) p by (auto simp: tagged_def)
  then have "kheap_inv ?s'" using h' b' by (simp add: kheap_inv_def heap_inv_def)
  moreover have "blocks_of ?s' = (blocks_of s)(mn_ptr m \<mapsto> sz)"
  proof -
    let ?t = "s\<lparr>l_majors := before @ maj\<lparr>mj_minors := ms @ ms'\<rparr> # after\<rparr>"
    have lv: "live (l_majors s) = (live before @ ms) @ m # ms' @ live after"
      "live (l_majors ?s') = (live before @ ms) @ ?m # ms' @ live after" using v(2,3) by simp_all
    have t: "live (l_majors ?t) = (live before @ ms) @ ms' @ live after" by simp
    have h2: "heap_ok (l_majors ?s') (l_vmm s)" using h' by simp
    show ?thesis using blocks_middle(1) [OF h lv(1) t] blocks_middle(1) [OF h2 lv(2) t] p by simp
  qed
  ultimately show ?thesis by auto
qed

text \<open>Growing a block allocates, copies and frees.\<close>

lemma krealloc_grow:
  assumes inv: "kheap_inv s" and m: "m \<in> set (live (l_majors s))" and sz: "small_req sz" "\<not> sz \<le> mn_req m" "mn_req m \<noteq> 0"
    and k: "krealloc (mn_ptr m) sz s = Inr (q, s')"
  shows "kheap_inv s' \<and> blocks_of s' = (blocks_of s)(mn_ptr m := None, q \<mapsto> sz) \<and>
    (\<forall>i<mn_req m. l_mem s' (q + i) = l_mem s (mn_ptr m + i))"
proof -
  let ?p = "mn_ptr m" and ?n = "mn_req m"
  have hi: "heap_inv s" and h: "heap_ok (l_majors s) (l_vmm s)" using inv by (simp_all add: kheap_inv_def heap_inv_def)
  note M = live_ptr [OF h m]
  have "UNALIGN ?p (l_mem s) = mn_addr m + MINOR_SIZE" using M(5) inv m by (simp add: kheap_inv_def)
  moreover obtain r where "liballoc_verify_magic (mn_addr m) (s\<lparr>l_lock := True\<rparr>) = Inr r" "fst (snd (snd (snd (snd r)))) = m"
    using verify_magic_found [of "s\<lparr>l_lock := True\<rparr>" "l_vmm s" m] h m by auto
  moreover have eq: "s\<lparr>l_lock := False\<rparr> = s" using hi by (simp add: heap_inv_def)
  moreover have "sz \<noteq> 0" using sz(2) by auto
  ultimately obtain s1 mem where s1: "kmalloc sz s = Inr (q, s1)" and mc: "snd (rep_movsb q ?p ?n (l_mem s1)) = mem"
    and f: "kfree ?p (s1\<lparr>l_mem := mem\<rparr>) = Inr s'"
    using k M(3) sz hi
    by (auto simp: krealloc_def Let_def liballoc_lock_def liballoc_unlock_def heap_inv_def memcpy_def case_prod_beta eq)
  note B = kmalloc_blocks [OF inv sz(1) [unfolded small_req_def] s1]
  have bp: "blocks_of s ?p = Some ?n" using m by (auto simp: blocks_of_iff [OF h])
  note T = kheap.two_blocks [OF inv sz(1) s1 bp]
  have "copy_safe q ?p ?n"
    using T(3) [of q] sz by (auto simp: copy_safe_def not_less [symmetric] word_neq_0_conv)
  then have mem: "mem = (\<lambda>a. if a - q < ?n then l_mem s1 (?p + (a - q)) else l_mem s1 a)"
    using mc by (simp add: rep_movsb_range)
  have "\<exists>q k. blocks_of s1 q = Some k \<and> a - q < k" if "mem a \<noteq> l_mem s1 a" for a
    using B that sz(2) by (intro exI [of _ q] exI [of _ sz]) (auto simp: mem split: if_splits)
  note W = kheap_write [of s1 mem, OF _ this]
  let ?s = "s1\<lparr>l_mem := mem\<rparr>"
  have inv2: "kheap_inv ?s" "blocks_of ?s ?p = Some ?n" "blocks_of ?s q = Some sz" using W B T by auto
  obtain s2 where s2: "kfree ?p ?s = Inr s2" "kheap_inv s2" "blocks_of s2 = (blocks_of ?s)(?p := None)"
    "\<And>x k a. x \<noteq> ?p \<Longrightarrow> blocks_of ?s x = Some k \<Longrightarrow> a - x < k \<Longrightarrow> l_mem s2 a = l_mem ?s a"
    using kfree_blocks [OF inv2(1,2)] by blast
  then have [simp]: "s2 = s'" using f by simp
  have "l_mem s' (q + i) = l_mem s (?p + i)" if i: "i < ?n" for i
  proof -
    have "l_mem s' (q + i) = mem (q + i)" using s2(4) [OF T(1) inv2(3), of "q + i"] i sz(2) by simp
    also have "\<dots> = l_mem s1 (?p + i)" using i by (simp add: mem)
    also have "\<dots> = l_mem s (?p + i)" using B bp i by auto
    finally show ?thesis .
  qed
  then show ?thesis using s2(2,3) W B T(1) by (auto simp: fun_upd_twist)
qed

section \<open>Properties\<close>



text \<open>A pointer freed twice is caught: the second \<open>kfree\<close> finds no header with the magic number and
  fails its assertion, whatever is allocated besides.\<close>

lemma kfree_twice_asserts:
  assumes inv: "kheap_inv s" and b: "blocks_of s p = Some n" and f: "kfree p s = Inr s'"
  shows "kfree p s' = Inl AssertFailed"
proof -
  have hi: "heap_inv s" and h: "heap_ok (l_majors s) (l_vmm s)" using inv by (simp_all add: kheap_inv_def heap_inv_def)
  obtain m where m: "m \<in> set (live (l_majors s))" "mn_ptr m = p" using b by (auto simp: blocks_of_iff [OF h])
  note M = live_ptr [OF h m(1)]
  have "tagged (l_mem s) m" using inv m(1) by (simp add: kheap_inv_def)
  then have p: "p \<noteq> 0" "UNALIGN p (l_mem s) = mn_addr m + MINOR_SIZE" using M(3,5) m(2) by auto
  have r: "released s m s'" using kfree_released [OF hi m(1) p] f by auto
  then obtain pre post where l: "live (l_majors s) = pre @ m # post" "live (l_majors s') = pre @ post"
    and mem: "l_mem s' (p - 16) = 0" and hi': "heap_inv s'"
    using M(8) m(2) by (auto simp: released_def)
  have u: "UNALIGN p (l_mem s') = p" using mem by (simp add: UNALIGN_def ALIGN_INFO_def ALIGNMENT_def)
  have "mn_addr x \<noteq> p - MINOR_SIZE" if "x \<in> set (live (l_majors s'))" for x
  proof
    assume x: "mn_addr x = p - MINOR_SIZE"
    have "mn_span x \<inter> mn_span m = {}" using blocks_middle(3) [OF h l] that l(2) by auto
    moreover have "unat (mn_addr x) \<in> mn_span x" by (simp add: mn_span_def mn_end_def)
    ultimately show False using x M(10) m(2) by auto
  qed
  then have "List.extract (\<lambda>maj. \<exists>x \<in> set (mj_minors maj). mn_addr x = p - MINOR_SIZE) (l_majors s') = None"
    unfolding extract_None_iff live_in by blast
  then show ?thesis using p(1) u hi'
    by (simp add: kfree_def Let_def liballoc_lock_def liballoc_verify_magic_def heap_inv_def)
qed

text \<open>Freeing the only allocation of the only major unmaps it and leaves no root, and then no further
  \<open>kmalloc\<close> can succeed: each fails the assertion on \<open>l_memRoot\<close>.\<close>

lemma kmalloc_after_last_kfree:
  assumes inv: "kheap_inv s" and m: "l_majors s = [maj]" "mj_minors maj = [m]"
  shows "\<exists>s'. kfree (mn_ptr m) s = Inr s' \<and> (\<forall>n. kmalloc n s' = Inl AssertFailed)"
proof -
  have hi: "heap_inv s" and h: "heap_ok (l_majors s) (l_vmm s)" using inv by (simp_all add: kheap_inv_def heap_inv_def)
  have l: "m \<in> set (live (l_majors s))" using m by simp
  have "tagged (l_mem s) m" using inv l by (simp add: kheap_inv_def)
  then have p: "mn_ptr m \<noteq> 0" "UNALIGN (mn_ptr m) (l_mem s) = mn_addr m + MINOR_SIZE" using live_ptr(3,5) [OF h l] by auto
  then obtain s' where s': "kfree (mn_ptr m) s = Inr s'" "released s m s'" using kfree_released [OF hi l] by blast
  then have e: "l_majors s' = []" "\<not> l_lock s'" using m by (auto simp: released_def heap_inv_def)
  have "kmalloc n s' = Inl AssertFailed" for n
    using e by (cases "n + ALIGNMENT + ALIGN_INFO = 0") (simp_all add: kmalloc_def Let_def liballoc_lock_def)
  then show ?thesis using s'(1) by blast
qed

text \<open>\<open>kcalloc\<close> returns a fresh block of \<open>nobj * size\<close> bytes (a product modulo \<open>2^32\<close>: an overflow is not
  detected), all of them zero.\<close>

lemma kcalloc_zeroed:
  assumes inv: "kheap_inv s" and n: "small_req (nobj * sz)" and k: "kcalloc nobj sz s = Inr (p, s')"
  shows "kheap_inv s' \<and> blocks_of s' = (blocks_of s)(p \<mapsto> nobj * sz) \<and> (\<forall>a. a - p < nobj * sz \<longrightarrow> l_mem s' a = 0) \<and>
    (\<forall>q k a. blocks_of s q = Some k \<longrightarrow> a - q < k \<longrightarrow> l_mem s' a = l_mem s a)"
proof -
  let ?n = "nobj * sz"
  obtain s1 where s1: "kmalloc ?n s = Inr (p, s1)" using k by (auto simp: kcalloc_def Let_def split: if_splits)
  note B = kmalloc_blocks [OF inv n [unfolded small_req_def] s1]
  let ?mem = "\<lambda>a. if a - p < ?n then 0 else l_mem s1 a"
  have s': "s' = s1\<lparr>l_mem := ?mem\<rparr>"
  proof (cases "?n = 0")
    case True
    then show ?thesis using k s1 B by (auto simp: kcalloc_def Let_def)
  next
    case False
    then show ?thesis using k s1 B by (auto simp: kcalloc_def Let_def memset_def memset_loop_range)
  qed
  have "\<exists>q k. blocks_of s1 q = Some k \<and> a - q < k" if "?mem a \<noteq> l_mem s1 a" for a
    using B that by (intro exI [of _ p] exI [of _ ?n]) (auto split: if_splits)
  note W = kheap_write [of s1 ?mem, OF _ this]
  have "\<not> a - p < ?n" if "blocks_of s q = Some k" "a - q < k" for q k a
    using kheap.two_blocks(3) [OF inv n s1 that(1)] that(2) by blast
  then show ?thesis using W B s' by auto
qed


section \<open>Examples\<close>

text \<open>A heap with one major of 16 pages at 0x10000 that holds one block of 40 bytes.\<close>

definition ex_minor :: minor where
  "ex_minor = \<lparr>mn_addr = 0x10018, mn_size = 72, mn_req = 40\<rparr>"

definition ex_major :: major where
  "ex_major = \<lparr>mj_addr = 0x10000, mj_pages = 16, mj_size = 0x10000, mj_usage = 120, mj_minors = [ex_minor]\<rparr>"

definition ex_heap :: liballoc where
  "ex_heap = \<lparr>l_majors = [ex_major], l_bestBet = 0x10000, l_allocated = 0x10000, l_inuse = 72, l_lock = False,
     l_mem = (\<lambda>_. 0)(0x10030 := 16, 0x10040 := 7), l_vmm = ex_vmm\<rparr>"

lemma ex_minor_ptr: "mn_ptr ex_minor = 0x10040"
  by (simp add: mn_ptr_def ex_minor_def ALIGN_def MINOR_SIZE_def ALIGN_INFO_def ALIGNMENT_def)

lemma ex_entry: "j \<noteq> 1 \<Longrightarrow> j < 2 ^ 20 \<Longrightarrow> page_entry ex_vmm j = 1"
  using page_number_eq [of j 1] ex_kpage_other [of "of_nat (j * BLOCK_SIZE)"] by (simp add: page_entry_def BLOCK_SIZE_def)

lemma ex_heap_inv: "kheap_inv ex_heap"
proof -
  have "page_backed ex_vmm j" if "16 \<le> j" "j < 32" for j
    using ex_entry [of j] that by (simp add: page_backed_def BLOCK_SIZE_def ex_vmm_def demo_pmm_def)
  then have "mapped ex_vmm ex_major" by (auto simp: mapped_def ex_major_def mj_range_def mj_page_def BLOCK_SIZE_def)
  moreover have "pages_ok ex_vmm" using ex_kdir_wf demo_pmm_wf ex_entry [of "0xFFFFF"] by (simp add: pages_ok_def ex_vmm_def)
  moreover have "major_ok ex_major"
    by (simp add: major_ok_def ex_major_def mj_page_def mj_end_def ex_minor_def mn_end_def BLOCK_SIZE_def)
  ultimately have "heap_inv ex_heap" by (simp add: heap_inv_def heap_ok_def ex_heap_def bet_ok_def ex_major_def)
  then show ?thesis using ex_minor_ptr
    by (simp add: kheap_inv_def tagged_def ex_heap_def ex_major_def) (simp add: ex_minor_def MINOR_SIZE_def)
qed

lemma ex_heap_blocks: "blocks_of ex_heap = [0x10040 \<mapsto> 40]"
  using ex_minor_ptr by (simp add: blocks_of_def ex_heap_def ex_major_def) (simp add: ex_minor_def)

lemmas ex_heap_eval = kmalloc_def km_loop.simps km_place_def fit_minor_def liballoc_lock_def liballoc_unlock_def
  ex_heap_def ex_major_def ex_minor_def MINOR_SIZE_def MAJOR_SIZE_def ALIGNMENT_def ALIGN_INFO_def ALIGN_def List.extract_def Let_def

lemma ex_kmalloc: "\<exists>s'. kmalloc 100 ex_heap = Inr (0x100A0, s')"
  by (simp add: ex_heap_eval)

lemma ex_small: "small_req 100" "small_req (10 * 10)" "small_req 20"
  by (simp_all add: small_req_def)



lemma ex_byte: "l_mem ex_heap 0x10040 = 7" "blocks_of ex_heap 0x10040 = Some 40"
  by (simp_all add: ex_heap_blocks) (simp add: ex_heap_def)


end
