(* ===== verification/Path.thy ===== *)
theory Path
  imports Prelude
begin

text \<open>
  The path handling of src/kernel/fs.c, lines 17 to 168. A C string is the list of its bytes, the
  terminating zero left out; the buffer that \<open>tokenize_path\<close> builds, with zeros between and behind
  its tokens, is a list of all its bytes, and reading behind it is a fault. A \<open>list_t\<close> of strings
  is the list of the strings. Allocation is left out.
\<close>

type_synonym cstr = "u8 list"

definition SLASH :: u8 where "SLASH = 47"
definition DOT :: cstr where "DOT = [46]"
definition DOTDOT :: cstr where "DOTDOT = [46, 46]"

fun path_element_size :: "cstr \<Rightarrow> nat" where
  "path_element_size [] = 0"
| "path_element_size (c # path) = (if c \<noteq> SLASH then path_element_size path + 1 else 0)"

text \<open>\<open>tokenize_path\<close>: \<open>s\<close> is the part of the buffer written so far.\<close>

fun tp_loop :: "cstr \<Rightarrow> u8 list \<Rightarrow> u8 list" where
  "tp_loop [] s = s"
| "tp_loop (c # path) s =
     (if c = SLASH
      then if s \<noteq> [] \<and> last s \<noteq> 0 then tp_loop path (s @ [0]) else tp_loop path s
      else tp_loop path (s @ [c]))"

definition tokenize_path :: "cstr \<Rightarrow> u8 list" where
  "tokenize_path path = (let s = tp_loop path [] in s @ replicate (length path + 2 - length s) 0)"

text \<open>The loops that walk over such a buffer: \<open>while (*s != 0)\<close> with \<open>s += strlen(s) + 1\<close>.\<close>

function token_loop :: "(cstr \<Rightarrow> 's \<Rightarrow> 's res) \<Rightarrow> u8 list \<Rightarrow> 's \<Rightarrow> 's res" where
  "token_loop f s els =
     (case s of
        [] \<Rightarrow> Inl MemFault
      | c # _ \<Rightarrow>
          if c = 0 then Inr els
          else let t = takeWhile (\<lambda>c. c \<noteq> 0) s
               in kbind (f t els) (token_loop f (drop (length t + 1) s)))"
  by pat_completeness auto
termination by (relation "measure (\<lambda>(f, s, els). length s)") auto

declare token_loop.simps [simp del]

function tokenize_path_list :: "cstr \<Rightarrow> cstr list" where
  "tokenize_path_list path =
     (if path = [] then []
      else let j = path_element_size path; s = take j path
           in (if s = [] then [] else [s]) @ tokenize_path_list (drop (j + 1) path))"
  by pat_completeness auto
termination by (relation "measure length") auto

declare tokenize_path_list.simps [simp del]

definition push_element :: "cstr \<Rightarrow> cstr list \<Rightarrow> cstr list res" where
  "push_element s elements =
     (if s = DOTDOT then kbind (kassert (elements \<noteq> [])) (\<lambda>_. Inr (butlast elements))
      else if s = DOT then Inr elements
      else Inr (elements @ [s]))"

definition canonicalize_path_push_path :: "cstr \<Rightarrow> cstr list \<Rightarrow> cstr list res" where
  "canonicalize_path_push_path path elements = token_loop push_element (tokenize_path path) elements"

definition canonicalize_path_list :: "cstr \<Rightarrow> cstr \<Rightarrow> cstr list res" where
  "canonicalize_path_list parent relative_path =
     kbind (if relative_path \<noteq> [] \<and> hd relative_path \<noteq> SLASH
            then token_loop (\<lambda>s els. Inr (els @ [s])) (tokenize_path parent) []
            else Inr []) (canonicalize_path_push_path relative_path)"

text \<open>\<open>copy_elements\<close>: the elements in front of position \<open>i\<close>; an empty one is a failed assertion.\<close>

definition copy_elements :: "nat \<Rightarrow> cstr list \<Rightarrow> cstr list res" where
  "copy_elements i elements =
     kfor (\<lambda>value els. kbind (kassert (value \<noteq> [])) (\<lambda>_. Inr (els @ [value]))) (take i elements) []"

section \<open>The elements of a path\<close>

text \<open>The reference: split at a separator, and drop the empty pieces.\<close>

fun split_on :: "u8 \<Rightarrow> u8 list \<Rightarrow> u8 list list" where
  "split_on d [] = [[]]"
| "split_on d (c # cs) = (if c = d then [] # split_on d cs else (c # hd (split_on d cs)) # tl (split_on d cs))"

definition path_elements :: "cstr \<Rightarrow> cstr list" where
  "path_elements path = filter (\<lambda>e. e \<noteq> []) (split_on SLASH path)"

lemma split_on_ne [simp]: "split_on d xs \<noteq> []"
  by (cases xs) auto

lemma split_on_sep: "split_on d (xs @ d # ys) = split_on d xs @ split_on d ys"
  by (induction xs) (auto simp: hd_append tl_append split: list.split)

lemma split_on_none: "d \<notin> set xs \<Longrightarrow> split_on d xs = [xs]"
  by (induction xs) auto

lemma split_on_map: "0 \<notin> set path \<Longrightarrow> split_on 0 (map (\<lambda>c. if c = SLASH then 0 else c) path) = split_on SLASH path"
  by (induction path) (auto simp: SLASH_def)

lemma split_on_in: "e \<in> set (split_on d xs) \<Longrightarrow> d \<notin> set e \<and> set e \<subseteq> set xs"
proof (induction xs arbitrary: e)
  case (Cons c xs)
  have "set (tl (split_on d xs)) \<subseteq> set (split_on d xs)" by (simp add: list.set_sel(2) subsetI)
  then show ?case using Cons.IH [of e] Cons.IH [of "hd (split_on d xs)"] Cons.prems by (auto split: if_splits)
qed simp

text \<open>What the buffer holds: \<open>tp_loop\<close> keeps the pieces, and never writes a zero at the start or behind
  another zero.\<close>

abbreviation pieces :: "u8 list \<Rightarrow> cstr list" where
  "pieces s \<equiv> filter (\<lambda>e. e \<noteq> []) (split_on 0 s)"

lemma tp_loop_pieces: "pieces (tp_loop path s) = pieces (s @ map (\<lambda>c. if c = SLASH then 0 else c) path)"
proof (induction path arbitrary: s)
  case (Cons c path)
  show ?case
  proof (cases "c = SLASH \<and> \<not> (s \<noteq> [] \<and> last s \<noteq> 0)")
    case True
    then have "s = [] \<or> (\<exists>s'. s = s' @ [0])" by (metis append_butlast_last_id)
    then show ?thesis using True Cons.IH by (auto simp: split_on_sep)
  next
    case False
    then show ?thesis using Cons.IH by auto
  qed
qed simp

fun compact :: "u8 list \<Rightarrow> bool" where
  "compact [] \<longleftrightarrow> True"
| "compact (c # s) \<longleftrightarrow> (c = 0 \<longrightarrow> s = [] \<or> hd s \<noteq> 0) \<and> compact s"

lemma compact_snoc: "compact (s @ [c]) \<longleftrightarrow> compact s \<and> (c = 0 \<longrightarrow> s = [] \<or> last s \<noteq> 0)"
  by (induction s) (auto simp: hd_append)

lemma tp_loop_compact:
  "compact s \<Longrightarrow> (s \<noteq> [] \<longrightarrow> hd s \<noteq> 0) \<Longrightarrow> 0 \<notin> set path \<Longrightarrow>
   compact (tp_loop path s) \<and> (tp_loop path s \<noteq> [] \<longrightarrow> hd (tp_loop path s) \<noteq> 0) \<and>
   length (tp_loop path s) \<le> length s + length path"
proof (induction path arbitrary: s)
  case (Cons c path)
  show ?case
  proof (cases "c = SLASH \<and> \<not> (s \<noteq> [] \<and> last s \<noteq> 0)")
    case True
    then show ?thesis using Cons.IH [of s] Cons.prems by auto
  next
    case False
    let ?c = "if c = SLASH then 0 else c"
    have "compact (s @ [?c])" "s @ [?c] \<noteq> [] \<longrightarrow> hd (s @ [?c]) \<noteq> 0"
      using False Cons.prems by (auto simp: compact_snoc hd_append)
    then show ?thesis using Cons.IH [of "s @ [?c]"] Cons.prems False by auto
  qed
qed simp

lemma compact_drop: "compact (t @ 0 # s) \<Longrightarrow> compact s \<and> (s \<noteq> [] \<longrightarrow> hd s \<noteq> 0)"
  by (induction t) auto

lemma token_loop_step:
  assumes "s \<noteq> []" "hd s \<noteq> 0" "takeWhile (\<lambda>c. c \<noteq> 0) s = t" "drop (length t + 1) s = r"
  shows "token_loop f s els = kbind (f t els) (token_loop f r)"
  using assms by (subst token_loop.simps) (auto simp: Let_def split: list.split)

lemma token_loop_compact:
  "compact s \<Longrightarrow> (s \<noteq> [] \<longrightarrow> hd s \<noteq> 0) \<Longrightarrow> token_loop f (s @ 0 # 0 # zs) els = kfor f (pieces s) els"
proof (induction "length s" arbitrary: s els rule: less_induct)
  case less
  show ?case
  proof (cases s)
    case Nil
    then show ?thesis by (simp add: token_loop.simps)
  next
    case (Cons c s')
    show ?thesis
    proof (cases "0 \<in> set s")
      case False
      then have "takeWhile (\<lambda>c. c \<noteq> 0) (s @ 0 # 0 # zs) = s" by (auto simp: takeWhile_append)
      then have "token_loop f (s @ 0 # 0 # zs) els = kbind (f s els) (token_loop f (0 # zs))"
        using Cons less.prems(2) by (intro token_loop_step) auto
      moreover have "token_loop f (0 # zs) = Inr" by (rule ext) (simp add: token_loop.simps)
      ultimately show ?thesis using False Cons by (simp add: split_on_none) (cases "f (c # s') els"; simp)
    next
      case True
      then obtain t r where r: "s = t @ 0 # r" and t: "0 \<notin> set t" using split_list_first by fastforce
      have tne: "t \<noteq> []" using r less.prems(2) by (cases t) auto
      have rc: "compact r" "r \<noteq> [] \<longrightarrow> hd r \<noteq> 0" using compact_drop [of t r] less.prems(1) r by auto
      have tw: "takeWhile (\<lambda>c. c \<noteq> 0) (s @ 0 # 0 # zs) = t" using t by (auto simp: r takeWhile_append)
      have dr: "drop (length t + 1) (s @ 0 # 0 # zs) = r @ 0 # 0 # zs" by (simp add: r)
      have "token_loop f (s @ 0 # 0 # zs) els = kbind (f t els) (token_loop f (r @ 0 # 0 # zs))"
        by (rule token_loop_step [OF _ _ tw dr]) (use Cons less.prems(2) in auto)
      moreover have "token_loop f (r @ 0 # 0 # zs) = kfor f (pieces r)"
        by (rule ext) (rule less.hyps [OF _ rc], simp add: r)
      moreover have "pieces s = t # pieces r" using t tne by (simp add: r split_on_sep split_on_none)
      ultimately show ?thesis by simp
    qed
  qed
qed

lemma token_loop_elements:
  assumes "0 \<notin> set path"
  shows "token_loop f (tokenize_path path) els = kfor f (path_elements path) els"
proof -
  let ?s = "tp_loop path []"
  have c: "compact ?s" "?s \<noteq> [] \<longrightarrow> hd ?s \<noteq> 0" "length ?s \<le> length path"
    using tp_loop_compact [of "[]" path] assms by auto
  then obtain k where "length path + 2 - length ?s = Suc (Suc k)"
    by (metis Suc_diff_le add_2_eq_Suc' le_SucI)
  then have "tokenize_path path = ?s @ 0 # 0 # replicate k 0" by (simp add: tokenize_path_def Let_def)
  moreover have "pieces ?s = path_elements path"
    using tp_loop_pieces [of path "[]"] split_on_map [OF assms] by (simp add: path_elements_def)
  ultimately show ?thesis using token_loop_compact [OF c(1,2)] by simp
qed

lemma path_elements_sep: "SLASH \<notin> set t \<Longrightarrow> path_elements (t @ SLASH # r) = (if t = [] then [] else [t]) @ path_elements r"
  by (simp add: path_elements_def split_on_sep split_on_none)

lemma path_elements_in: "e \<in> set (path_elements path) \<Longrightarrow> e \<noteq> [] \<and> SLASH \<notin> set e \<and> set e \<subseteq> set path"
  using split_on_in by (auto simp: path_elements_def)

lemma kfor_collect: "kfor (\<lambda>s els. Inr (els @ [s])) xs els = Inr (els @ xs)"
  by (induction xs arbitrary: els) auto

lemma path_element_size_le: "path_element_size path \<le> length path"
  by (induction path) auto

lemma path_element_split:
  "path_element_size path = length (takeWhile (\<lambda>c. c \<noteq> SLASH) path)"
  "take (path_element_size path) path = takeWhile (\<lambda>c. c \<noteq> SLASH) path"
  by (induction path) auto

lemma tokenize_path_list_Nil [simp]: "tokenize_path_list [] = []"
  by (subst tokenize_path_list.simps) simp

lemma tokenize_path_list_elements: "tokenize_path_list path = path_elements path"
proof (induction path rule: tokenize_path_list.induct)
  case (1 path)
  show ?case
  proof (cases "path = [] \<or> SLASH \<notin> set path")
    case True
    then have "takeWhile (\<lambda>c. c \<noteq> SLASH) path = path" by (auto simp: takeWhile_eq_all_conv)
    then have "path_element_size path = length path" using path_element_split(1) by metis
    then show ?thesis using True
      by (subst tokenize_path_list.simps) (auto simp: Let_def path_elements_def split_on_none)
  next
    case False
    then obtain t r where r: "path = t @ SLASH # r" and t: "SLASH \<notin> set t" using split_list_first by fastforce
    have tw: "takeWhile (\<lambda>c. c \<noteq> SLASH) path = t" using t by (auto simp: r takeWhile_append)
    have "path_elements path = (if t = [] then [] else [t]) @ path_elements r" using path_elements_sep [OF t] r by simp
    moreover have "tokenize_path_list r = path_elements r"
      using "1.IH" [OF _ refl refl] False path_element_split tw by (simp add: r)
    ultimately show ?thesis using False path_element_split tw r
      by (subst tokenize_path_list.simps) (simp add: Let_def)
  qed
qed

section \<open>Properties\<close>

text \<open>Both tokenizers compute the elements of a path as the reference does, on every string: the
  buffer of \<open>tokenize_path\<close>, walked the way its callers walk it, and the list of
  \<open>tokenize_path_list\<close>. Repeated, leading and trailing slashes make no element, and no walk leaves
  the buffer.\<close>

lemma tokenizers_agree:
  assumes "0 \<notin> set path"
  shows "token_loop (\<lambda>s els. Inr (els @ [s])) (tokenize_path path) [] = Inr (path_elements path) \<and>
    tokenize_path_list path = path_elements path"
  using kfor_collect [of "path_elements path" "[]"] by (simp add: token_loop_elements [OF assms] tokenize_path_list_elements)

text \<open>An element a directory lookup can be given: not empty, no slash, and neither of the two names that
  canonicalization resolves.\<close>

definition plain :: "cstr \<Rightarrow> bool" where
  "plain e \<longleftrightarrow> e \<noteq> [] \<and> SLASH \<notin> set e \<and> e \<noteq> DOT \<and> e \<noteq> DOTDOT"

lemma push_element_cases:
  "push_element x els = Inr els' \<Longrightarrow> els' = els \<or> els' = butlast els \<or> els' = els @ [x] \<and> x \<noteq> DOT \<and> x \<noteq> DOTDOT"
  by (auto simp: push_element_def split: if_splits)

lemma push_elements_plain:
  "kfor push_element xs els = Inr els' \<Longrightarrow> (\<forall>e \<in> set xs. e \<noteq> [] \<and> SLASH \<notin> set e) \<Longrightarrow> (\<forall>e \<in> set els. plain e) \<Longrightarrow>
   \<forall>e \<in> set els'. plain e"
proof (induction xs arbitrary: els)
  case (Cons x xs)
  obtain els1 where e: "push_element x els = Inr els1" "kfor push_element xs els1 = Inr els'" using Cons.prems(1) by auto
  have "plain x" if "x \<noteq> DOT" "x \<noteq> DOTDOT" using that Cons.prems(2) by (simp add: plain_def)
  then have "\<forall>e \<in> set els1. plain e"
    using push_element_cases [OF e(1)] Cons.prems(3) by (auto dest: in_set_butlastD)
  then show ?case using Cons.IH [OF e(2)] Cons.prems(2) by simp
qed simp

lemma push_elements_subset: "kfor push_element xs els = Inr els' \<Longrightarrow> set els' \<subseteq> set els \<union> set xs"
proof (induction xs arbitrary: els)
  case (Cons x xs)
  obtain els1 where e: "push_element x els = Inr els1" "kfor push_element xs els1 = Inr els'" using Cons.prems by auto
  have "set els1 \<subseteq> insert x (set els)" using push_element_cases [OF e(1)] by (auto dest: in_set_butlastD)
  then show ?case using Cons.IH [OF e(2)] by auto
qed simp

lemma push_element_plain: "plain e \<Longrightarrow> push_element e els = Inr (els @ [e])"
  by (simp add: push_element_def plain_def)

lemma push_plain: "\<forall>e \<in> set xs. plain e \<Longrightarrow> kfor push_element xs els = Inr (els @ xs)"
  by (induction xs arbitrary: els) (simp_all add: push_element_plain)

text \<open>Writing a list of elements as a path.\<close>

fun join :: "cstr list \<Rightarrow> cstr" where
  "join [] = []"
| "join (e # es) = SLASH # e @ join es"

lemma path_elements_join: "\<forall>e \<in> set es. plain e \<Longrightarrow> path_elements (join es) = es"
proof (induction es)
  case (Cons e es)
  have e: "e \<noteq> []" "SLASH \<notin> set e" and IH: "path_elements (join es) = es"
    using Cons by (auto simp: plain_def)
  have "path_elements (e @ join es) = e # es"
  proof (cases es)
    case Nil
    then show ?thesis using e by (simp add: path_elements_def split_on_none)
  next
    case (Cons e' es')
    then obtain r where r: "join es = SLASH # r" by simp
    have "path_elements r = es" using IH path_elements_sep [of "[]" r] r by simp
    then show ?thesis using path_elements_sep [OF e(2), of r] e(1) r by simp
  qed
  then show ?case using path_elements_sep [of "[]"] by simp
qed (simp add: path_elements_def)

lemma join_set: "set (join es) \<subseteq> insert SLASH (\<Union>e \<in> set es. set e)"
  by (induction es) auto

lemma canonicalize_root:
  assumes "0 \<notin> set path"
  shows "canonicalize_path_list [SLASH] path = kfor push_element (path_elements path) []"
proof -
  have "token_loop (\<lambda>s els. Inr (els @ [s])) (tokenize_path [SLASH]) [] = Inr []"
    by (subst token_loop_elements) (simp_all add: path_elements_def, simp add: SLASH_def)
  then show ?thesis
    by (simp add: canonicalize_path_list_def canonicalize_path_push_path_def token_loop_elements [OF assms])
qed

text \<open>A path from the root is canonicalized to elements that need no further resolution, and
  canonicalization is a retraction: writing the result as a path and canonicalizing it again,
  from any parent, gives the same elements.\<close>

lemma canonicalize_idempotent:
  assumes "0 \<notin> set path" "canonicalize_path_list [SLASH] path = Inr els"
  shows "(\<forall>e \<in> set els. plain e) \<and> canonicalize_path_list parent (join els) = Inr els"
proof -
  have k: "kfor push_element (path_elements path) [] = Inr els"
    using assms(2) by (simp add: canonicalize_root [OF assms(1)])
  have p: "\<forall>e \<in> set els. plain e" by (rule push_elements_plain [OF k]) (use path_elements_in in \<open>blast, simp\<close>)
  have "0 \<notin> set e" if "e \<in> set els" for e
    using that push_elements_subset [OF k] path_elements_in [of e path] assms(1) by auto
  then have "0 \<notin> set (join els)" using join_set [of els] by (auto simp: SLASH_def)
  then have "canonicalize_path_push_path (join els) [] = Inr els"
    using push_plain [OF p, of "[]"] by (simp add: canonicalize_path_push_path_def token_loop_elements path_elements_join [OF p])
  moreover have "join els = [] \<or> hd (join els) = SLASH" by (cases els) auto
  ultimately have "canonicalize_path_list parent (join els) = Inr els"
    unfolding canonicalize_path_list_def by (elim disjE) simp_all
  then show ?thesis using p by blast
qed

text \<open>The string "/a//./b/../c".\<close>

definition ex_path :: cstr where
  "ex_path = [47, 97, 47, 47, 46, 47, 98, 47, 46, 46, 47, 99]"

end
