(* ===== verification/Vfs.thy ===== *)
theory Vfs
  imports Path Kstring
begin

text \<open>
  The state of the virtual file system and its drivers: src/kernel/include/fs.h, tmpfs.c,
  ramdisk.c, dev_null.c and tar.c, with the node operations of fs.c. Nodes, tmpfs objects, tar
  objects and mounts are objects of stores; a new object gets an address that was never used
  (\<open>v_next\<close>), and allocation does not fail. The function pointers of a node are the values of one
  datatype per operation, and calling through a pointer is the dispatch on it. Buffers are byte
  lists: a read returns its bytes, a write is given them. \<open>v_mem\<close> is the memory a ramdisk lies in,
  \<open>v_garbage\<close> what a freshly allocated byte of a file holds. The console's \<open>tty_node\<close> is not among
  the nodes.
\<close>

type_synonym addr = nat

datatype read_fn = Tmpfs_read | Ramdisk_read | Null_read | Zero_read | Tar_read
datatype write_fn = Tmpfs_write | Ramdisk_write | Null_write
datatype open_fn = Tmpfs_open | Ramdisk_open | Tar_open
datatype close_fn = Tmpfs_close | Ramdisk_close | Tar_close
datatype readdir_fn = Tmpfs_readdir | Tar_readdir
datatype finddir_fn = Tmpfs_finddir | Tar_finddir
datatype create_fn = Tmpfs_create
datatype unlink_fn = Tmpfs_unlink
datatype readlink_fn = Tar_readlink
datatype mkdir_fn = Tmpfs_mkdir

definition FS_NODE_FILE :: u32 where "FS_NODE_FILE = 0x01"
definition FS_NODE_DIRECTORY :: u32 where "FS_NODE_DIRECTORY = 0x02"
definition FS_NODE_CHARDEVICE :: u32 where "FS_NODE_CHARDEVICE = 0x04"
definition FS_NODE_SYMLINK :: u32 where "FS_NODE_SYMLINK = 0x20"

record fs_node =
  nd_name :: cstr
  nd_flags :: u32
  nd_object :: addr
  nd_length :: u32
  nd_read :: "read_fn option"
  nd_write :: "write_fn option"
  nd_open :: "open_fn option"
  nd_close :: "close_fn option"
  nd_readdir :: "readdir_fn option"
  nd_finddir :: "finddir_fn option"
  nd_create :: "create_fn option"
  nd_unlink :: "unlink_fn option"
  nd_readlink :: "readlink_fn option"
  nd_mkdir :: "mkdir_fn option"
  nd_refcount :: int

record tmpfs_object =
  to_name :: cstr
  to_flags :: u32
  to_childs :: "addr list option"
  to_block :: "u8 list option"
  to_block_size :: u32
  to_refcount :: int

record tar_obj =
  ta_device :: addr
  ta_name :: cstr
  ta_offset :: u32
  ta_flags :: u32
  ta_length :: u32

record fs_mount =
  mt_element :: cstr
  mt_node :: addr
  mt_mounts :: "addr list"
  mt_refcount :: int

record vfs =
  nodes :: "addr \<rightharpoonup> fs_node"
  tobjs :: "addr \<rightharpoonup> tmpfs_object"
  tars :: "addr \<rightharpoonup> tar_obj"
  mnts :: "addr \<rightharpoonup> fs_mount"
  fs_root_mount :: addr
  v_next :: addr
  v_mem :: mem
  v_garbage :: "nat \<Rightarrow> u8"

type_synonym dirent = "u32 \<times> cstr"

definition get_obj :: "('a \<rightharpoonup> 'b) \<Rightarrow> 'a \<Rightarrow> 'b res" where
  "get_obj m a = (case m a of None \<Rightarrow> Inl MemFault | Some x \<Rightarrow> Inr x)"

lemma get_obj_Inr [simp]: "get_obj m a = Inr x \<longleftrightarrow> m a = Some x"
  by (auto simp: get_obj_def split: option.splits)

lemma get_obj_Some [simp]: "m a = Some x \<Longrightarrow> get_obj m a = Inr x"
  by simp

section \<open>Nodes\<close>

definition blank_node :: fs_node where
  "blank_node = \<lparr>nd_name = [], nd_flags = 0, nd_object = 0, nd_length = 0, nd_read = None, nd_write = None,
     nd_open = None, nd_close = None, nd_readdir = None, nd_finddir = None, nd_create = None, nd_unlink = None,
     nd_readlink = None, nd_mkdir = None, nd_refcount = 0\<rparr>"

text \<open>\<open>fs_node_new\<close>, with the assignments its callers make to the new node before anything else happens.\<close>

definition fs_node_new :: "(fs_node \<Rightarrow> fs_node) \<Rightarrow> vfs \<Rightarrow> addr \<times> vfs" where
  "fs_node_new init s =
     (v_next s, s\<lparr>nodes := (nodes s)(v_next s \<mapsto> init (blank_node\<lparr>nd_refcount := 1\<rparr>)), v_next := v_next s + 1\<rparr>)"

definition fs_node_reference :: "addr \<Rightarrow> vfs \<Rightarrow> vfs res" where
  "fs_node_reference n s =
     kbind (kassert (n \<noteq> 0)) (\<lambda>_.
     kbind (get_obj (nodes s) n) (\<lambda>nd.
     kbind (kassert (nd_refcount nd \<noteq> 0)) (\<lambda>_.
       if 0 < nd_refcount nd
       then Inr (s\<lparr>nodes := (nodes s)(n \<mapsto> nd\<lparr>nd_refcount := nd_refcount nd + 1\<rparr>)\<rparr>)
       else Inr s)))"

section \<open>tmpfs\<close>

definition tmpfs_create_obj :: "cstr \<Rightarrow> u32 \<Rightarrow> vfs \<Rightarrow> addr \<times> vfs" where
  "tmpfs_create_obj name flags s =
     (v_next s, s\<lparr>tobjs := (tobjs s)(v_next s \<mapsto>
        \<lparr>to_name = name, to_flags = flags,
         to_childs = (if flags AND FS_NODE_DIRECTORY \<noteq> 0 then Some [] else None),
         to_block = None, to_block_size = 0, to_refcount = 0\<rparr>), v_next := v_next s + 1\<rparr>)"

definition tmpfs_destroy_object :: "addr \<Rightarrow> vfs \<Rightarrow> vfs res" where
  "tmpfs_destroy_object a s =
     kbind (get_obj (tobjs s) a) (\<lambda>obj.
     kbind (kassert (to_refcount obj = 0)) (\<lambda>_.
     kbind (if to_flags obj AND FS_NODE_FILE \<noteq> 0 then Inr ()
            else (case to_childs obj of None \<Rightarrow> Inl MemFault | Some l \<Rightarrow> kassert (l = []))) (\<lambda>_.
     Inr (s\<lparr>tobjs := (tobjs s)(a := None)\<rparr>))))"

definition tmpfs_node :: "tmpfs_object \<Rightarrow> addr \<Rightarrow> fs_node \<Rightarrow> fs_node" where
  "tmpfs_node obj a f =
     (let f = f\<lparr>nd_name := take 255 (to_name obj), nd_flags := to_flags obj, nd_object := a\<rparr>
      in if to_flags obj = FS_NODE_DIRECTORY
         then f\<lparr>nd_open := Some Tmpfs_open, nd_close := Some Tmpfs_close, nd_readdir := Some Tmpfs_readdir,
                nd_create := Some Tmpfs_create, nd_unlink := Some Tmpfs_unlink, nd_mkdir := Some Tmpfs_mkdir,
                nd_finddir := Some Tmpfs_finddir\<rparr>
         else f\<lparr>nd_read := Some Tmpfs_read, nd_write := Some Tmpfs_write\<rparr>)"

definition fs_node_from_tmpfs :: "addr \<Rightarrow> vfs \<Rightarrow> (addr \<times> vfs) res" where
  "fs_node_from_tmpfs a s =
     kbind (kassert (a \<noteq> 0)) (\<lambda>_.
     kbind (get_obj (tobjs s) a) (\<lambda>obj.
     kbind (kassert (to_flags obj = FS_NODE_DIRECTORY \<or> to_flags obj = FS_NODE_FILE)) (\<lambda>_.
     let (f, s) = fs_node_new (tmpfs_node obj a) s
     in Inr (f, s\<lparr>tobjs := (tobjs s)(a \<mapsto> obj\<lparr>to_refcount := to_refcount obj + 1\<rparr>)\<rparr>))))"

text \<open>\<open>node->object\<close> of a tmpfs node, with the assertion that it is set.\<close>

definition tmpfs_obj :: "addr \<Rightarrow> vfs \<Rightarrow> (addr \<times> tmpfs_object) res" where
  "tmpfs_obj n s =
     kbind (get_obj (nodes s) n) (\<lambda>nd.
     kbind (kassert (nd_object nd \<noteq> 0)) (\<lambda>_.
     kbind (get_obj (tobjs s) (nd_object nd)) (\<lambda>obj. Inr (nd_object nd, obj))))"

text \<open>\<open>memcpy(buf, block + offset, len)\<close> on the block of a file: \<open>None\<close> is a NULL block.\<close>

definition block_read :: "u8 list option \<Rightarrow> u32 \<Rightarrow> u32 \<Rightarrow> u8 list res" where
  "block_read blk offset len =
     (case blk of None \<Rightarrow> Inl MemFault
      | Some b \<Rightarrow> if unat offset + unat len \<le> length b then Inr (take (unat len) (drop (unat offset) b)) else Inl MemFault)"

definition tmpfs_read :: "addr \<Rightarrow> u32 \<Rightarrow> u32 \<Rightarrow> vfs \<Rightarrow> (u32 \<times> u8 list) res" where
  "tmpfs_read n offset size' s =
     kbind (tmpfs_obj n s) (\<lambda>(a, obj).
       if to_flags obj AND FS_NODE_FILE \<noteq> 0
       then if to_block_size obj < offset then Inr (-1, [])
            else let len = (if offset + size' \<le> to_block_size obj then size' else to_block_size obj - offset)
                 in if len = 0 then Inr (0, [])
                    else kbind (block_read (to_block obj) offset len) (\<lambda>bytes. Inr (len, bytes))
       else Inr (-1, []))"

text \<open>\<open>krealloc\<close> of a block: the old bytes, then whatever the heap holds there.\<close>

definition block_grow :: "(nat \<Rightarrow> u8) \<Rightarrow> u8 list option \<Rightarrow> nat \<Rightarrow> u8 list" where
  "block_grow junk blk n =
     (let b = (case blk of None \<Rightarrow> [] | Some b \<Rightarrow> b) in take n b @ map junk [length b..<n])"

definition block_write :: "u8 list option \<Rightarrow> u32 \<Rightarrow> u8 list \<Rightarrow> u8 list res" where
  "block_write blk offset bytes =
     (case blk of None \<Rightarrow> Inl MemFault
      | Some b \<Rightarrow>
          if unat offset + length bytes \<le> length b
          then Inr (take (unat offset) b @ bytes @ drop (unat offset + length bytes) b) else Inl MemFault)"

text \<open>The size of a write is the number of bytes given, which a caller's \<open>uint32_t\<close> holds.\<close>

definition tmpfs_write :: "addr \<Rightarrow> u32 \<Rightarrow> u8 list \<Rightarrow> vfs \<Rightarrow> (u32 \<times> vfs) res" where
  "tmpfs_write n offset bytes s =
     kbind (tmpfs_obj n s) (\<lambda>(a, obj).
       if to_flags obj AND FS_NODE_FILE \<noteq> 0
       then let size' = of_nat (length bytes); size_req = offset + size'
            in kbind (if to_block_size obj < size_req
                      then Inr (obj\<lparr>to_block := Some (block_grow (v_garbage s) (to_block obj) (unat size_req)),
                                    to_block_size := size_req\<rparr>)
                      else kbind (kassert (to_block obj \<noteq> None)) (\<lambda>_. Inr obj)) (\<lambda>obj.
               kbind (kassert (size' \<noteq> 0)) (\<lambda>_.
               kbind (block_write (to_block obj) offset bytes) (\<lambda>b.
               Inr (size', s\<lparr>tobjs := (tobjs s)(a \<mapsto> obj\<lparr>to_block := Some b\<rparr>)\<rparr>))))
       else Inr (-1, s))"

definition tmpfs_close :: "addr \<Rightarrow> vfs \<Rightarrow> vfs res" where
  "tmpfs_close n s =
     kbind (get_obj (nodes s) n) (\<lambda>nd.
     kbind (kassert (nd_object nd \<noteq> 0)) (\<lambda>_.
     kbind (get_obj (tobjs s) (nd_object nd)) (\<lambda>obj.
     let s = s\<lparr>tobjs := (tobjs s)(nd_object nd \<mapsto> obj\<lparr>to_refcount := to_refcount obj - 1\<rparr>)\<rparr>
     in kbind (if to_refcount obj - 1 = 0 then tmpfs_destroy_object (nd_object nd) s else Inr s) (\<lambda>s.
        Inr (s\<lparr>nodes := (nodes s)(n \<mapsto> nd\<lparr>nd_object := 0\<rparr>)\<rparr>)))))"

fun rd_nth :: "int \<Rightarrow> addr list \<Rightarrow> addr option" where
  "rd_nth j [] = None"
| "rd_nth j (v # vs) = (if j = 0 then Some v else rd_nth (j - 1) vs)"

definition tmpfs_readdir :: "addr \<Rightarrow> u32 \<Rightarrow> vfs \<Rightarrow> dirent option res" where
  "tmpfs_readdir n i s =
     kbind (tmpfs_obj n s) (\<lambda>(a, obj).
       if i = 0 then Inr (Some (i, DOT))
       else if i = 1 then Inr (Some (i, DOTDOT))
       else (case to_childs obj of
               None \<Rightarrow> Inl AssertFailed
             | Some l \<Rightarrow>
                 (case rd_nth (sint (i - 2)) l of
                    None \<Rightarrow> Inr None
                  | Some v \<Rightarrow> kbind (get_obj (tobjs s) v) (\<lambda>nobj. Inr (Some (i, take 256 (to_name nobj)))))))"

text \<open>The searches among the children: \<open>memcmp(name, child->name, len)\<close> with \<open>len\<close> the length of \<open>name\<close>
  (\<open>tmpfs_finddir\<close>, \<open>tmpfs_unlink\<close>) compares a prefix only, with one byte more (\<open>tmpfs_mkdir\<close>,
  \<open>tmpfs_create\<close>) the whole name. The result is the position of the first match.\<close>

fun child_at :: "(cstr \<Rightarrow> bool) \<Rightarrow> vfs \<Rightarrow> addr list \<Rightarrow> nat option res" where
  "child_at P s [] = Inr None"
| "child_at P s (v # vs) =
     kbind (kassert (v \<noteq> 0)) (\<lambda>_.
     kbind (get_obj (tobjs s) v) (\<lambda>obj.
       if P (to_name obj) then Inr (Some 0)
       else kbind (child_at P s vs) (\<lambda>r. Inr (map_option Suc r))))"

definition same_prefix :: "cstr \<Rightarrow> cstr \<Rightarrow> bool" where
  "same_prefix name child \<longleftrightarrow> take (length name) child = name"

definition tmpfs_finddir :: "addr \<Rightarrow> cstr \<Rightarrow> vfs \<Rightarrow> (addr option \<times> vfs) res" where
  "tmpfs_finddir n name s =
     kbind (tmpfs_obj n s) (\<lambda>(a, obj).
       case to_childs obj of
         None \<Rightarrow> Inl AssertFailed
       | Some l \<Rightarrow>
           kbind (child_at (same_prefix name) s l) (\<lambda>r.
             case r of None \<Rightarrow> Inr (None, s)
             | Some i \<Rightarrow> kbind (fs_node_from_tmpfs (l ! i) s) (\<lambda>(f, s). Inr (Some f, s))))"

definition tmpfs_unlink :: "addr \<Rightarrow> cstr \<Rightarrow> vfs \<Rightarrow> (int \<times> vfs) res" where
  "tmpfs_unlink n name s =
     kbind (tmpfs_obj n s) (\<lambda>(a, obj).
       case to_childs obj of
         None \<Rightarrow> Inl AssertFailed
       | Some l \<Rightarrow>
           kbind (child_at (same_prefix name) s l) (\<lambda>r.
             case r of None \<Rightarrow> Inr (-1, s)
             | Some i \<Rightarrow>
                 kbind (get_obj (tobjs s) (l ! i)) (\<lambda>v.
                 let s = s\<lparr>tobjs := (tobjs s)(l ! i \<mapsto> v\<lparr>to_refcount := to_refcount v - 1\<rparr>)\<rparr>
                 in kbind (if to_refcount v - 1 = 0 then tmpfs_destroy_object (l ! i) s else Inr s) (\<lambda>s.
                    kbind (get_obj (tobjs s) a) (\<lambda>obj.
                    Inr (0, s\<lparr>tobjs := (tobjs s)(a \<mapsto> obj\<lparr>to_childs := Some (take i l @ drop (i + 1) l)\<rparr>)\<rparr>))))))"

definition tmpfs_add :: "u32 \<Rightarrow> addr \<Rightarrow> cstr \<Rightarrow> vfs \<Rightarrow> vfs res" where
  "tmpfs_add flags n name s =
     kbind (tmpfs_obj n s) (\<lambda>(a, obj).
       case to_childs obj of
         None \<Rightarrow> Inl AssertFailed
       | Some l \<Rightarrow>
           kbind (child_at (\<lambda>c. c = name) s l) (\<lambda>r.
             case r of Some _ \<Rightarrow> Inr s
             | None \<Rightarrow>
                 let (nobj, s) = tmpfs_create_obj name flags s
                 in kbind (get_obj (tobjs s) nobj) (\<lambda>no.
                    Inr (s\<lparr>tobjs := (tobjs s)(nobj \<mapsto> no\<lparr>to_refcount := to_refcount no + 1\<rparr>,
                                              a \<mapsto> obj\<lparr>to_childs := Some (l @ [nobj])\<rparr>)\<rparr>))))"

definition tmpfs_mkdir :: "addr \<Rightarrow> cstr \<Rightarrow> vfs \<Rightarrow> vfs res" where
  "tmpfs_mkdir = tmpfs_add FS_NODE_DIRECTORY"

definition tmpfs_create :: "addr \<Rightarrow> cstr \<Rightarrow> vfs \<Rightarrow> vfs res" where
  "tmpfs_create = tmpfs_add FS_NODE_FILE"

section \<open>ramdisk, null and zero\<close>

text \<open>Both directions clamp the size in the same way.\<close>

definition rd_size :: "fs_node \<Rightarrow> u32 \<Rightarrow> u32 \<Rightarrow> u32" where
  "rd_size nd offset size' =
     (if nd_length nd < offset then 0
      else if nd_length nd < offset + size' then nd_length nd - offset else size')"

definition ramdisk_read :: "addr \<Rightarrow> u32 \<Rightarrow> u32 \<Rightarrow> vfs \<Rightarrow> (u32 \<times> u8 list) res" where
  "ramdisk_read n offset size' s =
     kbind (get_obj (nodes s) n) (\<lambda>nd.
     let len = rd_size nd offset size'
     in Inr (len, map (\<lambda>i. v_mem s (of_nat (nd_object nd) + offset + of_nat i)) [0..<unat len]))"

definition ramdisk_write :: "addr \<Rightarrow> u32 \<Rightarrow> u8 list \<Rightarrow> vfs \<Rightarrow> (u32 \<times> vfs) res" where
  "ramdisk_write n offset bytes s =
     kbind (get_obj (nodes s) n) (\<lambda>nd.
     let len = rd_size nd offset (of_nat (length bytes)); base = of_nat (nd_object nd) + offset
     in Inr (len, s\<lparr>v_mem := (\<lambda>x. if x - base < len then bytes ! unat (x - base) else v_mem s x)\<rparr>))"

definition RAMDISK :: cstr where "RAMDISK = [114, 97, 109, 100, 105, 115, 107]"
definition NULL_NAME :: cstr where "NULL_NAME = [110, 117, 108, 108]"
definition ZERO_NAME :: cstr where "ZERO_NAME = [122, 101, 114, 111]"

definition ramdisk_init :: "addr \<Rightarrow> u32 \<Rightarrow> vfs \<Rightarrow> addr \<times> vfs" where
  "ramdisk_init ptr len =
     fs_node_new (\<lambda>f. f\<lparr>nd_name := RAMDISK, nd_read := Some Ramdisk_read, nd_write := Some Ramdisk_write,
       nd_open := Some Ramdisk_open, nd_close := Some Ramdisk_close, nd_length := len, nd_object := ptr\<rparr>)"

definition null_read :: "u32 \<Rightarrow> (u32 \<times> u8 list) res" where
  "null_read size' = Inr (0, [])"

definition null_write :: "u8 list \<Rightarrow> vfs \<Rightarrow> (u32 \<times> vfs) res" where
  "null_write bytes s = Inr (of_nat (length bytes), s)"

text \<open>\<open>memset\<close> asserts that its length is not zero.\<close>

definition zero_read :: "u32 \<Rightarrow> (u32 \<times> u8 list) res" where
  "zero_read size' = kbind (kassert (size' \<noteq> 0)) (\<lambda>_. Inr (size', replicate (unat size') 0))"

definition null_create :: "vfs \<Rightarrow> addr \<times> vfs" where
  "null_create = fs_node_new (\<lambda>f. f\<lparr>nd_name := NULL_NAME, nd_flags := FS_NODE_CHARDEVICE,
     nd_read := Some Null_read, nd_write := Some Null_write\<rparr>)"

definition zero_create :: "vfs \<Rightarrow> addr \<times> vfs" where
  "zero_create = fs_node_new (\<lambda>f. f\<lparr>nd_name := ZERO_NAME, nd_flags := FS_NODE_CHARDEVICE,
     nd_read := Some Zero_read, nd_write := Some Null_write\<rparr>)"

end
