(* ===== verification/Numstr.thy ===== *)
theory Numstr
  imports Prelude
begin

text \<open>
  Numbers as strings: \<open>utoa\<close> and \<open>itoa\<close> of src/kernel/misc/itoa.c, \<open>oct2bin\<close> of
  src/kernel/misc/oct2bin.c. The caller's buffer is a list of bytes; a store outside it is a fault.
\<close>

text \<open>The character at index \<open>35 + d\<close> of the table in \<open>utoa\<close>.\<close>

definition digit_char :: "nat \<Rightarrow> u8" where
  "digit_char d = (if d < 10 then of_nat (48 + d) else of_nat (87 + d))"

lemma div_decreases: "(v :: nat) div base \<noteq> 0 \<Longrightarrow> \<not> base < 2 \<Longrightarrow> v div base < v"
  by (cases v) (auto intro: div_less_dividend)

text \<open>The loop over the digits. \<open>utoa\<close> enters it with a base of at least 2; with a smaller one it would
  not end.\<close>

function ut_digits :: "nat \<Rightarrow> nat \<Rightarrow> nat \<Rightarrow> u8 list \<Rightarrow> (nat \<times> u8 list) res" where
  "ut_digits value base i str =
     (if base < 2 then Inl Diverges
      else kbind (kstore str i (digit_char (value mod base))) (\<lambda>str.
             if value div base \<noteq> 0 then ut_digits (value div base) base (i + 1) str
             else Inr (i + 1, str)))"
  by pat_completeness auto
termination
  by (relation "measure (\<lambda>(value, base, i, str). value)") (use div_decreases in auto)

function ut_pad :: "int \<Rightarrow> nat \<Rightarrow> u8 list \<Rightarrow> (nat \<times> u8 list) res" where
  "ut_pad width i str =
     (if int i < width then kbind (kstore str i 48) (ut_pad width (i + 1)) else Inr (i, str))"
  by pat_completeness auto
termination by (relation "measure (\<lambda>(width, i, str). nat (width - int i))") auto

function ut_rev :: "nat \<Rightarrow> nat \<Rightarrow> u8 list \<Rightarrow> u8 list res" where
  "ut_rev j i str =
     (if j < i
      then kbind (kload str j) (\<lambda>c.
           kbind (kload str i) (\<lambda>d.
           kbind (kstore str j d) (\<lambda>str.
           kbind (kstore str i c) (ut_rev (j + 1) (i - 1)))))
      else Inr str)"
  by pat_completeness auto
termination by (relation "measure (\<lambda>(j, i, str). i - j)") auto

declare ut_digits.simps [simp del] ut_pad.simps [simp del] ut_rev.simps [simp del]

text \<open>\<open>None\<close> is the return value NULL.\<close>

definition utoa :: "u32 \<Rightarrow> u8 list \<Rightarrow> int \<Rightarrow> int \<Rightarrow> (unit option \<times> u8 list) res" where
  "utoa value str base width =
     (if base < 2 \<or> 36 < base then kbind (kstore str 0 0) (\<lambda>str. Inr (None, str))
      else kbind (ut_digits (unat value) (nat base) 0 str) (\<lambda>(i, str).
           kbind (ut_pad width i str) (\<lambda>(i, str).
           kbind (kstore str i 0) (\<lambda>str.
           kbind (ut_rev 0 (i - 1) str) (\<lambda>str. Inr (Some (), str))))))"

definition itoa :: "u32 \<Rightarrow> u8 list \<Rightarrow> int \<Rightarrow> int \<Rightarrow> (unit option \<times> u8 list) res" where
  "itoa num str base width =
     (if base = 10 \<and> sint num < 0
      then kbind (kstore str 0 45) (\<lambda>str.
           kbind (utoa (- num) (tl str) base width) (\<lambda>(r, rest). Inr (r, hd str # rest)))
      else utoa num str base width)"

fun oct2bin_loop :: "u8 list \<Rightarrow> u32 \<Rightarrow> u32" where
  "oct2bin_loop [] r = r"
| "oct2bin_loop (c # str) r =
     (if c = 0 then r
      else oct2bin_loop str (push_bit 3 r + (if 48 \<le> c \<and> c \<le> 55 then ucast (c - 48) else 0)))"

definition oct2bin :: "u8 list \<Rightarrow> nat \<Rightarrow> u32" where
  "oct2bin str n = oct2bin_loop (take n str) 0"

section \<open>The digits\<close>

text \<open>The reference: the digits of a number, least significant first.\<close>

function digits :: "nat \<Rightarrow> nat \<Rightarrow> nat list" where
  "digits base v = (if base < 2 then [] else v mod base # (if v div base \<noteq> 0 then digits base (v div base) else []))"
  by pat_completeness auto
termination
  by (relation "measure (\<lambda>(base, v). v)") (use div_decreases in auto)

declare digits.simps [simp del]

fun digits_value :: "nat \<Rightarrow> nat list \<Rightarrow> nat" where
  "digits_value base [] = 0"
| "digits_value base (d # ds) = d + base * digits_value base ds"

lemma digits_value_digits: "2 \<le> base \<Longrightarrow> digits_value base (digits base v) = v"
proof (induction base v rule: digits.induct)
  case (1 base v)
  then show ?case by (subst digits.simps) (auto simp: div_eq_0_iff)
qed

lemma digits_less: "2 \<le> base \<Longrightarrow> d \<in> set (digits base v) \<Longrightarrow> d < base"
proof (induction base v rule: digits.induct)
  case (1 base v)
  have "d = v mod base \<or> v div base \<noteq> 0 \<and> d \<in> set (digits base (v div base))"
    using "1.prems" by (subst (asm) digits.simps) (auto split: if_splits)
  then show ?case using "1.IH" "1.prems"(1) by auto
qed

lemma digits_length: "2 \<le> base \<Longrightarrow> v < 2 ^ n \<Longrightarrow> 0 < n \<Longrightarrow> length (digits base v) \<le> n \<and> digits base v \<noteq> []"
proof (induction n arbitrary: v)
  case (Suc n)
  show ?case
  proof (cases "v div base = 0")
    case True
    then show ?thesis using Suc.prems by (subst (1 2) digits.simps) auto
  next
    case False
    have lt: "v div base < 2 ^ n" using Suc.prems by (metis div_le_mono2 le_less_trans less_mult_imp_div_less power_Suc2 zero_less_numeral)
    moreover have "0 < n" using lt False by (cases n) auto
    ultimately have "length (digits base (v div base)) \<le> n" using Suc.IH Suc.prems by blast
    then show ?thesis using False Suc.prems by (subst (1 2) digits.simps) auto
  qed
qed simp

lemma digits_value_append: "digits_value b (xs @ ys) = digits_value b xs + b ^ length xs * digits_value b ys"
  by (induction xs) (auto simp: algebra_simps)

lemma digits_value_zeros: "digits_value b (replicate k 0) = 0"
  by (induction k) auto

text \<open>The loops: the digits are stored from the front, then zeros up to the width, then all of it is
  reversed.\<close>

lemma ut_digits_ok:
  "2 \<le> base \<Longrightarrow> i + length (digits base v) \<le> length str \<Longrightarrow>
   ut_digits v base i str = Inr (i + length (digits base v),
     take i str @ map digit_char (digits base v) @ drop (i + length (digits base v)) str)"
proof (induction base v arbitrary: i str rule: digits.induct)
  case (1 base v)
  have d: "digits base v = v mod base # (if v div base \<noteq> 0 then digits base (v div base) else [])"
    using "1.prems"(1) by (subst digits.simps) simp
  then have i: "i < length str" using "1.prems"(2) by simp
  have up: "take (Suc i) (str[i := x]) = take i str @ [x]" "drop (Suc (i + k)) (str[i := x]) = drop (Suc (i + k)) str" for x k
    using i by (simp_all add: take_Suc_conv_app_nth)
  show ?case
  proof (cases "v div base = 0")
    case True
    then show ?thesis using d i "1.prems"(1) up(2) [of 0] by (subst ut_digits.simps) (simp add: upd_conv_take_nth_drop)
  next
    case False
    note IH = "1.IH" [OF _ False, of "Suc i" "str[i := digit_char (v mod base)]"]
    show ?thesis using False d i "1.prems" IH up
      by (subst ut_digits.simps) simp
  qed
qed

lemma ut_pad_ok:
  "i \<le> length str \<Longrightarrow> nat width \<le> length str \<Longrightarrow>
   ut_pad width i str = Inr (max i (nat width), take i str @ replicate (nat width - i) 48 @ drop (max i (nat width)) str)"
proof (induction width i str rule: ut_pad.induct)
  case (1 width i str)
  show ?case
  proof (cases "int i < width")
    case True
    then have i: "i < length str" "i < nat width" using "1.prems" by auto
    have up: "take (Suc i) (str[i := x]) = take i str @ [x]" "drop (nat width) (str[i := x]) = drop (nat width) str" for x
      using i by (simp_all add: take_Suc_conv_app_nth)
    have "nat width - i = Suc (nat width - Suc i)" using i by simp
    then have "replicate (nat width - i) (48 :: u8) = 48 # replicate (nat width - Suc i) 48" by simp
    then show ?thesis using True i "1.IH" [OF True, of "str[i := 48]"] "1.prems"(2) up
      by (subst ut_pad.simps) (simp add: max_def)
  next
    case False
    then have "nat width \<le> i" by simp
    then show ?thesis using False by (subst ut_pad.simps) (simp add: max_def)
  qed
qed

lemma ut_rev_ok:
  "i < length str \<Longrightarrow> j \<le> Suc i \<Longrightarrow>
   ut_rev j i str = Inr (take j str @ rev (take (Suc i - j) (drop j str)) @ drop (Suc i) str)"
proof (induction j i str rule: ut_rev.induct)
  case (1 j i str)
  show ?case
  proof (cases "j < i")
    case False
    then have "Suc i - j \<le> 1" by simp
    then have "rev (take (Suc i - j) (drop j str)) = take (Suc i - j) (drop j str)"
      by (cases "drop j str") (auto simp: take_Cons' le_Suc_eq)
    then show ?thesis using False "1.prems" by (subst ut_rev.simps) (simp add: append_assoc [symmetric] take_add [symmetric])
  next
    case True
    define A M B where "A = take j str" and "M = take (i - Suc j) (drop (Suc j) str)" and "B = drop (Suc i) str"
    let ?c = "str ! j" and ?d = "str ! i"
    have len: "length A = j" "length M = i - Suc j" using True "1.prems" by (simp_all add: A_def M_def)
    have "drop (Suc j) str = M @ drop (i - Suc j) (drop (Suc j) str)"
      unfolding M_def by (rule append_take_drop_id [symmetric])
    moreover have "drop (i - Suc j) (drop (Suc j) str) = ?d # B" using True "1.prems" by (simp add: B_def Cons_nth_drop_Suc)
    ultimately have str: "str = A @ ?c # M @ ?d # B"
      using True "1.prems" by (metis A_def id_take_nth_drop less_trans)
    have i: "i = Suc (length A + length M)" using len True by simp
    have swap: "(str[j := ?d])[i := ?c] = A @ ?d # M @ ?c # B"
      by (subst (1) str) (simp add: i len(1) [symmetric] list_update_append)
    have goal: "take (Suc i - j) (drop j str) = ?c # M @ [?d]" "take j str = A" "drop (Suc i) str = B"
      by (subst str, simp add: i len(1) [symmetric])+
    have IH: "ut_rev (Suc j) (i - 1) (A @ ?d # M @ ?c # B) = Inr (A @ ?d # rev M @ ?c # B)"
      using "1.IH" [OF True, of ?c ?d "str[j := ?d]" "A @ ?d # M @ ?c # B"] "1.prems" True swap
      by (simp add: i len(1) [symmetric])
    have "ut_rev j i str = ut_rev (Suc j) (i - 1) ((str[j := ?d])[i := ?c])"
      using True "1.prems" by (subst ut_rev.simps) simp
    then show ?thesis unfolding swap IH goal by simp
  qed
qed

lemma ut_rev_all: "z \<noteq> [] \<Longrightarrow> ut_rev 0 (length z - 1) (z @ rest) = Inr (rev z @ rest)"
  using ut_rev_ok [of "length z - 1" "z @ rest" 0] by (cases z) auto

text \<open>The string of a number: its digits, with zeros in front up to the width.\<close>

definition number_string :: "nat \<Rightarrow> nat \<Rightarrow> nat \<Rightarrow> u8 list" where
  "number_string base width v = map digit_char (rev (digits base v @ replicate (width - length (digits base v)) 0))"

lemma number_string_length: "length (number_string base width v) = max (length (digits base v)) width"
  by (simp add: number_string_def)

lemma utoa_ok:
  assumes "2 \<le> base" "base \<le> 36" and k: "length (number_string (nat base) (nat width) (unat v)) < length str"
  shows "utoa v str base width =
    Inr (Some (), number_string (nat base) (nat width) (unat v) @
                  0 # drop (length (number_string (nat base) (nat width) (unat v)) + 1) str)"
proof -
  let ?b = "nat base" and ?w = "nat width"
  let ?ds = "digits ?b (unat v)" and ?k = "max (length (digits (nat base) (unat v))) (nat width)"
  have k': "?k < length str" using k by (simp add: number_string_length)
  have b: "2 \<le> ?b" using assms(1) by simp
  let ?s1 = "map digit_char ?ds @ drop (length ?ds) str"
  have d: "ut_digits (unat v) ?b 0 str = Inr (length ?ds, ?s1)" using ut_digits_ok [OF b, of 0 "unat v" str] k' by simp
  let ?z = "map digit_char (?ds @ replicate (?w - length ?ds) 0)"
  have zl: "length ?z = ?k" by simp
  have z0: "digit_char 0 = 48" by (simp add: digit_char_def)
  have p: "ut_pad width (length ?ds) ?s1 = Inr (?k, ?z @ drop ?k str)"
  proof -
    have "ut_pad width (length ?ds) ?s1 = Inr (?k, take (length ?ds) ?s1 @ replicate (?w - length ?ds) 48 @ drop ?k ?s1)"
      by (rule ut_pad_ok) (use k' in auto)
    moreover have "drop ?k ?s1 = drop ?k str" by simp
    ultimately show ?thesis by (simp add: z0 map_replicate_const)
  qed
  let ?s3 = "(?z @ drop ?k str)[?k := 0]"
  have s3: "?s3 = ?z @ 0 # drop (Suc ?k) str"
    using k' zl by (metis Cons_nth_drop_Suc list_update_length)
  have ne: "0 < ?k" using digits_length [OF b, of "unat v" 32] unsigned_less [of v, where 'a = nat] by (simp add: less_max_iff_disj)
  have "?z \<noteq> []" using zl ne by (metis length_0_conv less_irrefl)
  from ut_rev_all [OF this, of "0 # drop (Suc ?k) str"]
  have "ut_rev 0 (?k - 1) ?s3 = Inr (rev ?z @ 0 # drop (Suc ?k) str)" unfolding s3 zl .
  moreover have "rev ?z = number_string ?b ?w (unat v)" by (simp add: number_string_def rev_map)
  moreover have "?k < length (?z @ drop ?k str)" unfolding length_append zl using k' by simp
  then have "kstore (?z @ drop ?k str) ?k 0 = Inr ?s3" by (rule kstore_in)
  ultimately show ?thesis using assms(1,2) d p by (simp add: utoa_def number_string_length del: list_update_append)
qed

lemma oct2bin_loop_value:
  assumes "\<forall>d \<in> set ds. d < 8"
  shows "oct2bin_loop (map digit_char (rev ds) @ 0 # rest) r = of_nat (digits_value 8 ds) + r * 8 ^ length ds"
  using assms
proof (induction ds arbitrary: r rest rule: rev_induct)
  case (snoc d ds)
  have d: "d < 8" using snoc.prems by simp
  have u: "unat (digit_char d) = 48 + d" using d by (simp add: digit_char_def unat_of_nat del: of_nat_add)
  have c: "digit_char d \<noteq> 0" "48 \<le> digit_char d" "digit_char d \<le> 55" using u d by (auto simp: word_le_nat_alt)
  have "digit_char d - 48 = of_nat d" using d by (simp add: digit_char_def)
  then have e: "ucast (digit_char d - 48) = (of_nat d :: u32)" using d by (simp add: word_unat_eq_iff unsigned_ucast_eq unat_of_nat take_bit_eq_mod)
  have "oct2bin_loop (map digit_char (rev ds) @ 0 # rest) (push_bit 3 r + of_nat d) =
      of_nat (digits_value 8 ds) + (r * 8 + of_nat d) * 8 ^ length ds"
    using snoc by (simp add: push_bit_eq_mult)
  then show ?case using c e by (simp add: digits_value_append algebra_simps)
qed simp

section \<open>Properties\<close>

text \<open>For every base the code accepts, a buffer of 33 bytes that is longer than the width is enough:
  \<open>utoa\<close> stays inside it, writes a terminated string of at most \<open>max 32 width\<close> characters and leaves
  the rest of the buffer alone.\<close>

lemma utoa_in_bounds:
  assumes "2 \<le> base" "base \<le> 36" "33 \<le> length str" "width < int (length str)"
  shows "\<exists>s. utoa v str base width = Inr (Some (), s @ 0 # drop (length s + 1) str) \<and> s \<noteq> [] \<and>
    length s \<le> max 32 (nat width) \<and> length (s @ 0 # drop (length s + 1) str) = length str"
proof -
  let ?s = "number_string (nat base) (nat width) (unat v)"
  have "unat v < 2 ^ 32" using unsigned_less [of v, where 'a = nat] by simp
  then have l: "length (digits (nat base) (unat v)) \<le> 32" "digits (nat base) (unat v) \<noteq> []"
    using digits_length [of "nat base" "unat v" 32] assms(1) by auto
  then have "length ?s < length str" "length ?s \<le> max 32 (nat width)" "?s \<noteq> []"
    using assms(3,4) by (auto simp: number_string_length number_string_def)
  then show ?thesis using utoa_ok [OF assms(1,2)] by (intro exI [of _ ?s]) auto
qed

text \<open>Writing a number in octal and reading it back is the identity, whatever the width, as long as
  the buffer holds it: \<open>oct2bin\<close> inverts \<open>utoa\<close>.\<close>

lemma oct2bin_utoa:
  assumes "33 \<le> length str" "width < int (length str)"
  shows "\<exists>str'. utoa v str 8 width = Inr (Some (), str') \<and> oct2bin str' (length str') = v"
proof -
  let ?ds = "digits 8 (unat v) @ replicate (nat width - length (digits 8 (unat v))) 0"
  have "unat v < 2 ^ 32" using unsigned_less [of v, where 'a = nat] by simp
  then have "length (digits 8 (unat v)) \<le> 32" using digits_length [of 8 "unat v" 32] by auto
  then have l: "length (number_string (nat 8) (nat width) (unat v)) < length str"
    using assms by (simp add: number_string_length)
  have "\<forall>d \<in> set ?ds. d < 8" using digits_less [of 8] by auto
  then have "oct2bin_loop (number_string 8 (nat width) (unat v) @ 0 # rest) 0 = of_nat (digits_value 8 ?ds)" for rest
    using oct2bin_loop_value [of ?ds] by (simp add: number_string_def)
  moreover have "digits_value 8 ?ds = unat v"
    by (simp add: digits_value_append digits_value_zeros digits_value_digits)
  ultimately show ?thesis using utoa_ok [OF _ _ l] by (simp add: oct2bin_def)
qed

end
