(* ===== verification/Tar.thy ===== *)
theory Tar
  imports Vfs Numstr
begin

text \<open>
  The tar file system, src/kernel/tar.c. The operations read their device through \<open>fs_read\<close>; here
  \<open>rd\<close> is that call with the device given, \<open>rd offset size\<close>. A header is the list of its 512 bytes,
  and its fields are slices of it. The loop over the entries (\<open>tar_foreach_entry\<close>) visits
  positions that are multiples of 512 modulo \<open>2^32\<close>, so after \<open>2^23\<close> steps it has been somewhere
  twice; since it keeps no other state it then runs forever, and that is the value \<open>Diverges\<close>.
\<close>

type_synonym reader = "u32 \<Rightarrow> u32 \<Rightarrow> (u32 \<times> u8 list) res"

text \<open>A C string that starts at a position of the header.\<close>

definition str_at :: "u8 list \<Rightarrow> nat \<Rightarrow> cstr" where
  "str_at hdr i = takeWhile (\<lambda>c. c \<noteq> 0) (drop i hdr)"

definition hdr_name :: "u8 list \<Rightarrow> u8 list" where "hdr_name hdr = take 100 hdr"
definition hdr_fsize :: "u8 list \<Rightarrow> u8 list" where "hdr_fsize hdr = take 12 (drop 124 hdr)"
definition hdr_type :: "u8 list \<Rightarrow> u8" where "hdr_type hdr = hdr ! 156"
definition hdr_linked_name :: "u8 list \<Rightarrow> cstr" where "hdr_linked_name hdr = str_at hdr 157"

definition tar_entry_length :: "u8 list \<Rightarrow> u32" where
  "tar_entry_length hdr = ((oct2bin (hdr_fsize hdr) 12 + 511) div 512 + 1) * 512"

definition TAR_STEPS :: nat where "TAR_STEPS = 2 ^ 23"

text \<open>\<open>body\<close> is the body of the loop: it returns from the function (\<open>Inl\<close>) or goes on with the state
  that is local to the loop (\<open>Inr\<close>).\<close>

fun tar_foreach :: "nat \<Rightarrow> reader \<Rightarrow> (u32 \<Rightarrow> u8 list \<Rightarrow> 'l \<Rightarrow> ('r + 'l) res) \<Rightarrow> u32 \<Rightarrow> 'l \<Rightarrow> 'r option res" where
  "tar_foreach 0 rd body ptr l = Inl Diverges"
| "tar_foreach (Suc steps) rd body ptr l =
     kbind (rd ptr 512) (\<lambda>(s, hdr).
       if s \<noteq> 512 then Inr None
       else kbind (body ptr hdr l) (\<lambda>r.
              case r of Inl x \<Rightarrow> Inr (Some x)
              | Inr l \<Rightarrow> tar_foreach steps rd body (ptr + tar_entry_length hdr) l))"

text \<open>\<open>tar_lookup\<close>: the name in the header is the name asked for, or that with a slash behind it. \<open>None\<close>
  is the return value \<open>-1\<close>.\<close>

definition tar_match :: "cstr \<Rightarrow> u8 list \<Rightarrow> bool" where
  "tar_match fname hdr \<longleftrightarrow>
     (let n = length fname; name = hdr_name hdr
      in take n name = fname \<and> (name ! n = 0 \<or> name ! n = SLASH \<and> name ! (n + 1) = 0))"

definition tar_lookup :: "reader \<Rightarrow> cstr \<Rightarrow> (u32 \<times> u8 list) option res" where
  "tar_lookup rd fname =
     (if 98 < length fname then Inr None
      else tar_foreach TAR_STEPS rd
             (\<lambda>ptr hdr _. Inr (if tar_match fname hdr then Inl (ptr, hdr) else Inr ())) 0 ())"

text \<open>\<open>tar_create_obj_from_header\<close>: a directory whose name is empty would read in front of the name.\<close>

definition tar_flags :: "u8 list \<Rightarrow> u32" where
  "tar_flags hdr =
     (if hdr_type hdr = 0 \<or> hdr_type hdr = 48 then FS_NODE_FILE
      else if hdr_type hdr = 50 then FS_NODE_SYMLINK
      else if hdr_type hdr = 53 then FS_NODE_DIRECTORY
      else 0)"

definition tar_create_obj_from_header :: "addr \<Rightarrow> u8 list \<Rightarrow> u32 \<Rightarrow> vfs \<Rightarrow> (addr \<times> vfs) res" where
  "tar_create_obj_from_header device hdr offset s =
     (let name = take 100 (str_at hdr 0); flags = tar_flags hdr
      in kbind (if flags AND FS_NODE_DIRECTORY \<noteq> 0
                then if name = [] then Inl MemFault
                     else Inr (if last name = SLASH then butlast name else name)
                else Inr name) (\<lambda>name.
         Inr (v_next s,
              s\<lparr>tars := (tars s)(v_next s \<mapsto> \<lparr>ta_device = device, ta_name = name, ta_offset = offset, ta_flags = flags,
                                              ta_length = oct2bin (hdr_fsize hdr) 12\<rparr>),
                v_next := v_next s + 1\<rparr>)))"

text \<open>\<open>fs_node_from_tar\<close>: the copying loop stops as soon as the byte behind the copy is zero; the name of a
  new node is all zeros, so that is after the first component of the path.\<close>

definition tar_node :: "tar_obj \<Rightarrow> addr \<Rightarrow> fs_node \<Rightarrow> fs_node" where
  "tar_node obj a f = f\<lparr>nd_name := take (path_element_size (ta_name obj)) (ta_name obj), nd_flags := ta_flags obj,
     nd_object := a, nd_open := Some Tar_open, nd_close := Some Tar_close, nd_readdir := Some Tar_readdir,
     nd_finddir := Some Tar_finddir, nd_read := Some Tar_read, nd_readlink := Some Tar_readlink,
     nd_length := ta_length obj\<rparr>"

definition fs_node_from_tar :: "addr \<Rightarrow> vfs \<Rightarrow> (addr \<times> vfs) res" where
  "fs_node_from_tar a s = kbind (get_obj (tars s) a) (\<lambda>obj. Inr (fs_node_new (tar_node obj a) s))"

text \<open>\<open>node->object\<close> of a tar node.\<close>

definition tar_object :: "addr \<Rightarrow> vfs \<Rightarrow> (fs_node \<times> tar_obj) res" where
  "tar_object n s =
     kbind (get_obj (nodes s) n) (\<lambda>nd.
     kbind (kassert (nd_object nd \<noteq> 0)) (\<lambda>_.
     kbind (get_obj (tars s) (nd_object nd)) (\<lambda>obj. Inr (nd, obj))))"

definition tar_read :: "(addr \<Rightarrow> reader) \<Rightarrow> addr \<Rightarrow> u32 \<Rightarrow> u32 \<Rightarrow> vfs \<Rightarrow> (u32 \<times> u8 list) res" where
  "tar_read rd n offset size' s =
     kbind (tar_object n s) (\<lambda>(nd, obj).
       if nd_length nd < offset then Inr (0, [])
       else rd (ta_device obj) (ta_offset obj + 512 + offset)
              (if nd_length nd < offset + size' then nd_length nd - offset else size'))"

definition tar_close :: "addr \<Rightarrow> vfs \<Rightarrow> vfs res" where
  "tar_close n s =
     kbind (get_obj (nodes s) n) (\<lambda>nd.
     kbind (get_obj (tars s) (nd_object nd)) (\<lambda>_. Inr (s\<lparr>tars := (tars s)(nd_object nd := None)\<rparr>)))"

text \<open>The body of the loop of \<open>tar_readdir\<close>, with the counter of the entries of the directory. \<open>subname\<close>
  is an array of 100 bytes; a name that fills it has no terminator.\<close>

definition tar_rd_body :: "cstr \<Rightarrow> u32 \<Rightarrow> u8 list \<Rightarrow> u32 \<Rightarrow> (dirent + u32) res" where
  "tar_rd_body fname i hdr j =
     (if take 3 (hdr_name hdr) = [46, 47, 0] then Inr (Inr j)
      else if take (length fname) (hdr_name hdr) = fname
      then let k = (if hdr ! length fname = SLASH then length fname + 1 else length fname);
               subname = take 100 (str_at hdr k); plen = path_element_size subname
           in if subname = [] then Inr (Inr j)
              else if length subname = 100 \<and> 99 \<le> plen then Inl MemFault
              else if plen < length subname \<and> plen + 1 < length subname then Inr (Inr j)
              else if j + 1 = i then Inr (Inl (i, take plen subname))
              else Inr (Inr (j + 1))
      else Inr (Inr j))"

definition tar_readdir :: "(addr \<Rightarrow> reader) \<Rightarrow> addr \<Rightarrow> u32 \<Rightarrow> vfs \<Rightarrow> dirent option res" where
  "tar_readdir rd n i s =
     kbind (tar_object n s) (\<lambda>(nd, obj).
     kbind (kassert (ta_device obj \<noteq> 0)) (\<lambda>_.
       if i = 0 then Inr (Some (0, DOT))
       else if i = 1 then Inr (Some (1, DOTDOT))
       else tar_foreach TAR_STEPS (rd (ta_device obj)) (\<lambda>_. tar_rd_body (ta_name obj) i) 0 1))"

definition tar_path :: "cstr \<Rightarrow> cstr \<Rightarrow> cstr" where
  "tar_path dir name = (if dir = [] then name else dir @ SLASH # name)"

definition tar_make :: "addr \<Rightarrow> (u32 \<times> u8 list) option \<Rightarrow> vfs \<Rightarrow> (addr option \<times> vfs) res" where
  "tar_make device r s =
     (case r of
        None \<Rightarrow> Inr (None, s)
      | Some (off, hdr) \<Rightarrow>
          kbind (tar_create_obj_from_header device hdr off s) (\<lambda>(a, s).
          kbind (fs_node_from_tar a s) (\<lambda>(f, s). Inr (Some f, s))))"

definition tar_finddir :: "(addr \<Rightarrow> reader) \<Rightarrow> addr \<Rightarrow> cstr \<Rightarrow> vfs \<Rightarrow> (addr option \<times> vfs) res" where
  "tar_finddir rd n name s =
     kbind (get_obj (nodes s) n) (\<lambda>nd.
     kbind (get_obj (tars s) (nd_object nd)) (\<lambda>obj.
     kbind (tar_lookup (rd (ta_device obj)) (tar_path (ta_name obj) name)) (\<lambda>r. tar_make (ta_device obj) r s)))"

text \<open>\<open>tar_readlink\<close>: \<open>None\<close> is \<open>-1\<close>, \<open>Some\<close> the bytes copied, the terminating zero left out.\<close>

definition tar_readlink :: "(addr \<Rightarrow> reader) \<Rightarrow> addr \<Rightarrow> nat \<Rightarrow> vfs \<Rightarrow> cstr option res" where
  "tar_readlink rd n size' s =
     kbind (get_obj (nodes s) n) (\<lambda>nd.
     kbind (get_obj (tars s) (nd_object nd)) (\<lambda>obj.
     kbind (kassert (ta_flags obj AND FS_NODE_SYMLINK \<noteq> 0)) (\<lambda>_.
     kbind (rd (ta_device obj) (ta_offset obj) 512) (\<lambda>(k, hdr).
       if k \<noteq> 512 then Inr None
       else if size' < length (hdr_linked_name hdr) + 1 then Inr None
       else Inr (Some (hdr_linked_name hdr))))))"

section \<open>The loop over the entries\<close>

text \<open>A size field close to \<open>2^32\<close> makes the length of the entry wrap around to zero: the loop then reads
  the same header for ever.\<close>

lemma tar_foreach_stuck:
  assumes "rd ptr 512 = Inr (512, hdr)" "tar_entry_length hdr = 0" "body ptr hdr l = Inr (Inr l)"
  shows "tar_foreach steps rd body ptr l = Inl Diverges"
  using assms by (induction steps) auto

text \<open>A device as the loop sees it: reads are total, and a full header can be read only below its end.\<close>

definition device_ok :: "reader \<Rightarrow> nat \<Rightarrow> bool" where
  "device_ok rd len \<longleftrightarrow> (\<forall>ptr. \<exists>k bytes. rd ptr 512 = Inr (k, bytes) \<and> (k = 512 \<longrightarrow> unat ptr + 512 \<le> len))"

text \<open>Entries that do not reach beyond \<open>2^31\<close> bytes, on a device below \<open>2^31\<close>: the position grows by at
  least 512 and never wraps, so the loop ends within the steps given.\<close>

definition sizes_ok :: "reader \<Rightarrow> bool" where
  "sizes_ok rd \<longleftrightarrow> (\<forall>ptr k hdr. rd ptr 512 = Inr (k, hdr) \<longrightarrow> unat (oct2bin (hdr_fsize hdr) 12) < 2 ^ 31 - 1024)"

lemma unat_mult_512: "unat (w :: u32) < 2 ^ 22 \<Longrightarrow> unat (w * 512) = unat w * 512"
  by (simp add: unat_word_ariths(2))

lemma entry_length_ok:
  assumes "unat (oct2bin (hdr_fsize hdr) 12) < 2 ^ 31 - 1024"
  shows "512 \<le> unat (tar_entry_length hdr) \<and> unat (tar_entry_length hdr) < 2 ^ 31"
proof -
  define x where "x = oct2bin (hdr_fsize hdr) 12"
  define w where "w = (x + 511) div 512 + 1"
  have x: "unat x < 2 ^ 31 - 1024" using assms by (simp add: x_def)
  then have d: "unat ((x + 511) div 512) = (unat x + 511) div 512"
    by (simp add: unat_div_distrib unat_word_ariths(1))
  have b: "(unat x + 511) div 512 < 2 ^ 22 - 1" using x by (simp add: div_less_iff_less_mult)
  have w: "unat w = (unat x + 511) div 512 + 1" using b d by (simp add: w_def unat_word_ariths(1))
  have "tar_entry_length hdr = w * 512" by (simp add: tar_entry_length_def w_def x_def)
  moreover have "unat (w * 512) = unat w * 512" using b w by (intro unat_mult_512) simp
  ultimately show ?thesis using b w by simp
qed

lemma tar_foreach_ends:
  assumes d: "device_ok rd len" "len < 2 ^ 31" and z: "sizes_ok rd"
    and body: "\<And>ptr hdr l. \<exists>x. body ptr hdr l = Inr x"
    and steps: "len < unat ptr + 512 * steps"
  shows "\<exists>r. tar_foreach (Suc steps) rd body ptr l = Inr r"
  using steps
proof (induction steps arbitrary: ptr l)
  case 0
  obtain k hdr where r: "rd ptr 512 = Inr (k, hdr)" "k = 512 \<longrightarrow> unat ptr + 512 \<le> len"
    using d(1) unfolding device_ok_def by blast
  with 0 show ?case by auto
next
  case (Suc steps)
  obtain k hdr where r: "rd ptr 512 = Inr (k, hdr)" "k = 512 \<longrightarrow> unat ptr + 512 \<le> len"
    using d(1) unfolding device_ok_def by blast
  show ?case
  proof (cases "k = 512")
    case True
    let ?ptr = "ptr + tar_entry_length hdr"
    have e: "512 \<le> unat (tar_entry_length hdr)" "unat (tar_entry_length hdr) < 2 ^ 31"
      using entry_length_ok z r(1) unfolding sizes_ok_def by blast+
    have "unat ptr < 2 ^ 31" using True r(2) d(2) by linarith
    then have "unat ?ptr = unat ptr + unat (tar_entry_length hdr)" using e by (simp add: unat_word_ariths(1))
    then have "len < unat ?ptr + 512 * steps" using e Suc.prems by simp
    note IH = Suc.IH [OF this]
    obtain x where x: "body ptr hdr l = Inr x" using body by blast
    show ?thesis using IH r(1) x True by (subst tar_foreach.simps) (cases x; simp)
  qed (use r(1) in auto)
qed

text \<open>The positions a lookup visits, without a match before them.\<close>

inductive walked :: "reader \<Rightarrow> cstr \<Rightarrow> u32 \<Rightarrow> bool" for rd fname where
  walked_start: "walked rd fname 0"
| walked_next: "walked rd fname ptr \<Longrightarrow> rd ptr 512 = Inr (512, hdr) \<Longrightarrow> \<not> tar_match fname hdr \<Longrightarrow>
    walked rd fname (ptr + tar_entry_length hdr)"

definition lookup_ok :: "reader \<Rightarrow> cstr \<Rightarrow> (u32 \<times> u8 list) option \<Rightarrow> bool" where
  "lookup_ok rd fname r \<longleftrightarrow>
     (case r of
        Some (off, hdr) \<Rightarrow> walked rd fname off \<and> rd off 512 = Inr (512, hdr) \<and> tar_match fname hdr
      | None \<Rightarrow> \<exists>ptr k hdr. walked rd fname ptr \<and> rd ptr 512 = Inr (k, hdr) \<and> k \<noteq> 512)"

abbreviation lookup_body :: "cstr \<Rightarrow> u32 \<Rightarrow> u8 list \<Rightarrow> unit \<Rightarrow> ((u32 \<times> u8 list) + unit) res" where
  "lookup_body fname \<equiv> \<lambda>ptr hdr _. Inr (if tar_match fname hdr then Inl (ptr, hdr) else Inr ())"

lemma lookup_walk:
  "tar_foreach steps rd (lookup_body fname) ptr () = Inr r \<Longrightarrow> walked rd fname ptr \<Longrightarrow> lookup_ok rd fname r"
proof (induction steps arbitrary: ptr)
  case (Suc steps)
  obtain k hdr where k: "rd ptr 512 = Inr (k, hdr)" using Suc.prems by auto
  consider "k \<noteq> 512" | "k = 512" "tar_match fname hdr" | "k = 512" "\<not> tar_match fname hdr" by blast
  then show ?case
  proof cases
    case 1
    then have "r = None" using Suc.prems(1) k by simp
    then show ?thesis using 1 k Suc.prems(2) by (auto simp: lookup_ok_def)
  next
    case 2
    then have "r = Some (ptr, hdr)" using Suc.prems(1) k by simp
    then show ?thesis using 2 k Suc.prems(2) by (simp add: lookup_ok_def)
  next
    case 3
    then show ?thesis using Suc k walked_next [OF Suc.prems(2), of hdr] by simp
  qed
qed simp

lemma lookup_ends:
  assumes "device_ok rd len" "len < 2 ^ 31" "sizes_ok rd" "length fname \<le> 98"
  shows "\<exists>r. tar_lookup rd fname = Inr r \<and> lookup_ok rd fname r"
proof -
  have "len < unat (0 :: u32) + 512 * (2 ^ 23 - 1)" using assms(2) by simp
  then have "\<exists>r. tar_foreach (Suc (2 ^ 23 - 1)) rd (lookup_body fname) 0 () = Inr r"
    using tar_foreach_ends [OF assms(1,2,3), where body = "lookup_body fname" and ptr = 0] by blast
  then have "\<exists>r. tar_foreach TAR_STEPS rd (lookup_body fname) 0 () = Inr r" by (simp add: TAR_STEPS_def)
  then show ?thesis using lookup_walk [OF _ walked_start] assms(4) by (auto simp: tar_lookup_def)
qed

end
