(* ===== verification/Fs.thy ===== *)
theory Fs
  imports Tar
begin

text \<open>
  The file system switch of src/kernel/fs.c: reference counts of nodes and mounts, the operations
  that dispatch on a node's function pointers, the mount graph, and the search for a file by its
  path with its limit on nested symbolic links. A NULL pointer to a node or mount is the address 0.
  The open functions of all drivers (\<open>tmpfs_open\<close>, \<open>ramdisk_open\<close>, \<open>tar_open\<close>) do nothing.
\<close>

section \<open>Reading and writing\<close>

text \<open>A tar node reads from its device, which may be a node of another archive. A device exists before
  the nodes that are made from it, so a chain of devices is shorter than the number of addresses
  handed out; \<open>depth\<close> counts it down.\<close>

fun fs_read_rec :: "nat \<Rightarrow> vfs \<Rightarrow> addr \<Rightarrow> u32 \<Rightarrow> u32 \<Rightarrow> (u32 \<times> u8 list) res" where
  "fs_read_rec 0 s n offset size' = Inl Diverges"
| "fs_read_rec (Suc depth) s n offset size' =
     kbind (kassert (n \<noteq> 0)) (\<lambda>_.
     kbind (get_obj (nodes s) n) (\<lambda>nd.
       case nd_read nd of
         None \<Rightarrow> Inr (-1, [])
       | Some Tmpfs_read \<Rightarrow> tmpfs_read n offset size' s
       | Some Ramdisk_read \<Rightarrow> ramdisk_read n offset size' s
       | Some Null_read \<Rightarrow> null_read size'
       | Some Zero_read \<Rightarrow> zero_read size'
       | Some Tar_read \<Rightarrow> tar_read (fs_read_rec depth s) n offset size' s))"

definition fs_read :: "vfs \<Rightarrow> addr \<Rightarrow> u32 \<Rightarrow> u32 \<Rightarrow> (u32 \<times> u8 list) res" where
  "fs_read s = fs_read_rec (v_next s) s"

definition fs_write :: "addr \<Rightarrow> u32 \<Rightarrow> u8 list \<Rightarrow> vfs \<Rightarrow> (u32 \<times> vfs) res" where
  "fs_write n offset bytes s =
     kbind (kassert (n \<noteq> 0)) (\<lambda>_.
     kbind (get_obj (nodes s) n) (\<lambda>nd.
       case nd_write nd of
         None \<Rightarrow> Inr (-1, s)
       | Some Tmpfs_write \<Rightarrow> tmpfs_write n offset bytes s
       | Some Ramdisk_write \<Rightarrow> ramdisk_write n offset bytes s
       | Some Null_write \<Rightarrow> null_write bytes s))"

section \<open>Reference counts\<close>

definition close_fun :: "close_fn \<Rightarrow> addr \<Rightarrow> vfs \<Rightarrow> vfs res" where
  "close_fun c n s = (case c of Tmpfs_close \<Rightarrow> tmpfs_close n s | Ramdisk_close \<Rightarrow> Inr s | Tar_close \<Rightarrow> tar_close n s)"

definition fs_node_free :: "addr \<Rightarrow> vfs \<Rightarrow> vfs res" where
  "fs_node_free n s =
     kbind (kassert (n \<noteq> 0)) (\<lambda>_.
     kbind (get_obj (nodes s) n) (\<lambda>nd.
     kbind (kassert (nd_refcount nd = 0)) (\<lambda>_.
     kbind (case nd_close nd of None \<Rightarrow> Inr s | Some c \<Rightarrow> close_fun c n s) (\<lambda>s.
     Inr (s\<lparr>nodes := (nodes s)(n := None)\<rparr>)))))"

text \<open>The caller's pointer after the call comes first.\<close>

definition fs_node_release :: "addr \<Rightarrow> vfs \<Rightarrow> (addr \<times> vfs) res" where
  "fs_node_release n s =
     kbind (kassert (n \<noteq> 0)) (\<lambda>_.
     kbind (get_obj (nodes s) n) (\<lambda>nd.
       if 0 < nd_refcount nd
       then let s = s\<lparr>nodes := (nodes s)(n \<mapsto> nd\<lparr>nd_refcount := nd_refcount nd - 1\<rparr>)\<rparr>
            in if nd_refcount nd - 1 = 0 then kbind (fs_node_free n s) (\<lambda>s. Inr (0, s)) else Inr (n, s)
       else Inr (n, s)))"

definition fs_open :: "addr \<Rightarrow> vfs \<Rightarrow> vfs res" where
  "fs_open n s = fs_node_reference n s"

definition fs_close :: "addr \<Rightarrow> vfs \<Rightarrow> (addr \<times> vfs) res" where
  "fs_close n s = fs_node_release n s"

section \<open>Directories and links\<close>

text \<open>The node of a call that only directories answer.\<close>

definition dir_node :: "addr \<Rightarrow> vfs \<Rightarrow> fs_node option res" where
  "dir_node n s =
     kbind (kassert (n \<noteq> 0)) (\<lambda>_.
     kbind (get_obj (nodes s) n) (\<lambda>nd. Inr (if nd_flags nd AND FS_NODE_DIRECTORY \<noteq> 0 then Some nd else None)))"

definition fs_readdir :: "addr \<Rightarrow> u32 \<Rightarrow> vfs \<Rightarrow> dirent option res" where
  "fs_readdir n i s =
     kbind (dir_node n s) (\<lambda>d. case Option.bind d nd_readdir of
         None \<Rightarrow> Inr None
       | Some Tmpfs_readdir \<Rightarrow> tmpfs_readdir n i s
       | Some Tar_readdir \<Rightarrow> tar_readdir (fs_read s) n i s)"

definition finddir_fun :: "finddir_fn option \<Rightarrow> addr \<Rightarrow> cstr \<Rightarrow> vfs \<Rightarrow> (addr option \<times> vfs) res" where
  "finddir_fun d n name s =
     (case d of
        None \<Rightarrow> Inr (None, s)
      | Some Tmpfs_finddir \<Rightarrow> tmpfs_finddir n name s
      | Some Tar_finddir \<Rightarrow> tar_finddir (fs_read s) n name s)"

definition fs_finddir :: "addr \<Rightarrow> cstr \<Rightarrow> vfs \<Rightarrow> (addr option \<times> vfs) res" where
  "fs_finddir n name s = kbind (dir_node n s) (\<lambda>d. finddir_fun (Option.bind d nd_finddir) n name s)"

definition fs_create :: "addr \<Rightarrow> cstr \<Rightarrow> vfs \<Rightarrow> vfs res" where
  "fs_create n name s =
     kbind (dir_node n s) (\<lambda>d. case Option.bind d nd_create of None \<Rightarrow> Inr s | Some Tmpfs_create \<Rightarrow> tmpfs_create n name s)"

definition fs_unlink :: "addr \<Rightarrow> cstr \<Rightarrow> vfs \<Rightarrow> (int \<times> vfs) res" where
  "fs_unlink n name s =
     kbind (dir_node n s) (\<lambda>d. case Option.bind d nd_unlink of None \<Rightarrow> Inr (-1, s) | Some Tmpfs_unlink \<Rightarrow> tmpfs_unlink n name s)"

definition fs_mkdir :: "addr \<Rightarrow> cstr \<Rightarrow> vfs \<Rightarrow> vfs res" where
  "fs_mkdir n name s =
     kbind (dir_node n s) (\<lambda>d. case Option.bind d nd_mkdir of None \<Rightarrow> Inr s | Some Tmpfs_mkdir \<Rightarrow> tmpfs_mkdir n name s)"

definition fs_readlink :: "addr \<Rightarrow> nat \<Rightarrow> vfs \<Rightarrow> cstr option res" where
  "fs_readlink n size' s =
     kbind (kassert (n \<noteq> 0)) (\<lambda>_.
     kbind (get_obj (nodes s) n) (\<lambda>nd.
       if nd_flags nd AND FS_NODE_SYMLINK \<noteq> 0
       then (case nd_readlink nd of None \<Rightarrow> Inr None | Some Tar_readlink \<Rightarrow> tar_readlink (fs_read s) n size' s)
       else Inr None))"

section \<open>File systems made from nodes\<close>

definition TMPFS_NAME :: cstr where "TMPFS_NAME = [116, 109, 112, 102, 115]"

text \<open>\<open>mount_tmpfs\<close>: the root object starts with reference count \<open>-1\<close>.\<close>

definition mount_tmpfs :: "vfs \<Rightarrow> (addr \<times> vfs) res" where
  "mount_tmpfs s =
     (let (a, s) = tmpfs_create_obj TMPFS_NAME FS_NODE_DIRECTORY s
      in kbind (get_obj (tobjs s) a) (\<lambda>obj.
         kbind (fs_node_from_tmpfs a (s\<lparr>tobjs := (tobjs s)(a \<mapsto> obj\<lparr>to_refcount := -1\<rparr>)\<rparr>)) (\<lambda>(n, s).
         kbind (fs_open n s) (\<lambda>s. Inr (n, s)))))"

text \<open>\<open>mount_tar\<close>: the root object has the empty name.\<close>

definition mount_tar :: "addr \<Rightarrow> vfs \<Rightarrow> (addr \<times> vfs) res" where
  "mount_tar device s =
     kbind (fs_open device s) (\<lambda>s.
     let a = v_next s
     in fs_node_from_tar a
          (s\<lparr>tars := (tars s)(a \<mapsto> \<lparr>ta_device = device, ta_name = [], ta_offset = 0, ta_flags = FS_NODE_DIRECTORY,
                                    ta_length = 0\<rparr>), v_next := a + 1\<rparr>))"

section \<open>Mounts\<close>

definition fs_mount_new :: "vfs \<Rightarrow> addr \<times> vfs" where
  "fs_mount_new s =
     (v_next s, s\<lparr>mnts := (mnts s)(v_next s \<mapsto> \<lparr>mt_element = [], mt_node = 0, mt_mounts = [], mt_refcount = 1\<rparr>),
                  v_next := v_next s + 1\<rparr>)"

definition fs_mount_free :: "addr \<Rightarrow> vfs \<Rightarrow> vfs res" where
  "fs_mount_free m s =
     kbind (kassert (m \<noteq> 0)) (\<lambda>_.
     kbind (get_obj (mnts s) m) (\<lambda>mt.
     kbind (kassert (mt_refcount mt = 0)) (\<lambda>_.
     kbind (kassert (mt_mounts mt = [])) (\<lambda>_.
     Inr (s\<lparr>mnts := (mnts s)(m := None)\<rparr>)))))"

definition fs_mount_reference :: "addr \<Rightarrow> vfs \<Rightarrow> vfs res" where
  "fs_mount_reference m s =
     kbind (get_obj (mnts s) m) (\<lambda>mt.
       Inr (if 0 < mt_refcount mt then s\<lparr>mnts := (mnts s)(m \<mapsto> mt\<lparr>mt_refcount := mt_refcount mt + 1\<rparr>)\<rparr> else s))"

definition fs_mount_release :: "addr \<Rightarrow> vfs \<Rightarrow> (addr \<times> vfs) res" where
  "fs_mount_release m s =
     kbind (kassert (m \<noteq> 0)) (\<lambda>_.
     kbind (get_obj (mnts s) m) (\<lambda>mt.
     kbind (kassert (mt_refcount mt \<noteq> 0)) (\<lambda>_.
       if 0 < mt_refcount mt
       then let s = s\<lparr>mnts := (mnts s)(m \<mapsto> mt\<lparr>mt_refcount := mt_refcount mt - 1\<rparr>)\<rparr>
            in if mt_refcount mt - 1 = 0 then kbind (fs_mount_free m s) (\<lambda>s. Inr (0, s)) else Inr (m, s)
       else Inr (m, s))))"

text \<open>\<open>mount->node = fs_node_reference(node)\<close> with the name of the mount.\<close>

definition mount_set :: "addr \<Rightarrow> cstr \<Rightarrow> addr \<Rightarrow> vfs \<Rightarrow> vfs res" where
  "mount_set m element n s =
     kbind (fs_node_reference n s) (\<lambda>s.
     kbind (get_obj (mnts s) m) (\<lambda>mt.
     Inr (s\<lparr>mnts := (mnts s)(m \<mapsto> mt\<lparr>mt_node := n, mt_element := element\<rparr>)\<rparr>)))"

definition fs_mount_root :: "addr \<Rightarrow> vfs \<Rightarrow> vfs res" where
  "fs_mount_root n s =
     kbind (kassert (fs_root_mount s = 0)) (\<lambda>_.
     kbind (kassert (n \<noteq> 0)) (\<lambda>_.
     let (m, s) = fs_mount_new s
     in mount_set m [SLASH] n (s\<lparr>fs_root_mount := m\<rparr>)))"

definition fs_mount_submount :: "addr \<Rightarrow> addr \<Rightarrow> cstr \<Rightarrow> vfs \<Rightarrow> (addr \<times> vfs) res" where
  "fs_mount_submount parent n element s =
     kbind (kassert (parent \<noteq> 0)) (\<lambda>_.
     kbind (kassert (n \<noteq> 0)) (\<lambda>_.
     let (m, s) = fs_mount_new s
     in kbind (mount_set m element n s) (\<lambda>s.
        kbind (fs_mount_reference m s) (\<lambda>s.
        kbind (get_obj (mnts s) parent) (\<lambda>pt.
        Inr (m, s\<lparr>mnts := (mnts s)(parent \<mapsto> pt\<lparr>mt_mounts := mt_mounts pt @ [m]\<rparr>)\<rparr>))))))"

text \<open>\<open>findmount\<close>: the loop over the submounts, \<open>None\<close> for NULL.\<close>

fun fm_loop :: "cstr \<Rightarrow> vfs \<Rightarrow> addr list \<Rightarrow> addr option res" where
  "fm_loop subpath s [] = Inr None"
| "fm_loop subpath s (m # ms) =
     kbind (get_obj (mnts s) m) (\<lambda>mt. if mt_element mt = subpath then Inr (Some m) else fm_loop subpath s ms)"

definition findmount :: "addr \<Rightarrow> cstr \<Rightarrow> vfs \<Rightarrow> addr option res" where
  "findmount parent subpath s =
     kbind (kassert (parent \<noteq> 0)) (\<lambda>_.
     kbind (get_obj (mnts s) parent) (\<lambda>pt. fm_loop subpath s (mt_mounts pt)))"

text \<open>\<open>walk_mount_graph\<close> takes the elements it has followed off the list.\<close>

fun walk_mount_graph :: "vfs \<Rightarrow> cstr list \<Rightarrow> addr \<Rightarrow> (addr \<times> cstr list) res" where
  "walk_mount_graph s [] m = Inr (m, [])"
| "walk_mount_graph s (e # es) m =
     kbind (findmount m e s) (\<lambda>r. case r of None \<Rightarrow> Inr (m, e # es) | Some m' \<Rightarrow> walk_mount_graph s es m')"

section \<open>Finding a file\<close>

text \<open>\<open>findfile_recursive\<close>: \<open>left\<close> is \<open>10 - level\<close>. In its loop \<open>i\<close> is the number of elements behind it, and
  \<open>rest\<close> the elements still to come. The link is resolved against the elements in front of it,
  starting again from the root of the mount graph.\<close>

definition link_elements :: "nat \<Rightarrow> cstr list \<Rightarrow> addr \<Rightarrow> vfs \<Rightarrow> (addr \<times> cstr list) res" where
  "link_elements i elements n s =
     kbind (fs_readlink n 256 s) (\<lambda>r.
       case r of
         None \<Rightarrow> Inl AssertFailed
       | Some buf \<Rightarrow>
           kbind (copy_elements i elements) (\<lambda>l.
           kbind (canonicalize_path_push_path buf l) (\<lambda>l.
           kbind (walk_mount_graph s l (fs_root_mount s)) (\<lambda>(m, l).
           kbind (get_obj (mnts s) m) (\<lambda>mt. Inr (mt_node mt, l))))))"

function findfile_recursive :: "nat \<Rightarrow> cstr list \<Rightarrow> addr \<Rightarrow> vfs \<Rightarrow> (addr \<times> vfs) res"
  and ff_loop :: "nat \<Rightarrow> cstr list \<Rightarrow> nat \<Rightarrow> cstr list \<Rightarrow> addr \<Rightarrow> vfs \<Rightarrow> (addr \<times> vfs) res" where
  "findfile_recursive left elements root_node s =
     kbind (kassert (root_node \<noteq> 0)) (\<lambda>_.
       case left of
         0 \<Rightarrow> Inr (0, s)
       | Suc left \<Rightarrow>
           kbind (fs_node_reference root_node s) (\<lambda>s. ff_loop left elements 0 elements root_node s))"
| "ff_loop left elements i [] n s = Inr (n, s)"
| "ff_loop left elements i (e # rest) n s =
     kbind (fs_finddir n e s) (\<lambda>(next, s).
     kbind (fs_node_release n s) (\<lambda>(_, s).
       case next of
         None \<Rightarrow> Inr (0, s)
       | Some n \<Rightarrow>
           kbind (get_obj (nodes s) n) (\<lambda>nd.
             if nd_flags nd AND FS_NODE_SYMLINK \<noteq> 0
             then kbind (link_elements i elements n s) (\<lambda>(root, l).
                  kbind (findfile_recursive left l root s) (\<lambda>(next, s).
                  kbind (fs_node_release n s) (\<lambda>(_, s).
                    if next \<noteq> 0 then ff_loop left elements (i + 1) rest next s else Inr (0, s))))
             else ff_loop left elements (i + 1) rest n s)))"
  by pat_completeness auto
termination
  by (relation "measures [case_sum (\<lambda>(left, _). 2 * left) (\<lambda>(left, _). 2 * left + 1),
                          case_sum (\<lambda>_. 0) (\<lambda>(_, _, _, rest, _). length rest)]") auto

declare findfile_recursive.simps [simp del] ff_loop.simps [simp del]

definition findfile :: "cstr \<Rightarrow> cstr \<Rightarrow> vfs \<Rightarrow> (addr \<times> vfs) res" where
  "findfile root relative_path s =
     kbind (canonicalize_path_list root relative_path) (\<lambda>l.
     kbind (walk_mount_graph s l (fs_root_mount s)) (\<lambda>(m, l).
     kbind (get_obj (mnts s) m) (\<lambda>mt. findfile_recursive 10 l (mt_node mt) s)))"

definition kopen :: "cstr \<Rightarrow> vfs \<Rightarrow> (addr \<times> vfs) res" where
  "kopen path s =
     kbind (if path = [SLASH]
            then if fs_root_mount s \<noteq> 0
                 then kbind (get_obj (mnts s) (fs_root_mount s)) (\<lambda>mt.
                      kbind (fs_node_reference (mt_node mt) s) (\<lambda>s. Inr (mt_node mt, s)))
                 else Inr (0, s)
            else findfile [SLASH] path s) (\<lambda>(n, s).
       if n = 0 then Inr (0, s)
       else kbind (fs_open n s) (fs_node_release n))"

definition kmount :: "cstr \<Rightarrow> addr \<Rightarrow> vfs \<Rightarrow> (bool \<times> vfs) res" where
  "kmount path n s =
     kbind (kassert (n \<noteq> 0)) (\<lambda>_.
     let elements = tokenize_path_list path
     in if elements = [] then Inr (False, s)
        else kbind (walk_mount_graph s elements (fs_root_mount s)) (\<lambda>(parent1, rest).
               if rest = [] then Inr (False, s)
               else if length rest = 1
               then kbind (fs_mount_submount parent1 n (last elements) s) (\<lambda>(m, s).
                    kbind (get_obj (mnts s) m) (\<lambda>mt.
                    kbind (kassert (mt_refcount mt = 2)) (\<lambda>_.
                    kbind (fs_mount_release m s) (\<lambda>(_, s). Inr (True, s)))))
               else Inl AssertFailed))"

end
