(* ===== verification/Fs_Nodes.thy ===== *)
theory Fs_Nodes
  imports Fs
begin

text \<open>
  The reference counts of the file system switch: what a driver's \<open>finddir\<close> promises, and that a
  search for a file takes one reference to the node it returns and touches no other node.
\<close>

text \<open>Every node has an address that was handed out.\<close>

definition fresh_ok :: "vfs \<Rightarrow> bool" where
  "fresh_ok s \<longleftrightarrow> (\<forall>a. nodes s a \<noteq> None \<longrightarrow> 0 < a \<and> a < v_next s) \<and> 0 < v_next s"

lemma fresh_None: "fresh_ok s \<Longrightarrow> v_next s \<le> f \<Longrightarrow> nodes s f = None"
  unfolding fresh_ok_def by (meson not_less)

lemma fresh_pos: "fresh_ok s \<Longrightarrow> v_next s \<le> f \<Longrightarrow> f \<noteq> 0"
  by (auto simp: fresh_ok_def)

lemma fresh_upd:
  assumes "fresh_ok s" "nodes s' = (nodes s)(f := x)" "v_next s \<le> v_next s'" "0 < f" "f < v_next s'"
  shows "fresh_ok s'"
  unfolding fresh_ok_def
proof (intro conjI allI impI)
  fix a
  assume a: "nodes s' a \<noteq> None"
  have "a = f \<or> nodes s a \<noteq> None" using a assms(2) by (auto split: if_splits)
  then have "0 < a \<and> a < v_next s'"
    using assms(1,3,4,5) unfolding fresh_ok_def by (meson order_less_le_trans)
  then show "0 < a" "a < v_next s'" by auto
next
  show "0 < v_next s'" using assms(1,3) by (simp add: fresh_ok_def)
qed

lemma fresh_same: "fresh_ok s \<Longrightarrow> nodes s' = nodes s \<Longrightarrow> v_next s \<le> v_next s' \<Longrightarrow> fresh_ok s'"
  unfolding fresh_ok_def by (metis order_less_le_trans)

text \<open>Two states that agree on what a search reads besides the nodes.\<close>

definition same_mounts :: "vfs \<Rightarrow> vfs \<Rightarrow> bool" where
  "same_mounts s s' \<longleftrightarrow> mnts s' = mnts s \<and> fs_root_mount s' = fs_root_mount s \<and> v_next s \<le> v_next s'"

lemma same_mounts_refl [simp]: "same_mounts s s"
  by (simp add: same_mounts_def)

lemma same_mounts_trans: "same_mounts s t \<Longrightarrow> same_mounts t u \<Longrightarrow> same_mounts s u"
  by (auto simp: same_mounts_def)

section \<open>The contract of finddir\<close>

locale finder =
  fixes find :: "addr \<Rightarrow> cstr \<Rightarrow> vfs \<Rightarrow> (addr option \<times> vfs) res"
  assumes not_found: "find n e s = Inr (None, s') \<Longrightarrow> s' = s"
    and found: "find n e s = Inr (Some f, s') \<Longrightarrow>
      same_mounts s s' \<and> v_next s \<le> f \<and> f < v_next s' \<and>
      (\<exists>nd. nodes s' = (nodes s)(f \<mapsto> nd) \<and> nd_refcount nd = 1)"
begin

lemma keeps_fresh:
  assumes "find n e s = Inr (r, s')" "fresh_ok s"
  shows "fresh_ok s'"
proof (cases r)
  case None
  then show ?thesis using not_found assms by auto
next
  case (Some f)
  then obtain nd where "nodes s' = (nodes s)(f \<mapsto> nd)" "v_next s \<le> v_next s'" "v_next s \<le> f" "f < v_next s'"
    using found [of n e s f s'] assms(1) by (auto simp: same_mounts_def)
  then show ?thesis using fresh_upd [OF assms(2)] fresh_pos [OF assms(2), of f] by blast
qed

lemma found_new: "find n e s = Inr (Some f, s') \<Longrightarrow> fresh_ok s \<Longrightarrow> f \<noteq> 0 \<and> nodes s f = None"
  using found [of n e s f s'] fresh_None fresh_pos by blast

end

lemma new_node_refI: "nd_refcount x = 1 \<Longrightarrow> \<exists>nd. m(f \<mapsto> x) = m(f \<mapsto> nd) \<and> nd_refcount nd = 1"
  by blast

lemma refcount_tmpfs_node [simp]: "nd_refcount (tmpfs_node obj a f) = nd_refcount f"
  by (simp add: tmpfs_node_def Let_def)

lemma refcount_tar_node [simp]: "nd_refcount (tar_node obj a f) = nd_refcount f"
  by (simp add: tar_node_def)

interpretation tmpfs: finder tmpfs_finddir
proof
  fix n e s s'
  assume "tmpfs_finddir n e s = Inr (None, s')"
  then show "s' = s" by (auto simp: tmpfs_finddir_def split: option.splits)
next
  fix n e s f s'
  assume "tmpfs_finddir n e s = Inr (Some f, s')"
  then show "same_mounts s s' \<and> v_next s \<le> f \<and> f < v_next s' \<and>
      (\<exists>nd. nodes s' = (nodes s)(f \<mapsto> nd) \<and> nd_refcount nd = 1)"
    by (auto simp: tmpfs_finddir_def fs_node_from_tmpfs_def fs_node_new_def same_mounts_def Let_def
        intro!: new_node_refI split: option.splits)
qed

lemma tar_create_obj_adds:
  "tar_create_obj_from_header device hdr off s = Inr (a, t) \<Longrightarrow> nodes t = nodes s \<and> same_mounts s t"
  by (auto simp: tar_create_obj_from_header_def same_mounts_def Let_def split: if_splits)

lemma fs_node_from_tar_adds:
  "fs_node_from_tar a s = Inr (f, s') \<Longrightarrow>
   same_mounts s s' \<and> f = v_next s \<and> f < v_next s' \<and> (\<exists>nd. nodes s' = (nodes s)(f \<mapsto> nd) \<and> nd_refcount nd = 1)"
  by (auto simp: fs_node_from_tar_def fs_node_new_def same_mounts_def intro!: new_node_refI)

lemma tar_finddir_cases:
  assumes "tar_finddir rd n e s = Inr (r, s')"
  shows "r = None \<and> s' = s \<or>
    (\<exists>device hdr off a t f. tar_create_obj_from_header device hdr off s = Inr (a, t) \<and>
       fs_node_from_tar a t = Inr (f, s') \<and> r = Some f)"
proof -
  obtain device l where l: "tar_make device l s = Inr (r, s')" using assms by (auto simp: tar_finddir_def)
  show ?thesis
  proof (cases l)
    case (Some p)
    obtain off hdr where "p = (off, hdr)" by (cases p)
    then show ?thesis using l Some by (auto simp: tar_make_def)
  qed (use l in \<open>auto simp: tar_make_def\<close>)
qed

interpretation tar: finder "\<lambda>n e s. tar_finddir (fs_read s) n e s"
proof
  fix n e s s'
  assume "tar_finddir (fs_read s) n e s = Inr (None, s')"
  then show "s' = s" using tar_finddir_cases by blast
next
  fix n e s f s'
  assume "tar_finddir (fs_read s) n e s = Inr (Some f, s')"
  then obtain device hdr off a t where t: "tar_create_obj_from_header device hdr off s = Inr (a, t)" "fs_node_from_tar a t = Inr (f, s')"
    using tar_finddir_cases by blast
  show "same_mounts s s' \<and> v_next s \<le> f \<and> f < v_next s' \<and>
      (\<exists>nd. nodes s' = (nodes s)(f \<mapsto> nd) \<and> nd_refcount nd = 1)"
    using tar_create_obj_adds [OF t(1)] fs_node_from_tar_adds [OF t(2)] same_mounts_trans by (auto simp: same_mounts_def)
qed

lemma fs_finddir_cases:
  assumes "fs_finddir n e s = Inr r"
  shows "r = (None, s) \<or> tmpfs_finddir n e s = Inr r \<or> tar_finddir (fs_read s) n e s = Inr r"
proof -
  obtain d where d: "finddir_fun d n e s = Inr r" using assms by (auto simp: fs_finddir_def)
  show ?thesis
  proof (cases d)
    case (Some k)
    then show ?thesis using d by (cases k) (auto simp: finddir_fun_def)
  qed (use d in \<open>simp add: finddir_fun_def\<close>)
qed

interpretation switch: finder fs_finddir
proof
  fix n e s s'
  assume "fs_finddir n e s = Inr (None, s')"
  then show "s' = s" using fs_finddir_cases tmpfs.not_found tar.not_found by blast
next
  fix n e s f s'
  assume "fs_finddir n e s = Inr (Some f, s')"
  then have "tmpfs_finddir n e s = Inr (Some f, s') \<or> tar_finddir (fs_read s) n e s = Inr (Some f, s')"
    using fs_finddir_cases by blast
  then show "same_mounts s s' \<and> v_next s \<le> f \<and> f < v_next s' \<and>
      (\<exists>nd. nodes s' = (nodes s)(f \<mapsto> nd) \<and> nd_refcount nd = 1)"
    using tmpfs.found tar.found by blast
qed

section \<open>Taking and giving back a reference\<close>

definition up :: "int \<Rightarrow> int" where "up c = (if 0 < c then c + 1 else c)"

text \<open>\<open>m'\<close> is \<open>m\<close> with one more reference to \<open>r\<close>: a node that was there counts one more, a new one counts
  one. No reference, and nothing changed, when \<open>r\<close> is NULL.\<close>

definition one_more :: "fs_node option \<Rightarrow> fs_node \<Rightarrow> bool" where
  "one_more old nd \<longleftrightarrow>
     (case old of None \<Rightarrow> nd_refcount nd = 1
      | Some old \<Rightarrow> nd_refcount old \<noteq> 0 \<and> nd = old\<lparr>nd_refcount := up (nd_refcount old)\<rparr>)"

definition held :: "(addr \<rightharpoonup> fs_node) \<Rightarrow> addr \<Rightarrow> (addr \<rightharpoonup> fs_node) \<Rightarrow> bool" where
  "held m r m' \<longleftrightarrow>
     (if r = 0 then m' = m else \<exists>nd. m' = m(r \<mapsto> nd) \<and> one_more (m r) nd)"

lemma heldI: "m' = m(r \<mapsto> nd) \<Longrightarrow> one_more (m r) nd \<Longrightarrow> r \<noteq> 0 \<Longrightarrow> held m r m'"
  by (auto simp: held_def)

lemma held_obtain: "held m r m' \<Longrightarrow> r \<noteq> 0 \<Longrightarrow> \<exists>nd. m' = m(r \<mapsto> nd) \<and> one_more (m r) nd"
  by (simp add: held_def)

lemma reference_held:
  assumes "fs_node_reference n s = Inr s'"
  shows "held (nodes s) n (nodes s') \<and> same_mounts s s' \<and> v_next s' = v_next s \<and>
    (\<forall>nd. nodes s' n = Some nd \<longrightarrow> nd_refcount nd \<noteq> 1)"
proof -
  obtain nd where nd: "n \<noteq> 0" "nodes s n = Some nd" "nd_refcount nd \<noteq> 0"
    and s': "s' = (if 0 < nd_refcount nd then s\<lparr>nodes := (nodes s)(n \<mapsto> nd\<lparr>nd_refcount := nd_refcount nd + 1\<rparr>)\<rparr> else s)"
    using assms by (auto simp: fs_node_reference_def split: if_splits)
  have "nodes s' = (nodes s)(n \<mapsto> nd\<lparr>nd_refcount := up (nd_refcount nd)\<rparr>)"
    by (cases "0 < nd_refcount nd") (auto simp: s' up_def nd(2) fun_eq_iff)
  moreover have "same_mounts s s' \<and> v_next s' = v_next s" by (simp add: s' same_mounts_def)
  ultimately show ?thesis using nd heldI [of "nodes s'" "nodes s" n] by (simp add: one_more_def up_def)
qed

lemma reference_fresh: "fs_node_reference n s = Inr s' \<Longrightarrow> fresh_ok s \<Longrightarrow> fresh_ok s'"
  by (auto simp: fresh_ok_def fs_node_reference_def split: if_splits)

lemma tmpfs_destroy_nodes: "tmpfs_destroy_object a s = Inr t \<Longrightarrow> \<exists>m. t = s\<lparr>tobjs := m\<rparr>"
  by (auto simp: tmpfs_destroy_object_def)

lemma tmpfs_close_nodes: "tmpfs_close n s = Inr t \<Longrightarrow>
   (\<forall>a. a \<noteq> n \<longrightarrow> nodes t a = nodes s a) \<and> same_mounts s t \<and> v_next t = v_next s"
  by (auto simp: tmpfs_close_def same_mounts_def Let_def split: if_splits dest!: tmpfs_destroy_nodes)

lemma tar_close_nodes: "tar_close n s = Inr t \<Longrightarrow> \<exists>m. t = s\<lparr>tars := m\<rparr>"
  by (auto simp: tar_close_def)

lemma close_fun_nodes:
  "close_fun c n s = Inr s' \<Longrightarrow> (\<forall>a. a \<noteq> n \<longrightarrow> nodes s' a = nodes s a) \<and> same_mounts s s' \<and> v_next s' = v_next s"
  by (cases c) (auto simp: close_fun_def same_mounts_def dest: tmpfs_close_nodes dest!: tar_close_nodes)

lemma free_nodes:
  assumes "fs_node_free n s = Inr s'"
  shows "nodes s' = (nodes s)(n := None) \<and> same_mounts s s' \<and> v_next s' = v_next s"
proof -
  obtain nd t where "nodes s n = Some nd" and t: "(case nd_close nd of None \<Rightarrow> Inr s | Some c \<Rightarrow> close_fun c n s) = Inr t"
    and s': "s' = t\<lparr>nodes := (nodes t)(n := None)\<rparr>" using assms by (auto simp: fs_node_free_def)
  have "(\<forall>a. a \<noteq> n \<longrightarrow> nodes t a = nodes s a) \<and> same_mounts s t \<and> v_next t = v_next s"
    using t close_fun_nodes by (cases "nd_close nd") auto
  then show ?thesis by (auto simp: s' same_mounts_def fun_eq_iff)
qed

definition down :: "fs_node \<Rightarrow> fs_node option" where
  "down nd = (if nd_refcount nd = 1 then None
              else Some (nd\<lparr>nd_refcount := if 0 < nd_refcount nd then nd_refcount nd - 1 else nd_refcount nd\<rparr>))"

lemma release_nodes:
  assumes "fs_node_release n s = Inr (p, s')"
  shows "n \<noteq> 0 \<and> (\<exists>nd. nodes s n = Some nd \<and> nodes s' = (nodes s)(n := down nd) \<and> p = (if nd_refcount nd = 1 then 0 else n)) \<and>
    same_mounts s s' \<and> v_next s' = v_next s"
proof -
  obtain nd where nd: "n \<noteq> 0" "nodes s n = Some nd" using assms by (auto simp: fs_node_release_def)
  consider "nd_refcount nd \<le> 0" | "nd_refcount nd = 1" | "1 < nd_refcount nd" by linarith
  then show ?thesis
  proof cases
    case 2
    define t where "t = s\<lparr>nodes := (nodes s)(n \<mapsto> nd\<lparr>nd_refcount := 0\<rparr>)\<rparr>"
    have "fs_node_free n t = Inr s' \<and> p = 0" using assms nd 2 by (auto simp: fs_node_release_def t_def)
    then show ?thesis using free_nodes [of n t s'] nd 2 by (auto simp: t_def down_def same_mounts_def)
  qed (use assms nd in \<open>auto simp: fs_node_release_def down_def same_mounts_def Let_def\<close>)
qed

text \<open>Giving the reference back restores the map of nodes, whatever node was added meanwhile.\<close>

lemma held_down:
  assumes "held m n m'" "m' n = Some nd" "n \<noteq> 0"
  shows "m'(n := down nd) = m"
proof -
  have m': "m' = m(n \<mapsto> nd)" and o: "one_more (m n) nd" using held_obtain [OF assms(1,3)] assms(2) by auto
  have "down nd = m n"
  proof (cases "m n")
    case None
    then show ?thesis using o by (auto simp: one_more_def down_def)
  next
    case (Some old)
    then have "nd_refcount old \<noteq> 0" "nd = old\<lparr>nd_refcount := up (nd_refcount old)\<rparr>" using o by (auto simp: one_more_def)
    then show ?thesis using Some by (simp add: down_def up_def)
  qed
  then show ?thesis by (auto simp: m')
qed

lemma held_release:
  assumes "held m n (nodes s)" "fs_node_release n s = Inr (p, s')"
  shows "nodes s' = m"
  using release_nodes [OF assms(2)] held_down [OF assms(1)] by auto

lemma held_release_other:
  assumes "held m n m'" "nodes s = m'(f \<mapsto> nd)" "f \<noteq> n" "fs_node_release n s = Inr (p, s')"
  shows "nodes s' = m(f \<mapsto> nd)"
proof -
  obtain nd' where r: "n \<noteq> 0" "nodes s n = Some nd'" "nodes s' = (nodes s)(n := down nd')"
    using release_nodes [OF assms(4)] by auto
  then have "m'(n := down nd') = m" using held_down [OF assms(1)] assms(2,3) by auto
  then show ?thesis using r(3) assms(2,3) by (auto simp: fun_upd_twist)
qed

text \<open>Giving back a reference after another was taken.\<close>

lemma held_swap:
  assumes "held m f m2" "held m2 r m3" "f \<noteq> 0" "m3 f = Some nd"
  shows "held m r (m3(f := down nd))"
proof -
  consider "r = f" | "r = 0" | "r \<noteq> f" "r \<noteq> 0" by blast
  then show ?thesis
  proof cases
    case 1
    then show ?thesis using held_down [of m2 r m3 nd] assms by simp
  next
    case 2
    then have "m3 = m2" using assms(2) by (simp add: held_def)
    then show ?thesis using held_down [of m f m2 nd] assms 2 by (simp add: held_def)
  next
    case 3
    then obtain nd' where m3: "m3 = m2(r \<mapsto> nd')" and o: "one_more (m2 r) nd'" and m2: "m2 f = Some nd"
      using held_obtain [OF assms(2)] assms(4) by auto
    have "m2(f := down nd) = m" by (rule held_down [OF assms(1) m2 assms(3)])
    then have "m3(f := down nd) = m(r \<mapsto> nd')" "m2 r = m r" using m3 3 by (auto simp: fun_upd_twist)
    then show ?thesis using heldI [of _ m r nd'] o 3 by simp
  qed
qed

lemma held_new: "m f = None \<Longrightarrow> f \<noteq> 0 \<Longrightarrow> nd_refcount nd = 1 \<Longrightarrow> held m f (m(f \<mapsto> nd))"
  by (rule heldI) (auto simp: one_more_def)

section \<open>The search\<close>

text \<open>One step of the loop: the next node is found, the one it was found in is given back.\<close>

lemma step_held:
  assumes f: "fs_finddir n e t = Inr (next, t1)" and r: "fs_node_release n t1 = Inr (p, t2)"
    and t: "held m n (nodes t)" "fresh_ok t" "fresh_ok s" "m = nodes s" "same_mounts s t"
  shows "held m (case next of None \<Rightarrow> 0 | Some f \<Rightarrow> f) (nodes t2) \<and> fresh_ok t2 \<and> same_mounts s t2"
proof -
  have n: "n \<noteq> 0" and t2: "same_mounts t1 t2" "v_next t2 = v_next t1" using release_nodes [OF r] by auto
  show ?thesis
  proof (cases "next")
    case None
    then have "t1 = t" using switch.not_found f by simp
    then have "nodes t2 = m" using held_release [OF t(1)] r by simp
    then show ?thesis using None t t2 \<open>t1 = t\<close> fresh_same [OF t(3), of t2]
      by (auto simp: held_def same_mounts_def)
  next
    case (Some f')
    then have ff: "fs_finddir n e t = Inr (Some f', t1)" using f by simp
    obtain nd where nd: "nodes t1 = (nodes t)(f' \<mapsto> nd)" "nd_refcount nd = 1" and b: "v_next t \<le> f'" "f' < v_next t1"
      and sm: "same_mounts t t1" using switch.found [OF ff] by auto
    have new: "f' \<noteq> 0" "nodes t f' = None" using switch.found_new [OF ff t(2)] by auto
    have "nodes t n \<noteq> None" using t(1) n by (auto simp: held_def)
    then have "f' \<noteq> n" using new(2) by auto
    then have n2: "nodes t2 = m(f' \<mapsto> nd)" using held_release_other [OF t(1) nd(1) _ r] by simp
    moreover have "m f' = None" using fresh_None [OF t(3), of f'] t(4,5) b by (simp add: same_mounts_def)
    ultimately have "held m f' (nodes t2)" using held_new [of m f' nd] new(1) nd(2) by simp
    moreover have "fresh_ok t2"
      by (rule fresh_upd [OF t(3), of t2 f']) (use n2 t(4,5) b t2 new(1) sm in \<open>auto simp: same_mounts_def\<close>)
    moreover have "same_mounts s t2" using t(5) sm t2(1) same_mounts_trans by blast
    ultimately show ?thesis using Some by simp
  qed
qed

lemma release_held:
  assumes "held (nodes s0) f (nodes t2)" "held (nodes t2) r (nodes t3)" "fresh_ok t3" "same_mounts t2 t3"
    and rel: "fs_node_release f t3 = Inr (p, t4)" and s0: "fresh_ok s0" "same_mounts s0 t2"
  shows "held (nodes s0) r (nodes t4) \<and> fresh_ok t4 \<and> same_mounts s0 t4"
proof -
  obtain nd where r: "f \<noteq> 0" "nodes t3 f = Some nd" "nodes t4 = (nodes t3)(f := down nd)" "same_mounts t3 t4" "v_next t4 = v_next t3"
    using release_nodes [OF rel] by auto
  have "0 < f" "f < v_next t3" using assms(3) r(2) unfolding fresh_ok_def by (metis option.distinct(1))+
  then have "fresh_ok t4" using fresh_upd [OF assms(3) r(3)] r(5) by simp
  moreover have "held (nodes s0) r (nodes t4)" using held_swap [OF assms(1,2) r(1,2)] r(3) by simp
  moreover have "same_mounts s0 t4" using s0(2) assms(4) r(4) same_mounts_trans by blast
  ultimately show ?thesis by blast
qed

lemma findfile_held:
  "findfile_recursive left elements root s = Inr (r, s') \<Longrightarrow> fresh_ok s \<Longrightarrow>
     held (nodes s) r (nodes s') \<and> fresh_ok s' \<and> same_mounts s s'"
  "ff_loop left elements i rest n t = Inr (r, t') \<Longrightarrow> held (nodes s0) n (nodes t) \<Longrightarrow> fresh_ok t \<Longrightarrow>
     fresh_ok s0 \<Longrightarrow> same_mounts s0 t \<Longrightarrow>
     held (nodes s0) r (nodes t') \<and> fresh_ok t' \<and> same_mounts s0 t'"
proof (induction left elements root s and left elements i rest n t arbitrary: r s' and r t' s0
    rule: findfile_recursive_ff_loop.induct)
  case (1 left elements root_node s)
  show ?case
  proof (cases left)
    case 0
    then show ?thesis using 1 by (auto simp: findfile_recursive.simps held_def)
  next
    case (Suc left')
    then obtain s1 where s1: "fs_node_reference root_node s = Inr s1" "ff_loop left' elements 0 elements root_node s1 = Inr (r, s')"
      and rn: "root_node \<noteq> 0"
      using "1.prems"(1) by (subst (asm) findfile_recursive.simps) auto
    have h: "held (nodes s) root_node (nodes s1)" "same_mounts s s1" "v_next s1 = v_next s"
      using reference_held [OF s1(1)] by auto
    have "fresh_ok s1" using reference_fresh [OF s1(1) "1.prems"(2)] .
    then show ?thesis using "1.IH" Suc s1 h "1.prems"(2) rn by auto
  qed
next
  case (2 left elements i n s)
  then show ?case by (simp add: ff_loop.simps)
next
  case (3 left elements i e rest n s)
  obtain "next" t1 p t2 where t1: "fs_finddir n e s = Inr (next, t1)" and t2: "fs_node_release n t1 = Inr (p, t2)"
    using "3.prems"(1) by (subst (asm) ff_loop.simps) auto
  have st: "held (nodes s0) (case next of None \<Rightarrow> 0 | Some f \<Rightarrow> f) (nodes t2)" "fresh_ok t2" "same_mounts s0 t2"
    using step_held [OF t1 t2 "3.prems"(2,3,4) refl "3.prems"(5)] by auto
  show ?case
  proof (cases "next")
    case None
    then show ?thesis using "3.prems"(1) t1 t2 st by (subst (asm) ff_loop.simps) auto
  next
    case (Some f)
    have hf: "held (nodes s0) f (nodes t2)" using st(1) Some by simp
    obtain nd where nd: "nodes t2 f = Some nd" using "3.prems"(1) t1 t2 Some by (subst (asm) ff_loop.simps) auto
    show ?thesis
    proof (cases "nd_flags nd AND FS_NODE_SYMLINK \<noteq> 0")
      case False
      then have "ff_loop left elements (i + 1) rest f t2 = Inr (r, t')"
        using "3.prems"(1) t1 t2 Some nd by (subst (asm) ff_loop.simps) auto
      then show ?thesis using "3.IH"(3) [OF t1 refl t2 refl Some _ False] hf st "3.prems"(4) nd by auto
    next
      case True
      then obtain root l next' t3 p' t4 where l: "link_elements i elements f t2 = Inr (root, l)"
        and t3: "findfile_recursive left l root t2 = Inr (next', t3)" and t4: "fs_node_release f t3 = Inr (p', t4)"
        and t': "(if next' \<noteq> 0 then ff_loop left elements (i + 1) rest next' t4 else Inr (0, t4)) = Inr (r, t')"
        using "3.prems"(1) t1 t2 Some nd by (subst (asm) ff_loop.simps) auto
      have h3: "held (nodes t2) next' (nodes t3)" "fresh_ok t3" "same_mounts t2 t3"
        using "3.IH"(1) [OF t1 refl t2 refl Some _ True l refl t3 st(2)] nd by auto
      have h4: "held (nodes s0) next' (nodes t4)" "fresh_ok t4" "same_mounts s0 t4"
        using release_held [OF hf h3 t4 "3.prems"(4) st(3)] by auto
      show ?thesis
      proof (cases "next' = 0")
        case False
        then have "ff_loop left elements (i + 1) rest next' t4 = Inr (r, t')" using t' by simp
        from "3.IH"(2) [OF t1 refl t2 refl Some _ True l refl t3 refl t4 refl False this h4(1,2) "3.prems"(4) h4(3)] nd
        show ?thesis by simp
      qed (use t' h4 in auto)
    qed
  qed
qed

lemma kopen_found:
  assumes "fresh_ok s" "findfile root path s = Inr (r, s')"
  shows "held (nodes s) r (nodes s') \<and> fresh_ok s' \<and> same_mounts s s'"
proof -
  obtain l n where "findfile_recursive 10 l n s = Inr (r, s')" using assms(2) by (auto simp: findfile_def)
  from findfile_held(1) [OF this assms(1)] show ?thesis by blast
qed

lemma open_release:
  assumes "fs_open n s = Inr t" "fs_node_release n t = Inr (p, s')"
  shows "nodes s' = nodes s \<and> p = n \<and> same_mounts s s'"
proof -
  have h: "held (nodes s) n (nodes t)" "same_mounts s t" and c: "\<forall>nd. nodes t n = Some nd \<longrightarrow> nd_refcount nd \<noteq> 1"
    using reference_held assms(1) by (auto simp: fs_open_def)
  obtain nd where "nodes t n = Some nd" "p = (if nd_refcount nd = 1 then 0 else n)" "same_mounts t s'"
    using release_nodes [OF assms(2)] by auto
  then show ?thesis using held_release [OF h(1) assms(2)] h(2) c same_mounts_trans by auto
qed

lemma kopen_held:
  assumes "fresh_ok s" "kopen path s = Inr (r, s')"
  shows "held (nodes s) r (nodes s') \<and> fresh_ok s' \<and> same_mounts s s'"
proof -
  obtain n t where t: "held (nodes s) n (nodes t) \<and> fresh_ok t \<and> same_mounts s t" and r: "(if n = 0 then Inr (0, t) else kbind (fs_open n t) (fs_node_release n)) = Inr (r, s')"
  proof (cases "path = [SLASH]")
    case True
    show ?thesis
    proof (cases "fs_root_mount s = 0")
      case True
      then show ?thesis using that [of 0 s] assms \<open>path = [SLASH]\<close> by (auto simp: kopen_def held_def)
    next
      case False
      then obtain n t where "fs_node_reference n s = Inr t" "(if n = 0 then Inr (0, t) else kbind (fs_open n t) (fs_node_release n)) = Inr (r, s')"
        using assms(2) True by (auto simp: kopen_def)
      then show ?thesis using that [of n t] reference_held reference_fresh assms(1) by blast
    qed
  next
    case False
    then obtain n t where "findfile [SLASH] path s = Inr (n, t)" "(if n = 0 then Inr (0, t) else kbind (fs_open n t) (fs_node_release n)) = Inr (r, s')"
      using assms(2) by (auto simp: kopen_def)
    then show ?thesis using that [of n t] kopen_found [OF assms(1)] by blast
  qed
  show ?thesis
  proof (cases "n = 0")
    case False
    then obtain u where "fs_open n t = Inr u" "fs_node_release n u = Inr (r, s')" using r by auto
    from open_release [OF this] t show ?thesis
      using fresh_same [of t s'] same_mounts_trans [of s t s'] by (auto simp: same_mounts_def)
  qed (use r t in \<open>auto simp: held_def\<close>)
qed

text \<open>C11: Opening a file by its path takes exactly one reference, to the node it returns: no node that
  was there before is changed otherwise, no node made on the way (directories, symbolic links) is
  left behind, and when nothing is found no node has changed at all. Closing the node gives the
  nodes back exactly as they were.\<close>

theorem kopen_balanced:
  assumes "fresh_ok s" "kopen path s = Inr (r, s')"
  shows "held (nodes s) r (nodes s') \<and> (r = 0 \<longrightarrow> nodes s' = nodes s) \<and>
    (\<forall>p s''. fs_close r s' = Inr (p, s'') \<longrightarrow> nodes s'' = nodes s)"
proof (intro conjI impI allI)
  show h: "held (nodes s) r (nodes s')" using kopen_held [OF assms] by blast
  show "nodes s' = nodes s" if "r = 0" using h that by (simp add: held_def)
  show "nodes s'' = nodes s" if "fs_close r s' = Inr (p, s'')" for p s''
    using held_release [OF h] that by (simp add: fs_close_def)
qed

text \<open>A tmpfs mounted at the root with one file, "/a".\<close>

definition ex_vfs :: vfs where
  "ex_vfs = \<lparr>nodes = Map.empty, tobjs = Map.empty, tars = Map.empty, mnts = Map.empty, fs_root_mount = 0, v_next = 1,
     v_mem = (\<lambda>_. 0), v_garbage = (\<lambda>_. 0)\<rparr>"

definition ex_boot :: "vfs res" where
  "ex_boot = kbind (mount_tmpfs ex_vfs) (\<lambda>(n, s). kbind (fs_mount_root n s) (fs_create n [97]))"

definition ex_state :: vfs where "ex_state = (case ex_boot of Inr s \<Rightarrow> s | Inl _ \<Rightarrow> ex_vfs)"

lemmas boot_defs = ex_state_def ex_boot_def ex_vfs_def mount_tmpfs_def tmpfs_create_obj_def fs_node_from_tmpfs_def fs_node_new_def
  fs_open_def fs_node_reference_def fs_mount_root_def fs_mount_new_def mount_set_def fs_create_def dir_node_def tmpfs_node_def
  tmpfs_create_def tmpfs_add_def tmpfs_obj_def FS_NODE_DIRECTORY_def FS_NODE_FILE_def blank_node_def get_obj_def TMPFS_NAME_def

lemma ex_state_fresh: "fresh_ok ex_state"
  by (simp add: boot_defs fresh_ok_def)

theorem kopen_balanced_witness:
  "\<exists>s'. fresh_ok ex_state \<and> kopen [47, 97] ex_state = Inr (5, s') \<and> held (nodes ex_state) 5 (nodes s')"
proof -
  have "map_sum (\<lambda>_. ()) fst (kopen [47, 97] ex_state) = Inr (5 :: nat)" by code_simp
  then obtain s' where "kopen [47, 97] ex_state = Inr (5, s')" by (cases "kopen [47, 97] ex_state") auto
  then show ?thesis using kopen_balanced [OF ex_state_fresh] ex_state_fresh by blast
qed

end
