(* ===== verification/Fs_Props.thy ===== *)
theory Fs_Props
  imports Fs_Nodes
begin

text \<open>
  What the file systems do with files, directories and mounts, seen through the switch of
  \<open>Fs.thy\<close>.
\<close>

section \<open>Files of a tmpfs\<close>

definition contents :: "tmpfs_object \<Rightarrow> u8 list" where
  "contents obj = (case to_block obj of None \<Rightarrow> [] | Some b \<Rightarrow> b)"

text \<open>A node of a file of a tmpfs, and the file's object with a block of the size it says.\<close>

definition tmpfs_file :: "vfs \<Rightarrow> addr \<Rightarrow> addr \<Rightarrow> tmpfs_object \<Rightarrow> bool" where
  "tmpfs_file s n a obj \<longleftrightarrow>
     n \<noteq> 0 \<and> a \<noteq> 0 \<and> 0 < v_next s \<and> tobjs s a = Some obj \<and> to_flags obj AND FS_NODE_FILE \<noteq> 0 \<and>
     length (contents obj) = unat (to_block_size obj) \<and>
     (\<exists>nd. nodes s n = Some nd \<and> nd_object nd = a \<and> nd_read nd = Some Tmpfs_read \<and> nd_write nd = Some Tmpfs_write)"

text \<open>The abstract file: a write at an offset, with unspecified bytes where it leaves a gap.\<close>

definition file_put :: "(nat \<Rightarrow> u8) \<Rightarrow> nat \<Rightarrow> u8 list \<Rightarrow> u8 list \<Rightarrow> u8 list" where
  "file_put junk off bytes xs =
     (let ys = xs @ map junk [length xs..<off + length bytes]
      in take off ys @ bytes @ drop (off + length bytes) ys)"

definition file_get :: "nat \<Rightarrow> nat \<Rightarrow> u8 list \<Rightarrow> u8 list" where
  "file_get off len xs = take len (drop off xs)"

lemma file_get_put: "file_get off (length bytes) (file_put junk off bytes xs) = bytes"
  by (auto simp: file_get_def file_put_def Let_def)

lemma length_file_put: "length (file_put junk off bytes xs) = max (length xs) (off + length bytes)"
  by (auto simp: file_put_def Let_def)

lemma fs_read_tmpfs:
  assumes "tmpfs_file s n a obj" "unat off + unat len < 2 ^ 32"
  shows "fs_read s n off len =
    (if length (contents obj) < unat off then Inr (-1, [])
     else Inr (of_nat (length (file_get (unat off) (unat len) (contents obj))), file_get (unat off) (unat len) (contents obj)))"
proof -
  obtain d where d: "v_next s = Suc d" using assms(1) by (auto simp: tmpfs_file_def gr0_conv_Suc)
  have ol: "unat (off + len) = unat off + unat len" using assms(2) by (simp add: unat_word_ariths(1))
  have f: "fs_read s n off len = tmpfs_read n off len s" "tmpfs_obj n s = Inr (a, obj)" "to_flags obj AND FS_NODE_FILE \<noteq> 0"
    using assms(1) by (auto simp: fs_read_def d tmpfs_file_def tmpfs_obj_def)
  have c: "length (contents obj) = unat (to_block_size obj)" using assms(1) by (simp add: tmpfs_file_def)
  show ?thesis
  proof (cases "to_block_size obj < off")
    case True
    then show ?thesis using f c by (simp add: tmpfs_read_def word_less_nat_alt)
  next
    case False
    define k where "k = (if off + len \<le> to_block_size obj then len else to_block_size obj - off)"
    have k: "unat k = length (file_get (unat off) (unat len) (contents obj))"
      using False ol c unat_sub [of off "to_block_size obj"]
      by (auto simp: k_def file_get_def not_less word_le_nat_alt min_def)
    have kk: "file_get (unat off) (unat len) (contents obj) = take (unat k) (drop (unat off) (contents obj))"
      by (metis file_get_def k length_take take_all_iff nat_le_linear take_take min.absorb1 min.absorb2 append_take_drop_id order_refl)
    have "tmpfs_read n off len s = Inr (k, file_get (unat off) (unat len) (contents obj))"
    proof (cases "k = 0")
      case True
      then show ?thesis using False f k by (simp add: tmpfs_read_def k_def [symmetric])
    next
      case k0: False
      have le: "unat off + unat k \<le> length (contents obj)"
        using False c by (auto simp: k file_get_def word_less_nat_alt)
      then obtain b where "to_block obj = Some b" using k0 by (auto simp: contents_def unat_eq_0 split: option.splits)
      then show ?thesis using False f k0 le kk by (simp add: tmpfs_read_def k_def [symmetric] block_read_def contents_def)
    qed
    moreover have "k = of_nat (length (file_get (unat off) (unat len) (contents obj)))" by (simp flip: k)
    ultimately show ?thesis using False c f by (simp add: word_less_nat_alt)
  qed
qed

lemma fs_write_tmpfs_eq:
  assumes "tmpfs_file s n a obj"
  shows "fs_write n off bytes s = tmpfs_write n off bytes s" "tmpfs_obj n s = Inr (a, obj)" "to_flags obj AND FS_NODE_FILE \<noteq> 0"
  using assms by (auto simp: fs_write_def tmpfs_file_def tmpfs_obj_def)

definition put_obj :: "(nat \<Rightarrow> u8) \<Rightarrow> nat \<Rightarrow> u8 list \<Rightarrow> tmpfs_object \<Rightarrow> tmpfs_object" where
  "put_obj junk off bytes obj =
     (let b = file_put junk off bytes (contents obj)
      in obj\<lparr>to_block_size := of_nat (length b), to_block := Some b\<rparr>)"

lemma fs_write_tmpfs:
  assumes t: "tmpfs_file s n a obj" and b: "bytes \<noteq> []" "unat off + length bytes < 2 ^ 32"
  shows "fs_write n off bytes s =
    Inr (of_nat (length bytes), s\<lparr>tobjs := (tobjs s)(a \<mapsto> put_obj (v_garbage s) (unat off) bytes obj)\<rparr>)"
proof -
  let ?len = "of_nat (length bytes) :: u32"
  have len: "unat ?len = length bytes" using b(2) by (simp add: unat_of_nat)
  have req: "unat (off + ?len) = unat off + length bytes" using len b(2) by (simp add: unat_word_ariths(1))
  have l0: "?len \<noteq> 0" using len b(1) by auto
  have c: "length (contents obj) = unat (to_block_size obj)" using t by (simp add: tmpfs_file_def)
  note w = fs_write_tmpfs_eq [OF t]
  show ?thesis
  proof (cases "to_block_size obj < off + ?len")
    case True
    then have lt: "length (contents obj) < unat off + length bytes" using c req by (simp add: word_less_nat_alt)
    have g: "block_grow (v_garbage s) (to_block obj) (unat off + length bytes) =
        contents obj @ map (v_garbage s) [length (contents obj)..<unat off + length bytes]"
      using lt by (auto simp: block_grow_def contents_def Let_def split: option.splits)
    have "put_obj (v_garbage s) (unat off) bytes obj = obj\<lparr>to_block_size := off + ?len,
        to_block := Some (file_put (v_garbage s) (unat off) bytes (contents obj))\<rparr>"
      using lt by (simp add: put_obj_def length_file_put max_def Let_def)
    then show ?thesis using w True l0 lt len
      by (simp add: tmpfs_write_def Let_def req g block_write_def file_put_def)
  next
    case False
    then have le: "unat off + length bytes \<le> length (contents obj)" using c req by (simp add: word_less_nat_alt)
    then obtain blk where blk: "to_block obj = Some blk" using b(1) by (auto simp: contents_def split: option.splits)
    have "put_obj (v_garbage s) (unat off) bytes obj = obj\<lparr>to_block := Some (file_put (v_garbage s) (unat off) bytes (contents obj))\<rparr>"
      using le c by (simp add: put_obj_def length_file_put max_def Let_def)
    then show ?thesis using w False l0 le blk
      by (simp add: tmpfs_write_def Let_def block_write_def file_put_def contents_def)
  qed
qed

lemma tmpfs_file_put:
  assumes "tmpfs_file s n a obj" "unat off + length bytes < 2 ^ 32"
  shows "tmpfs_file (s\<lparr>tobjs := (tobjs s)(a \<mapsto> put_obj junk (unat off) bytes obj)\<rparr>) n a (put_obj junk (unat off) bytes obj)"
proof -
  have "length (contents obj) < 2 ^ 32"
    using assms(1) unsigned_less [of "to_block_size obj", where 'a = nat] by (simp add: tmpfs_file_def)
  then have "max (length (contents obj)) (unat off + length bytes) < 2 ^ 32" using assms(2) by simp
  then show ?thesis using assms(1)
    by (auto simp: tmpfs_file_def put_obj_def contents_def [of "_ \<lparr>to_block_size := _, to_block := _\<rparr>"] length_file_put unat_of_nat Let_def)
qed

lemma file_rw:
  assumes "tmpfs_file s n a obj" "bytes \<noteq> []" "unat off + length bytes < 2 ^ 32"
  shows "\<exists>s' obj'. fs_write n off bytes s = Inr (of_nat (length bytes), s') \<and> tmpfs_file s' n a obj' \<and>
    contents obj' = file_put (v_garbage s) (unat off) bytes (contents obj) \<and>
    fs_read s' n off (of_nat (length bytes)) = Inr (of_nat (length bytes), bytes)"
proof -
  let ?obj' = "put_obj (v_garbage s) (unat off) bytes obj"
  have t: "tmpfs_file (s\<lparr>tobjs := (tobjs s)(a \<mapsto> ?obj')\<rparr>) n a ?obj'" by (rule tmpfs_file_put [OF assms(1,3)])
  have c: "contents ?obj' = file_put (v_garbage s) (unat off) bytes (contents obj)"
    by (simp add: put_obj_def contents_def [of "_ \<lparr>to_block_size := _, to_block := _\<rparr>"] Let_def)
  have len: "unat (of_nat (length bytes) :: u32) = length bytes" using assms(3) by (simp add: unat_of_nat)
  have "fs_read (s\<lparr>tobjs := (tobjs s)(a \<mapsto> ?obj')\<rparr>) n off (of_nat (length bytes)) = Inr (of_nat (length bytes), bytes)"
    using fs_read_tmpfs [OF t, of off "of_nat (length bytes)"] assms(3) by (simp add: len c file_get_put length_file_put)
  then show ?thesis using fs_write_tmpfs [OF assms] t c by blast
qed


text \<open>A write whose end wraps around \<open>2^32\<close> stops the kernel: the size that is asked for is smaller than
  the offset, so the block is not grown to hold the bytes and the copy leaves it (or there is no
  block at all and the assertion fails).\<close>

lemma tmpfs_write_wraps:
  assumes "tmpfs_file s n a obj" "2 ^ 32 \<le> unat off + length bytes" "length bytes < 2 ^ 32"
  shows "fs_write n off bytes s = Inl MemFault \<or> fs_write n off bytes s = Inl AssertFailed"
proof -
  let ?len = "of_nat (length bytes) :: u32"
  have len: "unat ?len = length bytes" using assms(3) by (simp add: unat_of_nat)
  have off: "unat off < 2 ^ 32" using unsigned_less [of off, where 'a = nat] by simp
  have l0: "?len \<noteq> 0" using len assms(2) off by (auto simp: unat_eq_0 [symmetric])
  have "unat (off + ?len) < 2 ^ 32" using unsigned_less [of "off + ?len", where 'a = nat] by simp
  moreover have "length (contents obj) < 2 ^ 32"
    using assms(1) unsigned_less [of "to_block_size obj", where 'a = nat] by (simp add: tmpfs_file_def)
  ultimately show ?thesis
    using fs_write_tmpfs_eq [OF assms(1)] l0 assms(2)
    by (auto simp: tmpfs_write_def Let_def block_write_def block_grow_def contents_def split: option.splits)
qed

section \<open>Directories of a tmpfs\<close>

text \<open>A node of a directory of a tmpfs, the directory's object, and its children.\<close>

definition tmpfs_dir :: "vfs \<Rightarrow> addr \<Rightarrow> addr \<Rightarrow> tmpfs_object \<Rightarrow> addr list \<Rightarrow> bool" where
  "tmpfs_dir s n a obj l \<longleftrightarrow>
     n \<noteq> 0 \<and> a \<noteq> 0 \<and> tobjs s a = Some obj \<and> to_childs obj = Some l \<and>
     (\<exists>nd. nodes s n = Some nd \<and> nd_object nd = a \<and> nd_flags nd AND FS_NODE_DIRECTORY \<noteq> 0 \<and>
        nd_finddir nd = Some Tmpfs_finddir \<and> nd_create nd = Some Tmpfs_create) \<and>
     (\<forall>v \<in> set l. v \<noteq> 0 \<and> (\<exists>c. tobjs s v = Some c \<and> (to_flags c = FS_NODE_DIRECTORY \<or> to_flags c = FS_NODE_FILE)))"

definition child_name :: "vfs \<Rightarrow> addr \<Rightarrow> cstr" where
  "child_name s v = to_name (the (tobjs s v))"

lemma child_at_found:
  assumes "\<forall>v \<in> set l. v \<noteq> 0 \<and> (\<exists>c. tobjs s v = Some c)" "l = pre @ v # post"
    "\<forall>u \<in> set pre. \<not> P (child_name s u)" "P (child_name s v)"
  shows "child_at P s l = Inr (Some (length pre))"
  using assms by (induction pre arbitrary: l) (auto simp: child_name_def)

lemma child_at_none:
  assumes "\<forall>v \<in> set l. v \<noteq> 0 \<and> (\<exists>c. tobjs s v = Some c)" "\<forall>u \<in> set l. \<not> P (child_name s u)"
  shows "child_at P s l = Inr None"
  using assms by (induction l) (auto simp: child_name_def)

lemma find_split: "find P l = Some v \<Longrightarrow> \<exists>pre post. l = pre @ v # post \<and> P v \<and> (\<forall>u \<in> set pre. \<not> P u)"
proof (induction l)
  case (Cons x l)
  show ?case
  proof (cases "P x")
    case True
    then show ?thesis using Cons.prems by (intro exI [of _ "[]"] exI [of _ l]) auto
  next
    case False
    then obtain pre post where "l = pre @ v # post" "P v" "\<forall>u \<in> set pre. \<not> P u" using Cons by auto
    then show ?thesis using False by (intro exI [of _ "x # pre"] exI [of _ post]) auto
  qed
qed simp

lemma fs_finddir_tmpfs:
  assumes "tmpfs_dir s n a obj l"
  shows "fs_finddir n name s =
    kbind (child_at (same_prefix name) s l) (\<lambda>r.
      case r of None \<Rightarrow> Inr (None, s) | Some i \<Rightarrow> kbind (fs_node_from_tmpfs (l ! i) s) (\<lambda>(f, s). Inr (Some f, s)))"
  using assms by (auto simp: tmpfs_dir_def fs_finddir_def dir_node_def finddir_fun_def tmpfs_finddir_def tmpfs_obj_def)

lemma finddir_first:
  assumes "tmpfs_dir s n a obj (pre @ v # post)" "\<forall>u \<in> set pre. \<not> same_prefix name (child_name s u)"
    "same_prefix name (child_name s v)" "tobjs s v = Some c"
  shows "fs_finddir n name s =
    Inr (Some (v_next s), s\<lparr>nodes := (nodes s)(v_next s \<mapsto> tmpfs_node c v (blank_node\<lparr>nd_refcount := 1\<rparr>)), v_next := v_next s + 1,
                            tobjs := (tobjs s)(v \<mapsto> c\<lparr>to_refcount := to_refcount c + 1\<rparr>)\<rparr>)"
proof -
  have l: "\<forall>u \<in> set (pre @ v # post). u \<noteq> 0 \<and> (\<exists>c. tobjs s u = Some c)"
    and v: "v \<noteq> 0" "to_flags c = FS_NODE_DIRECTORY \<or> to_flags c = FS_NODE_FILE"
    using assms(1,4) by (auto simp: tmpfs_dir_def)
  have "child_at (same_prefix name) s (pre @ v # post) = Inr (Some (length pre))"
    by (rule child_at_found [OF l refl assms(2,3)])
  then show ?thesis using fs_finddir_tmpfs [OF assms(1), of name] v assms(4)
    by (auto simp: fs_node_from_tmpfs_def fs_node_new_def)
qed

text \<open>Looking up a name in a directory of a tmpfs: the node returned is a new node for the first child
  whose name starts with the name asked for - it need not be equal to it - and NULL when no child
  does.\<close>

lemma finddir_first_prefix:
  assumes "tmpfs_dir s n a obj l"
  shows "case find (\<lambda>v. same_prefix name (child_name s v)) l of
      None \<Rightarrow> fs_finddir n name s = Inr (None, s)
    | Some v \<Rightarrow> \<exists>f s' nd. fs_finddir n name s = Inr (Some f, s') \<and> nodes s' f = Some nd \<and> nd_object nd = v \<and>
        nd_name nd = take 255 (child_name s v)"
proof (cases "find (\<lambda>v. same_prefix name (child_name s v)) l")
  case None
  have l: "\<forall>u \<in> set l. u \<noteq> 0 \<and> (\<exists>c. tobjs s u = Some c)" using assms by (auto simp: tmpfs_dir_def)
  have "\<forall>u \<in> set l. \<not> same_prefix name (child_name s u)" using None by (simp add: find_None_iff)
  then show ?thesis using fs_finddir_tmpfs [OF assms] child_at_none [OF l] None by simp
next
  case (Some v)
  then obtain pre post where l: "l = pre @ v # post" and p: "\<forall>u \<in> set pre. \<not> same_prefix name (child_name s u)"
    and v: "same_prefix name (child_name s v)"
    using find_split by fastforce
  obtain c where c: "tobjs s v = Some c" using assms l by (auto simp: tmpfs_dir_def)
  show ?thesis using finddir_first [OF _ p v c] assms l Some c by (auto simp: child_name_def tmpfs_node_def Let_def)
qed

text \<open>A file that is created in a directory is found there under its name, empty, unless the name is a
  prefix of the name of another entry.\<close>

lemma create_then_finddir:
  assumes d: "tmpfs_dir s n a obj l" and fr: "tobjs s (v_next s) = None" "0 < v_next s"
    and new: "\<forall>u \<in> set l. \<not> same_prefix name (child_name s u)"
  shows "\<exists>s1 f s2 c. fs_create n name s = Inr s1 \<and> fs_finddir n name s1 = Inr (Some f, s2) \<and>
    tmpfs_file s2 f (v_next s) c \<and> to_name c = name \<and> contents c = []"
proof -
  let ?v = "v_next s"
  define c where "c = \<lparr>to_name = name, to_flags = FS_NODE_FILE, to_childs = None, to_block = None, to_block_size = 0, to_refcount = 1\<rparr>"
  define s1 where "s1 = s\<lparr>tobjs := (tobjs s)(?v \<mapsto> c, a \<mapsto> obj\<lparr>to_childs := Some (l @ [?v])\<rparr>), v_next := ?v + 1\<rparr>"
  have l: "\<forall>u \<in> set l. u \<noteq> 0 \<and> (\<exists>c. tobjs s u = Some c)" using d by (auto simp: tmpfs_dir_def)
  have "\<forall>u \<in> set l. child_name s u \<noteq> name" using new by (auto simp: same_prefix_def)
  then have "child_at (\<lambda>c. c = name) s l = Inr None" using child_at_none [OF l] by simp
  then have cr: "fs_create n name s = Inr s1" using d
    by (auto simp: tmpfs_dir_def fs_create_def dir_node_def tmpfs_create_def tmpfs_add_def tmpfs_obj_def tmpfs_create_obj_def
        s1_def c_def Let_def FS_NODE_FILE_def FS_NODE_DIRECTORY_def)
  have va: "?v \<noteq> a" using d fr by (auto simp: tmpfs_dir_def)
  have d1: "tmpfs_dir s1 n a (obj\<lparr>to_childs := Some (l @ [?v])\<rparr>) (l @ ?v # [])"
    using d fr va by (auto simp: tmpfs_dir_def s1_def c_def)
  have n1: "child_name s1 u = child_name s u" if "u \<in> set l" for u
    using that d fr by (auto simp: child_name_def s1_def tmpfs_dir_def)
  have v1: "tobjs s1 ?v = Some c" using va by (simp add: s1_def)
  then have "same_prefix name (child_name s1 ?v)" by (simp add: child_name_def same_prefix_def c_def)
  note f = finddir_first [OF d1 _ this v1]
  show ?thesis
    by (rule exI [of _ s1], rule exI, rule exI, rule exI [of _ "c\<lparr>to_refcount := 2\<rparr>"],
        rule conjI [OF cr], rule conjI, rule f)
       (use new n1 fr in \<open>auto simp: tmpfs_file_def tmpfs_node_def contents_def s1_def c_def Let_def FS_NODE_FILE_def FS_NODE_DIRECTORY_def\<close>)
qed

section \<open>Mounts\<close>

text \<open>A mount that is added behind the others of its parent keeps what was found before.\<close>

definition adds_mount :: "vfs \<Rightarrow> addr \<Rightarrow> addr \<Rightarrow> fs_mount \<Rightarrow> vfs \<Rightarrow> bool" where
  "adds_mount s parent m mt s' \<longleftrightarrow>
     mnts s m = None \<and> parent \<noteq> m \<and>
     (\<exists>pt. mnts s parent = Some pt \<and> mnts s' = (mnts s)(m \<mapsto> mt, parent \<mapsto> pt\<lparr>mt_mounts := mt_mounts pt @ [m]\<rparr>))"

lemma adds_mount_element: "adds_mount s p m mt s' \<Longrightarrow> mnts s c = Some x \<Longrightarrow> \<exists>y. mnts s' c = Some y \<and> mt_element y = mt_element x"
  by (auto simp: adds_mount_def)

lemma fm_loop_add:
  assumes "adds_mount s p m mt s'" "fm_loop e s ms = Inr r"
  shows "fm_loop e s' (ms @ xs) = (case r of Some c \<Rightarrow> Inr (Some c) | None \<Rightarrow> fm_loop e s' xs)"
  using assms(2)
proof (induction ms)
  case (Cons c ms)
  obtain x where x: "mnts s c = Some x" using Cons.prems by auto
  then show ?case using adds_mount_element [OF assms(1) x] Cons by (auto split: if_splits)
qed auto

lemma findmount_add:
  assumes a: "adds_mount s p m mt s'" and f: "findmount q e s = Inr r"
  shows "findmount q e s' = (case r of Some c \<Rightarrow> Inr (Some c)
      | None \<Rightarrow> if q = p \<and> mt_element mt = e then Inr (Some m) else Inr None)"
proof -
  obtain qt where q: "q \<noteq> 0" "mnts s q = Some qt" and r: "fm_loop e s (mt_mounts qt) = Inr r"
    using f by (auto simp: findmount_def)
  show ?thesis
  proof (cases "q = p")
    case True
    then have "mnts s' q = Some (qt\<lparr>mt_mounts := mt_mounts qt @ [m]\<rparr>)" "mnts s' m = Some mt"
      using a q by (auto simp: adds_mount_def)
    then show ?thesis using q True fm_loop_add [OF a r, of "[m]"] by (auto simp: findmount_def split: option.splits)
  next
    case False
    then have "mnts s' q = Some qt" using a q by (auto simp: adds_mount_def)
    then show ?thesis using q False fm_loop_add [OF a r, of "[]"] by (auto simp: findmount_def split: option.splits)
  qed
qed

lemma walk_add:
  assumes a: "adds_mount s p m mt s'" "mt_element mt = e"
  shows "walk_mount_graph s els q = Inr (p, [e]) \<Longrightarrow> walk_mount_graph s' els q = Inr (m, [])"
proof (induction els arbitrary: q)
  case (Cons x els)
  obtain r where r: "findmount q x s = Inr r" using Cons.prems by auto
  then show ?case using findmount_add [OF a(1) r] Cons a(2) by (cases r) auto
qed simp

lemma walk_last: "walk_mount_graph s els q = Inr (p, [e]) \<Longrightarrow> els \<noteq> [] \<and> last els = e"
proof (induction els arbitrary: q)
  case (Cons x els)
  obtain r where "findmount q x s = Inr r" using Cons.prems by auto
  then show ?case using Cons by (cases r) auto
qed simp

lemma walk_parent: "walk_mount_graph s els q = Inr (p, e # es) \<Longrightarrow> mnts s p \<noteq> None"
proof (induction els arbitrary: q)
  case (Cons x els)
  obtain r where "findmount q x s = Inr r" using Cons.prems by auto
  then show ?case using Cons by (cases r) (auto simp: findmount_def)
qed simp

lemma reference_frame:
  assumes "fs_node_reference n s = Inr s'"
  shows "mnts s' = mnts s \<and> fs_root_mount s' = fs_root_mount s \<and> n \<noteq> 0 \<and> (\<exists>nd. nodes s' n = Some nd \<and> nd_refcount nd \<noteq> 0)"
proof -
  obtain nd where nd: "n \<noteq> 0" "nodes s n = Some nd" "nd_refcount nd \<noteq> 0"
    and s': "s' = (if 0 < nd_refcount nd then s\<lparr>nodes := (nodes s)(n \<mapsto> nd\<lparr>nd_refcount := nd_refcount nd + 1\<rparr>)\<rparr> else s)"
    using assms by (auto simp: fs_node_reference_def split: if_splits)
  then show ?thesis by (cases "0 < nd_refcount nd") (auto simp: s' nd)
qed

lemma kmount_adds:
  assumes k: "kmount path n s = Inr (True, s')" and fr: "mnts s (v_next s) = None"
  shows "\<exists>p mt. walk_mount_graph s (tokenize_path_list path) (fs_root_mount s) = Inr (p, [mt_element mt]) \<and>
    adds_mount s p (v_next s) mt s' \<and> mt_node mt = n \<and> fs_root_mount s' = fs_root_mount s \<and>
    (\<exists>nd. nodes s' n = Some nd \<and> nd_refcount nd \<noteq> 0) \<and> n \<noteq> 0"
proof -
  let ?m = "v_next s" and ?els = "tokenize_path_list path"
  obtain p rest m t q where w: "walk_mount_graph s ?els (fs_root_mount s) = Inr (p, rest)" "length rest = 1"
    and t: "fs_mount_submount p n (last ?els) s = Inr (m, t)" and rl: "fs_mount_release m t = Inr (q, s')"
    using k by (auto simp: kmount_def Let_def split: if_splits)
  obtain e where e: "rest = [e]" using w(2) by (cases rest) auto
  have le: "last ?els = e" and p: "mnts s p \<noteq> None" using walk_last walk_parent w(1) e by auto
  obtain u where u: "fs_node_reference n (s\<lparr>mnts := (mnts s)(?m \<mapsto> \<lparr>mt_element = [], mt_node = 0, mt_mounts = [], mt_refcount = 1\<rparr>), v_next := ?m + 1\<rparr>) = Inr u"
    using t by (auto simp: fs_mount_submount_def fs_mount_new_def mount_set_def)
  obtain pt where pt: "mnts s p = Some pt" using p by auto
  have pm: "p \<noteq> ?m" using p fr by auto
  note rf = reference_frame [OF u]
  have t': "m = ?m" "t = u\<lparr>mnts := (mnts s)(?m \<mapsto> \<lparr>mt_element = e, mt_node = n, mt_mounts = [], mt_refcount = 2\<rparr>,
      p \<mapsto> pt\<lparr>mt_mounts := mt_mounts pt @ [?m]\<rparr>)\<rparr>"
    using t u rf pt pm le by (auto simp: fs_mount_submount_def fs_mount_new_def mount_set_def fs_mount_reference_def)
  have "s' = t\<lparr>mnts := (mnts t)(?m \<mapsto> \<lparr>mt_element = e, mt_node = n, mt_mounts = [], mt_refcount = 1\<rparr>)\<rparr>"
    using rl pm by (auto simp: fs_mount_release_def t')
  then have "adds_mount s p ?m \<lparr>mt_element = e, mt_node = n, mt_mounts = [], mt_refcount = 1\<rparr> s'" "fs_root_mount s' = fs_root_mount s"
    "\<exists>nd. nodes s' n = Some nd \<and> nd_refcount nd \<noteq> 0"
    using fr pm pt rf by (auto simp: adds_mount_def t' fun_upd_twist)
  then show ?thesis using w(1) e rf by (intro exI [of _ p] exI [of _ "\<lparr>mt_element = e, mt_node = n, mt_mounts = [], mt_refcount = 1\<rparr>"]) auto
qed

lemma reference_again:
  assumes "nodes s n = Some nd" "nd_refcount nd \<noteq> 0" "n \<noteq> 0"
  shows "\<exists>s' nd'. fs_node_reference n s = Inr s' \<and> nodes s' n = Some nd' \<and> nd_refcount nd' \<noteq> 0 \<and> nd_refcount nd' \<noteq> 1 \<and> mnts s' = mnts s"
  using assms by (cases "0 < nd_refcount nd") (auto simp: fs_node_reference_def)

lemma ff_loop_Nil: "ff_loop left els i [] n = (\<lambda>s. Inr (n, s))"
  by (rule ext) (simp add: ff_loop.simps)

lemma kopen_tail:
  assumes "nodes s n = Some nd" "nd_refcount nd \<noteq> 0" "n \<noteq> 0"
  shows "\<exists>s'. kbind (fs_node_reference n s) (\<lambda>s. kbind (fs_open n s) (fs_node_release n)) = Inr (n, s')"
proof -
  obtain s1 nd1 where s1: "fs_node_reference n s = Inr s1" "nodes s1 n = Some nd1" "nd_refcount nd1 \<noteq> 0"
    using reference_again [OF assms] by blast
  obtain s2 nd2 where s2: "fs_node_reference n s1 = Inr s2" "nodes s2 n = Some nd2" "nd_refcount nd2 \<noteq> 1"
    using reference_again [OF s1(2,3) assms(3)] by blast
  then show ?thesis using s1(1) assms(3) by (cases "0 < nd_refcount nd2") (auto simp: fs_open_def fs_node_release_def Let_def)
qed

text \<open>C35: What was mounted is what is opened: after a mount at a path of plain elements has succeeded,
  opening that path returns the node that was mounted.\<close>

theorem kmount_then_kopen:
  assumes "kmount path n s = Inr (True, s')" "mnts s (v_next s) = None" "0 < v_next s" "0 \<notin> set path"
    and plain: "\<forall>e \<in> set (tokenize_path_list path). plain e"
  shows "\<exists>s''. kopen path s' = Inr (n, s'')"
proof -
  let ?els = "tokenize_path_list path"
  obtain p mt nd where w: "walk_mount_graph s ?els (fs_root_mount s) = Inr (p, [mt_element mt])"
    and a: "adds_mount s p (v_next s) mt s'" and mt: "mt_node mt = n" and rt: "fs_root_mount s' = fs_root_mount s"
    and nd: "nodes s' n = Some nd" "nd_refcount nd \<noteq> 0" "n \<noteq> 0"
    using kmount_adds [OF assms(1,2)] by blast
  have w': "walk_mount_graph s' ?els (fs_root_mount s') = Inr (v_next s, [])"
    using walk_add [OF a refl w] rt by simp
  have m: "mnts s' (v_next s) = Some mt" using a by (auto simp: adds_mount_def)
  have "canonicalize_path_list [SLASH] path = Inr ?els"
    using canonicalize_root [OF assms(4)] push_plain [OF plain, of "[]"] by (simp add: tokenize_path_list_elements)
  then have ff: "findfile [SLASH] path s' = kbind (fs_node_reference n s') (\<lambda>s. Inr (n, s))"
    using w' m mt nd(3) by (simp add: findfile_def findfile_recursive.simps ff_loop_Nil numeral_eq_Suc)
  have ne: "path \<noteq> [SLASH]" using walk_last [OF w] by (auto simp: tokenize_path_list_elements path_elements_def)
  have "kopen path s' = kbind (fs_node_reference n s') (\<lambda>s. kbind (fs_open n s) (fs_node_release n))"
    using ne nd(3) by (simp add: kopen_def ff)
  then show ?thesis using kopen_tail [OF nd] by simp
qed

section \<open>An archive on a ramdisk\<close>

definition ramdisk_node :: "vfs \<Rightarrow> addr \<Rightarrow> nat \<Rightarrow> bool" where
  "ramdisk_node s n len \<longleftrightarrow>
     n \<noteq> 0 \<and> 0 < v_next s \<and> (\<exists>nd. nodes s n = Some nd \<and> nd_read nd = Some Ramdisk_read \<and> unat (nd_length nd) = len)"

lemma rd_size_full:
  assumes "unat (nd_length nd) < 2 ^ 31" "rd_size nd ptr 512 = 512"
  shows "unat ptr + 512 \<le> unat (nd_length nd)"
proof -
  have le: "\<not> nd_length nd < ptr" using assms(2) by (auto simp: rd_size_def)
  then have p: "unat ptr \<le> unat (nd_length nd)" by (simp add: word_less_nat_alt)
  then have e: "unat (ptr + 512) = unat ptr + 512" using assms(1) by (simp add: unat_word_ariths(1))
  show ?thesis
  proof (cases "nd_length nd < ptr + 512")
    case True
    then have "nd_length nd - ptr = 512" using assms(2) le by (simp add: rd_size_def)
    then have "nd_length nd = ptr + 512" by (simp add: diff_eq_eq add.commute)
    then show ?thesis using True by simp
  next
    case False
    then show ?thesis using e by (simp add: word_less_nat_alt)
  qed
qed

lemma ramdisk_device_ok:
  assumes "ramdisk_node s n len" "len < 2 ^ 31"
  shows "device_ok (fs_read s n) len"
proof -
  obtain d where "v_next s = Suc d" using assms(1) by (auto simp: ramdisk_node_def gr0_conv_Suc)
  then show ?thesis using assms rd_size_full
    by (auto simp: device_ok_def ramdisk_node_def fs_read_def ramdisk_read_def Let_def)
qed


lemma entry_length_wraps:
  assumes "2 ^ 32 - 1023 \<le> unat (oct2bin (hdr_fsize hdr) 12)" "unat (oct2bin (hdr_fsize hdr) 12) \<le> 2 ^ 32 - 512"
  shows "tar_entry_length hdr = 0"
proof -
  define x where "x = oct2bin (hdr_fsize hdr) 12"
  have "unat (x + 511) = unat x + 511" using assms by (simp add: x_def unat_word_ariths(1))
  then have "unat ((x + 511) div 512) = (unat x + 511) div 512" by (simp add: unat_div_distrib)
  moreover have "(unat x + 511) div 512 = 2 ^ 23 - 1" using assms by (simp add: x_def)
  ultimately have "unat ((x + 511) div 512) = unat (2 ^ 23 - 1 :: u32)" by simp
  then have "(x + 511) div 512 = 2 ^ 23 - 1" by (simp only: word_unat_eq_iff)
  then show ?thesis by (simp add: tar_entry_length_def x_def)
qed

text \<open>A header whose size field is just below \<open>2^32\<close> has the entry length 0, and the lookup of any other name
  reads it again and again: no number of steps is enough.\<close>

lemma tar_lookup_stuck:
  assumes "fs_read s n 0 512 = Inr (512, hdr)" "length fname \<le> 98" "\<not> tar_match fname hdr"
    "2 ^ 32 - 1023 \<le> unat (oct2bin (hdr_fsize hdr) 12)" "unat (oct2bin (hdr_fsize hdr) 12) \<le> 2 ^ 32 - 512"
  shows "tar_lookup (fs_read s n) fname = Inl Diverges \<and>
    (\<forall>steps. tar_foreach steps (fs_read s n) (lookup_body fname) 0 () = Inl Diverges)"
proof -
  have "\<forall>steps. tar_foreach steps (fs_read s n) (lookup_body fname) 0 () = Inl Diverges"
    using tar_foreach_stuck [where rd = "fs_read s n" and ptr = 0 and hdr = hdr and body = "lookup_body fname" and l = "()"]
      assms(1,3) entry_length_wraps [OF assms(4,5)] by simp
  then show ?thesis using assms(2) by (simp add: tar_lookup_def)
qed

section \<open>Examples\<close>

definition ex_files :: vfs where
  "ex_files = ex_vfs\<lparr>
     nodes := [1 \<mapsto> blank_node\<lparr>nd_object := 2, nd_flags := FS_NODE_FILE, nd_read := Some Tmpfs_read, nd_write := Some Tmpfs_write,
                     nd_refcount := 1\<rparr>,
               5 \<mapsto> blank_node\<lparr>nd_object := 3, nd_flags := FS_NODE_DIRECTORY, nd_finddir := Some Tmpfs_finddir,
                     nd_create := Some Tmpfs_create, nd_refcount := 1\<rparr>],
     tobjs := [2 \<mapsto> \<lparr>to_name = [97, 98], to_flags = FS_NODE_FILE, to_childs = None, to_block = None, to_block_size = 0, to_refcount = 2\<rparr>,
               3 \<mapsto> \<lparr>to_name = [97], to_flags = FS_NODE_DIRECTORY, to_childs = Some [2], to_block = None, to_block_size = 0, to_refcount = 1\<rparr>],
     v_next := 6\<rparr>"

lemmas ex_files_defs = ex_files_def ex_vfs_def blank_node_def FS_NODE_FILE_def FS_NODE_DIRECTORY_def

lemma ex_files_file: "\<exists>obj. tmpfs_file ex_files 1 2 obj \<and> contents obj = []"
  by (simp add: ex_files_defs tmpfs_file_def contents_def)

lemma ex_files_dir: "\<exists>obj. tmpfs_dir ex_files 5 3 obj [2]"
  by (simp add: ex_files_defs tmpfs_dir_def)


theorem kmount_then_kopen_witness:
  "\<exists>s' s''. kmount [47, 109] 2 ex_state = Inr (True, s') \<and> kopen [47, 109] s' = Inr (2, s'')"
proof -
  have "map_sum (\<lambda>_. ()) fst (kmount [47, 109] 2 ex_state) = Inr True" by code_simp
  then obtain s' where k: "kmount [47, 109] 2 ex_state = Inr (True, s')" by (cases "kmount [47, 109] 2 ex_state") auto
  have "mnts ex_state (v_next ex_state) = None" "0 < v_next ex_state" by (simp_all add: boot_defs)
  moreover have "\<forall>e \<in> set (tokenize_path_list [47, 109]). plain e" by code_simp
  ultimately show ?thesis using kmount_then_kopen [OF k] k by auto
qed

text \<open>Two ramdisks: 1024 zeros, and a header with the size field 037777777000 (octal).\<close>

definition ex_disk :: "mem \<Rightarrow> vfs" where
  "ex_disk m = ex_vfs\<lparr>nodes := [2 \<mapsto> blank_node\<lparr>nd_read := Some Ramdisk_read, nd_length := 1024, nd_refcount := 1\<rparr>],
     v_next := 3, v_mem := m\<rparr>"

lemma ex_disk_read:
  "fs_read (ex_disk m) 2 ptr 512 =
     (let len = rd_size (blank_node\<lparr>nd_read := Some Ramdisk_read, nd_length := 1024, nd_refcount := 1\<rparr>) ptr 512
      in Inr (len, map (\<lambda>i. m (ptr + of_nat i)) [0..<unat len]))"
  by (simp add: fs_read_def ex_disk_def ex_vfs_def eval_nat_numeral ramdisk_read_def blank_node_def Let_def)

lemma oct2bin_zeros: "oct2bin (replicate n 0) k = 0"
  by (cases n; cases k) (auto simp: oct2bin_def)


definition stuck_mem :: mem where
  "stuck_mem a = (if a = 124 then 51 else if 124 < a \<and> a < 132 then 55 else if 132 \<le> a \<and> a < 135 then 48 else 0)"

definition stuck_hdr :: "u8 list" where "stuck_hdr = map (\<lambda>i. stuck_mem (of_nat i)) [0..<512]"

lemma stuck_size: "unat (oct2bin (hdr_fsize stuck_hdr) 12) = 2 ^ 32 - 512"
proof -
  have "hdr_fsize stuck_hdr = map (\<lambda>i. stuck_mem (of_nat i)) [124..<136]"
    by (simp add: hdr_fsize_def stuck_hdr_def drop_map take_map del: upt_Suc upt_rec_numeral)
  also have "\<dots> = [51, 55, 55, 55, 55, 55, 55, 55, 48, 48, 48, 0]" by (simp add: upt_rec_numeral stuck_mem_def)
  finally show ?thesis by (simp add: oct2bin_def)
qed

end
