(* ===== verification/Fd.thy ===== *)
theory Fd
  imports Fs_Nodes
begin

text \<open>
  File descriptors: the entries and tables of src/kernel/process.c (lines 50 to 206) and the system
  calls of src/kernel/syscall.c that only work on them. Entries and tables are objects of stores,
  a new one gets an address that was never used, and allocation does not fail. An entry or table
  pointer that is NULL is the address 0, the entries of a table that has none yet are \<open>None\<close>.
  \<open>size_t\<close> counters of a table are natural numbers.
\<close>

record fd_entry_t =
  fd_node :: addr
  fd_seek :: u32
  fd_refcount :: int

record fd_table_t =
  ft_entries :: "addr list option"
  ft_length :: nat
  ft_capacity :: nat
  ft_refcount :: int

record fdstate =
  fvfs :: vfs
  fds :: "addr \<rightharpoonup> fd_entry_t"
  fdts :: "addr \<rightharpoonup> fd_table_t"
  f_next :: addr

definition set_fd :: "addr \<Rightarrow> fd_entry_t option \<Rightarrow> fdstate \<Rightarrow> fdstate" where
  "set_fd a e s = s\<lparr>fds := (fds s)(a := e)\<rparr>"

definition set_fdt :: "addr \<Rightarrow> fd_table_t option \<Rightarrow> fdstate \<Rightarrow> fdstate" where
  "set_fdt t T s = s\<lparr>fdts := (fdts s)(t := T)\<rparr>"

section \<open>Entries\<close>

definition fd_reference :: "addr \<Rightarrow> fdstate \<Rightarrow> fdstate res" where
  "fd_reference a s =
     kbind (kassert (a \<noteq> 0)) (\<lambda>_.
     kbind (get_obj (fds s) a) (\<lambda>e.
       Inr (if fd_refcount e \<noteq> -1 then set_fd a (Some (e\<lparr>fd_refcount := fd_refcount e + 1\<rparr>)) s else s)))"

definition fd_new :: "fdstate \<Rightarrow> (addr \<times> fdstate) res" where
  "fd_new s =
     (let a = f_next s; s = set_fd a (Some \<lparr>fd_node = 0, fd_seek = 0, fd_refcount = 0\<rparr>) (s\<lparr>f_next := f_next s + 1\<rparr>)
      in kbind (fd_reference a s) (\<lambda>s. Inr (a, s)))"

definition fd_free :: "addr \<Rightarrow> fdstate \<Rightarrow> fdstate res" where
  "fd_free a s =
     kbind (kassert (a \<noteq> 0)) (\<lambda>_.
     kbind (get_obj (fds s) a) (\<lambda>e.
       if fd_refcount e = -1 then Inr s
       else if fd_refcount e - 1 = 0
       then kbind (if fd_node e \<noteq> 0 then fs_close (fd_node e) (fvfs s) else Inr (0, fvfs s)) (\<lambda>(_, v).
              Inr (set_fd a None (s\<lparr>fvfs := v\<rparr>)))
       else Inr (set_fd a (Some (e\<lparr>fd_refcount := fd_refcount e - 1\<rparr>)) s)))"

section \<open>Tables\<close>

text \<open>\<open>table->entries[i]\<close>, and an assignment to it.\<close>

definition entry_at :: "fd_table_t \<Rightarrow> nat \<Rightarrow> addr res" where
  "entry_at T i = (case ft_entries T of None \<Rightarrow> Inl MemFault | Some l \<Rightarrow> kload l i)"

definition set_entry :: "addr \<Rightarrow> nat \<Rightarrow> addr \<Rightarrow> fdstate \<Rightarrow> fdstate res" where
  "set_entry t i a s =
     kbind (get_obj (fdts s) t) (\<lambda>T.
       case ft_entries T of None \<Rightarrow> Inl MemFault
       | Some l \<Rightarrow> kbind (kstore l i a) (\<lambda>l. Inr (set_fdt t (Some (T\<lparr>ft_entries := Some l\<rparr>)) s)))"

text \<open>The copy is a \<open>memcpy\<close> of the first \<open>length\<close> pointers, which asserts that there is something to copy.\<close>

definition fd_table_realloc :: "fd_table_t \<Rightarrow> fd_table_t res" where
  "fd_table_realloc T =
     (case ft_entries T of
        None \<Rightarrow> Inr (T\<lparr>ft_entries := Some (replicate (ft_capacity T) 0)\<rparr>)
      | Some l \<Rightarrow>
          kbind (kassert (ft_length T \<noteq> 0)) (\<lambda>_.
            if ft_length T \<le> length l \<and> ft_length T \<le> ft_capacity T
            then Inr (T\<lparr>ft_entries := Some (take (ft_length T) l @ replicate (ft_capacity T - ft_length T) 0)\<rparr>)
            else Inl MemFault))"

definition fd_table_reference :: "addr \<Rightarrow> fdstate \<Rightarrow> fdstate res" where
  "fd_table_reference t s =
     kbind (kassert (t \<noteq> 0)) (\<lambda>_.
     kbind (get_obj (fdts s) t) (\<lambda>T.
       Inr (if ft_refcount T \<noteq> -1 then set_fdt t (Some (T\<lparr>ft_refcount := ft_refcount T + 1\<rparr>)) s else s)))"

definition fd_table_new :: "fdstate \<Rightarrow> (addr \<times> fdstate) res" where
  "fd_table_new s =
     (let t = f_next s
      in kbind (fd_table_realloc \<lparr>ft_entries = None, ft_length = 0, ft_capacity = 16, ft_refcount = 0\<rparr>) (\<lambda>T.
         kbind (fd_table_reference t (set_fdt t (Some T) (s\<lparr>f_next := f_next s + 1\<rparr>))) (\<lambda>s. Inr (t, s))))"

definition fd_table_get :: "addr \<Rightarrow> nat \<Rightarrow> fdstate \<Rightarrow> addr res" where
  "fd_table_get t i s =
     kbind (kassert (t \<noteq> 0)) (\<lambda>_.
     kbind (get_obj (fdts s) t) (\<lambda>T. if ft_length T < i then Inr 0 else entry_at T i))"

text \<open>Making room for position \<open>i\<close>: the old entry is released, or the table grows.\<close>

definition set_room :: "addr \<Rightarrow> nat \<Rightarrow> fdstate \<Rightarrow> fdstate res" where
  "set_room t i s =
     kbind (get_obj (fdts s) t) (\<lambda>T.
       if i < ft_capacity T
       then kbind (entry_at T i) (\<lambda>old. if old \<noteq> 0 then fd_free old s else Inr s)
       else kbind (fd_table_realloc (T\<lparr>ft_capacity := i\<rparr>)) (\<lambda>T. Inr (set_fdt t (Some T) s)))"

definition fd_table_set :: "addr \<Rightarrow> nat \<Rightarrow> addr \<Rightarrow> fdstate \<Rightarrow> (nat \<times> fdstate) res" where
  "fd_table_set t i a s =
     kbind (kassert (t \<noteq> 0)) (\<lambda>_.
     kbind (get_obj (fdts s) t) (\<lambda>T.
       if a = 0
       then if i < ft_capacity T
            then kbind (entry_at T i) (\<lambda>old.
                   if old \<noteq> 0 then kbind (fd_free old s) (\<lambda>s. kbind (set_entry t i 0 s) (\<lambda>s. Inr (i, s))) else Inr (i, s))
            else Inr (i, s)
       else kbind (set_room t i s) (\<lambda>s.
            kbind (set_entry t i a s) (\<lambda>s.
            kbind (get_obj (fdts s) t) (\<lambda>T.
            Inr (i, if ft_length T < i then set_fdt t (Some (T\<lparr>ft_length := i\<rparr>)) s else s))))))"

text \<open>The first gap below the length.\<close>

fun ta_gap :: "fd_table_t \<Rightarrow> nat list \<Rightarrow> nat option res" where
  "ta_gap T [] = Inr None"
| "ta_gap T (i # is) = kbind (entry_at T i) (\<lambda>old. if old = 0 then Inr (Some i) else ta_gap T is)"

definition fd_table_append :: "addr \<Rightarrow> addr \<Rightarrow> fdstate \<Rightarrow> (nat \<times> fdstate) res" where
  "fd_table_append t a s =
     kbind (kassert (t \<noteq> 0)) (\<lambda>_.
     kbind (kassert (a \<noteq> 0)) (\<lambda>_.
     kbind (get_obj (fdts s) t) (\<lambda>T.
     kbind (ta_gap T [0..<ft_length T]) (\<lambda>g.
       case g of
         Some i \<Rightarrow> kbind (set_entry t i a s) (\<lambda>s. Inr (i, s))
       | None \<Rightarrow>
           kbind (if ft_length T = ft_capacity T then fd_table_realloc (T\<lparr>ft_capacity := ft_capacity T + 8\<rparr>) else Inr T) (\<lambda>T.
           kbind (set_entry t (ft_length T) a (set_fdt t (Some T) s)) (\<lambda>s.
           kbind (get_obj (fdts s) t) (\<lambda>T.
           Inr (ft_length T, set_fdt t (Some (T\<lparr>ft_length := ft_length T + 1\<rparr>)) s))))))))"

text \<open>The body of the loop of \<open>fd_table_clone\<close>.\<close>

definition clone_one :: "addr \<Rightarrow> addr \<Rightarrow> nat \<Rightarrow> fdstate \<Rightarrow> fdstate res" where
  "clone_one old new i s =
     kbind (fd_table_get old i s) (\<lambda>a.
     kbind (if a \<noteq> 0 then fd_reference a s else Inr s) (\<lambda>s.
     kbind (fd_table_set new i a s) (\<lambda>(_, s). Inr s)))"

definition fd_table_clone :: "addr \<Rightarrow> fdstate \<Rightarrow> (addr \<times> fdstate) res" where
  "fd_table_clone old s =
     kbind (kassert (old \<noteq> 0)) (\<lambda>_.
     kbind (fd_table_new s) (\<lambda>(new, s).
     kbind (get_obj (fdts s) old) (\<lambda>T.
     kbind (kfor (clone_one old new) [0..<ft_length T] s) (\<lambda>s. Inr (new, s)))))"

definition fd_table_free :: "addr \<Rightarrow> fdstate \<Rightarrow> fdstate res" where
  "fd_table_free t s =
     kbind (kassert (t \<noteq> 0)) (\<lambda>_.
     kbind (get_obj (fdts s) t) (\<lambda>T.
     kbind (kassert (ft_refcount T \<noteq> -1)) (\<lambda>_.
     let s = set_fdt t (Some (T\<lparr>ft_refcount := ft_refcount T - 1\<rparr>)) s
     in if ft_refcount T - 1 = 0
        then kbind (kfor (\<lambda>i s. kbind (entry_at T i) (\<lambda>a. if a \<noteq> 0 then fd_free a s else Inr s)) [0..<ft_length T] s)
               (\<lambda>s. Inr (set_fdt t None s))
        else Inr s)))"

section \<open>System calls\<close>

text \<open>\<open>t\<close> is \<open>current_process->fd_table\<close>. The entry a descriptor stands for, with the assertion on its node;
  0 when there is none.\<close>

definition fd_of :: "addr \<Rightarrow> nat \<Rightarrow> fdstate \<Rightarrow> addr res" where
  "fd_of t i s =
     kbind (fd_table_get t i s) (\<lambda>a.
       if a = 0 then Inr 0
       else kbind (get_obj (fds s) a) (\<lambda>e. kbind (kassert (fd_node e \<noteq> 0)) (\<lambda>_. Inr a)))"

definition syscall_lseek :: "addr \<Rightarrow> u32 \<Rightarrow> u32 \<Rightarrow> u32 \<Rightarrow> fdstate \<Rightarrow> (u32 \<times> fdstate) res" where
  "syscall_lseek t fd_num offset flags s =
     kbind (fd_of t (unat fd_num) s) (\<lambda>a.
       if a = 0 then Inr (-1, s)
       else if flags = 0
       then kbind (get_obj (fds s) a) (\<lambda>e. Inr (0, set_fd a (Some (e\<lparr>fd_seek := offset\<rparr>)) s))
       else Inr (-1, s))"

text \<open>\<open>fd_table_append\<close> never returns \<open>-1\<close>.\<close>

definition syscall_dup :: "addr \<Rightarrow> u32 \<Rightarrow> fdstate \<Rightarrow> (u32 \<times> fdstate) res" where
  "syscall_dup t oldfd s =
     kbind (kassert (t \<noteq> 0)) (\<lambda>_.
     kbind (fd_of t (unat oldfd) s) (\<lambda>a.
       if a = 0 then Inr (-1, s)
       else kbind (fd_reference a s) (\<lambda>s. kbind (fd_table_append t a s) (\<lambda>(r, s). Inr (of_nat r, s)))))"

definition syscall_dup2 :: "addr \<Rightarrow> u32 \<Rightarrow> u32 \<Rightarrow> fdstate \<Rightarrow> (u32 \<times> fdstate) res" where
  "syscall_dup2 t oldfd newfd s =
     kbind (fd_of t (unat oldfd) s) (\<lambda>a.
       if a = 0 then Inr (-1, s)
       else if newfd = oldfd then Inr (newfd, s)
       else kbind (fd_reference a s) (\<lambda>s. kbind (fd_table_set t (unat newfd) a s) (\<lambda>(r, s). Inr (of_nat r, s))))"

definition syscall_dup3 :: "addr \<Rightarrow> u32 \<Rightarrow> u32 \<Rightarrow> u32 \<Rightarrow> fdstate \<Rightarrow> (u32 \<times> fdstate) res" where
  "syscall_dup3 t oldfd newfd flags s = syscall_dup2 t oldfd newfd s"

definition syscall_close :: "addr \<Rightarrow> u32 \<Rightarrow> fdstate \<Rightarrow> (u32 \<times> fdstate) res" where
  "syscall_close t fd_num s =
     kbind (fd_of t (unat fd_num) s) (\<lambda>a.
       if a = 0 then Inr (-1, s)
       else kbind (fd_table_set t (unat fd_num) 0 s) (\<lambda>(_, s). Inr (0, s)))"

text \<open>\<open>syscall_open\<close> from the point where the path is known.\<close>

definition open_path :: "addr \<Rightarrow> cstr \<Rightarrow> fdstate \<Rightarrow> (u32 \<times> fdstate) res" where
  "open_path t path s =
     kbind (kopen path (fvfs s)) (\<lambda>(n, v).
     let s = s\<lparr>fvfs := v\<rparr>
     in if n = 0 then Inr (-2, s)
        else kbind (fd_new s) (\<lambda>(a, s).
             kbind (get_obj (fds s) a) (\<lambda>e.
             kbind (fd_table_append t a (set_fd a (Some (e\<lparr>fd_node := n, fd_seek := 0\<rparr>)) s)) (\<lambda>(r, s). Inr (of_nat r, s)))))"

text \<open>The descriptors of the first process (\<open>process_spawn_init\<close>): \<open>tty\<close> is the address of the console's node.\<close>

definition init_fds :: "addr \<Rightarrow> fdstate \<Rightarrow> (addr \<times> fdstate) res" where
  "init_fds tty s =
     kbind (fd_table_new s) (\<lambda>(t, s).
     kbind (fd_new s) (\<lambda>(a, s).
     kbind (get_obj (fds s) a) (\<lambda>e.
     kbind (fd_table_set t 0 a (set_fd a (Some (e\<lparr>fd_node := tty, fd_seek := 0\<rparr>)) s)) (\<lambda>(_, s).
     kbind (fd_reference a s) (\<lambda>s. kbind (fd_table_set t 1 a s) (\<lambda>(_, s).
     kbind (fd_reference a s) (\<lambda>s. kbind (fd_table_set t 2 a s) (\<lambda>(_, s). Inr (t, s)))))))))"

end
