(* ===== verification/Fd_Inv.thy ===== *)
theory Fd_Inv
  imports Fd
begin

text \<open>
  The invariant of the file descriptors. The state of a table is read as a function from positions to
  entries (\<open>slot\<close>); the reference counts cover the positions that hold an entry, and the entries that
  hold a node. Every operation on entries and tables, and every system call on descriptors, keeps it.
\<close>

section \<open>Tables as functions\<close>

definition fdt_wf :: "fd_table_t \<Rightarrow> bool" where
  "fdt_wf T \<longleftrightarrow> (case ft_entries T of None \<Rightarrow> False
     | Some l \<Rightarrow> length l = ft_capacity T \<and> ft_length T \<le> ft_capacity T \<and> (\<forall>j<length l. ft_length T < j \<longrightarrow> l ! j = 0))"

definition tslot :: "fd_table_t \<Rightarrow> nat \<Rightarrow> addr" where
  "tslot T i = (case ft_entries T of None \<Rightarrow> 0 | Some l \<Rightarrow> if i < length l then l ! i else 0)"

definition slot :: "fdstate \<Rightarrow> addr \<Rightarrow> nat \<Rightarrow> addr" where
  "slot s t = (case fdts s t of None \<Rightarrow> (\<lambda>_. 0) | Some T \<Rightarrow> tslot T)"

lemma fdt_wfD: "fdt_wf T \<Longrightarrow> \<exists>l. ft_entries T = Some l \<and> length l = ft_capacity T \<and> ft_length T \<le> ft_capacity T"
  by (auto simp: fdt_wf_def split: option.splits)

lemma fdt_wf_refcount [simp]: "fdt_wf (T\<lparr>ft_refcount := r\<rparr>) = fdt_wf T"
  by (simp add: fdt_wf_def split: option.split)

lemma fdt_wf_zero: "fdt_wf T \<Longrightarrow> ft_length T < j \<Longrightarrow> tslot T j = 0"
  by (auto simp: fdt_wf_def tslot_def split: option.splits)

lemma fdt_wfI:
  "ft_entries T = Some l \<Longrightarrow> length l = ft_capacity T \<Longrightarrow> ft_length T \<le> ft_capacity T \<Longrightarrow>
   (\<And>j. ft_length T < j \<Longrightarrow> tslot T j = 0) \<Longrightarrow> fdt_wf T"
  by (auto simp: fdt_wf_def tslot_def split: if_splits) metis

lemma entry_at_wf: "fdt_wf T \<Longrightarrow> i < ft_capacity T \<Longrightarrow> entry_at T i = Inr (tslot T i)"
  by (auto simp: fdt_wf_def entry_at_def tslot_def split: option.splits)

lemma entry_at_tslot: "entry_at T i = Inr a \<Longrightarrow> a = tslot T i"
  by (auto simp: entry_at_def tslot_def split: option.splits)

text \<open>What an assignment to a position does.\<close>

lemma set_entryD:
  assumes "set_entry t i a s = Inr s'"
  shows "\<exists>T l. fdts s t = Some T \<and> ft_entries T = Some l \<and> i < length l \<and>
    s' = set_fdt t (Some (T\<lparr>ft_entries := Some (l[i := a])\<rparr>)) s"
  using assms by (auto simp: set_entry_def split: option.splits)

lemma tslot_update: "ft_entries T = Some l \<Longrightarrow> i < length l \<Longrightarrow> tslot (T\<lparr>ft_entries := Some (l[i := a])\<rparr>) = (tslot T)(i := a)"
  by (auto simp: tslot_def fun_eq_iff nth_list_update)

lemma tslot_length [simp]: "tslot (T\<lparr>ft_length := n\<rparr>) = tslot T" "tslot (T\<lparr>ft_refcount := r\<rparr>) = tslot T" "tslot (T\<lparr>ft_capacity := c\<rparr>) = tslot T"
  by (simp_all add: tslot_def fun_eq_iff)

lemma realloc_slots:
  assumes "fd_table_realloc (T\<lparr>ft_capacity := c\<rparr>) = Inr T'" "fdt_wf T" "ft_capacity T \<le> c"
    "tslot T (ft_length T) = 0"
  shows "tslot T' = tslot T \<and> fdt_wf T' \<and> ft_length T' = ft_length T \<and> ft_capacity T' = c \<and> ft_refcount T' = ft_refcount T"
proof -
  obtain l where l: "ft_entries T = Some l" "length l = ft_capacity T" "ft_length T \<le> ft_capacity T"
    using fdt_wfD [OF assms(2)] by blast
  have T': "T' = T\<lparr>ft_capacity := c, ft_entries := Some (take (ft_length T) l @ replicate (c - ft_length T) 0)\<rparr>"
    using assms(1) l by (auto simp: fd_table_realloc_def split: if_splits)
  have "tslot T' j = tslot T j" for j
  proof (cases "j < ft_length T")
    case True
    then show ?thesis using l assms(3) by (simp add: T' tslot_def nth_append)
  next
    case False
    then have "tslot T j = 0" using fdt_wf_zero [OF assms(2), of j] assms(4) by (cases "j = ft_length T") auto
    then show ?thesis using False l by (simp add: T' tslot_def nth_append)
  qed
  then have e: "tslot T' = tslot T" by blast
  moreover have "fdt_wf T'"
  proof (rule fdt_wfI)
    show "ft_entries T' = Some (take (ft_length T) l @ replicate (c - ft_length T) 0)" by (simp add: T')
    show "length (take (ft_length T) l @ replicate (c - ft_length T) 0) = ft_capacity T'" "ft_length T' \<le> ft_capacity T'"
      using l assms(3) by (simp_all add: T')
    show "tslot T' j = 0" if "ft_length T' < j" for j
      unfolding e using fdt_wf_zero [OF assms(2)] that by (simp add: T')
  qed
  ultimately show ?thesis by (simp add: T')
qed

section \<open>Counting the references to an entry\<close>

definition tables_ok :: "fdstate \<Rightarrow> bool" where
  "tables_ok s \<longleftrightarrow> 0 < f_next s \<and> (\<forall>t T. fdts s t = Some T \<longrightarrow> 0 < t \<and> t < f_next s \<and> fdt_wf T)"

definition places :: "fdstate \<Rightarrow> addr \<Rightarrow> (addr \<times> nat) set" where
  "places s a = {(t, i). slot s t i = a}"

definition cnt :: "fdstate \<Rightarrow> addr \<Rightarrow> nat" where
  "cnt s a = card (places s a)"

lemma tables_okD: "tables_ok s \<Longrightarrow> fdts s t = Some T \<Longrightarrow> 0 < t \<and> t < f_next s \<and> fdt_wf T"
  by (simp add: tables_ok_def)

lemma tables_ok_upd:
  "tables_ok s \<Longrightarrow> fdts s' = (fdts s)(t \<mapsto> T) \<Longrightarrow> f_next s \<le> f_next s' \<Longrightarrow> 0 < t \<Longrightarrow> t < f_next s' \<Longrightarrow> fdt_wf T \<Longrightarrow> tables_ok s'"
  unfolding tables_ok_def by (auto split: if_splits intro: less_le_trans)

lemma finite_places:
  assumes "tables_ok s" "a \<noteq> 0"
  shows "finite (places s a)"
proof (rule finite_subset)
  let ?n = "\<lambda>t. case fdts s t of None \<Rightarrow> 0 | Some T \<Rightarrow> ft_capacity T"
  show "places s a \<subseteq> (SIGMA t:{..<f_next s}. {..<?n t})"
  proof clarify
    fix t i
    assume "(t, i) \<in> places s a"
    then have "slot s t i \<noteq> 0" using assms(2) by (simp add: places_def)
    then obtain T where T: "fdts s t = Some T" "tslot T i \<noteq> 0" by (auto simp: slot_def split: option.splits)
    have t: "t < f_next s" "fdt_wf T" using tables_okD [OF assms(1) T(1)] by auto
    then have "i < ft_capacity T" using T(2) by (auto simp: tslot_def fdt_wf_def split: option.splits if_splits)
    then show "t \<in> {..<f_next s} \<and> i \<in> {..<?n t}" using t T(1) by simp
  qed
qed simp

lemma cnt_update:
  assumes "tables_ok s" "slot s' = (slot s)(t := (slot s t)(i := a))" "b \<noteq> 0"
  shows "cnt s' b = cnt s b - (if slot s t i = b then 1 else 0) + (if a = b then 1 else 0)"
proof -
  let ?P = "places s b"
  have e: "places s' b = (if a = b then insert (t, i) (?P - {(t, i)}) else ?P - {(t, i)})"
    unfolding places_def assms(2) by (auto split: if_splits simp: fun_upd_def)
  have "card (?P - {(t, i)}) = card ?P - (if slot s t i = b then 1 else 0)"
    using finite_places [OF assms(1,3)] by (auto simp: places_def)
  moreover have "card (insert (t, i) (?P - {(t, i)})) = card (?P - {(t, i)}) + 1"
    using card_insert_disjoint [of "?P - {(t, i)}" "(t, i)"] finite_places [OF assms(1,3)] by simp
  ultimately show ?thesis unfolding cnt_def e by (cases "a = b") (simp_all only: if_True if_False add_0_right refl)
qed

lemma cnt_same: "slot s' = slot s \<Longrightarrow> cnt s' = cnt s"
  by (simp add: cnt_def places_def fun_eq_iff)

text \<open>\<open>cover c s\<close>: an entry that \<open>c\<close> references point to is there, and its count is at least that.\<close>

fun enough :: "nat \<Rightarrow> fd_entry_t option \<Rightarrow> bool" where
  "enough n None = False"
| "enough n (Some e) = (fd_refcount e = -1 \<or> int n \<le> fd_refcount e)"

definition cover :: "(addr \<Rightarrow> nat) \<Rightarrow> fdstate \<Rightarrow> bool" where
  "cover c s \<longleftrightarrow> (\<forall>a. a \<noteq> 0 \<longrightarrow> 0 < c a \<longrightarrow> enough (c a) (fds s a))"

lemma coverD: "cover c s \<Longrightarrow> a \<noteq> 0 \<Longrightarrow> 0 < c a \<Longrightarrow> enough (c a) (fds s a)"
  by (simp add: cover_def)

lemma coverI: "(\<And>a. a \<noteq> 0 \<Longrightarrow> 0 < c a \<Longrightarrow> enough (c a) (fds s a)) \<Longrightarrow> cover c s"
  by (simp add: cover_def)

lemma enough_mono: "enough n x \<Longrightarrow> m \<le> n \<Longrightarrow> enough m x"
  by (cases x) auto

lemma cover_mono:
  assumes "cover c s" "\<And>a. a \<noteq> 0 \<Longrightarrow> d a \<le> c a" "fds s' = fds s"
  shows "cover d s'"
proof (rule coverI)
  fix a
  assume a: "a \<noteq> 0" "0 < d a"
  then have "enough (c a) (fds s a)" using coverD [OF assms(1) a(1)] assms(2) [OF a(1)] by linarith
  then show "enough (d a) (fds s' a)" unfolding assms(3) using enough_mono assms(2) [OF a(1)] by blast
qed

lemma cover_refs:
  assumes "cover c s" "\<And>b. map_option fd_refcount (fds s' b) = map_option fd_refcount (fds s b)"
  shows "cover c s'"
proof (rule coverI)
  fix b assume "b \<noteq> 0" "0 < c b"
  then have "enough (c b) (fds s b)" by (rule coverD [OF assms(1)])
  then show "enough (c b) (fds s' b)" using assms(2) [of b] by (cases "fds s b"; cases "fds s' b") auto
qed

lemma reference_tables: "fd_reference a s = Inr s' \<Longrightarrow> fdts s' = fdts s \<and> f_next s' = f_next s \<and> fvfs s' = fvfs s"
  by (auto simp: fd_reference_def set_fd_def)

lemma free_tables: "fd_free a s = Inr s' \<Longrightarrow> fdts s' = fdts s \<and> f_next s' = f_next s"
  by (auto simp: fd_free_def set_fd_def split: if_splits)

definition less_ref :: "fd_entry_t \<Rightarrow> fd_entry_t option" where
  "less_ref e = (if fd_refcount e = -1 then Some e else if fd_refcount e - 1 = 0 then None else Some (e\<lparr>fd_refcount := fd_refcount e - 1\<rparr>))"

lemma free_fds:
  assumes "fd_free a s = Inr s'"
  shows "\<exists>e. a \<noteq> 0 \<and> fds s a = Some e \<and> fds s' = (fds s)(a := less_ref e)"
proof -
  obtain e where e: "a \<noteq> 0" "fds s a = Some e" using assms by (auto simp: fd_free_def)
  have "fds s' = (fds s)(a := less_ref e)"
    using assms e by (cases "fd_refcount e = -1"; cases "fd_refcount e - 1 = 0")
      (auto simp: fd_free_def less_ref_def set_fd_def fun_upd_idem)
  then show ?thesis using e by blast
qed

lemma slot_fdts: "fdts s' = fdts s \<Longrightarrow> slot s' = slot s"
  by (simp add: slot_def fun_eq_iff)

lemma tables_ok_fdts: "tables_ok s \<Longrightarrow> fdts s' = fdts s \<Longrightarrow> f_next s' = f_next s \<Longrightarrow> tables_ok s'"
  by (simp add: tables_ok_def)

lemma reference_cover:
  assumes "fd_reference a s = Inr s'" "cover c s" "\<And>e. fds s a = Some e \<Longrightarrow> fd_refcount e = -1 \<or> 0 \<le> fd_refcount e"
  shows "cover (c(a := c a + 1)) s'"
proof -
  obtain e where e: "a \<noteq> 0" "fds s a = Some e"
    and s': "s' = (if fd_refcount e \<noteq> -1 then set_fd a (Some (e\<lparr>fd_refcount := fd_refcount e + 1\<rparr>)) s else s)"
    using assms(1) by (auto simp: fd_reference_def)
  show ?thesis
  proof (rule coverI)
    fix b
    assume b: "b \<noteq> 0" "0 < (c(a := c a + 1)) b"
    show "enough ((c(a := c a + 1)) b) (fds s' b)"
    proof (cases "b = a")
      case True
      have "c a = 0 \<or> fd_refcount e = -1 \<or> int (c a) \<le> fd_refcount e" using coverD [OF assms(2) e(1)] e(2) by auto
      then show ?thesis using True e(2) assms(3) [OF e(2)] by (auto simp: s' set_fd_def)
    next
      case False
      then show ?thesis using coverD [OF assms(2) b(1)] b(2) by (auto simp: s' set_fd_def)
    qed
  qed
qed

lemma free_cover:
  assumes "fd_free a s = Inr s'" "cover c s" "0 < c a"
  shows "cover (c(a := c a - 1)) s'"
proof -
  obtain e where e: "a \<noteq> 0" "fds s a = Some e" and f: "fds s' = (fds s)(a := less_ref e)" using free_fds [OF assms(1)] by blast
  have r: "fd_refcount e = -1 \<or> int (c a) \<le> fd_refcount e" using coverD [OF assms(2) e(1) assms(3)] e(2) by auto
  show ?thesis
  proof (rule coverI)
    fix b
    assume b: "b \<noteq> 0" "0 < (c(a := c a - 1)) b"
    show "enough ((c(a := c a - 1)) b) (fds s' b)"
    proof (cases "b = a")
      case True
      then show ?thesis using r b(2) by (auto simp: f less_ref_def)
    next
      case False
      then show ?thesis using coverD [OF assms(2) b(1)] b(2) by (auto simp: f)
    qed
  qed
qed

text \<open>Entries have addresses that were handed out, and counts that are positive or \<open>-1\<close>.\<close>

definition entries_ok :: "fdstate \<Rightarrow> bool" where
  "entries_ok s \<longleftrightarrow> (\<forall>a e. fds s a = Some e \<longrightarrow> 0 < a \<and> a < f_next s \<and> (fd_refcount e = -1 \<or> 0 < fd_refcount e))"

lemma entries_okD: "entries_ok s \<Longrightarrow> fds s a = Some e \<Longrightarrow> 0 < a \<and> a < f_next s \<and> (fd_refcount e = -1 \<or> 0 < fd_refcount e)"
  by (simp add: entries_ok_def)

lemma entries_ok_upd:
  assumes "entries_ok s" "fds s' = (fds s)(a := x)" "f_next s \<le> f_next s'" "0 < a" "a < f_next s'"
    "\<And>e. x = Some e \<Longrightarrow> fd_refcount e = -1 \<or> 0 < fd_refcount e"
  shows "entries_ok s'"
  unfolding entries_ok_def
proof (intro allI impI)
  fix b e
  assume b: "fds s' b = Some e"
  show "0 < b \<and> b < f_next s' \<and> (fd_refcount e = -1 \<or> 0 < fd_refcount e)"
  proof (cases "b = a")
    case True
    then show ?thesis using b assms(2,4,5,6) by simp
  next
    case False
    then show ?thesis using entries_okD [OF assms(1), of b e] b assms(2,3) by simp
  qed
qed

lemma reference_entries: "fd_reference a s = Inr s' \<Longrightarrow> entries_ok s \<Longrightarrow> entries_ok s'"
proof -
  assume r: "fd_reference a s = Inr s'" "entries_ok s"
  then obtain e where e: "fds s a = Some e" "fds s' = (fds s)(a := Some (if fd_refcount e \<noteq> -1 then e\<lparr>fd_refcount := fd_refcount e + 1\<rparr> else e))"
    by (auto simp: fd_reference_def set_fd_def fun_upd_idem)
  then show ?thesis using entries_ok_upd [OF r(2) e(2)] entries_okD [OF r(2) e(1)] reference_tables [OF r(1)] by auto
qed

lemma free_entries: "fd_free a s = Inr s' \<Longrightarrow> entries_ok s \<Longrightarrow> entries_ok s'"
proof -
  assume r: "fd_free a s = Inr s'" "entries_ok s"
  then obtain e where e: "fds s a = Some e" "fds s' = (fds s)(a := less_ref e)" using free_fds by blast
  then show ?thesis using entries_ok_upd [OF r(2) e(2)] entries_okD [OF r(2) e(1)] free_tables [OF r(1)]
    by (auto simp: less_ref_def split: if_splits)
qed

text \<open>\<open>keeps h s\<close>: the counts cover the positions of the tables and, besides, \<open>h\<close> references that are in
  the hands of the running code.\<close>

definition keeps :: "(addr \<Rightarrow> nat) \<Rightarrow> fdstate \<Rightarrow> bool" where
  "keeps h s \<longleftrightarrow> tables_ok s \<and> entries_ok s \<and> cover (\<lambda>a. cnt s a + h a) s"

lemma keepsD: "keeps h s \<Longrightarrow> tables_ok s" "keeps h s \<Longrightarrow> entries_ok s" "keeps h s \<Longrightarrow> cover (\<lambda>a. cnt s a + h a) s"
  by (simp_all add: keeps_def)

lemma slot_set_fdt: "slot (set_fdt t (Some T) s) = (slot s)(t := tslot T)"
  by (simp add: slot_def set_fdt_def fun_eq_iff)

text \<open>Assigning to a position, after \<open>old\<close>, the entry that was there, may have been released.\<close>

lemma put_keeps:
  assumes k: "tables_ok s" "entries_ok s" "cover d s"
    and T: "fdts s t = Some T" "fdts s' = (fdts s)(t \<mapsto> T')" "fds s' = fds s" "f_next s' = f_next s"
    and T': "fdt_wf T'" "tslot T' = (tslot T)(i := a)"
    and d: "\<And>b. b \<noteq> 0 \<Longrightarrow> cnt s b - (if tslot T i = b then 1 else 0) + (if a = b then 1 else 0) + h b \<le> d b"
  shows "keeps h s' \<and> slot s' = (slot s)(t := (slot s t)(i := a))"
proof -
  have sl: "slot s' = (slot s)(t := (slot s t)(i := a))" using T T' by (simp add: slot_def fun_eq_iff)
  have t: "0 < t" "t < f_next s'" using tables_okD [OF k(1) T(1)] T(4) by auto
  have "tables_ok s'" using tables_ok_upd [OF k(1) T(2) _ t T'(1)] T(4) by simp
  moreover have "entries_ok s'" using k(2) T(3,4) by (simp add: entries_ok_def)
  moreover have "cover (\<lambda>b. cnt s' b + h b) s'"
  proof (rule cover_mono [OF k(3) _ T(3)])
    fix b :: addr
    assume "b \<noteq> 0"
    then show "cnt s' b + h b \<le> d b" using d [of b] cnt_update [OF k(1) sl, of b] T(1) by (simp add: slot_def)
  qed
  ultimately show ?thesis using sl by (simp add: keeps_def)
qed

lemma cnt_tables: "fdts s' = fdts s \<Longrightarrow> cnt s' = cnt s"
  by (rule cnt_same) (rule slot_fdts)

lemma cnt_pos: "tables_ok s \<Longrightarrow> slot s t i = a \<Longrightarrow> a \<noteq> 0 \<Longrightarrow> 0 < cnt s a"
  unfolding cnt_def using finite_places [of s a] by (auto simp: places_def card_gt_0_iff)

lemma reference_keeps:
  assumes "fd_reference a s = Inr s'" "keeps h s"
  shows "keeps (h(a := h a + 1)) s'"
proof -
  note k = keepsD [OF assms(2)] and t = reference_tables [OF assms(1)]
  have "cover ((\<lambda>b. cnt s b + h b)(a := cnt s a + h a + 1)) s'"
    using reference_cover [OF assms(1) k(3)] entries_okD [OF k(2)] by fastforce
  then have "cover (\<lambda>b. cnt s' b + (h(a := h a + 1)) b) s'"
    by (rule cover_mono) (use t cnt_tables [of s' s] in auto)
  then show ?thesis using tables_ok_fdts [OF k(1)] t reference_entries [OF assms(1) k(2)] by (simp add: keeps_def)
qed

section \<open>Setting and appending\<close>

lemma set_past_capacity:
  assumes "fdts s t = Some T" "fdt_wf T" "ft_capacity T \<le> i" "a \<noteq> 0"
  shows "fd_table_set t i a s \<noteq> Inr x"
proof
  assume "fd_table_set t i a s = Inr x"
  then obtain s1 s2 where s1: "set_room t i s = Inr s1" "set_entry t i a s1 = Inr s2"
    using assms(1,4) by (auto simp: fd_table_set_def)
  obtain l where l: "ft_entries T = Some l" "length l = ft_capacity T" using fdt_wfD [OF assms(2)] by blast
  have "s1 = set_fdt t (Some (T\<lparr>ft_capacity := i, ft_entries := Some (take (ft_length T) l @ replicate (i - ft_length T) 0)\<rparr>)) s"
    "ft_length T \<le> length l"
    using s1(1) assms(1,3) l by (auto simp: set_room_def fd_table_realloc_def split: if_splits)
  then show False using s1(2) l assms(3) set_entryD [OF s1(2)] by (auto simp: set_fdt_def)
qed

text \<open>A reference leaves the hand of the code when it is put into a position.\<close>

definition hand :: "addr \<Rightarrow> (addr \<Rightarrow> nat) \<Rightarrow> addr \<Rightarrow> nat" where
  "hand a h = (if a = 0 then h else h(a := h a - 1))"

lemma replace_keeps:
  assumes k: "keeps h s" and T: "fdts s t = Some T" and a: "a = 0 \<or> 0 < h a"
    and s1: "tslot T i = 0 \<and> s1 = s \<or> tslot T i \<noteq> 0 \<and> fd_free (tslot T i) s = Inr s1"
    and s': "fdts s' = (fdts s1)(t \<mapsto> T')" "fds s' = fds s1" "f_next s' = f_next s1"
    and T': "fdt_wf T'" "tslot T' = (tslot T)(i := a)"
  shows "keeps (hand a h) s' \<and> slot s' = (slot s)(t := (slot s t)(i := a))"
proof -
  note kd = keepsD [OF k]
  let ?old = "tslot T i"
  define d where "d b = cnt s b + h b - (if b = ?old then 1 else 0)" for b
  have st: "slot s t i = ?old" using T by (simp add: slot_def)
  have pos: "0 < cnt s ?old" if "?old \<noteq> 0" using cnt_pos [OF kd(1) st that] .
  have f: "fdts s1 = fdts s" "f_next s1 = f_next s" using s1 free_tables by auto
  have e: "entries_ok s1" using s1 free_entries kd(2) by auto
  have c: "cover d s1"
  proof (cases "?old = 0")
    case True
    then show ?thesis using s1 by (intro cover_mono [OF kd(3)]) (auto simp: d_def)
  next
    case False
    then have fr: "fd_free ?old s = Inr s1" using s1 by simp
    have "d = (\<lambda>b. cnt s b + h b)(?old := cnt s ?old + h ?old - 1)" by (auto simp: d_def fun_eq_iff)
    then show ?thesis using free_cover [OF fr kd(3)] pos [OF False] by simp
  qed
  have ineq: "cnt s1 b - (if ?old = b then 1 else 0) + (if a = b then 1 else 0) + hand a h b \<le> d b" if "b \<noteq> 0" for b
    using that a pos cnt_tables [OF f(1)] by (auto simp: d_def hand_def)
  have "keeps (hand a h) s' \<and> slot s' = (slot s1)(t := (slot s1 t)(i := a))"
    by (rule put_keeps [OF tables_ok_fdts [OF kd(1) f] e c _ s' T' ineq]) (use T f in simp_all)
  then show ?thesis using slot_fdts [OF f(1)] by simp
qed

lemma wf_update:
  assumes "fdt_wf T" "ft_entries T = Some l" "i < length l" "T' = T\<lparr>ft_entries := Some (l[i := a]), ft_length := n\<rparr>"
    "n \<le> ft_capacity T" "\<And>j. n < j \<Longrightarrow> ((tslot T)(i := a)) j = 0"
  shows "fdt_wf T' \<and> tslot T' = (tslot T)(i := a)"
proof -
  have ts: "tslot T' = (tslot T)(i := a)" using tslot_update [OF assms(2,3)] by (simp add: assms(4))
  moreover have "fdt_wf T'"
    by (rule fdt_wfI [where l = "l[i := a]"]) (use assms fdt_wfD [OF assms(1)] ts in auto)
  ultimately show ?thesis by simp
qed

lemma set_null_keeps:
  assumes "fd_table_set t i 0 s = Inr (r, s')" "keeps h s"
  shows "keeps h s' \<and> slot s' = (slot s)(t := (slot s t)(i := 0)) \<and> r = i"
proof -
  note k = keepsD [OF assms(2)]
  obtain T where T: "fdts s t = Some T" using assms(1) by (auto simp: fd_table_set_def)
  then have wf: "fdt_wf T" and st: "slot s t = tslot T" using tables_okD [OF k(1) T] by (simp_all add: slot_def)
  show ?thesis
  proof (cases "tslot T i = 0")
    case True
    then have "(slot s)(t := (slot s t)(i := 0)) = slot s" using st by (simp add: fun_eq_iff)
    moreover have "s' = s \<and> r = i" using assms(1) T True entry_at_wf [OF wf, of i] by (auto simp: fd_table_set_def split: if_splits)
    ultimately show ?thesis using assms(2) by simp
  next
    case False
    then have i: "i < ft_capacity T" using wf by (auto simp: tslot_def fdt_wf_def split: option.splits if_splits)
    obtain s1 where s1: "fd_free (tslot T i) s = Inr s1" "set_entry t i 0 s1 = Inr s'" "r = i"
      using assms(1) T i False entry_at_wf [OF wf i] by (auto simp: fd_table_set_def)
    obtain l where l: "ft_entries T = Some l" "i < length l" "s' = set_fdt t (Some (T\<lparr>ft_entries := Some (l[i := 0])\<rparr>)) s1"
      using set_entryD [OF s1(2)] free_tables [OF s1(1)] T by auto
    let ?T = "T\<lparr>ft_entries := Some (l[i := 0]), ft_length := ft_length T\<rparr>"
    have "fdt_wf ?T \<and> tslot ?T = (tslot T)(i := 0)"
      by (rule wf_update [OF wf l(1,2) refl]) (use fdt_wfD [OF wf] fdt_wf_zero [OF wf] in auto)
    then show ?thesis
      using replace_keeps [OF assms(2) T, of 0 i s1 s' ?T] s1(1,3) False l(3) by (simp add: set_fdt_def hand_def)
  qed
qed

lemma set_keeps:
  assumes "fd_table_set t i a s = Inr (r, s')" "keeps h s" "a \<noteq> 0" "0 < h a"
  shows "keeps (hand a h) s' \<and> slot s' = (slot s)(t := (slot s t)(i := a)) \<and> r = i"
proof -
  note k = keepsD [OF assms(2)]
  obtain T where T: "fdts s t = Some T" using assms(1) by (auto simp: fd_table_set_def)
  then have wf: "fdt_wf T" using tables_okD [OF k(1) T] by simp
  have i: "i < ft_capacity T" using set_past_capacity [OF T wf _ assms(3), of i] assms(1) by (meson not_less)
  obtain s1 s2 T2 where s1: "set_room t i s = Inr s1" "set_entry t i a s1 = Inr s2" "fdts s2 t = Some T2"
    and s': "s' = (if ft_length T2 < i then set_fdt t (Some (T2\<lparr>ft_length := i\<rparr>)) s2 else s2)" "r = i"
    using assms(1,3) T by (auto simp: fd_table_set_def)
  have o: "tslot T i = 0 \<and> s1 = s \<or> tslot T i \<noteq> 0 \<and> fd_free (tslot T i) s = Inr s1"
    using s1(1) T i entry_at_wf [OF wf i] by (auto simp: set_room_def split: if_splits)
  then have f: "fdts s1 = fdts s" using free_tables by auto
  obtain l where l: "ft_entries T = Some l" "i < length l" "s2 = set_fdt t (Some (T\<lparr>ft_entries := Some (l[i := a])\<rparr>)) s1"
    using set_entryD [OF s1(2)] f T by auto
  let ?T = "T\<lparr>ft_entries := Some (l[i := a]), ft_length := max (ft_length T) i\<rparr>"
  have T2: "T2 = T\<lparr>ft_entries := Some (l[i := a])\<rparr>" using s1(3) l(3) by (simp add: set_fdt_def)
  have "fdt_wf ?T \<and> tslot ?T = (tslot T)(i := a)"
    by (rule wf_update [OF wf l(1,2) refl]) (use fdt_wfD [OF wf] fdt_wf_zero [OF wf] i in auto)
  moreover have "fdts s' = (fdts s1)(t \<mapsto> ?T)" "fds s' = fds s1" "f_next s' = f_next s1"
    by (auto simp: s' T2 l(3) set_fdt_def max_def)
  ultimately show ?thesis using replace_keeps [OF assms(2) T _ o, of a s' ?T] s'(2) assms(4) by simp
qed

lemma ta_gap_cases:
  assumes "ta_gap T [m..<n] = Inr g" "m \<le> n"
  shows "case g of None \<Rightarrow> (\<forall>j\<in>{m..<n}. tslot T j \<noteq> 0) | Some i \<Rightarrow> m \<le> i \<and> i < n \<and> tslot T i = 0 \<and> (\<forall>j\<in>{m..<i}. tslot T j \<noteq> 0)"
  using assms
proof (induction "n - m" arbitrary: m)
  case (Suc d)
  then have c: "[m..<n] = m # [Suc m..<n]" by (simp add: upt_conv_Cons)
  obtain a where a: "entry_at T m = Inr a" "if a = 0 then Inr (Some m) = (Inr g :: nat option res) else ta_gap T [Suc m..<n] = Inr g"
    using Suc.prems(1) by (auto simp: c split: if_splits)
  show ?case
  proof (cases "a = 0")
    case True
    then show ?thesis using a entry_at_tslot [OF a(1)] Suc.hyps(2) by auto
  next
    case False
    have "case g of None \<Rightarrow> (\<forall>j\<in>{Suc m..<n}. tslot T j \<noteq> 0)
      | Some i \<Rightarrow> Suc m \<le> i \<and> i < n \<and> tslot T i = 0 \<and> (\<forall>j\<in>{Suc m..<i}. tslot T j \<noteq> 0)"
      using Suc.hyps(1) [of "Suc m"] Suc.hyps(2) a(2) False by simp
    then show ?thesis using False entry_at_tslot [OF a(1)]
      by (cases g) (auto simp: le_eq_less_or_eq Suc_le_eq split: option.splits)
  qed
qed auto

text \<open>Putting an entry into a position whose old entry is not released.\<close>

lemma overwrite_keeps:
  assumes k: "keeps h s" and T: "fdts s t = Some T" and a: "a \<noteq> 0" "0 < h a"
    and s': "fdts s' = (fdts s)(t \<mapsto> T')" "fds s' = fds s" "f_next s' = f_next s"
    and T': "fdt_wf T'" "tslot T' = (tslot T)(i := a)"
  shows "keeps (hand a h) s' \<and> slot s' = (slot s)(t := (slot s t)(i := a))"
  by (rule put_keeps [OF keepsD [OF k] T s' T']) (use a in \<open>auto simp: hand_def\<close>)

text \<open>The position \<open>fd_table_append\<close> takes: the first gap below the length, or the length.\<close>

definition free_slot :: "fd_table_t \<Rightarrow> nat \<Rightarrow> bool" where
  "free_slot T r \<longleftrightarrow> r \<le> ft_length T \<and> (r < ft_length T \<longrightarrow> tslot T r = 0) \<and> (\<forall>j<r. tslot T j \<noteq> 0)"

lemma append_keeps:
  assumes "fd_table_append t a s = Inr (r, s')" "keeps h s" "0 < h a"
  shows "keeps (hand a h) s' \<and> slot s' = (slot s)(t := (slot s t)(r := a)) \<and> (\<exists>T. fdts s t = Some T \<and> free_slot T r)"
proof -
  note k = keepsD [OF assms(2)]
  obtain T g where T: "fdts s t = Some T" and g: "ta_gap T [0..<ft_length T] = Inr g" and a: "a \<noteq> 0"
    using assms(1) by (auto simp: fd_table_append_def)
  have wf: "fdt_wf T" using tables_okD [OF k(1) T] by simp
  obtain l0 where l0: "ft_entries T = Some l0" "length l0 = ft_capacity T" "ft_length T \<le> ft_capacity T" using fdt_wfD [OF wf] by blast
  note gc = ta_gap_cases [OF g]
  show ?thesis
  proof (cases g)
    case (Some i)
    then have i: "i < ft_length T" "tslot T i = 0" "\<forall>j<i. tslot T j \<noteq> 0" using gc by auto
    have s1: "set_entry t i a s = Inr s'" "r = i" using assms(1) a T g Some by (auto simp: fd_table_append_def)
    obtain l where l: "ft_entries T = Some l" "i < length l" "s' = set_fdt t (Some (T\<lparr>ft_entries := Some (l[i := a])\<rparr>)) s"
      using set_entryD [OF s1(1)] T by auto
    let ?T = "T\<lparr>ft_entries := Some (l[i := a]), ft_length := ft_length T\<rparr>"
    have "fdt_wf ?T \<and> tslot ?T = (tslot T)(i := a)"
      by (rule wf_update [OF wf l(1,2) refl]) (use fdt_wfD [OF wf] fdt_wf_zero [OF wf] i in auto)
    then have "keeps (hand a h) s' \<and> slot s' = (slot s)(t := (slot s t)(i := a))"
      using overwrite_keeps [OF assms(2) T a assms(3), of s' ?T i] l(3) by (simp add: set_fdt_def)
    moreover have "free_slot T i" using i by (simp add: free_slot_def)
    ultimately show ?thesis using s1(2) T by blast
  next
    case None
    obtain T1 s2 T2 where T1: "(if ft_length T = ft_capacity T then fd_table_realloc (T\<lparr>ft_capacity := ft_capacity T + 8\<rparr>) else Inr T) = Inr T1"
      and s2: "set_entry t (ft_length T1) a (set_fdt t (Some T1) s) = Inr s2" "fdts s2 t = Some T2"
      and s': "r = ft_length T2" "s' = set_fdt t (Some (T2\<lparr>ft_length := ft_length T2 + 1\<rparr>)) s2"
      using assms(1) a T g None by (auto simp: fd_table_append_def)
    have w1: "fdt_wf T1" "tslot T1 = tslot T" "ft_length T1 = ft_length T" "ft_length T < ft_capacity T1"
    proof -
      have "tslot T (ft_length T) = 0" if "ft_length T = ft_capacity T" using l0 that by (simp add: tslot_def)
      then show "fdt_wf T1" "tslot T1 = tslot T" "ft_length T1 = ft_length T" "ft_length T < ft_capacity T1"
        using T1 wf l0 realloc_slots [of "ft_capacity T + 8" T T1] by (auto split: if_splits)
    qed
    obtain l where l: "ft_entries T1 = Some l" "ft_length T < length l"
      "s2 = set_fdt t (Some (T1\<lparr>ft_entries := Some (l[ft_length T := a])\<rparr>)) (set_fdt t (Some T1) s)"
      using set_entryD [OF s2(1)] w1(3) by (auto simp: set_fdt_def)
    let ?T = "T1\<lparr>ft_entries := Some (l[ft_length T := a]), ft_length := ft_length T + 1\<rparr>"
    have T2: "T2 = T1\<lparr>ft_entries := Some (l[ft_length T := a])\<rparr>" using s2(2) l(3) by (simp add: set_fdt_def)
    have "fdt_wf ?T \<and> tslot ?T = (tslot T1)(ft_length T := a)"
      by (rule wf_update [OF w1(1) l(1,2) refl]) (use w1 fdt_wf_zero [OF wf] in auto)
    moreover have "fdts s' = (fdts s)(t \<mapsto> ?T)" "fds s' = fds s" "f_next s' = f_next s" "r = ft_length T"
      using w1(3) by (simp_all add: s' T2 l(3) set_fdt_def)
    moreover have "free_slot T (ft_length T)" using gc None by (simp add: free_slot_def)
    ultimately show ?thesis using overwrite_keeps [OF assms(2) T a assms(3), of s' ?T "ft_length T"] w1(2) T by simp
  qed
qed

lemma fd_new_eq:
  "0 < f_next s \<Longrightarrow> fd_new s = Inr (f_next s, s\<lparr>fds := (fds s)(f_next s \<mapsto> \<lparr>fd_node = 0, fd_seek = 0, fd_refcount = 1\<rparr>), f_next := f_next s + 1\<rparr>)"
  by (simp add: fd_new_def fd_reference_def set_fd_def Let_def)

lemma new_fd:
  assumes "fd_new s = Inr (a, s')" "keeps h s"
  shows "keeps (h(a := 1)) s' \<and> a = f_next s \<and> slot s' = slot s \<and> fvfs s' = fvfs s \<and> fds s' = (fds s)(a \<mapsto> \<lparr>fd_node = 0, fd_seek = 0, fd_refcount = 1\<rparr>)"
proof -
  note k = keepsD [OF assms(2)]
  have s': "a = f_next s" "s' = s\<lparr>fds := (fds s)(f_next s \<mapsto> \<lparr>fd_node = 0, fd_seek = 0, fd_refcount = 1\<rparr>), f_next := f_next s + 1\<rparr>"
    using assms(1) k(1) fd_new_eq [of s] by (simp_all add: tables_ok_def)
  have n: "fds s (f_next s) = None" using entries_okD [OF k(2), of "f_next s"] by (cases "fds s (f_next s)") auto
  have sl: "slot s' = slot s" by (rule slot_fdts) (simp add: s')
  have "f_next s \<noteq> 0" using k(1) by (simp add: tables_ok_def)
  from coverD [OF k(3) this] n have "cnt s (f_next s) + h (f_next s) = 0" by (metis enough.simps(1) gr0I)
  then have "cover (\<lambda>b. cnt s' b + (h(f_next s := 1)) b) s'"
    using coverD [OF k(3)] cnt_same [OF sl] by (intro coverI) (auto simp: s')
  moreover have "tables_ok s'" using k(1) by (auto simp: tables_ok_def s' intro: less_SucI)
  moreover have "entries_ok s'"
    by (rule entries_ok_upd [OF k(2), of s' "f_next s"]) (use k(1) in \<open>auto simp: s' tables_ok_def\<close>)
  ultimately show ?thesis using s' sl by (simp add: keeps_def)
qed

section \<open>Cloning and freeing a table\<close>

lemma keeps_slots:
  assumes "keeps h s" "fdts s' = (fdts s)(t \<mapsto> T)" "tslot T = slot s t" "fdt_wf T" "fds s' = fds s" "f_next s \<le> f_next s'" "0 < t" "t < f_next s'"
  shows "keeps h s' \<and> slot s' = slot s"
proof -
  note k = keepsD [OF assms(1)]
  have sl: "slot s' = slot s" using assms(2,3) by (auto simp: slot_def fun_eq_iff)
  have "tables_ok s'" by (rule tables_ok_upd [OF k(1) assms(2,6,7,8,4)])
  moreover have "entries_ok s'" using k(2) assms(5,6) by (auto simp: entries_ok_def intro: less_le_trans)
  moreover have "cover (\<lambda>a. cnt s' a + h a) s'" by (rule cover_mono [OF k(3) _ assms(5)]) (simp add: cnt_same [OF sl])
  ultimately show ?thesis using sl by (simp add: keeps_def)
qed

lemma table_new_keeps:
  assumes "fd_table_new s = Inr (t, s')" "keeps h s"
  shows "keeps h s' \<and> slot s' = slot s \<and> t = f_next s \<and> fvfs s' = fvfs s \<and> fds s' = fds s \<and> (\<exists>T. fdts s' = (fdts s)(t \<mapsto> T))"
proof -
  note k = keepsD [OF assms(2)]
  let ?T = "\<lparr>ft_entries = Some (replicate 16 0), ft_length = 0, ft_capacity = 16, ft_refcount = 1\<rparr>"
  have s': "t = f_next s" "s' = s\<lparr>fdts := (fdts s)(f_next s \<mapsto> ?T), f_next := f_next s + 1\<rparr>"
    using assms(1) by (auto simp: fd_table_new_def fd_table_realloc_def fd_table_reference_def set_fdt_def Let_def)
  have n: "fdts s (f_next s) = None" using tables_okD [OF k(1), of "f_next s"] by (cases "fdts s (f_next s)") auto
  have "tslot ?T = slot s (f_next s)" using n by (simp add: slot_def tslot_def fun_eq_iff)
  then have "keeps h s' \<and> slot s' = slot s"
    using k(1) by (intro keeps_slots [OF assms(2), of s' "f_next s" ?T]) (simp_all add: s'(2) fdt_wf_def tables_ok_def)
  then show ?thesis using s' by auto
qed

lemma clone_one_keeps:
  assumes "clone_one old new i s = Inr s'" "keeps h s"
  shows "keeps h s' \<and> (\<exists>a. fd_table_get old i s = Inr a \<and> slot s' = (slot s)(new := (slot s new)(i := a)))"
proof -
  obtain a s1 r where a: "fd_table_get old i s = Inr a" and s1: "(if a \<noteq> 0 then fd_reference a s else Inr s) = Inr s1"
    and s': "fd_table_set new i a s1 = Inr (r, s')" using assms(1) by (auto simp: clone_one_def)
  show ?thesis
  proof (cases "a = 0")
    case True
    then show ?thesis using set_null_keeps [of new i s1 r s' h] s' s1 assms(2) a by auto
  next
    case False
    then have r: "fd_reference a s = Inr s1" using s1 by simp
    have "hand a (h(a := h a + 1)) = h" using False by (simp add: hand_def fun_eq_iff)
    then show ?thesis using set_keeps [OF s' reference_keeps [OF r assms(2)] False] slot_fdts [of s1 s] reference_tables [OF r] a by auto
  qed
qed

lemma clone_keeps:
  assumes "fd_table_clone old s = Inr (new, s')" "keeps h s"
  shows "keeps h s'"
proof -
  obtain s1 xs where "fd_table_new s = Inr (new, s1)" and l: "kfor (clone_one old new) xs s1 = Inr s'"
    using assms(1) by (auto simp: fd_table_clone_def)
  then have "keeps h s1" using table_new_keeps assms(2) by blast
  with l show ?thesis by (rule kfor_pres [where P = "\<lambda>_. keeps h"]) (use clone_one_keeps in blast)
qed

definition free_at :: "fd_table_t \<Rightarrow> nat \<Rightarrow> fdstate \<Rightarrow> fdstate res" where
  "free_at T i s = kbind (entry_at T i) (\<lambda>a. if a \<noteq> 0 then fd_free a s else Inr s)"

lemma free_loop:
  assumes "kfor (free_at T) xs s = Inr s'" "entries_ok s" "cover d s"
    "\<And>b. b \<noteq> 0 \<Longrightarrow> count_list (map (tslot T) xs) b \<le> d b"
  shows "entries_ok s' \<and> cover (\<lambda>b. d b - count_list (map (tslot T) xs) b) s' \<and> fdts s' = fdts s \<and> f_next s' = f_next s"
  using assms
proof (induction xs arbitrary: s d)
  case (Cons x xs)
  obtain s1 where s1: "free_at T x s = Inr s1" "kfor (free_at T) xs s1 = Inr s'" using Cons.prems(1) by auto
  let ?a = "tslot T x"
  have e: "entry_at T x = Inr ?a" using s1(1) entry_at_tslot by (auto simp: free_at_def)
  show ?case
  proof (cases "?a = 0")
    case True
    then have "s1 = s" using s1(1) e by (simp add: free_at_def)
    moreover have c: "count_list (map (tslot T) (x # xs)) b = count_list (map (tslot T) xs) b" if "b \<noteq> 0" for b using True that by simp
    moreover have "count_list (map (tslot T) xs) b \<le> d b" if "b \<noteq> 0" for b using Cons.prems(4) [OF that] c [OF that] by simp
    ultimately have "entries_ok s' \<and> cover (\<lambda>b. d b - count_list (map (tslot T) xs) b) s' \<and> fdts s' = fdts s \<and> f_next s' = f_next s"
      using Cons.IH [of s d] s1(2) Cons.prems(2,3) by simp
    then show ?thesis using c cover_mono [of "\<lambda>b. d b - count_list (map (tslot T) xs) b" s' _ s'] by auto
  next
    case False
    then have f: "fd_free ?a s = Inr s1" using s1(1) e by (simp add: free_at_def)
    have p: "0 < d ?a" using Cons.prems(4) [OF False] by simp
    let ?d = "d(?a := d ?a - 1)"
    have le: "count_list (map (tslot T) xs) b \<le> ?d b" if "b \<noteq> 0" for b using Cons.prems(4) [OF that] by auto
    have "entries_ok s' \<and> cover (\<lambda>b. ?d b - count_list (map (tslot T) xs) b) s' \<and> fdts s' = fdts s1 \<and> f_next s' = f_next s1"
      using Cons.IH [of s1 ?d] s1(2) free_entries [OF f Cons.prems(2)] free_cover [OF f Cons.prems(3) p] le by blast
    moreover have "(\<lambda>b. d b - count_list (map (tslot T) (x # xs)) b) = (\<lambda>b. ?d b - count_list (map (tslot T) xs) b)"
      by (auto simp: fun_eq_iff)
    ultimately show ?thesis using free_tables [OF f] by metis
  qed
qed simp

lemma count_places:
  assumes "tables_ok s" "fdts s t = Some T" "slot s' = (slot s)(t := (\<lambda>_. 0))" "b \<noteq> 0"
  shows "cnt s' b + count_list (map (tslot T) [0..<n]) b \<le> cnt s b"
proof -
  let ?X = "(\<lambda>j. (t, j)) ` {j. j < n \<and> tslot T j = b}"
  have c: "count_list (map (tslot T) [0..<n]) b = card {j. j < n \<and> tslot T j = b}"
    unfolding count_list_eq_length_filter length_filter_conv_card by (rule arg_cong [of _ _ card]) auto
  have st: "slot s t = tslot T" using assms(2) by (simp add: slot_def)
  have u: "places s' b \<union> ?X \<subseteq> places s b" using st assms(3,4) by (auto simp: places_def split: if_splits)
  have d: "places s' b \<inter> ?X = {}" using assms(3,4) by (auto simp: places_def)
  have f: "finite (places s b)" by (rule finite_places [OF assms(1,4)])
  then have "card (places s' b) + card ?X = card (places s' b \<union> ?X)"
    using card_Un_disjoint [of "places s' b" ?X] d u finite_subset by (metis Un_subset_iff)
  also have "\<dots> \<le> card (places s b)" by (rule card_mono [OF f u])
  finally show ?thesis unfolding cnt_def c by (simp add: card_image inj_on_def)
qed

lemma table_free_keeps:
  assumes "fd_table_free t s = Inr s'" "keeps h s"
  shows "keeps h s'"
proof -
  note k = keepsD [OF assms(2)]
  obtain T where T: "fdts s t = Some T" using assms(1) by (auto simp: fd_table_free_def)
  let ?T = "T\<lparr>ft_refcount := ft_refcount T - 1\<rparr>"
  have wf: "fdt_wf T" "0 < t" "t < f_next s" using tables_okD [OF k(1) T] by auto
  define s1 where "s1 = set_fdt t (Some ?T) s"
  have "fdt_wf ?T" "tslot ?T = slot s t" using wf(1) T by (simp_all add: slot_def)
  then have k1: "keeps h s1" "slot s1 = slot s" using keeps_slots [OF assms(2), of s1 t ?T] wf by (simp_all add: s1_def set_fdt_def)
  show ?thesis
  proof (cases "ft_refcount T - 1 = 0")
    case False
    then have "s' = s1" using assms(1) T by (auto simp: fd_table_free_def s1_def Let_def)
    then show ?thesis using k1(1) by simp
  next
    case True
    let ?c = "\<lambda>b. count_list (map (tslot T) [0..<ft_length T]) b"
    obtain s2 where s2: "kfor (free_at T) [0..<ft_length T] s1 = Inr s2" "s' = set_fdt t None s2"
      using assms(1) T True by (auto simp: fd_table_free_def s1_def Let_def free_at_def [abs_def])
    have sl: "slot (set_fdt t None s1) = (slot s1)(t := (\<lambda>_. 0))" by (auto simp: slot_def set_fdt_def fun_eq_iff)
    have T1: "fdts s1 t = Some ?T" by (simp add: s1_def set_fdt_def)
    have le: "cnt (set_fdt t None s1) b + ?c b \<le> cnt s1 b" if "b \<noteq> 0" for b
      using count_places [OF keepsD(1) [OF k1(1)] T1 sl that, of "ft_length T"] by simp
    have "?c b \<le> cnt s1 b + h b" if "b \<noteq> 0" for b using le [OF that] by simp
    then have l: "entries_ok s2" "cover (\<lambda>b. cnt s1 b + h b - ?c b) s2" "fdts s2 = fdts s1" "f_next s2 = f_next s1"
      using free_loop [OF s2(1) keepsD(2,3) [OF k1(1)]] by blast+
    have "cnt s' = cnt (set_fdt t None s1)" by (rule cnt_tables) (simp add: s2(2) l(3) set_fdt_def)
    then have le': "cnt s' b + h b \<le> cnt s1 b + h b - ?c b" if "b \<noteq> 0" for b using le [OF that] by simp
    have "cover (\<lambda>b. cnt s' b + h b) s'" by (rule cover_mono [OF l(2) le']) (simp_all add: s2(2) set_fdt_def)
    moreover have "tables_ok s'" "entries_ok s'"
      using keepsD(1) [OF k1(1)] l by (auto simp: tables_ok_def entries_ok_def s2(2) set_fdt_def)
    ultimately show ?thesis by (simp add: keeps_def)
  qed
qed

section \<open>The nodes of the entries\<close>

definition node_of :: "fdstate \<Rightarrow> addr \<Rightarrow> addr" where
  "node_of s a = (case fds s a of None \<Rightarrow> 0 | Some e \<Rightarrow> fd_node e)"

definition holders :: "fdstate \<Rightarrow> addr \<Rightarrow> addr set" where
  "holders s n = {a. node_of s a = n}"

text \<open>A node that entries hold is there, and its count is at least their number (unless it is one of the static
  nodes, which are not counted).\<close>

fun node_enough :: "nat \<Rightarrow> fs_node option \<Rightarrow> bool" where
  "node_enough c None = False"
| "node_enough c (Some nd) = (nd_refcount nd < 0 \<or> int c \<le> nd_refcount nd)"

definition nodes_ok :: "fdstate \<Rightarrow> bool" where
  "nodes_ok s \<longleftrightarrow> fresh_ok (fvfs s) \<and> (\<forall>a. fds s a \<noteq> None \<longrightarrow> node_of s a \<noteq> 0) \<and>
     (\<forall>n. n \<noteq> 0 \<longrightarrow> 0 < card (holders s n) \<longrightarrow> node_enough (card (holders s n)) (nodes (fvfs s) n))"

lemma finite_holders: "entries_ok s \<Longrightarrow> n \<noteq> 0 \<Longrightarrow> finite (holders s n)"
  by (rule finite_subset [of _ "{..<f_next s}"]) (auto simp: holders_def node_of_def entries_ok_def split: option.splits)

lemma nodes_ok_same: "nodes_ok s \<Longrightarrow> node_of s' = node_of s \<Longrightarrow> dom (fds s') = dom (fds s) \<Longrightarrow> fvfs s' = fvfs s \<Longrightarrow> nodes_ok s'"
  unfolding nodes_ok_def holders_def domIff [symmetric] by simp

lemma nodes_okD: "nodes_ok s \<Longrightarrow> n \<noteq> 0 \<Longrightarrow> 0 < card (holders s n) \<Longrightarrow> node_enough (card (holders s n)) (nodes (fvfs s) n)"
  by (simp add: nodes_ok_def)

lemma node_enough_mono: "node_enough n x \<Longrightarrow> m \<le> n \<Longrightarrow> node_enough m x"
  by (cases x) auto

text \<open>An entry that goes away together with its reference to the node.\<close>

lemma free_nodes_ok:
  assumes "fd_free a s = Inr s'" "entries_ok s" "nodes_ok s"
  shows "nodes_ok s'"
proof -
  obtain e where e: "a \<noteq> 0" "fds s a = Some e" and f: "fds s' = (fds s)(a := less_ref e)" using free_fds [OF assms(1)] by blast
  show ?thesis
  proof (cases "fd_refcount e = 1")
    case False
    then have "node_of s' = node_of s" using e f by (auto simp: node_of_def less_ref_def fun_eq_iff)
    moreover have "dom (fds s') = dom (fds s)" using e f False by (auto simp: less_ref_def)
    moreover have "fvfs s' = fvfs s" using assms(1) e False by (auto simp: fd_free_def set_fd_def split: if_splits)
    ultimately show ?thesis using nodes_ok_same assms(3) by blast
  next
    case True
    then have no: "node_of s' = (node_of s)(a := 0)" using f by (auto simp: node_of_def less_ref_def fun_eq_iff)
    have h: "holders s' n = holders s n - {a}" if "n \<noteq> 0" for n using that by (auto simp: holders_def no)
    have nn: "\<forall>b. fds s' b \<noteq> None \<longrightarrow> node_of s' b \<noteq> 0"
      using assms(3) f True by (auto simp: nodes_ok_def no less_ref_def)
    have na: "node_of s a = fd_node e" using e(2) by (simp add: node_of_def)
    have fin: "finite (holders s n)" if "n \<noteq> 0" for n by (rule finite_holders [OF assms(2) that])
    have keep: "node_enough (card (holders s' n)) (nodes (fvfs s) n)" if "n \<noteq> 0" "0 < card (holders s' n)" for n
    proof -
      have "card (holders s' n) \<le> card (holders s n)" using h [OF that(1)] fin [OF that(1)] by (simp add: card_mono)
      then show ?thesis using nodes_okD [OF assms(3) that(1)] that(2) node_enough_mono by fastforce
    qed
    show ?thesis
    proof (cases "fd_node e = 0")
      case True
      then have "fvfs s' = fvfs s" using assms(1) e \<open>fd_refcount e = 1\<close> by (auto simp: fd_free_def set_fd_def)
      then show ?thesis using keep assms(3) nn by (simp add: nodes_ok_def)
    next
      case False
      then obtain p where c: "fs_node_release (fd_node e) (fvfs s) = Inr (p, fvfs s')"
        using assms(1) e \<open>fd_refcount e = 1\<close> by (auto simp: fd_free_def set_fd_def fs_close_def)
      obtain nd where nd: "nodes (fvfs s) (fd_node e) = Some nd" "nodes (fvfs s') = (nodes (fvfs s))(fd_node e := down nd)"
        "v_next (fvfs s') = v_next (fvfs s)" using release_nodes [OF c] by auto
      have fr: "fresh_ok (fvfs s)" using assms(3) by (simp add: nodes_ok_def)
      then have "0 < fd_node e" "fd_node e < v_next (fvfs s')" using nd unfolding fresh_ok_def by auto
      then have "fresh_ok (fvfs s')" using fresh_upd [OF fr nd(2)] nd(3) by simp
      moreover have "node_enough (card (holders s' n)) (nodes (fvfs s') n)" if n: "n \<noteq> 0" "0 < card (holders s' n)" for n
      proof (cases "n = fd_node e")
        case True
        have "a \<in> holders s n" using na True by (simp add: holders_def)
        then have "card (holders s n) = card (holders s' n) + 1"
          using h [OF n(1)] fin [OF n(1)] card_Suc_Diff1 [of "holders s n" a] by simp
        then show ?thesis using nodes_okD [OF assms(3) n(1)] nd True n(2) by (auto simp: down_def)
      next
        case False
        then show ?thesis using keep [OF n] nd(2) by simp
      qed
      ultimately show ?thesis using nn by (simp add: nodes_ok_def)
    qed
  qed
qed

lemma nodes_ok_fds: "nodes_ok s \<Longrightarrow> fds s' = fds s \<Longrightarrow> fvfs s' = fvfs s \<Longrightarrow> nodes_ok s'"
  by (rule nodes_ok_same) (simp_all add: node_of_def [abs_def])

lemma reference_nodes_ok:
  assumes "fd_reference a s = Inr s'" "nodes_ok s"
  shows "nodes_ok s'"
proof (rule nodes_ok_same [OF assms(2)])
  show "node_of s' = node_of s" using assms(1) by (auto simp: fd_reference_def set_fd_def node_of_def fun_eq_iff)
  show "dom (fds s') = dom (fds s)" using assms(1) by (auto simp: fd_reference_def set_fd_def split: if_splits)
  show "fvfs s' = fvfs s" using reference_tables [OF assms(1)] by simp
qed

lemma set_entry_fds: "set_entry t i a s = Inr s' \<Longrightarrow> fds s' = fds s \<and> fvfs s' = fvfs s"
  by (auto simp: set_entry_def set_fdt_def split: option.splits)

lemma set_room_fds: "set_room t i s = Inr s1 \<Longrightarrow> (\<exists>old. fd_free old s = Inr s1) \<or> fds s1 = fds s \<and> fvfs s1 = fvfs s"
  by (auto simp: set_room_def set_fdt_def split: if_splits)

lemma set_nodes_ok:
  assumes "fd_table_set t i a s = Inr (r, s')" "entries_ok s" "nodes_ok s"
  shows "nodes_ok s'"
proof (cases "a = 0")
  case True
  then consider "s' = s" | old s1 where "fd_free old s = Inr s1" "set_entry t i 0 s1 = Inr s'"
    using assms(1) by (auto simp: fd_table_set_def split: if_splits)
  then show ?thesis
  proof cases
    case 2
    then show ?thesis using nodes_ok_fds [OF free_nodes_ok [OF 2(1) assms(2,3)], of s'] set_entry_fds [OF 2(2)] by simp
  qed (use assms(3) in simp)
next
  case False
  obtain s1 s2 where s: "set_room t i s = Inr s1" "set_entry t i a s1 = Inr s2" "fds s' = fds s2" "fvfs s' = fvfs s2"
    using assms(1) False by (auto simp: fd_table_set_def set_fdt_def split: if_splits)
  have "nodes_ok s1" using set_room_fds [OF s(1)] free_nodes_ok [OF _ assms(2,3)] nodes_ok_fds [OF assms(3), of s1] by auto
  then show ?thesis using nodes_ok_fds [of s1 s'] set_entry_fds [OF s(2)] s(3,4) by simp
qed

lemma append_fds: "fd_table_append t a s = Inr (r, s') \<Longrightarrow> fds s' = fds s \<and> fvfs s' = fvfs s"
  by (auto simp: fd_table_append_def set_fdt_def split: option.splits if_splits dest!: set_entry_fds)

lemma clone_one_nodes: "clone_one old new i s = Inr s' \<Longrightarrow> entries_ok s \<Longrightarrow> nodes_ok s \<Longrightarrow> nodes_ok s'"
  by (auto simp: clone_one_def split: if_splits dest: reference_nodes_ok reference_entries intro: set_nodes_ok)

definition fd_inv :: "fdstate \<Rightarrow> bool" where
  "fd_inv s \<longleftrightarrow> keeps (\<lambda>_. 0) s \<and> nodes_ok s"

lemma hand_back: "a \<noteq> 0 \<Longrightarrow> hand a ((\<lambda>_. 0)(a := 0 + 1)) = (\<lambda>_. 0)" "a \<noteq> 0 \<Longrightarrow> hand a ((\<lambda>_. 0)(a := 1)) = (\<lambda>_. 0)"
  by (simp_all add: hand_def fun_eq_iff)

lemma clone_inv:
  assumes "fd_table_clone old s = Inr (new, s')" "fd_inv s"
  shows "fd_inv s'"
proof -
  obtain s1 xs where s1: "fd_table_new s = Inr (new, s1)" and l: "kfor (clone_one old new) xs s1 = Inr s'"
    using assms(1) by (auto simp: fd_table_clone_def)
  have k: "keeps (\<lambda>_. 0) s" "nodes_ok s" using assms(2) by (simp_all add: fd_inv_def)
  have "fd_inv s1" using table_new_keeps [OF s1 k(1)] nodes_ok_fds [OF k(2), of s1] by (simp add: fd_inv_def)
  with l show ?thesis
  proof (rule kfor_pres [where P = "\<lambda>_. fd_inv"])
    fix x t t'
    assume "fd_inv t" "clone_one old new x t = Inr t'"
    then show "fd_inv t'" using clone_one_keeps clone_one_nodes keepsD(2) by (fastforce simp: fd_inv_def)
  qed
qed

lemma table_free_inv:
  assumes "fd_table_free t s = Inr s'" "fd_inv s"
  shows "fd_inv s'"
proof -
  obtain T where T: "fdts s t = Some T" using assms(1) by (auto simp: fd_table_free_def)
  define s1 where "s1 = set_fdt t (Some (T\<lparr>ft_refcount := ft_refcount T - 1\<rparr>)) s"
  have k: "keeps (\<lambda>_. 0) s" "nodes_ok s" "entries_ok s" using assms(2) keepsD(2) by (auto simp: fd_inv_def)
  have e1: "entries_ok s1 \<and> nodes_ok s1" using k(3) nodes_ok_fds [OF k(2), of s1] by (simp add: s1_def set_fdt_def entries_ok_def)
  have "nodes_ok s'"
  proof (cases "ft_refcount T - 1 = 0")
    case False
    then show ?thesis using assms(1) T e1 by (auto simp: fd_table_free_def s1_def Let_def)
  next
    case True
    then obtain s2 where s2: "kfor (free_at T) [0..<ft_length T] s1 = Inr s2" "s' = set_fdt t None s2"
      using assms(1) T by (auto simp: fd_table_free_def s1_def Let_def free_at_def [abs_def])
    have "entries_ok s2 \<and> nodes_ok s2"
      by (rule kfor_pres [OF s2(1), where P = "\<lambda>_ s. entries_ok s \<and> nodes_ok s"])
        (use e1 in \<open>auto simp: free_at_def split: if_splits intro: free_entries free_nodes_ok\<close>)
    then show ?thesis using nodes_ok_fds [of s2 s'] by (simp add: s2(2) set_fdt_def)
  qed
  then show ?thesis using table_free_keeps [OF assms(1) k(1)] by (simp add: fd_inv_def)
qed

lemma get_slot:
  assumes "fd_table_get t i s = Inr a" "tables_ok s"
  shows "a = slot s t i"
proof -
  obtain T where T: "fdts s t = Some T" "if ft_length T < i then a = 0 else entry_at T i = Inr a"
    using assms(1) by (auto simp: fd_table_get_def split: if_splits)
  then show ?thesis using fdt_wf_zero [of T i] tables_okD [OF assms(2) T(1)] entry_at_tslot [of T i a]
    by (auto simp: slot_def split: if_splits)
qed

lemma fd_of_slot: "fd_of t i s = Inr a \<Longrightarrow> tables_ok s \<Longrightarrow> a = slot s t i"
  by (auto simp: fd_of_def dest: get_slot split: if_splits)

lemma fd_invD: "fd_inv s \<Longrightarrow> keeps (\<lambda>_. 0) s" "fd_inv s \<Longrightarrow> nodes_ok s" "fd_inv s \<Longrightarrow> entries_ok s" "fd_inv s \<Longrightarrow> tables_ok s"
  using keepsD by (auto simp: fd_inv_def)

lemma dup_inv:
  assumes "syscall_dup t x s = Inr (r, s')" "fd_inv s"
  shows "fd_inv s' \<and> (slot s t (unat x) = 0 \<and> s' = s \<and> r = -1 \<or>
    (\<exists>i T. r = of_nat i \<and> fdts s t = Some T \<and> free_slot T i \<and> slot s' = (slot s)(t := (slot s t)(i := slot s t (unat x)))))"
proof -
  note k = fd_invD [OF assms(2)]
  obtain a where a: "fd_of t (unat x) s = Inr a" using assms(1) by (auto simp: syscall_dup_def)
  have sa: "a = slot s t (unat x)" by (rule fd_of_slot [OF a k(4)])
  show ?thesis
  proof (cases "a = 0")
    case True
    then show ?thesis using assms a sa by (auto simp: syscall_dup_def)
  next
    case False
    then obtain s1 i where s1: "fd_reference a s = Inr s1" "fd_table_append t a s1 = Inr (i, s')" "r = of_nat i"
      using assms(1) a by (auto simp: syscall_dup_def)
    have k1: "keeps ((\<lambda>_. 0)(a := 0 + 1)) s1" using reference_keeps [OF s1(1) k(1)] by simp
    have "keeps (\<lambda>_. 0) s'" "slot s' = (slot s1)(t := (slot s1 t)(i := a))" "\<exists>T. fdts s1 t = Some T \<and> free_slot T i"
      using append_keeps [OF s1(2) k1] hand_back(1) [OF False] by auto
    moreover have "nodes_ok s'" using nodes_ok_fds [OF reference_nodes_ok [OF s1(1) k(2)]] append_fds [OF s1(2)] by simp
    ultimately show ?thesis using reference_tables [OF s1(1)] slot_fdts [of s1 s] s1(3) sa by (auto simp: fd_inv_def)
  qed
qed

lemma dup2_inv:
  assumes "syscall_dup2 t x y s = Inr (r, s')" "fd_inv s"
  shows "fd_inv s' \<and> (slot s t (unat x) = 0 \<and> s' = s \<and> r = -1 \<or>
    r = y \<and> slot s' = (slot s)(t := (slot s t)(unat y := slot s t (unat x))))"
proof -
  note k = fd_invD [OF assms(2)]
  obtain a where a: "fd_of t (unat x) s = Inr a" using assms(1) by (auto simp: syscall_dup2_def)
  have sa: "a = slot s t (unat x)" by (rule fd_of_slot [OF a k(4)])
  consider "a = 0" | "a \<noteq> 0" "y = x" | "a \<noteq> 0" "y \<noteq> x" by blast
  then show ?thesis
  proof cases
    case 3
    then obtain s1 i where s1: "fd_reference a s = Inr s1" "fd_table_set t (unat y) a s1 = Inr (i, s')" "r = of_nat i"
      using assms(1) a by (auto simp: syscall_dup2_def)
    have k1: "keeps ((\<lambda>_. 0)(a := 0 + 1)) s1" using reference_keeps [OF s1(1) k(1)] by simp
    have "keeps (\<lambda>_. 0) s'" "slot s' = (slot s1)(t := (slot s1 t)(unat y := a))" "i = unat y"
      using set_keeps [OF s1(2) k1 3(1)] hand_back(1) [OF 3(1)] by auto
    moreover have "nodes_ok s'" by (rule set_nodes_ok [OF s1(2) reference_entries [OF s1(1) k(3)] reference_nodes_ok [OF s1(1) k(2)]])
    ultimately show ?thesis using slot_fdts [of s1 s] reference_tables [OF s1(1)] s1(3) sa by (simp add: fd_inv_def)
  qed (use assms a sa in \<open>auto simp: syscall_dup2_def fun_eq_iff\<close>)
qed

lemma close_inv:
  assumes "syscall_close t x s = Inr (r, s')" "fd_inv s"
  shows "fd_inv s' \<and> slot s' = (slot s)(t := (slot s t)(unat x := 0)) \<and> (r = 0 \<longleftrightarrow> slot s t (unat x) \<noteq> 0)"
proof -
  note k = fd_invD [OF assms(2)]
  obtain a where a: "fd_of t (unat x) s = Inr a" using assms(1) by (auto simp: syscall_close_def)
  have sa: "a = slot s t (unat x)" by (rule fd_of_slot [OF a k(4)])
  show ?thesis
  proof (cases "a = 0")
    case True
    then show ?thesis using assms a sa by (auto simp: syscall_close_def fun_eq_iff)
  next
    case False
    then obtain i where i: "fd_table_set t (unat x) 0 s = Inr (i, s')" "r = 0" using assms(1) a by (auto simp: syscall_close_def)
    then show ?thesis using set_null_keeps [OF i(1) k(1)] set_nodes_ok [OF i(1) k(3,2)] False sa by (simp add: fd_inv_def)
  qed
qed

lemma lseek_inv:
  assumes "syscall_lseek t x off flags s = Inr (r, s')" "fd_inv s"
  shows "fd_inv s' \<and> slot s' = slot s"
proof -
  note k = fd_invD [OF assms(2)]
  obtain a where a: "fd_of t (unat x) s = Inr a" using assms(1) by (auto simp: syscall_lseek_def)
  show ?thesis
  proof (cases "a = 0 \<or> flags \<noteq> 0")
    case True
    then have "s' = s" using assms(1) a by (auto simp: syscall_lseek_def split: if_splits)
    then show ?thesis using assms(2) by simp
  next
    case False
    then obtain e where e: "fds s a = Some e" "s' = set_fd a (Some (e\<lparr>fd_seek := off\<rparr>)) s" using assms(1) a by (auto simp: syscall_lseek_def)
    have sl: "slot s' = slot s" by (rule slot_fdts) (simp add: e(2) set_fd_def)
    have "nodes_ok s'" by (rule nodes_ok_same [OF k(2)]) (use e in \<open>auto simp: set_fd_def node_of_def fun_eq_iff\<close>)
    moreover have "entries_ok s'" using k(3) e by (auto simp: entries_ok_def set_fd_def)
    moreover have "tables_ok s'" using k(4) by (simp add: tables_ok_def e(2) set_fd_def)
    moreover have "cover (\<lambda>b. cnt s' b + 0) s'"
      unfolding cnt_same [OF sl] by (rule cover_refs [OF keepsD(3) [OF k(1)]]) (use e in \<open>simp add: set_fd_def\<close>)
    ultimately show ?thesis using sl by (simp add: fd_inv_def keeps_def)
  qed
qed

section \<open>The system calls\<close>

lemma more_nodes_ok:
  assumes "nodes_ok s" "entries_ok s" "held (nodes (fvfs s)) n (nodes v)" "fresh_ok v" "n \<noteq> 0" "fds s a = None"
    "fds s' = (fds s)(a \<mapsto> e)" "fd_node e = n" "fvfs s' = v"
  shows "nodes_ok s'"
proof -
  have no: "node_of s' = (node_of s)(a := n)" using assms(7,8) by (auto simp: node_of_def fun_eq_iff)
  have na: "node_of s a = 0" using assms(6) by (simp add: node_of_def)
  have h: "holders s' k = (if k = n then insert a (holders s k) else holders s k)" if "k \<noteq> 0" for k
    using that na by (auto simp: holders_def no)
  have c: "card (holders s' n) = card (holders s n) + 1"
    using h [OF assms(5)] finite_holders [OF assms(2,5)] na assms(5) by (simp add: holders_def)
  obtain nd where nd: "nodes v = (nodes (fvfs s))(n \<mapsto> nd)" "one_more (nodes (fvfs s) n) nd" using held_obtain [OF assms(3,5)] by blast
  have "node_enough (card (holders s' k)) (nodes v k)" if k: "k \<noteq> 0" "0 < card (holders s' k)" for k
  proof (cases "k = n")
    case True
    have "card (holders s n) = 0 \<or> node_enough (card (holders s n)) (nodes (fvfs s) n)" using nodes_okD [OF assms(1,5)] by auto
    then show ?thesis using nd c True by (cases "nodes (fvfs s) n") (auto simp: one_more_def up_def)
  next
    case False
    then show ?thesis using nodes_okD [OF assms(1) k(1)] k(2) h [OF k(1)] nd(1) by simp
  qed
  moreover have "\<forall>b. fds s' b \<noteq> None \<longrightarrow> node_of s' b \<noteq> 0" using assms(1,5,7) by (auto simp: nodes_ok_def no)
  ultimately show ?thesis using assms(4,9) by (simp add: nodes_ok_def)
qed

text \<open>A new entry for a node, put into a table by \<open>f\<close>.\<close>

lemma new_entry:
  assumes "fd_new s = Inr (a, s1)" "fds s1 a = Some e" "fd_inv s" "held (nodes (fvfs s)) n (nodes v)" "fresh_ok v" "n \<noteq> 0"
  defines "s2 \<equiv> set_fd a (Some (e\<lparr>fd_node := n, fd_seek := 0\<rparr>)) (s1\<lparr>fvfs := v\<rparr>)"
  shows "keeps ((\<lambda>_. 0)(a := 1)) s2 \<and> nodes_ok s2 \<and> slot s2 = slot s \<and> fdts s2 = fdts s1 \<and> a \<noteq> 0"
proof -
  note k = fd_invD [OF assms(3)]
  have n: "keeps ((\<lambda>_. 0)(a := 1)) s1" "a = f_next s" "slot s1 = slot s" "fds s1 = (fds s)(a \<mapsto> \<lparr>fd_node = 0, fd_seek = 0, fd_refcount = 1\<rparr>)"
    using new_fd [OF assms(1) k(1)] by auto
  have e: "fd_refcount e = 1" using n(4) assms(2) by auto
  have a: "a \<noteq> 0" using n(2) k(4) by (simp add: tables_ok_def)
  have z: "fds s a = None" using entries_okD [OF k(3), of a] n(2) by (cases "fds s a") auto
  have f2: "fdts s2 = fdts s1" "f_next s2 = f_next s1" "fds s2 = (fds s)(a \<mapsto> e\<lparr>fd_node := n, fd_seek := 0\<rparr>)"
    using n(4) by (simp_all add: s2_def set_fd_def)
  have sl: "slot s2 = slot s1" by (rule slot_fdts [OF f2(1)])
  have "cover (\<lambda>b. cnt s2 b + ((\<lambda>_. 0)(a := 1)) b) s2"
  proof (rule coverI)
    fix b :: addr assume b: "b \<noteq> 0" "0 < cnt s2 b + ((\<lambda>_. 0)(a := 1)) b"
    have "enough (cnt s1 b + ((\<lambda>_. 0)(a := 1)) b) (fds s1 b)" using coverD [OF keepsD(3) [OF n(1)] b(1)] b(2) cnt_same [OF sl] by simp
    then show "enough (cnt s2 b + ((\<lambda>_. 0)(a := 1)) b) (fds s2 b)" using f2(3) n(4) e cnt_same [OF sl] by (auto split: if_splits)
  qed
  moreover have "entries_ok s2"
    by (rule entries_ok_upd [OF keepsD(2) [OF n(1)], of s2 a "Some (e\<lparr>fd_node := n, fd_seek := 0\<rparr>)"])
      (use f2 n e entries_okD [OF keepsD(2) [OF n(1)] assms(2)] in auto)
  moreover have "tables_ok s2" by (rule tables_ok_fdts [OF keepsD(1) [OF n(1)] f2(1,2)])
  moreover have "nodes_ok s2"
    by (rule more_nodes_ok [OF k(2,3) assms(4,5,6) z f2(3)]) (simp_all add: s2_def set_fd_def)
  ultimately show ?thesis using sl n(3) f2(1) a by (simp add: keeps_def)
qed

lemma nodes_ok_vfs: "nodes_ok s \<Longrightarrow> nodes v = nodes (fvfs s) \<Longrightarrow> fresh_ok v \<Longrightarrow> nodes_ok (s\<lparr>fvfs := v\<rparr>)"
  by (simp add: nodes_ok_def holders_def node_of_def [abs_def])

lemma keeps_vfs: "keeps h (s\<lparr>fvfs := v\<rparr>) = keeps h s"
proof -
  have "cnt (s\<lparr>fvfs := v\<rparr>) = cnt s" by (rule cnt_tables) simp
  then show ?thesis by (simp add: keeps_def tables_ok_def entries_ok_def cover_def)
qed

lemma open_inv:
  assumes "open_path t path s = Inr (r, s')" "fd_inv s"
  shows "fd_inv s' \<and> (slot s' = slot s \<and> r = -2 \<or>
    (\<exists>i a T. r = of_nat i \<and> fdts s t = Some T \<and> free_slot T i \<and> a \<noteq> 0 \<and> slot s' = (slot s)(t := (slot s t)(i := a))))"
proof -
  note k = fd_invD [OF assms(2)]
  obtain n v where v: "kopen path (fvfs s) = Inr (n, v)" using assms(1) by (auto simp: open_path_def)
  have h: "held (nodes (fvfs s)) n (nodes v)" "fresh_ok v" using kopen_held [OF _ v] k(2) by (auto simp: nodes_ok_def)
  show ?thesis
  proof (cases "n = 0")
    case True
    then have "s' = s\<lparr>fvfs := v\<rparr>" "r = -2" using assms(1) v by (auto simp: open_path_def Let_def)
    moreover have "slot (s\<lparr>fvfs := v\<rparr>) = slot s" by (rule slot_fdts) simp
    ultimately show ?thesis using True h k nodes_ok_vfs [OF k(2), of v] by (simp add: fd_inv_def keeps_vfs held_def)
  next
    case False
    obtain a s1 e i where s1: "fd_new (s\<lparr>fvfs := v\<rparr>) = Inr (a, s1)" "fds s1 a = Some e"
      "fd_table_append t a (set_fd a (Some (e\<lparr>fd_node := n, fd_seek := 0\<rparr>)) s1) = Inr (i, s')" "r = of_nat i"
      using assms(1) v False by (auto simp: open_path_def Let_def)
    have fn: "0 < f_next s" using k(4) by (simp add: tables_ok_def)
    define s0 where "s0 = s\<lparr>fds := (fds s)(f_next s \<mapsto> \<lparr>fd_node = 0, fd_seek = 0, fd_refcount = 1\<rparr>), f_next := f_next s + 1\<rparr>"
    have "Inr (a, s1) = (Inr (f_next s, s0\<lparr>fvfs := v\<rparr>) :: (addr \<times> fdstate) res)"
      unfolding s1(1) [symmetric] using fn by (simp add: fd_new_eq s0_def)
    then have as: "a = f_next s" "s1 = s0\<lparr>fvfs := v\<rparr>" by simp_all
    have s0: "fd_new s = Inr (a, s0)" "fds s0 a = Some e" "s0\<lparr>fvfs := v\<rparr> = s1"
      using s1(2) fd_new_eq [OF fn] as by (simp_all add: s0_def)
    note e = new_entry [OF s0(1,2) assms(2) h False, unfolded s0(3)]
    let ?s2 = "set_fd a (Some (e\<lparr>fd_node := n, fd_seek := 0\<rparr>)) s1"
    have ap: "keeps (\<lambda>_. 0) s'" "slot s' = (slot ?s2)(t := (slot ?s2 t)(i := a))" "\<exists>T. fdts ?s2 t = Some T \<and> free_slot T i"
      using append_keeps [OF s1(3), of "(\<lambda>_. 0)(a := 1)"] e hand_back(2) [of a] by auto
    have "nodes_ok s'" using nodes_ok_fds [of ?s2 s'] e append_fds [OF s1(3)] by simp
    moreover have "fdts s1 = fdts s" by (simp add: as(2) s0_def)
    ultimately show ?thesis using ap e s1(4) by (auto simp: fd_inv_def set_fd_def)
  qed
qed

end
