(* ===== verification/Fd_Props.thy ===== *)
theory Fd_Props
  imports Fd_Inv
begin

text \<open>
  Correctness of the file descriptors: the states that the system calls of all processes reach from
  the descriptors of the first process, what holds in them, and what each call does to the tables.
\<close>

section \<open>Reachable states\<close>

text \<open>The steps of the processes: system calls on a table, \<open>clone\<close> with a copied or a shared table, and exit.\<close>

inductive fd_step :: "fdstate \<Rightarrow> fdstate \<Rightarrow> bool" where
  step_open: "open_path t path s = Inr (r, s') \<Longrightarrow> fd_step s s'"
| step_dup: "syscall_dup t x s = Inr (r, s') \<Longrightarrow> fd_step s s'"
| step_dup2: "syscall_dup2 t x y s = Inr (r, s') \<Longrightarrow> fd_step s s'"
| step_dup3: "syscall_dup3 t x y f s = Inr (r, s') \<Longrightarrow> fd_step s s'"
| step_lseek: "syscall_lseek t x off f s = Inr (r, s') \<Longrightarrow> fd_step s s'"
| step_close: "syscall_close t x s = Inr (r, s') \<Longrightarrow> fd_step s s'"
| step_clone: "fd_table_clone t s = Inr (new, s') \<Longrightarrow> fd_step s s'"
| step_share: "fd_table_reference t s = Inr s' \<Longrightarrow> fd_step s s'"
| step_exit: "fd_table_free t s = Inr s' \<Longrightarrow> fd_step s s'"

inductive fd_reachable :: "vfs \<Rightarrow> addr \<Rightarrow> fdstate \<Rightarrow> bool" for v tty where
  start: "init_fds tty \<lparr>fvfs = v, fds = Map.empty, fdts = Map.empty, f_next = 1\<rparr> = Inr (t, s) \<Longrightarrow> fd_reachable v tty s"
| step: "fd_reachable v tty s \<Longrightarrow> fd_step s s' \<Longrightarrow> fd_reachable v tty s'"

lemma share_inv:
  assumes "fd_table_reference t s = Inr s'" "fd_inv s"
  shows "fd_inv s'"
proof -
  note k = fd_invD [OF assms(2)]
  obtain T where T: "fdts s t = Some T" "s' = (if ft_refcount T \<noteq> -1 then set_fdt t (Some (T\<lparr>ft_refcount := ft_refcount T + 1\<rparr>)) s else s)"
    using assms(1) by (auto simp: fd_table_reference_def)
  have "keeps (\<lambda>_. 0) s'"
    using keeps_slots [OF k(1), of "set_fdt t (Some (T\<lparr>ft_refcount := ft_refcount T + 1\<rparr>)) s" t] tables_okD [OF k(4) T(1)] k(1) T(1)
    by (simp add: T(2) slot_def set_fdt_def)
  moreover have "nodes_ok s'" by (rule nodes_ok_fds [OF k(2)]) (simp_all add: T(2) set_fdt_def)
  ultimately show ?thesis by (simp add: fd_inv_def)
qed

lemma step_inv: "fd_step s s' \<Longrightarrow> fd_inv s \<Longrightarrow> fd_inv s'"
  by (induction rule: fd_step.induct)
    (auto simp: syscall_dup3_def dest: open_inv dup_inv dup2_inv lseek_inv close_inv clone_inv share_inv table_free_inv)

text \<open>The first state: one entry for the console at the positions 0, 1 and 2.\<close>

definition fd_boot :: "vfs \<Rightarrow> addr \<Rightarrow> fdstate" where
  "fd_boot v tty = \<lparr>fvfs = v, fds = [2 \<mapsto> \<lparr>fd_node = tty, fd_seek = 0, fd_refcount = 3\<rparr>],
     fdts = [1 \<mapsto> \<lparr>ft_entries = Some (2 # 2 # 2 # replicate 13 0), ft_length = 2, ft_capacity = 16, ft_refcount = 1\<rparr>], f_next = 3\<rparr>"

lemma init_fds_boot: "init_fds tty \<lparr>fvfs = v, fds = Map.empty, fdts = Map.empty, f_next = 1\<rparr> = Inr (1, fd_boot v tty)"
  by (simp add: init_fds_def fd_table_new_def fd_table_realloc_def fd_table_reference_def fd_new_def fd_reference_def
      fd_table_set_def set_room_def set_entry_def entry_at_def set_fd_def set_fdt_def fd_boot_def Let_def numeral_eq_Suc)

lemma boot_slot: "slot (fd_boot v tty) = (\<lambda>t i. if t = 1 \<and> i < 3 then 2 else 0)"
  by (auto simp: slot_def fd_boot_def tslot_def fun_eq_iff nth_Cons split: nat.splits)

lemma boot_cnt: "b \<noteq> 0 \<Longrightarrow> cnt (fd_boot v tty) b = (if b = 2 then 3 else 0)"
proof -
  assume b: "b \<noteq> 0"
  have "places (fd_boot v tty) b = (if b = 2 then (\<lambda>i. (1, i)) ` {..<3} else {})"
    using b by (auto simp: places_def boot_slot image_iff split: if_splits)
  then show ?thesis by (simp add: cnt_def card_image inj_on_def)
qed

lemma boot_inv:
  assumes "fresh_ok v" "nodes v tty = Some nd" "nd_refcount nd < 0" "tty \<noteq> 0"
  shows "fd_inv (fd_boot v tty)"
proof -
  let ?s = "fd_boot v tty"
  have "fdt_wf \<lparr>ft_entries = Some (2 # 2 # 2 # replicate 13 0), ft_length = 2, ft_capacity = 16, ft_refcount = 1\<rparr>"
    by (auto simp: fdt_wf_def nth_Cons split: nat.splits)
  then have "tables_ok ?s" by (simp add: tables_ok_def fd_boot_def)
  moreover have "entries_ok ?s" by (simp add: entries_ok_def fd_boot_def)
  moreover have "fds ?s = [2 \<mapsto> \<lparr>fd_node = tty, fd_seek = 0, fd_refcount = 3\<rparr>]" by (simp add: fd_boot_def)
  then have "cover (\<lambda>a. cnt ?s a + 0) ?s" by (intro coverI) (auto simp: boot_cnt split: if_splits)
  moreover have "node_of ?s = (\<lambda>_. 0)(2 := tty)" by (auto simp: node_of_def fd_boot_def fun_eq_iff)
  then have "holders ?s n = (if n = tty then {2} else {})" if "n \<noteq> 0" for n using that assms(4) by (auto simp: holders_def)
  then have "nodes_ok ?s" using assms by (auto simp: nodes_ok_def node_of_def fd_boot_def)
  ultimately show ?thesis by (simp add: fd_inv_def keeps_def)
qed

lemma reachable_inv:
  assumes "fd_reachable v tty s" "fresh_ok v" "nodes v tty = Some nd" "nd_refcount nd < 0" "tty \<noteq> 0"
  shows "fd_inv s"
  using assms(1)
proof induction
  case (start t s)
  then show ?case using boot_inv [OF assms(2-)] init_fds_boot [of tty v] by simp
qed (rule step_inv)

section \<open>Properties\<close>

text \<open>C32: In every state that the processes reach by opening, duplicating, seeking and closing descriptors, by
  cloning and sharing tables and by exiting, the tables are well formed: the array of a table has as many
  elements as its capacity says, its length is within it, and nothing is stored behind the position
  \<open>length\<close>.\<close>

theorem fd_tables_typed:
  assumes "fd_reachable v tty s" "fresh_ok v" "nodes v tty = Some nd" "nd_refcount nd < 0" "tty \<noteq> 0" "fdts s t = Some T"
  shows "fdt_wf T"
  using tables_okD [OF fd_invD(4) [OF reachable_inv [OF assms(1-5)]] assms(6)] by simp

text \<open>C3: In every such state a descriptor never dangles: the entry at a position of a table exists and counts
  at least as many references as positions of tables point to it, and the node of the entry exists and
  counts at least as many references as there are entries for it (static nodes are not counted).\<close>

theorem fd_reachable_safe:
  assumes "fd_reachable v tty s" "fresh_ok v" "nodes v tty = Some nd" "nd_refcount nd < 0" "tty \<noteq> 0" "slot s t i \<noteq> 0"
  shows "\<exists>e. fds s (slot s t i) = Some e \<and> (fd_refcount e = -1 \<or> int (card (places s (slot s t i))) \<le> fd_refcount e) \<and>
    fd_node e \<noteq> 0 \<and> node_enough (card (holders s (fd_node e))) (nodes (fvfs s) (fd_node e))"
proof -
  let ?a = "slot s t i"
  have inv: "fd_inv s" by (rule reachable_inv [OF assms(1-5)])
  note k = fd_invD [OF inv]
  have "0 < cnt s ?a" using cnt_pos [OF k(4) refl assms(6)] .
  then have "enough (cnt s ?a) (fds s ?a)" using coverD [OF keepsD(3) [OF k(1)] assms(6)] by simp
  then obtain e where e: "fds s ?a = Some e" "fd_refcount e = -1 \<or> int (cnt s ?a) \<le> fd_refcount e" by (cases "fds s ?a") auto
  have n: "node_of s ?a = fd_node e" "fd_node e \<noteq> 0" using k(2) e(1) by (auto simp: nodes_ok_def node_of_def)
  then have "?a \<in> holders s (fd_node e)" by (simp add: holders_def)
  then have "0 < card (holders s (fd_node e))" using finite_holders [OF k(3) n(2)] by (auto simp: card_gt_0_iff)
  then show ?thesis using nodes_okD [OF k(2) n(2)] e n(2) by (auto simp: cnt_def)
qed


lemma prefix_upt: "[0..<n] = done @ x # rest \<Longrightarrow> x = length done \<and> x < n"
proof -
  assume e: "[0..<n] = done @ x # rest"
  have l: "length done < n" using arg_cong [OF e, of length] by simp
  have "[0..<n] ! length done = x" using e by simp
  then show ?thesis using l by simp
qed

text \<open>\<open>fd_table_clone\<close> copies the descriptors below the length of the table, in place, and leaves every
  other table as it is. A descriptor at the position \<open>length\<close> is not among them.\<close>

lemma clone_copies:
  assumes "fd_inv s" "fd_table_clone old s = Inr (new, s')" "fdts s old = Some T"
  shows "slot s' = (slot s)(new := (\<lambda>i. if i < ft_length T then slot s old i else 0))"
proof -
  note k = fd_invD [OF assms(1)]
  obtain s1 T1 where s1: "fd_table_new s = Inr (new, s1)" "fdts s1 old = Some T1" "kfor (clone_one old new) [0..<ft_length T1] s1 = Inr s'"
    using assms(2) by (auto simp: fd_table_clone_def)
  note n = table_new_keeps [OF s1(1) k(1)]
  have ne: "old \<noteq> new" using tables_okD [OF k(4) assms(3)] n by auto
  have T1: "T1 = T" using n s1(2) assms(3) ne by auto
  have z: "slot s new = (\<lambda>_. 0)" using n tables_okD [OF k(4), of new] by (cases "fdts s new") (auto simp: slot_def)
  let ?P = "\<lambda>done t. keeps (\<lambda>_. 0) t \<and> slot t = (slot s)(new := (\<lambda>i. if i < length done then slot s old i else 0))"
  have "?P [0..<ft_length T] s'"
  proof (rule kfor_pres [OF s1(3) [unfolded T1], where P = ?P])
    show "?P [] s1" using n z by (simp add: fun_eq_iff)
  next
    fix "done" x t t'
    assume t: "?P done t" and c: "clone_one old new x t = Inr t'" and "\<exists>rest. [0..<ft_length T] = done @ x # rest"
    then have x: "x = length done" using prefix_upt by blast
    obtain a where a: "keeps (\<lambda>_. 0) t'" "fd_table_get old x t = Inr a" "slot t' = (slot t)(new := (slot t new)(x := a))"
      using clone_one_keeps [OF c] t by blast
    have "a = slot s old x" using get_slot [OF a(2) keepsD(1)] t ne by auto
    then show "?P (done @ [x]) t'" using a t x by (auto simp: fun_eq_iff)
  qed
  then show ?thesis by simp
qed

text \<open>When every position below the length is taken and the table has room, \<open>fd_table_append\<close> uses the
  position \<open>length\<close>, whatever is there. \<open>fd_table_set\<close> counts a descriptor it sets as the length, so the
  highest descriptor it has set is lost: it is replaced, and its entry keeps the reference.\<close>

lemma append_overwrites:
  assumes "fd_inv s" "fdts s t = Some T" "ft_length T < ft_capacity T" "\<forall>j\<le>ft_length T. slot s t j \<noteq> 0" "a \<noteq> 0"
  shows "\<exists>s'. fd_table_append t a s = Inr (ft_length T, s') \<and> slot s' t (ft_length T) = a \<and> fds s' = fds s"
proof -
  have T: "0 < t" "fdt_wf T" using tables_okD [OF fd_invD(4) [OF assms(1)] assms(2)] by auto
  obtain l where l: "ft_entries T = Some l" "length l = ft_capacity T" using fdt_wfD [OF T(2)] by blast
  have "ta_gap T [m..<ft_length T] = Inr None" for m
  proof (induction "ft_length T - m" arbitrary: m)
    case (Suc d)
    then have m: "m < ft_length T" "[m..<ft_length T] = m # [Suc m..<ft_length T]" by (simp_all add: upt_conv_Cons)
    have "entry_at T m = Inr (tslot T m)" "tslot T m \<noteq> 0" using entry_at_wf [OF T(2), of m] m(1) assms(2,3,4) by (auto simp: slot_def)
    then show ?case using Suc.hyps(1) [of "Suc m"] Suc.hyps(2) by (simp add: m(2))
  qed simp
  then have g: "ta_gap T [0..<ft_length T] = Inr None" .
  show ?thesis using assms(2,3,5) T(1) g l by (simp add: fd_table_append_def set_entry_def set_fdt_def slot_def tslot_def)
qed

text \<open>\<open>dup2\<close> to a descriptor at or behind the capacity of the table writes outside the array: the table is made
  as large as the number of the descriptor, which leaves no room for the position itself.\<close>

lemma dup2_past_capacity:
  assumes "fd_inv s" "fdts s t = Some T" "ft_length T \<noteq> 0" "slot s t (unat x) \<noteq> 0" "ft_capacity T \<le> unat y"
  shows "syscall_dup2 t x y s = Inl MemFault"
proof -
  note k = fd_invD [OF assms(1)]
  let ?a = "slot s t (unat x)"
  have T: "0 < t" "fdt_wf T" using tables_okD [OF k(4) assms(2)] by auto
  obtain l where l: "ft_entries T = Some l" "length l = ft_capacity T" "ft_length T \<le> ft_capacity T" using fdt_wfD [OF T(2)] by blast
  have st: "?a = tslot T (unat x)" using assms(2) by (simp add: slot_def)
  have x: "\<not> ft_length T < unat x" "unat x < ft_capacity T"
    using fdt_wf_zero [OF T(2), of "unat x"] st assms(4) l by (auto simp: tslot_def split: if_splits)
  have ne: "y \<noteq> x" using x(2) assms(5) by auto
  have "enough (cnt s ?a) (fds s ?a)" using coverD [OF keepsD(3) [OF k(1)] assms(4)] cnt_pos [OF k(4) refl assms(4)] by simp
  then obtain e where e: "fds s ?a = Some e" by (cases "fds s ?a") auto
  have n: "fd_node e \<noteq> 0" using k(2) e by (auto simp: nodes_ok_def node_of_def)
  have g: "fd_of t (unat x) s = Inr ?a"
    using assms(2,4) T x e n st entry_at_wf [OF T(2) x(2)] by (simp add: fd_of_def fd_table_get_def)
  have r: "\<exists>s1. fd_reference ?a s = Inr s1 \<and> fdts s1 = fdts s" using e assms(4) by (simp add: fd_reference_def set_fd_def)
  then obtain s1 where s1: "fd_reference ?a s = Inr s1" "fdts s1 = fdts s" by blast
  have "fd_table_set t (unat y) ?a s1 = Inl MemFault"
    using s1(2) assms(2-5) T(1) l by (simp add: fd_table_set_def set_room_def fd_table_realloc_def set_entry_def set_fdt_def kstore_def)
  then show ?thesis using g s1(1) assms(4) ne by (simp add: syscall_dup2_def)
qed

section \<open>Examples\<close>

definition ex_tty :: vfs where
  "ex_tty = ex_vfs\<lparr>nodes := [1 \<mapsto> blank_node\<lparr>nd_refcount := -1\<rparr>], v_next := 2\<rparr>"

lemma ex_tty_ok: "fresh_ok ex_tty" "nodes ex_tty 1 = Some (blank_node\<lparr>nd_refcount := -1\<rparr>)" "nd_refcount (blank_node\<lparr>nd_refcount := -1\<rparr>) < 0"
  by (simp_all add: ex_tty_def ex_vfs_def fresh_ok_def)

lemma ex_boot_inv: "fd_inv (fd_boot ex_tty 1)"
  by (rule boot_inv [OF ex_tty_ok]) simp

lemma ex_reachable: "fd_reachable ex_tty 1 (fd_boot ex_tty 1)"
  by (rule fd_reachable.start [OF init_fds_boot])

theorem fd_tables_typed_witness:
  "\<exists>T. fdts (fd_boot ex_tty 1) 1 = Some T \<and> fdt_wf T"
  using fd_tables_typed [OF ex_reachable ex_tty_ok, of 1] by (simp add: fd_boot_def)

theorem fd_reachable_safe_witness:
  "\<exists>e. fds (fd_boot ex_tty 1) 2 = Some e \<and> node_enough 1 (nodes ex_tty (fd_node e))"
proof -
  have "slot (fd_boot ex_tty 1) 1 0 = 2" by (simp add: boot_slot)
  then show ?thesis using fd_reachable_safe [OF ex_reachable ex_tty_ok, of 1 0] by (auto simp: fd_boot_def ex_tty_def)
qed


end
