(* ===== verification/Usercopy.thy ===== *)
theory Usercopy
  imports Vmm Path
begin

text \<open>
  Access to user memory, lines 16 to 275 of src/kernel/syscall.c. The pages of the user are mapped
  at a run of kernel pages, read or written there, and unmapped again. \<open>ram\<close> is the physical memory;
  an access to a kernel address goes through the kernel directory, and one to a page that is not
  present is a fault. Buffers of the kernel are lists. A return value of \<open>-1\<close> is \<open>None\<close>.
  Allocation does not fail.
\<close>

text \<open>\<open>j * BLOCK_SIZE\<close> as an address.\<close>

definition kpg :: "nat \<Rightarrow> u32" where
  "kpg j = of_nat (j * BLOCK_SIZE)"

record machine =
  mvm :: vmm
  ram :: "u32 \<Rightarrow> u8"

definition kaddr :: "vmm \<Rightarrow> u32 \<Rightarrow> u32" where
  "kaddr s v = (kpage s v AND NOT 0xFFF) + (v AND 0xFFF)"

definition kld :: "machine \<Rightarrow> u32 \<Rightarrow> u8 res" where
  "kld m v = (if kpage (mvm m) v AND PAGE_PRESENT \<noteq> 0 then Inr (ram m (kaddr (mvm m) v)) else Inl MemFault)"

definition kst :: "u32 \<Rightarrow> u8 \<Rightarrow> machine \<Rightarrow> machine res" where
  "kst v c m = (if kpage (mvm m) v AND PAGE_PRESENT \<noteq> 0 then Inr (m\<lparr>ram := (ram m)(kaddr (mvm m) v := c)\<rparr>) else Inl MemFault)"

text \<open>\<open>memcpy\<close> out of and into the kernel's address space.\<close>

definition kread :: "machine \<Rightarrow> u32 \<Rightarrow> nat \<Rightarrow> u8 list res" where
  "kread m v n =
     kbind (kassert (v \<noteq> 0)) (\<lambda>_.
     kbind (kassert (n \<noteq> 0)) (\<lambda>_.
     kfor (\<lambda>i out. kbind (kld m (v + of_nat i)) (\<lambda>c. Inr (out @ [c]))) [0..<n] []))"

definition kwrite :: "u32 \<Rightarrow> u8 list \<Rightarrow> machine \<Rightarrow> machine res" where
  "kwrite v bytes m =
     kbind (kassert (v \<noteq> 0)) (\<lambda>_.
     kbind (kassert (bytes \<noteq> [])) (\<lambda>_.
     kfor (\<lambda>i m. kst (v + of_nat i) (bytes ! i) m) [0..<length bytes] m))"

text \<open>\<open>map_page(get_table(v, kernel_directory), v, p, f)\<close>.\<close>

definition kmap :: "u32 \<Rightarrow> u32 \<Rightarrow> u32 \<Rightarrow> vmm \<Rightarrow> vmm res" where
  "kmap v p f s = kbind (get_table v (kernel_directory s) s) (\<lambda>t. map_page t v p f s)"

fun mu_loop :: "u32 \<Rightarrow> u32 \<Rightarrow> u32 \<Rightarrow> nat list \<Rightarrow> vmm \<Rightarrow> (bool \<times> vmm) res" where
  "mu_loop pdir ptr kptr [] s = Inr (True, s)"
| "mu_loop pdir ptr kptr (i # is) s =
     (let u = ptr + kpg i; k = kptr + kpg i
      in kbind (kmap k 0 0 s) (\<lambda>s.
         kbind (invalidate_page k) (\<lambda>_.
         kbind (get_table u pdir s) (\<lambda>t.
           if t = 0 then Inr (False, s)
           else kbind (get_page t u s) (\<lambda>page.
                  if page AND PAGE_PRESENT = 0 \<or> page AND PAGE_READWRITE = 0 \<or> page AND PAGE_USER = 0 then Inr (False, s)
                  else kbind (kmap k page (PAGE_PRESENT OR PAGE_READWRITE) s) (\<lambda>s.
                       kbind (invalidate_page k) (\<lambda>_. mu_loop pdir ptr kptr is s)))))))"

fun mu_undo :: "u32 \<Rightarrow> nat list \<Rightarrow> vmm \<Rightarrow> vmm res" where
  "mu_undo kptr [] s = Inr s"
| "mu_undo kptr (i # is) s =
     (let v = kpg i + kptr
      in kbind (get_table v (kernel_directory s) s) (\<lambda>t.
         kbind (get_page t v s) (\<lambda>p.
           if p = 0 then Inr s else kbind (map_page t v 0 0 s) (mu_undo kptr is))))"

definition map_userspace_to_kernel :: "u32 \<Rightarrow> u32 \<Rightarrow> u32 \<Rightarrow> nat \<Rightarrow> vmm \<Rightarrow> (bool \<times> vmm) res" where
  "map_userspace_to_kernel pdir ptr kptr n s =
     kbind (kassert (pdir \<noteq> 0 \<and> ptr AND 0xFFF = 0 \<and> kptr AND 0xFFF = 0 \<and> n \<noteq> 0)) (\<lambda>_.
     kbind (mu_loop pdir ptr kptr [0..<n] s) (\<lambda>(ok, s).
       if ok then Inr (True, s)
       else kbind (dump_directory pdir s) (\<lambda>_.
            kbind (mu_undo kptr [0..<n] s) (\<lambda>s. Inr (False, s)))))"

definition unmap_from_kernel :: "u32 \<Rightarrow> nat \<Rightarrow> vmm \<Rightarrow> vmm res" where
  "unmap_from_kernel kptr n s =
     kbind (kassert (n \<noteq> 0)) (\<lambda>_. kfor (\<lambda>i. kmap (kpg i + kptr) 0 0) [0..<n] s)"

text \<open>\<open>(BLOCK_SIZE - 1 + n + (ptr & 0xfff)) / BLOCK_SIZE\<close>, a 32-bit sum.\<close>

definition size_in_blocks :: "u32 \<Rightarrow> u32 \<Rightarrow> nat" where
  "size_in_blocks ptr n = unat ((4095 + n + (ptr AND 0xFFF)) div 4096)"

text \<open>The common part: \<open>f\<close> is what happens while the pages are mapped at \<open>kptr\<close>.\<close>

definition with_user_pages :: "u32 \<Rightarrow> u32 \<Rightarrow> u32 \<Rightarrow> (u32 \<Rightarrow> machine \<Rightarrow> ('a \<times> machine) res) \<Rightarrow> machine \<Rightarrow> ('a option \<times> machine) res" where
  "with_user_pages pdir ptr n f m =
     (let k = size_in_blocks ptr n; s = mvm m
      in kbind (kassert (k \<noteq> 0)) (\<lambda>_.
         kbind (find_vspace (kernel_directory s) k s) (\<lambda>(kptr, s).
           if kptr = 0 then Inr (None, m\<lparr>mvm := s\<rparr>)
           else kbind (map_userspace_to_kernel pdir (ptr AND NOT 0xFFF) kptr k s) (\<lambda>(ok, s).
                  if \<not> ok then kbind (unmap_from_kernel kptr k s) (\<lambda>s. Inr (None, m\<lparr>mvm := s\<rparr>))
                  else kbind (f (kptr + (ptr AND 0xFFF)) (m\<lparr>mvm := s\<rparr>)) (\<lambda>(r, m).
                       kbind (unmap_from_kernel kptr k (mvm m)) (\<lambda>s. Inr (Some r, m\<lparr>mvm := s\<rparr>)))))))"

definition copy_from_userspace :: "u32 \<Rightarrow> u32 \<Rightarrow> u32 \<Rightarrow> machine \<Rightarrow> (u8 list option \<times> machine) res" where
  "copy_from_userspace pdir ptr n =
     with_user_pages pdir ptr n (\<lambda>kptr2 m. kbind (kread m kptr2 (unat n)) (\<lambda>bytes. Inr (bytes, m)))"

definition copy_to_userspace :: "u32 \<Rightarrow> u32 \<Rightarrow> u8 list \<Rightarrow> machine \<Rightarrow> (unit option \<times> machine) res" where
  "copy_to_userspace pdir ptr bytes =
     with_user_pages pdir ptr (of_nat (length bytes)) (\<lambda>kptr2 m. kbind (kwrite kptr2 bytes m) (\<lambda>m. Inr ((), m)))"

text \<open>\<open>copy_from_userspace_string\<close>: \<open>buf\<close> is the caller's buffer, whose size is the argument \<open>n\<close>; \<open>i\<close> is the position
  in it. \<open>cs_page\<close> is the loop over the bytes of a page, \<open>cs_loop\<close> the one over the pages.\<close>

datatype cs_end = Full | Nul | More

fun cs_page :: "machine \<Rightarrow> u32 \<Rightarrow> nat list \<Rightarrow> nat \<Rightarrow> u8 list \<Rightarrow> (cs_end \<times> nat \<times> u8 list) res" where
  "cs_page m kptr [] i buf = Inr (More, i, buf)"
| "cs_page m kptr (k # ks) i buf =
     (if length buf \<le> i then Inr (Full, i, buf)
      else kbind (kld m (kptr + of_nat k)) (\<lambda>c.
           kbind (kstore buf i c) (\<lambda>buf.
             if c = 0 then Inr (Nul, i, buf) else cs_page m kptr ks (i + 1) buf)))"

lemma cs_page_More: "cs_page m kptr ks i buf = Inr (More, i', buf') \<Longrightarrow> i' = i + length ks \<and> length buf' = length buf"
proof (induction ks arbitrary: i buf)
  case (Cons k ks)
  then obtain c where "cs_page m kptr ks (i + 1) (buf[i := c]) = Inr (More, i', buf')" by (auto split: if_splits)
  from Cons.IH [OF this] show ?case by simp
qed simp

lemma unat_offset: "unat ((p :: u32) AND 0xFFF) = unat p mod 4096"
  unfolding mask12 take_bit_eq_mask [symmetric] unsigned_take_bit_eq by (simp add: take_bit_eq_mod)

lemma offset_lt: "unat ((p :: u32) AND 0xFFF) < 4096"
  by (simp add: unat_offset)

function cs_loop :: "u32 \<Rightarrow> u32 \<Rightarrow> u32 \<Rightarrow> nat \<Rightarrow> u8 list \<Rightarrow> machine \<Rightarrow> ((nat \<times> u8 list) option \<times> machine) res" where
  "cs_loop pdir kptr p i buf m =
     kbind (map_userspace_to_kernel pdir (p AND NOT 0xFFF) kptr 1 (mvm m)) (\<lambda>(ok, s).
       if \<not> ok then kbind (unmap_from_kernel kptr 1 s) (\<lambda>s. Inr (None, m\<lparr>mvm := s\<rparr>))
       else kbind (cs_page (m\<lparr>mvm := s\<rparr>) kptr [unat (p AND 0xFFF)..<4096] i buf) (\<lambda>(e, i', buf').
              case e of
                More \<Rightarrow> kbind (kstore buf' i' 0) (\<lambda>buf''.
                          cs_loop pdir kptr ((p AND NOT 0xFFF) + kpg 1) i' buf'' (m\<lparr>mvm := s\<rparr>))
              | Full \<Rightarrow> kbind (unmap_from_kernel kptr 1 s) (\<lambda>s. Inr (None, m\<lparr>mvm := s\<rparr>))
              | Nul \<Rightarrow> kbind (unmap_from_kernel kptr 1 s) (\<lambda>s. Inr (Some (i', buf'), m\<lparr>mvm := s\<rparr>))))"
  by pat_completeness auto
termination
proof (relation "measure (\<lambda>(pdir, kptr, p, i, buf, m). length buf - i)", goal_cases)
  case (2 pdir kptr p i buf m x ok s xa e y i' buf' buf'')
  have pg: "cs_page (m\<lparr>mvm := s\<rparr>) kptr [unat (p AND 0xFFF)..<4096] i buf = Inr (More, i', buf')"
    and st: "kstore buf' i' 0 = Inr buf''" using 2 by auto
  have "i' = i + (4096 - unat (p AND 0xFFF))" "length buf' = length buf" using cs_page_More [OF pg] by simp_all
  moreover have "i' < length buf'" "length buf'' = length buf'" using st by auto
  ultimately show ?case using offset_lt [of p] by simp
qed simp

declare cs_loop.simps [simp del]

definition copy_from_userspace_string :: "u32 \<Rightarrow> u32 \<Rightarrow> u8 list \<Rightarrow> machine \<Rightarrow> ((nat \<times> u8 list) option \<times> machine) res" where
  "copy_from_userspace_string pdir ptr buf m =
     kbind (kassert (pdir \<noteq> 0)) (\<lambda>_.
     kbind (kassert (ptr \<noteq> 0)) (\<lambda>_.
     kbind (find_vspace (kernel_directory (mvm m)) 1 (mvm m)) (\<lambda>(kptr, s).
       if kptr = 0 then Inr (None, m\<lparr>mvm := s\<rparr>)
       else cs_loop pdir kptr ptr 0 buf (m\<lparr>mvm := s\<rparr>))))"

text \<open>\<open>copy_from_userspace_ptr_array\<close>: the same with words. A full buffer is no error: the result is the
  number of words less one.\<close>

definition kld32 :: "machine \<Rightarrow> u32 \<Rightarrow> u32 res" where
  "kld32 m v =
     kbind (kld m v) (\<lambda>a. kbind (kld m (v + 1)) (\<lambda>b. kbind (kld m (v + 2)) (\<lambda>c. kbind (kld m (v + 3)) (\<lambda>d.
     Inr (ucast a OR push_bit 8 (ucast b) OR push_bit 16 (ucast c) OR push_bit 24 (ucast d))))))"

fun pa_page :: "machine \<Rightarrow> u32 \<Rightarrow> nat list \<Rightarrow> nat \<Rightarrow> u32 list \<Rightarrow> (cs_end \<times> nat \<times> u32 list) res" where
  "pa_page m kptr [] i buf = Inr (More, i, buf)"
| "pa_page m kptr (k # ks) i buf =
     (if length buf \<le> i then Inr (Full, i, buf)
      else kbind (kld32 m (kptr + of_nat (4 * k))) (\<lambda>c.
           kbind (kstore buf i c) (\<lambda>buf.
             if c = 0 then Inr (Nul, i, buf) else pa_page m kptr ks (i + 1) buf)))"

lemma pa_page_More: "pa_page m kptr ks i buf = Inr (More, i', buf') \<Longrightarrow>
  i' = i + length ks \<and> length buf' = length buf \<and> (ks \<noteq> [] \<longrightarrow> i < length buf)"
proof (induction ks arbitrary: i buf)
  case (Cons k ks)
  then obtain c where "pa_page m kptr ks (i + 1) (buf[i := c]) = Inr (More, i', buf')" "i < length buf"
    by (auto split: if_splits)
  with Cons.IH [OF this(1)] show ?case by simp
qed simp

function pa_loop :: "u32 \<Rightarrow> u32 \<Rightarrow> u32 \<Rightarrow> nat \<Rightarrow> u32 list \<Rightarrow> machine \<Rightarrow> ((int \<times> u32 list) option \<times> machine) res" where
  "pa_loop pdir kptr p i buf m =
     kbind (map_userspace_to_kernel pdir (p AND NOT 0xFFF) kptr 1 (mvm m)) (\<lambda>(ok, s).
       if \<not> ok then kbind (unmap_from_kernel kptr 1 s) (\<lambda>s. Inr (None, m\<lparr>mvm := s\<rparr>))
       else kbind (pa_page (m\<lparr>mvm := s\<rparr>) kptr [unat (p AND 0xFFF) div 4..<1024] i buf) (\<lambda>(e, i', buf').
              case e of
                More \<Rightarrow> pa_loop pdir kptr ((p AND NOT 0xFFF) + kpg 1) i' buf' (m\<lparr>mvm := s\<rparr>)
              | Full \<Rightarrow> kbind (unmap_from_kernel kptr 1 s) (\<lambda>s. Inr (Some (int i' - 1, buf'), m\<lparr>mvm := s\<rparr>))
              | Nul \<Rightarrow> kbind (unmap_from_kernel kptr 1 s) (\<lambda>s. Inr (Some (int i', buf'), m\<lparr>mvm := s\<rparr>))))"
  by pat_completeness auto
termination
proof (relation "measure (\<lambda>(pdir, kptr, p, i, buf, m). length buf - i)", goal_cases)
  case (2 pdir kptr p i buf m x ok s xa e y i' buf')
  have pg: "pa_page (m\<lparr>mvm := s\<rparr>) kptr [unat (p AND 0xFFF) div 4..<1024] i buf = Inr (More, i', buf')" using 2 by auto
  have d: "unat (p AND 0xFFF) div 4 < 1024" using offset_lt [of p] by (simp add: div_less_iff_less_mult)
  then have "i' = i + (1024 - unat (p AND 0xFFF) div 4)" "length buf' = length buf" "i < length buf"
    using pa_page_More [OF pg] by simp_all
  then show ?case using d by simp
qed simp

declare pa_loop.simps [simp del]

definition copy_from_userspace_ptr_array :: "u32 \<Rightarrow> u32 \<Rightarrow> u32 list \<Rightarrow> machine \<Rightarrow> ((int \<times> u32 list) option \<times> machine) res" where
  "copy_from_userspace_ptr_array pdir ptr buf m =
     kbind (kassert (pdir \<noteq> 0)) (\<lambda>_.
       if ptr = 0 then Inr (Some (0, buf), m)
       else if ptr mod 4 \<noteq> 0 then Inr (None, m)
       else kbind (find_vspace (kernel_directory (mvm m)) 1 (mvm m)) (\<lambda>(kptr, s).
              if kptr = 0 then Inr (None, m\<lparr>mvm := s\<rparr>)
              else pa_loop pdir kptr ptr 0 buf (m\<lparr>mvm := s\<rparr>)))"

text \<open>\<open>copy_from_userspace_array\<close>: the elements in front of the NULL entry, each in a buffer of 256 bytes of
  unspecified contents \<open>junk\<close>.\<close>

fun ca_loop :: "u8 list \<Rightarrow> u32 \<Rightarrow> u32 list \<Rightarrow> cstr list \<Rightarrow> machine \<Rightarrow> (cstr list option \<times> machine) res" where
  "ca_loop junk pdir [] array m = Inr (Some array, m)"
| "ca_loop junk pdir (u # us) array m =
     (if u = 0 then Inr (Some array, m)
      else kbind (copy_from_userspace_string pdir u junk m) (\<lambda>(r, m).
             case r of
               None \<Rightarrow> Inr (None, m)
             | Some (i, buf) \<Rightarrow> ca_loop junk pdir us (array @ [takeWhile (\<lambda>c. c \<noteq> 0) buf]) m))"

definition copy_from_userspace_array :: "u8 list \<Rightarrow> u32 \<Rightarrow> u32 \<Rightarrow> nat \<Rightarrow> machine \<Rightarrow> (cstr list option \<times> machine) res" where
  "copy_from_userspace_array junk pdir ptr size' m =
     kbind (copy_from_userspace_ptr_array pdir ptr (replicate size' 0) m) (\<lambda>(r, m).
       case r of
         None \<Rightarrow> Inr (None, m)
       | Some (k, us) \<Rightarrow> if k < 0 then Inr (None, m) else ca_loop junk pdir (take (size' - 1) us) [] m)"

end
