(* ===== verification/Filecalls.thy ===== *)
theory Filecalls
  imports Usercopy Fd
begin

text \<open>
  The system calls of src/kernel/syscall.c that move data between files and user memory, or take a
  path from it. \<open>t\<close> and \<open>pdir\<close> are the descriptor table and the page directory of the calling process;
  \<open>junk\<close> is what the 256-byte buffer on the kernel stack holds before the call. What a driver writes
  to its buffer are the bytes that its read returns, what it reads from the buffer are the bytes that
  its write is given.
\<close>

record kstate =
  km :: machine
  kfd :: fdstate

definition PATH_BUF :: nat where "PATH_BUF = 256"

definition store_bytes :: "u32 \<Rightarrow> u8 list \<Rightarrow> machine \<Rightarrow> machine res" where
  "store_bytes v bytes m = (if bytes = [] then Inr m else kwrite v bytes m)"

text \<open>The common part of \<open>syscall_read\<close> and \<open>syscall_write\<close>, where \<open>f\<close> is the call of the file system with the
  mapped buffer. When the pages cannot be mapped the call returns at once.\<close>

definition fd_io :: "addr \<Rightarrow> u32 \<Rightarrow> u32 \<Rightarrow> u32 \<Rightarrow> u32 \<Rightarrow> (u32 \<Rightarrow> fd_entry_t \<Rightarrow> kstate \<Rightarrow> (u32 \<times> kstate) res) \<Rightarrow> kstate \<Rightarrow> (u32 \<times> kstate) res" where
  "fd_io t pdir fd_num ptr len f k =
     kbind (fd_of t (unat fd_num) (kfd k)) (\<lambda>a.
       if a = 0 then Inr (-1, k)
       else if len = 0 then Inr (0, k)
       else let n_blocks = size_in_blocks ptr len; s = mvm (km k)
            in kbind (find_vspace (kernel_directory s) n_blocks s) (\<lambda>(kptr, s).
               kbind (map_userspace_to_kernel pdir (ptr AND NOT 0xFFF) kptr n_blocks s) (\<lambda>(ok, s).
                 if \<not> ok then Inr (-1, k\<lparr>km := (km k)\<lparr>mvm := s\<rparr>\<rparr>)
                 else kbind (get_obj (fds (kfd k)) a) (\<lambda>e.
                      kbind (f (kptr + (ptr AND 0xFFF)) e (k\<lparr>km := (km k)\<lparr>mvm := s\<rparr>\<rparr>)) (\<lambda>(r, k).
                      kbind (get_obj (fds (kfd k)) a) (\<lambda>e.
                      kbind (unmap_from_kernel kptr n_blocks (mvm (km k))) (\<lambda>s.
                      Inr (r, k\<lparr>km := (km k)\<lparr>mvm := s\<rparr>,
                               kfd := if r \<noteq> -1 then set_fd a (Some (e\<lparr>fd_seek := fd_seek e + r\<rparr>)) (kfd k) else kfd k\<rparr>))))))))"

definition syscall_read :: "addr \<Rightarrow> u32 \<Rightarrow> u32 \<Rightarrow> u32 \<Rightarrow> u32 \<Rightarrow> kstate \<Rightarrow> (u32 \<times> kstate) res" where
  "syscall_read t pdir fd_num ptr len k =
     (if t = 0 then Inr (-1, k)
      else fd_io t pdir fd_num ptr len (\<lambda>kptr2 e k.
             kbind (fs_read (fvfs (kfd k)) (fd_node e) (fd_seek e) len) (\<lambda>(r, bytes).
             kbind (store_bytes kptr2 bytes (km k)) (\<lambda>m. Inr (r, k\<lparr>km := m\<rparr>)))) k)"

definition syscall_write :: "addr \<Rightarrow> u32 \<Rightarrow> u32 \<Rightarrow> u32 \<Rightarrow> u32 \<Rightarrow> kstate \<Rightarrow> (u32 \<times> kstate) res" where
  "syscall_write t pdir fd_num ptr len k =
     fd_io t pdir fd_num ptr len (\<lambda>kptr2 e k.
       kbind (kread (km k) kptr2 (unat len)) (\<lambda>bytes.
       kbind (fs_write (fd_node e) (fd_seek e) bytes (fvfs (kfd k))) (\<lambda>(r, v).
       Inr (r, k\<lparr>kfd := (kfd k)\<lparr>fvfs := v\<rparr>\<rparr>)))) k"

text \<open>A path from user memory, for \<open>f\<close> to work on; \<open>-1\<close> when it cannot be read.\<close>

definition with_path :: "u8 list \<Rightarrow> u32 \<Rightarrow> u32 \<Rightarrow> (cstr \<Rightarrow> fdstate \<Rightarrow> (u32 \<times> fdstate) res) \<Rightarrow> kstate \<Rightarrow> (u32 \<times> kstate) res" where
  "with_path junk pdir user_path f k =
     kbind (copy_from_userspace_string pdir user_path (take PATH_BUF junk) (km k)) (\<lambda>(r, m).
       case r of
         None \<Rightarrow> Inr (-1, k\<lparr>km := m\<rparr>)
       | Some (_, buf) \<Rightarrow>
           kbind (f (takeWhile (\<lambda>c. c \<noteq> 0) buf) (kfd k)) (\<lambda>(r, s). Inr (r, k\<lparr>km := m, kfd := s\<rparr>)))"

definition syscall_open :: "u8 list \<Rightarrow> addr \<Rightarrow> u32 \<Rightarrow> u32 \<Rightarrow> kstate \<Rightarrow> (u32 \<times> kstate) res" where
  "syscall_open junk t pdir user_path = with_path junk pdir user_path (open_path t)"

text \<open>\<open>fs_root_mount->node\<close>.\<close>

definition root_node :: "vfs \<Rightarrow> addr res" where
  "root_node v = kbind (get_obj (mnts v) (fs_root_mount v)) (\<lambda>mt. Inr (mt_node mt))"

definition syscall_mkdir :: "u8 list \<Rightarrow> u32 \<Rightarrow> u32 \<Rightarrow> kstate \<Rightarrow> (u32 \<times> kstate) res" where
  "syscall_mkdir junk pdir user_path =
     with_path junk pdir user_path (\<lambda>path s.
       kbind (kopen path (fvfs s)) (\<lambda>(n, v).
         if n \<noteq> 0 then kbind (fs_close n v) (\<lambda>(_, v). Inr (-1, s\<lparr>fvfs := v\<rparr>))
         else kbind (root_node v) (\<lambda>root. kbind (fs_mkdir root path v) (\<lambda>v. Inr (0, s\<lparr>fvfs := v\<rparr>)))))"

definition syscall_create :: "u8 list \<Rightarrow> u32 \<Rightarrow> u32 \<Rightarrow> kstate \<Rightarrow> (u32 \<times> kstate) res" where
  "syscall_create junk pdir user_path =
     with_path junk pdir user_path (\<lambda>path s.
       kbind (root_node (fvfs s)) (\<lambda>root. kbind (fs_create root path (fvfs s)) (\<lambda>v. Inr (0, s\<lparr>fvfs := v\<rparr>))))"

definition syscall_unlink :: "u8 list \<Rightarrow> u32 \<Rightarrow> u32 \<Rightarrow> kstate \<Rightarrow> (u32 \<times> kstate) res" where
  "syscall_unlink junk pdir user_path =
     with_path junk pdir user_path (\<lambda>path s.
       kbind (root_node (fvfs s)) (\<lambda>root. kbind (fs_unlink root path (fvfs s)) (\<lambda>(_, v). Inr (0, s\<lparr>fvfs := v\<rparr>))))"

text \<open>\<open>struct utsname\<close>: five strings, each padded to 256 bytes.\<close>

definition uts_field :: "u8 list \<Rightarrow> u8 list" where
  "uts_field str = str @ replicate (256 - length str) 0"

definition uname :: "u8 list" where
  "uname = uts_field [109, 121, 117, 110, 105, 120] @ uts_field [] @ uts_field [48, 46, 48, 46, 49, 45, 103, 105, 116] @
     uts_field [48, 32, 48, 32, 49] @ uts_field []"

definition syscall_uname :: "u32 \<Rightarrow> u32 \<Rightarrow> kstate \<Rightarrow> (u32 \<times> kstate) res" where
  "syscall_uname pdir addr' k = kbind (copy_to_userspace pdir addr' uname (km k)) (\<lambda>(_, m). Inr (0, k\<lparr>km := m\<rparr>))"

end
