(* ===== verification/Usercopy_Props.thy ===== *)
theory Usercopy_Props
  imports Usercopy
begin

text \<open>
  What the access to user memory guarantees: bytes are moved only when every page of the range is a
  present, writable page of the user, exactly the bytes the user's directory translates to are read
  or written, and the mappings of the kernel are afterwards what they were.
\<close>

section \<open>Addresses\<close>

lemma kpg_add: "kpg a + kpg b = kpg (a + b)"
  by (simp add: kpg_def algebra_simps)

lemma kpg_aligned: "kpg j AND 0xFFF = 0" "kpg j AND 0x3FF = 0"
  unfolding kpg_def by (rule page_aligned12, rule page_aligned)

lemma kpg_eq: "i < 2 ^ 20 \<Longrightarrow> j < 2 ^ 20 \<Longrightarrow> pn (kpg i) = pn (kpg j) \<longleftrightarrow> i = j"
  unfolding kpg_def by (rule page_number_eq)

lemma unat_pn: "unat (pn v) = unat v div 4096"
  unfolding pn_def unat_drop_bit_eq by (simp add: drop_bit_eq_div)

lemma addr_split:
  "pn (kpg c + of_nat x) = pn (kpg (c + x div 4096))"
  "(kpg c + of_nat x :: u32) AND 0xFFF = of_nat (x mod 4096)"
proof -
  let ?v = "kpg c + of_nat x :: u32"
  define c' where "c' = c + x div 4096"
  have e: "c * 4096 + x = c' * 4096 + x mod 4096" by (simp add: c'_def add_mult_distrib)
  have v: "?v = of_nat (c' * 4096 + x mod 4096)" unfolding kpg_def BLOCK_SIZE_def of_nat_add [symmetric] e ..
  have u: "unat ?v = (c' * 4096 + x mod 4096) mod 2 ^ 32" unfolding v unat_of_nat by simp
  have m: "(c' * 4096 + x mod 4096) mod 2 ^ 32 = (c' mod 2 ^ 20) * 4096 + x mod 4096"
    using mod_mult2_eq [of "c' * 4096 + x mod 4096" 4096 "2 ^ 20"] by simp
  have "unat (pn ?v) = c' mod 2 ^ 20" unfolding unat_pn u m by simp
  moreover have "unat (pn (kpg c')) = c' mod 2 ^ 20"
    unfolding kpg_def pn_of_nat using mod_less_divisor [of "2 ^ 20" c'] by (simp add: unat_of_nat)
  ultimately show "pn ?v = pn (kpg (c + x div 4096))" by (simp add: word_unat_eq_iff c'_def)
  have "unat (?v AND 0xFFF) = x mod 4096" unfolding unat_offset u m by simp
  moreover have "unat (of_nat (x mod 4096) :: u32) = x mod 4096" by (simp add: unat_of_nat)
  ultimately show "?v AND 0xFFF = of_nat (x mod 4096)" by (simp add: word_unat_eq_iff)
qed

text \<open>An address is its page and its offset.\<close>

lemma page_base: "(p :: u32) AND NOT 0xFFF = kpg (unat p div 4096)"
proof -
  have "of_nat (unat p div 4096) = pn p" unfolding unat_pn [symmetric] by simp
  then have "kpg (unat p div 4096) = push_bit 12 (pn p)"
    by (simp add: kpg_def BLOCK_SIZE_def push_bit_eq_mult)
  moreover have "push_bit 12 (pn p) = p AND NOT 0xFFF"
    unfolding pn_def mask12 by (intro bit_word_eqI) (auto simp: bit_simps)
  ultimately show ?thesis by simp
qed

lemma page_offset: "(p :: u32) = kpg (unat p div 4096) + of_nat (unat (p AND 0xFFF))"
proof -
  have "unat p = unat p div 4096 * 4096 + unat p mod 4096" by simp
  then have "of_nat (unat p) = (of_nat (unat p div 4096 * 4096 + unat p mod 4096) :: u32)" by (rule arg_cong)
  moreover have "of_nat (unat p) = p" by simp
  ultimately show ?thesis unfolding unat_offset kpg_def BLOCK_SIZE_def of_nat_add by metis
qed

section \<open>Mapping kernel pages\<close>

lemma kmap_page:
  assumes "kdir_wf s"
  shows "\<exists>s'. kmap (kpg j) p f s = Inr s' \<and> kdir_wf s' \<and>
    (\<forall>w. kpage s' w = (if pn w = pn (kpg j) then p OR f else kpage s w)) \<and> ktab_frame s s'"
  using kmap_ok [OF assms kpg_aligned(2)] by (simp add: kmap_def)

lemma invalidate_kpg [simp]: "invalidate_page (kpg j) = Inr ()"
  by (simp add: invalidate_page_def kpg_aligned)

text \<open>\<open>in_run b n w\<close>: \<open>w\<close> lies on one of the \<open>n\<close> pages from page \<open>b\<close> on.\<close>

definition in_run :: "nat \<Rightarrow> nat \<Rightarrow> u32 \<Rightarrow> bool" where
  "in_run b n w \<longleftrightarrow> (\<exists>k<n. pn w = pn (kpg (b + k)))"

text \<open>What a step that only touches the pages of a run leaves.\<close>

definition run_frame :: "nat \<Rightarrow> nat \<Rightarrow> vmm \<Rightarrow> vmm \<Rightarrow> bool" where
  "run_frame b n s s' \<longleftrightarrow> kdir_wf s' \<and> ktab_frame s s' \<and> (\<forall>w. \<not> in_run b n w \<longrightarrow> kpage s' w = kpage s w)"

lemma run_frame_refl: "kdir_wf s \<Longrightarrow> run_frame b n s s"
  by (simp add: run_frame_def)

lemma run_frame_trans: "run_frame b n s t \<Longrightarrow> run_frame b n t u \<Longrightarrow> run_frame b n s u"
  using ktab_frame_trans by (auto simp: run_frame_def)

lemma run_frame_wf: "run_frame b n s s' \<Longrightarrow> kdir_wf s'"
  by (simp add: run_frame_def)

lemma kmap_run:
  assumes "kdir_wf s" "k < n"
  shows "\<exists>s'. kmap (kpg (b + k)) p f s = Inr s' \<and> run_frame b n s s' \<and>
    (\<forall>w. kpage s' w = (if pn w = pn (kpg (b + k)) then p OR f else kpage s w))"
proof -
  obtain s' where s': "kmap (kpg (b + k)) p f s = Inr s'" "kdir_wf s'" "ktab_frame s s'"
    "\<forall>w. kpage s' w = (if pn w = pn (kpg (b + k)) then p OR f else kpage s w)"
    using kmap_page [OF assms(1), of "b + k" p f] by auto
  then show ?thesis using assms(2) by (auto simp: run_frame_def in_run_def)
qed

lemma unmap_ok:
  assumes wf: "kdir_wf s" and n: "n \<noteq> 0"
  shows "\<exists>s'. unmap_from_kernel (kpg b) n s = Inr s' \<and> run_frame b n s s' \<and> (\<forall>w. in_run b n w \<longrightarrow> kpage s' w = 0)"
proof -
  let ?P = "\<lambda>done s'. run_frame b n s s' \<and> (\<forall>w. (\<exists>k \<in> set done. pn w = pn (kpg (b + k))) \<longrightarrow> kpage s' w = 0)"
  have "\<exists>s'. kfor (\<lambda>i. kmap (kpg i + kpg b) 0 0) [0..<n] s = Inr s' \<and> ?P [0..<n] s'"
  proof (rule kfor_inv [where P = ?P])
    show "?P [] s" using wf by (simp add: run_frame_refl)
  next
    fix "done" x t
    assume P: "?P done t" and x: "\<exists>rest. [0..<n] = done @ x # rest"
    obtain rest where "[0..<n] = done @ x # rest" using x by blast
    then have "x \<in> set [0..<n]" by (simp only: set_append list.set) blast
    then have xn: "x < n" by simp
    obtain t' where t': "kmap (kpg (b + x)) 0 0 t = Inr t'" "run_frame b n t t'"
      "\<forall>w. kpage t' w = (if pn w = pn (kpg (b + x)) then 0 else kpage t w)"
      using kmap_run [of t x n b 0 0] P xn run_frame_wf by auto
    have a: "kpg x + kpg b = kpg (b + x)" by (simp add: kpg_add add.commute)
    show "\<exists>s'. kmap (kpg x + kpg b) 0 0 t = Inr s' \<and> ?P (done @ [x]) s'"
      unfolding a using t' P run_frame_trans by (intro exI [of _ t']) auto
  qed
  then obtain s' where s': "kfor (\<lambda>i. kmap (kpg i + kpg b) 0 0) [0..<n] s = Inr s'" "?P [0..<n] s'" by blast
  then have "kpage s' w = 0" if "in_run b n w" for w using that unfolding in_run_def by (metis atLeastLessThan_iff set_upt zero_le)
  then show ?thesis using n s' by (auto simp: unmap_from_kernel_def)
qed

section \<open>Pages of the user\<close>

definition upage :: "vmm \<Rightarrow> u32 \<Rightarrow> u32 \<Rightarrow> u32" where
  "upage s pdir v =
     (case pdirs s pdir of None \<Rightarrow> 0
      | Some pd \<Rightarrow> if pd_tables pd (dir_index v) = 0 then 0
                   else (case ptabs s (pd_tables pd (dir_index v)) of None \<Rightarrow> 0 | Some pt \<Rightarrow> pt (page_index v)))"

text \<open>A directory of a process: its tables exist, and none of them is a table of the kernel.\<close>

definition udir_ok :: "vmm \<Rightarrow> u32 \<Rightarrow> bool" where
  "udir_ok s pdir \<longleftrightarrow>
     pdir \<noteq> 0 \<and>
     (case pdirs s pdir of None \<Rightarrow> False
      | Some pd \<Rightarrow> \<forall>i. (pd_entries pd i = 0 \<longrightarrow> pd_tables pd i = 0) \<and> (pd_entries pd i \<noteq> 0 \<longrightarrow> pd_tables pd i \<noteq> 0) \<and>
          (pd_tables pd i \<noteq> 0 \<longrightarrow> ptabs s (pd_tables pd i) \<noteq> None \<and>
             (case pdirs s (kernel_directory s) of None \<Rightarrow> True | Some kd \<Rightarrow> \<forall>j. pd_tables kd j \<noteq> pd_tables pd i)))"

definition user_page_ok :: "u32 \<Rightarrow> bool" where
  "user_page_ok page \<longleftrightarrow> page AND PAGE_PRESENT \<noteq> 0 \<and> page AND PAGE_READWRITE \<noteq> 0 \<and> page AND PAGE_USER \<noteq> 0"

lemma udir_okD:
  assumes "udir_ok s pdir"
  shows "\<exists>pd. pdirs s pdir = Some pd \<and> pdir \<noteq> 0 \<and> (\<forall>i. pd_entries pd i = 0 \<longleftrightarrow> pd_tables pd i = 0) \<and>
    (\<forall>i. pd_tables pd i \<noteq> 0 \<longrightarrow> (\<exists>pt. ptabs s (pd_tables pd i) = Some pt) \<and>
       (\<forall>kd j. pdirs s (kernel_directory s) = Some kd \<longrightarrow> pd_tables pd i \<noteq> pd_tables kd j))"
  using assms by (fastforce simp: udir_ok_def split: option.splits)

lemma user_lookup:
  assumes "udir_ok s pdir"
  shows "\<exists>t. get_table u pdir s = Inr t \<and> (t = 0 \<longrightarrow> upage s pdir u = 0) \<and> (t \<noteq> 0 \<longrightarrow> get_page t u s = Inr (upage s pdir u))"
proof -
  obtain pd where pd: "pdirs s pdir = Some pd" "pdir \<noteq> 0"
    "\<And>i. pd_tables pd i \<noteq> 0 \<Longrightarrow> \<exists>pt. ptabs s (pd_tables pd i) = Some pt" using udir_okD [OF assms] by blast
  show ?thesis
  proof (cases "pd_tables pd (dir_index u) = 0")
    case False
    then obtain pt where "ptabs s (pd_tables pd (dir_index u)) = Some pt" using pd(3) by blast
    then show ?thesis using pd False by (simp add: vmm_defs upage_def)
  qed (use pd in \<open>simp add: vmm_defs upage_def\<close>)
qed

lemma frame_user:
  assumes f: "ktab_frame s s'" and u: "udir_ok s pdir"
  shows "udir_ok s' pdir \<and> upage s' pdir = upage s pdir"
proof -
  obtain pd where pd: "pdirs s pdir = Some pd" "pdir \<noteq> 0" "\<forall>i. pd_entries pd i = 0 \<longleftrightarrow> pd_tables pd i = 0"
    "\<And>i. pd_tables pd i \<noteq> 0 \<Longrightarrow> (\<exists>pt. ptabs s (pd_tables pd i) = Some pt) \<and>
       (\<forall>kd j. pdirs s (kernel_directory s) = Some kd \<longrightarrow> pd_tables pd i \<noteq> pd_tables kd j)" using udir_okD [OF u] by blast
  have t: "ptabs s' (pd_tables pd i) = ptabs s (pd_tables pd i)" if "pd_tables pd i \<noteq> 0" for i
    using f pd(4) [OF that] by (simp add: ktab_frame_def)
  note fs = ktab_frame_simps [OF f]
  have "upage s' pdir v = upage s pdir v" for v using t [of "dir_index v"] pd(1) fs by (simp add: upage_def)
  moreover have "udir_ok s' pdir" using u t pd(1) fs by (simp add: udir_ok_def)
  ultimately show ?thesis by auto
qed


lemma run_frame_user: "run_frame b n s s' \<Longrightarrow> udir_ok s pdir \<Longrightarrow> udir_ok s' pdir \<and> upage s' pdir = upage s pdir"
  using frame_user unfolding run_frame_def by blast

lemma mu_loop_ok:
  assumes "kdir_wf s" "udir_ok s pdir" "b + n < 2 ^ 20" "i \<le> n"
  shows "\<exists>ok s'. mu_loop pdir ptr (kpg b) [i..<n] s = Inr (ok, s') \<and> run_frame b n s s' \<and>
    ok = (\<forall>j. i \<le> j \<and> j < n \<longrightarrow> user_page_ok (upage s pdir (ptr + kpg j))) \<and>
    (\<forall>j<i. kpage s' (kpg (b + j)) = kpage s (kpg (b + j))) \<and>
    (ok \<longrightarrow> (\<forall>j. i \<le> j \<and> j < n \<longrightarrow> kpage s' (kpg (b + j)) = upage s pdir (ptr + kpg j) OR (PAGE_PRESENT OR PAGE_READWRITE)))"
  using assms
proof (induction "n - i" arbitrary: i s)
  case 0
  then show ?case by (auto simp: run_frame_refl)
next
  case (Suc d)
  then have i: "i < n" "[i..<n] = i # [i + 1..<n]" "d = n - (i + 1)" by (auto simp: upt_conv_Cons)
  let ?u = "ptr + kpg i" and ?k = "kpg (b + i)" and ?F = "PAGE_PRESENT OR PAGE_READWRITE"
  obtain s1 where s1: "kmap ?k 0 0 s = Inr s1" "run_frame b n s s1"
    "\<forall>w. kpage s1 w = (if pn w = pn ?k then 0 else kpage s w)"
    using kmap_run [OF Suc.prems(1) i(1), of b 0 0] by auto
  have u1: "udir_ok s1 pdir" "upage s1 pdir = upage s pdir" using run_frame_user [OF s1(2) Suc.prems(2)] by blast+
  have other: "pn (kpg (b + j)) \<noteq> pn ?k" if "j < n" "j \<noteq> i" for j
    using kpg_eq [of "b + j" "b + i"] that i(1) Suc.prems(3) by auto
  obtain t where t: "get_table ?u pdir s1 = Inr t" "t = 0 \<longrightarrow> upage s pdir ?u = 0" "t \<noteq> 0 \<longrightarrow> get_page t ?u s1 = Inr (upage s pdir ?u)"
    using user_lookup [OF u1(1), of ?u] u1(2) by auto
  show ?case
  proof (cases "user_page_ok (upage s pdir ?u)")
    case False
    then have "mu_loop pdir ptr (kpg b) [i..<n] s = Inr (False, s1)"
      using s1(1) t by (auto simp: i(2) kpg_add Let_def user_page_ok_def)
    moreover have "\<forall>j<i. kpage s1 (kpg (b + j)) = kpage s (kpg (b + j))" using s1(3) other i(1) by auto
    moreover have "\<not> (\<forall>j. i \<le> j \<and> j < n \<longrightarrow> user_page_ok (upage s pdir (ptr + kpg j)))" using False i(1) by auto
    ultimately show ?thesis using s1(2) by blast
  next
    case True
    then have t0: "t \<noteq> 0" using t(2) by (auto simp: user_page_ok_def)
    obtain s2 where s2: "kmap ?k (upage s pdir ?u) ?F s1 = Inr s2" "run_frame b n s1 s2"
      "\<forall>w. kpage s2 w = (if pn w = pn ?k then upage s pdir ?u OR ?F else kpage s1 w)"
      using kmap_run [OF run_frame_wf [OF s1(2)] i(1), of b "upage s pdir ?u" ?F] by auto
    have u2: "udir_ok s2 pdir" "upage s2 pdir = upage s pdir"
      using run_frame_user [OF s2(2) u1(1)] u1(2) by auto
    obtain ok s' where s': "mu_loop pdir ptr (kpg b) [i + 1..<n] s2 = Inr (ok, s')" "run_frame b n s2 s'"
      "ok = (\<forall>j. i + 1 \<le> j \<and> j < n \<longrightarrow> user_page_ok (upage s pdir (ptr + kpg j)))"
      "\<forall>j<i + 1. kpage s' (kpg (b + j)) = kpage s2 (kpg (b + j))"
      "ok \<longrightarrow> (\<forall>j. i + 1 \<le> j \<and> j < n \<longrightarrow> kpage s' (kpg (b + j)) = upage s pdir (ptr + kpg j) OR ?F)"
      using Suc.hyps(1) [OF i(3) run_frame_wf [OF s2(2)] u2(1) Suc.prems(3)] i(1) u2(2) by auto
    have "mu_loop pdir ptr (kpg b) [i..<n] s = Inr (ok, s')"
      using s1(1) t(1,3) t0 True s2(1) s'(1) by (simp add: i(2) kpg_add Let_def user_page_ok_def)
    moreover have "run_frame b n s s'" using s1(2) s2(2) s'(2) run_frame_trans by blast
    moreover have "ok = (\<forall>j. i \<le> j \<and> j < n \<longrightarrow> user_page_ok (upage s pdir (ptr + kpg j)))"
      using s'(3) True by (metis Suc_eq_plus1 le_eq_less_or_eq Suc_le_eq)
    moreover have "\<forall>j<i. kpage s' (kpg (b + j)) = kpage s (kpg (b + j))" using s'(4) s2(3) s1(3) other i(1) by auto
    moreover have "kpage s' (kpg (b + j)) = upage s pdir (ptr + kpg j) OR ?F" if "ok" "i \<le> j \<and> j < n" for j
      using that s'(4,5) s2(3) by (cases "j = i") auto
    ultimately show ?thesis by blast
  qed
qed

lemma mu_undo_ok:
  assumes "kdir_wf s" "i \<le> n"
  shows "\<exists>s'. mu_undo (kpg b) [i..<n] s = Inr s' \<and> run_frame b n s s'"
  using assms
proof (induction "n - i" arbitrary: i s)
  case (Suc d)
  then have i: "i < n" "[i..<n] = i # [i + 1..<n]" "d = n - (i + 1)" by (auto simp: upt_conv_Cons)
  let ?v = "kpg (b + i)"
  obtain t where t: "get_table ?v (kernel_directory s) s = Inr t" "get_page t ?v s = Inr (kpage s ?v)"
    using kernel_table_ok [OF Suc.prems(1)] by blast
  obtain s1 where s1: "kmap ?v 0 0 s = Inr s1" "run_frame b n s s1" using kmap_run [OF Suc.prems(1) i(1)] by blast
  then have m: "map_page t ?v 0 0 s = Inr s1" using t(1) by (simp add: kmap_def)
  obtain s' where "mu_undo (kpg b) [i + 1..<n] s1 = Inr s'" "run_frame b n s1 s'"
    using Suc.hyps(1) [OF i(3) run_frame_wf [OF s1(2)]] i(1) by auto
  then show ?case using t m s1(2) Suc.prems(1) run_frame_trans
    by (cases "kpage s ?v = 0") (auto simp: i(2) kpg_add add.commute Let_def run_frame_refl)
qed (auto simp: run_frame_refl)

lemma kfor_total: "(\<And>x s. \<exists>s'. f x s = Inr s') \<Longrightarrow> \<exists>s'. kfor f xs s = Inr s'"
proof (induction xs arbitrary: s)
  case (Cons x xs)
  obtain s1 where "f x s = Inr s1" using Cons.prems by blast
  then show ?case using Cons.IH [OF Cons.prems] by simp
qed simp

lemma dump_directory_ok:
  assumes "udir_ok s pdir"
  shows "\<exists>out. dump_directory pdir s = Inr out"
proof -
  obtain pd where pd: "pdirs s pdir = Some pd" "pdir \<noteq> 0" "\<forall>i. pd_entries pd i = 0 \<longleftrightarrow> pd_tables pd i = 0"
    "\<And>i. pd_tables pd i \<noteq> 0 \<Longrightarrow> \<exists>pt. ptabs s (pd_tables pd i) = Some pt" using udir_okD [OF assms] by blast
  have al: "push_bit 22 (ucast (i :: ix)) AND (0x3FF :: u32) = 0" for i
    unfolding mask10 by (intro bit_word_eqI) (auto simp: bit_simps)
  have "\<exists>out'. (if pd_entries pd i = 0 then kbind (kassert (pd_tables pd i = 0)) (\<lambda>_. Inr out)
        else if pd_entries pd i AND PAGE_PRESENT \<noteq> 0
             then kbind (dump_table (pd_tables pd i) (push_bit 22 (ucast i)) s) (\<lambda>ls. Inr (out @ ls))
             else Inr out) = Inr out'" for i out
  proof (cases "pd_entries pd i = 0")
    case False
    then have t: "pd_tables pd i \<noteq> 0" using pd(3) by simp
    then obtain pt where "ptabs s (pd_tables pd i) = Some pt" using pd(4) by blast
    then have "\<exists>ls. dump_table (pd_tables pd i) (push_bit 22 (ucast i)) s = Inr ls"
      using t al [of i] by (simp add: dump_table_def ld_tab_def)
    then show ?thesis using False by auto
  qed (use pd(3) in simp)
  then show ?thesis using pd(1,2) by (simp add: dump_directory_def kfor_total)
qed

lemma map_userspace_ok:
  assumes "kdir_wf s" "udir_ok s pdir" "b + n < 2 ^ 20" "n \<noteq> 0" "ptr AND 0xFFF = 0"
  shows "\<exists>s'. map_userspace_to_kernel pdir ptr (kpg b) n s = Inr (\<forall>j<n. user_page_ok (upage s pdir (ptr + kpg j)), s') \<and> run_frame b n s s' \<and>
    ((\<forall>j<n. user_page_ok (upage s pdir (ptr + kpg j))) \<longrightarrow>
       (\<forall>j<n. kpage s' (kpg (b + j)) = upage s pdir (ptr + kpg j) OR (PAGE_PRESENT OR PAGE_READWRITE)))"
proof -
  let ?ok = "\<forall>j<n. user_page_ok (upage s pdir (ptr + kpg j))"
  have pre: "pdir \<noteq> 0 \<and> ptr AND 0xFFF = 0 \<and> kpg b AND 0xFFF = 0 \<and> n \<noteq> 0"
    using assms(4,5) udir_okD [OF assms(2)] kpg_aligned by auto
  obtain s1 where s1: "mu_loop pdir ptr (kpg b) [0..<n] s = Inr (?ok, s1)" "run_frame b n s s1"
      "?ok \<longrightarrow> (\<forall>j<n. kpage s1 (kpg (b + j)) = upage s pdir (ptr + kpg j) OR (PAGE_PRESENT OR PAGE_READWRITE))"
    using mu_loop_ok [OF assms(1-3), of 0 ptr] by auto
  have u: "udir_ok s1 pdir" using run_frame_user [OF s1(2) assms(2)] by blast
  obtain out where "dump_directory pdir s1 = Inr out" using dump_directory_ok [OF u] by blast
  moreover obtain s2 where "mu_undo (kpg b) [0..<n] s1 = Inr s2" "run_frame b n s1 s2"
    using mu_undo_ok [OF run_frame_wf [OF s1(2)]] by blast
  ultimately show ?thesis using pre s1 run_frame_trans
    by (cases ?ok) (auto simp: map_userspace_to_kernel_def)
qed

section \<open>Copying\<close>

text \<open>A run of free kernel pages, which \<open>find_vspace\<close> then finds.\<close>

definition kernel_room :: "vmm \<Rightarrow> nat \<Rightarrow> bool" where
  "kernel_room s n \<longleftrightarrow> (\<exists>b. 1 \<le> b \<and> b + n < 2 ^ 20 \<and> (\<forall>k<n. kvfree s (b + k)))"

lemma vspace_run_reserved:
  assumes wf: "kdir_wf s" and n: "1 \<le> n" and r: "kernel_room s n"
  shows "\<exists>b s'. find_vspace (kernel_directory s) n s = Inr (kpg b, s') \<and> kpg b \<noteq> 0 \<and> b + n < 2 ^ 20 \<and>
    run_frame b n s s' \<and> (\<forall>w. in_run b n w \<longrightarrow> kpage s w = 0) \<and> (\<forall>k<n. kpage s' (kpg (b + k)) = PAGE_VALUE_RESERVED)"
proof -
  obtain c where c: "1 \<le> c" "c + n < 2 ^ 20" "\<forall>k<n. kvfree s (c + k)" using r by (auto simp: kernel_room_def)
  then have n20: "n < 2 ^ 20" by simp
  have kd: "kernel_directory s \<noteq> 0" using wf by (simp add: kdir_wf_def)
  obtain v s' where v: "find_vspace (kernel_directory s) n s = Inr (v, s')" "kdir_wf s'" "ktab_frame s s'" and
    cases: "v = -1 \<and> s' = s \<and> (\<forall>j. 1 \<le> j \<and> j < 2 ^ 20 \<longrightarrow> (\<exists>k<n. \<not> kvfree s (j + k))) \<or>
     (\<exists>b. v = of_nat (b * BLOCK_SIZE) \<and> 1 \<le> b \<and> b < 2 ^ 20 \<and> (\<forall>k<n. kvfree s (b + k)) \<and>
        (\<forall>j. 1 \<le> j \<and> j < b \<longrightarrow> (\<exists>k<n. \<not> kvfree s (j + k))) \<and>
        (\<forall>j<2 ^ 20. kpage s' (of_nat (j * BLOCK_SIZE)) =
           (if b + n < 2 ^ 20 \<and> b \<le> j \<and> j < b + n then PAGE_VALUE_RESERVED else kpage s (of_nat (j * BLOCK_SIZE)))))"
    using find_kernel_vspace_ok [OF wf n n20] unfolding find_vspace_kernel [OF kd] by blast
  have "\<not> (\<forall>j. 1 \<le> j \<and> j < 2 ^ 20 \<longrightarrow> (\<exists>k<n. \<not> kvfree s (j + k)))" using c by (metis add_lessD1)
  then obtain b where b: "v = kpg b" "1 \<le> b" "b < 2 ^ 20" "\<forall>k<n. kvfree s (b + k)"
      "\<forall>j. 1 \<le> j \<and> j < b \<longrightarrow> (\<exists>k<n. \<not> kvfree s (j + k))"
      "\<forall>j<2 ^ 20. kpage s' (kpg j) = (if b + n < 2 ^ 20 \<and> b \<le> j \<and> j < b + n then PAGE_VALUE_RESERVED else kpage s (kpg j))"
    using cases unfolding kpg_def by blast
  have bc: "b \<le> c" using b(5) c(1,3) by (meson not_le)
  then have bn: "b + n < 2 ^ 20" using c(2) by simp
  have "kpage s' w = kpage s w" if "\<not> in_run b n w" for w
  proof -
    obtain j where j: "j < 2 ^ 20" "pn (kpg j) = pn w" using pn_cases unfolding kpg_def by blast
    have "\<not> (b \<le> j \<and> j < b + n)"
    proof
      assume "b \<le> j \<and> j < b + n"
      then have "j = b + (j - b)" "j - b < n" by auto
      then show False using that j(2) unfolding in_run_def by metis
    qed
    then have "kpage s' (kpg j) = kpage s (kpg j)" using b(6) j(1) by presburger
    then show ?thesis using kpage_pn [OF j(2)] by simp
  qed
  then have "run_frame b n s s'" using v(2,3) by (simp add: run_frame_def)
  moreover have "kpage s w = 0" if "in_run b n w" for w
    using that b(4) kpage_pn unfolding in_run_def kvfree_def kpg_def by metis
  moreover have "unat (kpg b) = b * 4096" using unat_page [of b] b(3) unfolding kpg_def by simp
  then have "kpg b \<noteq> 0" using b(2) by auto
  moreover have "\<forall>k<n. kpage s' (kpg (b + k)) = PAGE_VALUE_RESERVED" using b(6) bn by auto
  ultimately show ?thesis using v(1) b(1) bn by blast
qed

lemma vspace_run:
  assumes "kdir_wf s" "1 \<le> n" "kernel_room s n"
  shows "\<exists>b s'. find_vspace (kernel_directory s) n s = Inr (kpg b, s') \<and> kpg b \<noteq> 0 \<and> b + n < 2 ^ 20 \<and>
    run_frame b n s s' \<and> (\<forall>w. in_run b n w \<longrightarrow> kpage s w = 0)"
  using vspace_run_reserved [OF assms] by blast

text \<open>After the pages are unmapped the kernel maps what it mapped before.\<close>

definition restored :: "vmm \<Rightarrow> vmm \<Rightarrow> bool" where
  "restored s s' \<longleftrightarrow> kdir_wf s' \<and> ktab_frame s s' \<and> kpage s' = kpage s"

lemma unmap_restores:
  assumes "run_frame b n s t" "\<forall>w. in_run b n w \<longrightarrow> kpage s w = 0" "n \<noteq> 0"
  shows "\<exists>s'. unmap_from_kernel (kpg b) n t = Inr s' \<and> restored s s'"
proof -
  obtain s' where s': "unmap_from_kernel (kpg b) n t = Inr s'" "run_frame b n t s'" "\<forall>w. in_run b n w \<longrightarrow> kpage s' w = 0"
    using unmap_ok [OF run_frame_wf [OF assms(1)] assms(3)] by blast
  have f: "run_frame b n s s'" using run_frame_trans [OF assms(1) s'(2)] .
  have "kpage s' w = kpage s w" for w using f s'(3) assms(2) by (cases "in_run b n w") (auto simp: run_frame_def)
  then show ?thesis using s'(1) f by (auto simp: restored_def run_frame_def)
qed

text \<open>The pages of a range of user addresses.\<close>

definition user_pages_ok :: "vmm \<Rightarrow> u32 \<Rightarrow> u32 \<Rightarrow> nat \<Rightarrow> bool" where
  "user_pages_ok s pdir ptr k \<longleftrightarrow> (\<forall>j<k. user_page_ok (upage s pdir ((ptr AND NOT 0xFFF) + kpg j)))"

text \<open>\<open>mapped\<close>: the pages from \<open>b\<close> on show the user's pages.\<close>

definition mapped :: "vmm \<Rightarrow> u32 \<Rightarrow> u32 \<Rightarrow> nat \<Rightarrow> nat \<Rightarrow> vmm \<Rightarrow> bool" where
  "mapped s pdir ptr k b t \<longleftrightarrow>
     (\<forall>j<k. kpage t (kpg (b + j)) = upage s pdir ((ptr AND NOT 0xFFF) + kpg j) OR (PAGE_PRESENT OR PAGE_READWRITE))"

lemma with_user_pages_ok:
  assumes wf: "kdir_wf (mvm m)" and u: "udir_ok (mvm m) pdir" and k: "k = size_in_blocks ptr n" "1 \<le> k" "kernel_room (mvm m) k"
    and f: "\<And>b t. user_pages_ok (mvm m) pdir ptr k \<Longrightarrow> mapped (mvm m) pdir ptr k b t \<Longrightarrow> kpg b \<noteq> 0 \<Longrightarrow> b + k < 2 ^ 20 \<Longrightarrow>
        \<exists>m'. f (kpg b + (ptr AND 0xFFF)) (m\<lparr>mvm := t\<rparr>) = Inr (r, m') \<and> mvm m' = t \<and> ram m' = ram'"
  shows "\<exists>m'. with_user_pages pdir ptr n f m = Inr (if user_pages_ok (mvm m) pdir ptr k then Some r else None, m') \<and>
    ram m' = (if user_pages_ok (mvm m) pdir ptr k then ram' else ram m) \<and> restored (mvm m) (mvm m')"
proof -
  let ?s = "mvm m" and ?ok = "user_pages_ok (mvm m) pdir ptr k"
  obtain b s1 where b: "find_vspace (kernel_directory ?s) k ?s = Inr (kpg b, s1)" "kpg b \<noteq> 0" "b + k < 2 ^ 20"
    "run_frame b k ?s s1" "\<forall>w. in_run b k w \<longrightarrow> kpage ?s w = 0" using vspace_run [OF wf k(2,3)] by blast
  have u1: "udir_ok s1 pdir" "upage s1 pdir = upage ?s pdir" using run_frame_user [OF b(4) u] by auto
  have al: "(ptr AND NOT 0xFFF) AND 0xFFF = 0" unfolding page_base by (rule kpg_aligned)
  have k0: "k \<noteq> 0" using k(2) by simp
  obtain s2 where s2: "map_userspace_to_kernel pdir (ptr AND NOT 0xFFF) (kpg b) k s1 = Inr (?ok, s2)" "run_frame b k s1 s2"
    "?ok \<longrightarrow> mapped ?s pdir ptr k b s2"
    using map_userspace_ok [OF run_frame_wf [OF b(4)] u1(1) b(3) k0 al] u1(2)
    unfolding user_pages_ok_def mapped_def by auto
  have fr: "run_frame b k ?s s2" using run_frame_trans [OF b(4) s2(2)] .
  obtain s3 where s3: "unmap_from_kernel (kpg b) k s2 = Inr s3" "restored ?s s3"
    using unmap_restores [OF fr b(5) k0] by blast
  show ?thesis
  proof (cases ?ok)
    case True
    then obtain m' where m': "f (kpg b + (ptr AND 0xFFF)) (m\<lparr>mvm := s2\<rparr>) = Inr (r, m')" "mvm m' = s2" "ram m' = ram'"
      using f [OF True] s2(3) b(2,3) by blast
    then have "with_user_pages pdir ptr n f m = Inr (Some r, m'\<lparr>mvm := s3\<rparr>)"
      using b(1,2) s2(1) s3(1) k0 True by (simp add: with_user_pages_def Let_def k(1) [symmetric])
    then show ?thesis using True m'(3) s3(2) by simp
  next
    case False
    then have "with_user_pages pdir ptr n f m = Inr (None, m\<lparr>mvm := s3\<rparr>)"
      using b(1,2) s2(1) s3(1) k0 by (simp add: with_user_pages_def Let_def k(1) [symmetric])
    then show ?thesis using False s3(2) by simp
  qed
qed

text \<open>Where the user's directory translates an address to.\<close>

definition uaddr :: "vmm \<Rightarrow> u32 \<Rightarrow> u32 \<Rightarrow> u32" where
  "uaddr s pdir u = (upage s pdir u AND NOT 0xFFF) + (u AND 0xFFF)"

definition user_bytes :: "machine \<Rightarrow> u32 \<Rightarrow> u32 \<Rightarrow> nat \<Rightarrow> u8 list" where
  "user_bytes m pdir ptr n = map (\<lambda>i. ram m (uaddr (mvm m) pdir (ptr + of_nat i))) [0..<n]"

lemma upage_pn: "pn v = pn w \<Longrightarrow> upage s pdir v = upage s pdir w"
  using index_eq_iff [of v w] by (auto simp: upage_def split: option.split)

lemma offset_add: "kpg b + (ptr AND 0xFFF) + of_nat i = kpg b + of_nat (unat (ptr AND 0xFFF) + i)"
  by simp

lemma user_add: "ptr + of_nat i = kpg (unat ptr div 4096) + of_nat (unat (ptr AND 0xFFF) + i)"
  by (subst page_offset [of ptr]) simp

lemma flags_off: "((p OR (PAGE_PRESENT OR PAGE_READWRITE)) AND NOT 0xFFF :: u32) = p AND NOT 0xFFF"
proof -
  have "PAGE_PRESENT OR PAGE_READWRITE = mask 2" by (simp add: PAGE_PRESENT_def PAGE_READWRITE_def mask_eq_exp_minus_1)
  then show ?thesis unfolding mask12 by (intro bit_word_eqI) (auto simp: bit_simps)
qed

lemma flags_present: "(p OR (PAGE_PRESENT OR PAGE_READWRITE)) AND PAGE_PRESENT \<noteq> (0 :: u32)"
proof
  assume a: "(p OR (PAGE_PRESENT OR PAGE_READWRITE)) AND PAGE_PRESENT = 0"
  have "bit ((p OR (PAGE_PRESENT OR PAGE_READWRITE)) AND PAGE_PRESENT) 0" by (simp add: PAGE_PRESENT_def bit_simps)
  then show False unfolding a by simp
qed

lemma mapped_byte:
  assumes "mapped s pdir ptr k b t" "unat (ptr AND 0xFFF) + i < k * 4096"
  shows "kpage t (kpg b + (ptr AND 0xFFF) + of_nat i) AND PAGE_PRESENT \<noteq> 0 \<and>
    kaddr t (kpg b + (ptr AND 0xFFF) + of_nat i) = uaddr s pdir (ptr + of_nat i)"
proof -
  let ?v = "kpg b + (ptr AND 0xFFF) + of_nat i" and ?u = "ptr + of_nat i"
  define x where "x = unat (ptr AND 0xFFF) + i"
  define c where "c = unat ptr div 4096"
  have j: "x div 4096 < k" using assms(2) by (simp add: x_def div_less_iff_less_mult)
  have ve: "?v = kpg b + of_nat x" and ue: "?u = kpg c + of_nat x"
    unfolding x_def c_def by (rule offset_add, rule user_add)
  have v: "pn ?v = pn (kpg (b + x div 4096))" "?v AND 0xFFF = of_nat (x mod 4096)"
    unfolding ve by (rule addr_split)+
  have u: "pn ?u = pn (kpg (c + x div 4096))" "?u AND 0xFFF = of_nat (x mod 4096)"
    unfolding ue by (rule addr_split)+
  have "kpage t ?v = upage s pdir ((ptr AND NOT 0xFFF) + kpg (x div 4096)) OR (PAGE_PRESENT OR PAGE_READWRITE)"
    using assms(1) j kpage_pn [OF v(1)] by (simp add: mapped_def)
  moreover have "upage s pdir ((ptr AND NOT 0xFFF) + kpg (x div 4096)) = upage s pdir ?u"
    unfolding page_base kpg_add c_def [symmetric] by (rule upage_pn [OF u(1) [symmetric]])
  ultimately have p: "kpage t ?v = upage s pdir ?u OR (PAGE_PRESENT OR PAGE_READWRITE)" by simp
  show ?thesis unfolding kaddr_def uaddr_def p flags_off v(2) u(2) using flags_present by simp
qed

lemma kread_ok:
  assumes "v \<noteq> 0" "n \<noteq> 0" "\<And>i. i < n \<Longrightarrow> kld m (v + of_nat i) = Inr (g i)"
  shows "kread m v n = Inr (map g [0..<n])"
proof -
  let ?f = "\<lambda>i out. kbind (kld m (v + of_nat i)) (\<lambda>c. Inr (out @ [c]))"
  have "j \<le> n \<Longrightarrow> kfor ?f [0..<j] [] = Inr (map g [0..<j])" for j
    by (induction j) (simp_all add: kfor_append assms(3))
  then show ?thesis using assms(1,2) by (simp add: kread_def)
qed

lemma run_start_nonzero:
  assumes "kpg b \<noteq> 0" "b < 2 ^ 20"
  shows "kpg b + (ptr AND 0xFFF) \<noteq> 0"
proof
  assume z: "kpg b + (ptr AND 0xFFF) = 0"
  have "pn (kpg b + of_nat (unat (ptr AND 0xFFF))) = pn (kpg b)" using addr_split(1) [of b "unat (ptr AND 0xFFF)"] offset_lt [of ptr] by simp
  then have "pn (kpg b) = pn (kpg 0)" using z by (simp add: kpg_def)
  then have "b = 0" using kpg_eq [OF assms(2), of 0] by simp
  then show False using assms(1) by (simp add: kpg_def)
qed

text \<open>The size of the range in pages, when the 32-bit sum does not wrap around.\<close>

definition range_ok :: "u32 \<Rightarrow> nat \<Rightarrow> bool" where
  "range_ok ptr n \<longleftrightarrow> 0 < n \<and> 4095 + n + unat (ptr AND 0xFFF) < 2 ^ 32"

lemma le_blocks: "(x :: nat) \<le> (4095 + x) div 4096 * 4096"
proof -
  have "4095 + x = (4095 + x) div 4096 * 4096 + (4095 + x) mod 4096" by (rule div_mult_mod_eq [symmetric])
  moreover have "(4095 + x) mod 4096 \<le> 4095" using pos_mod_bound [of 4096 "int (4095 + x)"] by (simp add: less_Suc_eq_le [symmetric])
  ultimately show ?thesis by linarith
qed

lemma blocks_cover:
  assumes "range_ok ptr (unat n)"
  shows "size_in_blocks ptr n = (4095 + unat n + unat (ptr AND 0xFFF)) div 4096"
    "1 \<le> size_in_blocks ptr n" "unat n + unat (ptr AND 0xFFF) \<le> size_in_blocks ptr n * 4096"
proof -
  have "unat (4095 + n + (ptr AND 0xFFF)) = 4095 + unat n + unat (ptr AND 0xFFF)"
    using assms by (simp add: range_ok_def unat_word_ariths(1))
  then show e: "size_in_blocks ptr n = (4095 + unat n + unat (ptr AND 0xFFF)) div 4096"
    by (simp add: size_in_blocks_def unat_div_distrib)
  have "4096 \<le> 4095 + unat n + unat (ptr AND 0xFFF)" using assms by (simp add: range_ok_def)
  then have "4096 div 4096 \<le> (4095 + unat n + unat (ptr AND 0xFFF)) div 4096" by (rule div_le_mono)
  then show "1 \<le> size_in_blocks ptr n" unfolding e by simp
  show "unat n + unat (ptr AND 0xFFF) \<le> size_in_blocks ptr n * 4096"
    unfolding e using le_blocks [of "unat n + unat (ptr AND 0xFFF)"] by (simp add: add.assoc)
qed

text \<open>C10: Reading user memory, for a range that does not wrap around and with room for it in the kernel's
  address space: the call returns, with the bytes that the user's own directory translates the range
  to when every page of it is present, writable and of the user, and with an error otherwise. The
  physical memory is not changed, and the kernel maps afterwards exactly what it mapped before.\<close>

theorem copy_from_userspace_exact:
  assumes "kdir_wf (mvm m)" "udir_ok (mvm m) pdir" "range_ok ptr (unat n)" "kernel_room (mvm m) (size_in_blocks ptr n)"
  shows "\<exists>m'. copy_from_userspace pdir ptr n m =
      Inr (if user_pages_ok (mvm m) pdir ptr (size_in_blocks ptr n) then Some (user_bytes m pdir ptr (unat n)) else None, m') \<and>
    ram m' = ram m \<and> restored (mvm m) (mvm m')"
proof -
  note c = blocks_cover [OF assms(3)]
  have n0: "unat n \<noteq> 0" using assms(3) by (auto simp: range_ok_def)
  have "kread (m\<lparr>mvm := t\<rparr>) (kpg b + (ptr AND 0xFFF)) (unat n) = Inr (user_bytes m pdir ptr (unat n))"
    if "mapped (mvm m) pdir ptr (size_in_blocks ptr n) b t" "kpg b \<noteq> 0" "b + size_in_blocks ptr n < 2 ^ 20" for b t
    unfolding user_bytes_def
  proof (rule kread_ok)
    show "kpg b + (ptr AND 0xFFF) \<noteq> 0" using run_start_nonzero that(2,3) by simp
  next
    fix i assume "i < unat n"
    then show "kld (m\<lparr>mvm := t\<rparr>) (kpg b + (ptr AND 0xFFF) + of_nat i) = Inr (ram m (uaddr (mvm m) pdir (ptr + of_nat i)))"
      using mapped_byte [OF that(1), of i] c(3) by (simp add: kld_def)
  qed (rule n0)
  then show ?thesis unfolding copy_from_userspace_def
    using with_user_pages_ok [OF assms(1,2) refl c(2) assms(4), where r = "user_bytes m pdir ptr (unat n)" and ram' = "ram m" and
      f = "\<lambda>kptr2 m. kbind (kread m kptr2 (unat n)) (\<lambda>bytes. Inr (bytes, m))"]
    by auto
qed

text \<open>The memory after bytes are stored one after the other.\<close>

definition put_bytes :: "(nat \<Rightarrow> u32) \<Rightarrow> u8 list \<Rightarrow> nat \<Rightarrow> (u32 \<Rightarrow> u8) \<Rightarrow> (u32 \<Rightarrow> u8)" where
  "put_bytes a bytes n r = fold (\<lambda>i r. r(a i := bytes ! i)) [0..<n] r"

lemma put_bytes_Suc: "put_bytes a bytes (Suc n) r = (put_bytes a bytes n r)(a n := bytes ! n)"
  by (simp add: put_bytes_def)

lemma put_bytes_other: "(\<And>i. i < n \<Longrightarrow> a i \<noteq> x) \<Longrightarrow> put_bytes a bytes n r x = r x"
  by (induction n) (auto simp: put_bytes_Suc, simp add: put_bytes_def)

lemma put_bytes_at: "inj_on a {0..<n} \<Longrightarrow> i < n \<Longrightarrow> put_bytes a bytes n r (a i) = bytes ! i"
proof (induction n)
  case (Suc n)
  show ?case
  proof (cases "i = n")
    case False
    then have "i < n" "a i \<noteq> a n" using Suc.prems by (auto simp: inj_on_def)
    then show ?thesis using Suc by (auto simp: put_bytes_Suc inj_on_def)
  qed (simp add: put_bytes_Suc)
qed simp

lemma kwrite_ok:
  assumes "v \<noteq> 0" "bytes \<noteq> []"
    "\<And>i. i < length bytes \<Longrightarrow> kpage (mvm m) (v + of_nat i) AND PAGE_PRESENT \<noteq> 0 \<and> kaddr (mvm m) (v + of_nat i) = a i"
  shows "kwrite v bytes m = Inr (m\<lparr>ram := put_bytes a bytes (length bytes) (ram m)\<rparr>)"
proof -
  let ?f = "\<lambda>i m. kst (v + of_nat i) (bytes ! i) m"
  have "j \<le> length bytes \<Longrightarrow> kfor ?f [0..<j] m = Inr (m\<lparr>ram := put_bytes a bytes j (ram m)\<rparr>)" for j
  proof (induction j)
    case (Suc j)
    then show ?case using assms(3) [of j] by (simp add: kfor_append kst_def put_bytes_Suc fun_upd_def)
  qed (simp add: put_bytes_def)
  then show ?thesis using assms(1,2) by (simp add: kwrite_def)
qed

lemma copy_to_userspace_ok:
  assumes "kdir_wf (mvm m)" "udir_ok (mvm m) pdir" and r: "range_ok ptr (length bytes)"
    and k: "k = size_in_blocks ptr (of_nat (length bytes))" "kernel_room (mvm m) k"
  shows "\<exists>m'. copy_to_userspace pdir ptr bytes m = Inr (if user_pages_ok (mvm m) pdir ptr k then Some () else None, m') \<and>
    ram m' = (if user_pages_ok (mvm m) pdir ptr k
              then put_bytes (\<lambda>i. uaddr (mvm m) pdir (ptr + of_nat i)) bytes (length bytes) (ram m) else ram m) \<and>
    restored (mvm m) (mvm m')"
proof -
  let ?n = "of_nat (length bytes) :: u32" and ?a = "\<lambda>i. uaddr (mvm m) pdir (ptr + of_nat i)"
  have len: "unat ?n = length bytes" using r by (simp add: range_ok_def unat_of_nat)
  note c = blocks_cover [of ptr ?n, unfolded len, OF r, folded k(1)]
  have ne: "bytes \<noteq> []" using r by (auto simp: range_ok_def)
  have "kwrite (kpg b + (ptr AND 0xFFF)) bytes (m\<lparr>mvm := t\<rparr>) = Inr (m\<lparr>mvm := t, ram := put_bytes ?a bytes (length bytes) (ram m)\<rparr>)"
    if "mapped (mvm m) pdir ptr k b t" "kpg b \<noteq> 0" "b + k < 2 ^ 20" for b t
  proof -
    have "kpage t (kpg b + (ptr AND 0xFFF) + of_nat i) AND PAGE_PRESENT \<noteq> 0 \<and> kaddr t (kpg b + (ptr AND 0xFFF) + of_nat i) = ?a i"
      if "i < length bytes" for i using mapped_byte [OF \<open>mapped (mvm m) pdir ptr k b t\<close>, of i] c(3) that by simp
    then show ?thesis using kwrite_ok [of "kpg b + (ptr AND 0xFFF)" bytes "m\<lparr>mvm := t\<rparr>" ?a] run_start_nonzero that(2,3) ne by simp
  qed
  then show ?thesis unfolding copy_to_userspace_def
    using with_user_pages_ok [OF assms(1,2) k(1) c(2) k(2), where r = "()" and ram' = "put_bytes ?a bytes (length bytes) (ram m)" and
      f = "\<lambda>kptr2 m. kbind (kwrite kptr2 bytes m) (\<lambda>m. Inr ((), m))"] by auto
qed

lemma restored_user:
  assumes "restored s s'" "udir_ok s pdir"
  shows "udir_ok s' pdir \<and> upage s' pdir = upage s pdir \<and> kernel_room s' n = kernel_room s n"
proof -
  have f: "ktab_frame s s'" and k: "kpage s' = kpage s" using assms(1) by (auto simp: restored_def)
  have "kernel_room s' n = kernel_room s n" by (simp add: kernel_room_def kvfree_def k)
  then show ?thesis using frame_user [OF f assms(2)] by blast
qed

lemma restored_trans: "restored s t \<Longrightarrow> restored t u \<Longrightarrow> restored s u"
  using ktab_frame_trans by (auto simp: restored_def)

text \<open>What is written to user memory is read back from it, byte for byte, when no two addresses of the range
  are the same memory; memory outside the range is not touched, and the kernel's mappings are
  afterwards what they were.\<close>

lemma copy_to_from_userspace:
  assumes "kdir_wf (mvm m)" "udir_ok (mvm m) pdir" "range_ok ptr (length bytes)"
    "kernel_room (mvm m) (size_in_blocks ptr (of_nat (length bytes)))"
    "user_pages_ok (mvm m) pdir ptr (size_in_blocks ptr (of_nat (length bytes)))"
    "inj_on (\<lambda>i. uaddr (mvm m) pdir (ptr + of_nat i)) {0..<length bytes}"
  shows "\<exists>m1 m2. copy_to_userspace pdir ptr bytes m = Inr (Some (), m1) \<and>
    copy_from_userspace pdir ptr (of_nat (length bytes)) m1 = Inr (Some bytes, m2) \<and> restored (mvm m) (mvm m2) \<and>
    (\<forall>x. (\<forall>i<length bytes. uaddr (mvm m) pdir (ptr + of_nat i) \<noteq> x) \<longrightarrow> ram m2 x = ram m x)"
proof -
  let ?n = "of_nat (length bytes) :: u32" and ?a = "\<lambda>i. uaddr (mvm m) pdir (ptr + of_nat i)"
  have len: "unat ?n = length bytes" using assms(3) by (simp add: range_ok_def unat_of_nat)
  obtain m1 where m1: "copy_to_userspace pdir ptr bytes m = Inr (Some (), m1)"
    "ram m1 = put_bytes ?a bytes (length bytes) (ram m)" "restored (mvm m) (mvm m1)"
    using copy_to_userspace_ok [OF assms(1-3) refl assms(4)] assms(5) by auto
  have u: "udir_ok (mvm m1) pdir" "upage (mvm m1) pdir = upage (mvm m) pdir" "kernel_room (mvm m1) k = kernel_room (mvm m) k" for k
    using restored_user [OF m1(3) assms(2)] by auto
  have ok: "user_pages_ok (mvm m1) pdir ptr (size_in_blocks ptr ?n)" using assms(5) u(2) by (simp add: user_pages_ok_def)
  have "user_bytes m1 pdir ptr (length bytes) = bytes"
    using put_bytes_at [OF assms(6)] m1(2) u(2) by (intro nth_equalityI) (simp_all add: user_bytes_def uaddr_def)
  then obtain m2 where "copy_from_userspace pdir ptr ?n m1 = Inr (Some bytes, m2)" "ram m2 = ram m1" "restored (mvm m1) (mvm m2)"
    using copy_from_userspace_exact [of m1 pdir ptr ?n] m1(3) u assms(3,4) ok by (auto simp: len restored_def)
  then show ?thesis using m1 put_bytes_other [of "length bytes" ?a] restored_trans by (intro exI [of _ m1] exI [of _ m2]) auto
qed

section \<open>Strings\<close>

lemma cs_page_ok:
  assumes "\<And>k. off \<le> k \<Longrightarrow> k < 4096 \<Longrightarrow> kld m (kptr + of_nat k) = Inr (B (i + (k - off)))"
    and B: "\<And>j. j < l \<Longrightarrow> B j \<noteq> 0" "B l = 0" and "i \<le> l" "l < length buf" "off \<le> 4096" "take i buf = map B [0..<i]"
  shows "\<exists>buf'. length buf' = length buf \<and>
    (if l < i + (4096 - off)
     then cs_page m kptr [off..<4096] i buf = Inr (Nul, l, buf') \<and> take (l + 1) buf' = map B [0..<l + 1]
     else cs_page m kptr [off..<4096] i buf = Inr (More, i + (4096 - off), buf') \<and>
          take (i + (4096 - off)) buf' = map B [0..<i + (4096 - off)])"
  using assms(1,4-)
proof (induction "4096 - off" arbitrary: off i buf)
  case 0
  then show ?case by auto
next
  case (Suc d)
  then have o: "off < 4096" "[off..<4096] = off # [off + 1..<4096]" "d = 4096 - (off + 1)" by (auto simp: upt_conv_Cons)
  have il: "i < length buf" using Suc.prems by simp
  have r: "kld m (kptr + of_nat off) = Inr (B i)" using Suc.prems(1) [of off] o(1) by simp
  let ?buf = "buf[i := B i]"
  have tk: "take (i + 1) ?buf = map B [0..<i + 1]"
    using Suc.prems(5) il by (simp add: take_Suc_conv_app_nth)
  show ?case
  proof (cases "i = l")
    case True
    then have "cs_page m kptr [off..<4096] i buf = Inr (Nul, l, ?buf)" using r il B(2) by (simp add: o(2))
    moreover have lt: "l < i + (4096 - off)" using True o(1) by simp
    ultimately show ?thesis unfolding if_P [OF lt] using True tk by (intro exI [of _ ?buf]) simp
  next
    case False
    then have "i + 1 \<le> l" using Suc.prems(2) by simp
    moreover have "kld m (kptr + of_nat k) = Inr (B (i + 1 + (k - (off + 1))))" if "off + 1 \<le> k" "k < 4096" for k
    proof -
      have e: "i + 1 + (k - (off + 1)) = i + (k - off)" using that(1) by simp
      show ?thesis unfolding e using Suc.prems(1) [of k] that by simp
    qed
    ultimately obtain buf' where b: "length buf' = length buf"
      "if l < i + 1 + (4096 - (off + 1))
       then cs_page m kptr [off + 1..<4096] (i + 1) ?buf = Inr (Nul, l, buf') \<and> take (l + 1) buf' = map B [0..<l + 1]
       else cs_page m kptr [off + 1..<4096] (i + 1) ?buf = Inr (More, i + 1 + (4096 - (off + 1)), buf') \<and>
            take (i + 1 + (4096 - (off + 1))) buf' = map B [0..<i + 1 + (4096 - (off + 1))]"
      using Suc.hyps(1) [OF o(3), of "i + 1" ?buf] Suc.prems(3) o(1) tk by auto
    have e: "i + 1 + (4096 - (off + 1)) = i + (4096 - off)" using o(1) by simp
    have eq: "cs_page m kptr [off..<4096] i buf = cs_page m kptr [off + 1..<4096] (i + 1) ?buf"
      using r il False B(1) [of i] Suc.prems(2) by (simp add: o(2))
    show ?thesis unfolding eq using b unfolding e by blast
  qed
qed

text \<open>The bytes of a string of the user.\<close>

definition user_string :: "machine \<Rightarrow> u32 \<Rightarrow> u32 \<Rightarrow> nat \<Rightarrow> bool" where
  "user_string m pdir ptr l \<longleftrightarrow>
     (\<forall>i<l. ram m (uaddr (mvm m) pdir (ptr + of_nat i)) \<noteq> 0) \<and> ram m (uaddr (mvm m) pdir (ptr + of_nat l)) = 0 \<and>
     (\<forall>i\<le>l. user_page_ok (upage (mvm m) pdir (ptr + of_nat i)))"

lemma next_page: "(p AND NOT 0xFFF) + kpg 1 = (p :: u32) + of_nat (4096 - unat (p AND 0xFFF))"
proof -
  have "p + of_nat (4096 - unat (p AND 0xFFF)) = kpg (unat p div 4096) + of_nat (unat (p AND 0xFFF) + (4096 - unat (p AND 0xFFF)))"
    by (rule user_add)
  also have "unat (p AND 0xFFF) + (4096 - unat (p AND 0xFFF)) = 4096" using offset_lt [of p] by simp
  finally show ?thesis unfolding page_base by (simp add: kpg_def BLOCK_SIZE_def)
qed

lemma same_page_base: "upage s pdir ((p AND NOT 0xFFF) + kpg 0) = upage s pdir p"
proof -
  have "pn p = pn (kpg (unat p div 4096))"
    using addr_split(1) [of "unat p div 4096" "unat (p AND 0xFFF)"] page_offset [of p] offset_lt [of p] by simp
  then have "upage s pdir p = upage s pdir (kpg (unat p div 4096))" by (rule upage_pn)
  then show ?thesis unfolding page_base kpg_add by simp
qed

lemma cs_loop_ok:
  assumes wf: "kdir_wf s" and u: "udir_ok s pdir" and us: "user_string (M\<lparr>mvm := s\<rparr>) pdir ptr l"
    and b: "b + 1 < 2 ^ 20" "\<forall>w. in_run b 1 w \<longrightarrow> kpage s w = 0"
    and "run_frame b 1 s (mvm m)" "ram m = ram M" "p = ptr + of_nat i" "i \<le> l" "l < length buf"
    "take i buf = map (\<lambda>j. ram M (uaddr s pdir (ptr + of_nat j))) [0..<i]"
  shows "\<exists>buf' m'. cs_loop pdir (kpg b) p i buf m = Inr (Some (l, buf'), m') \<and> length buf' = length buf \<and>
    take (l + 1) buf' = map (\<lambda>j. ram M (uaddr s pdir (ptr + of_nat j))) [0..<l + 1] \<and> ram m' = ram M \<and> restored s (mvm m')"
  using assms(6-)
proof (induction "l - i" arbitrary: p i buf m rule: less_induct)
  case less
  let ?B = "\<lambda>j. ram M (uaddr s pdir (ptr + of_nat j))" and ?off = "unat (p AND 0xFFF)"
  have B: "\<And>j. j < l \<Longrightarrow> ?B j \<noteq> 0" "?B l = 0" using us by (auto simp: user_string_def)
  have um: "udir_ok (mvm m) pdir" "upage (mvm m) pdir = upage s pdir" using run_frame_user [OF less.prems(1) u] by auto
  have al: "(p AND NOT 0xFFF) AND 0xFFF = 0" unfolding page_base by (rule kpg_aligned)
  have pg: "user_page_ok (upage (mvm m) pdir ((p AND NOT 0xFFF) + kpg 0))"
    unfolding same_page_base um(2) using us less.prems(3,4) by (simp add: user_string_def)
  obtain t where t: "map_userspace_to_kernel pdir (p AND NOT 0xFFF) (kpg b) 1 (mvm m) = Inr (True, t)" "run_frame b 1 (mvm m) t"
    "mapped (mvm m) pdir p 1 b t"
    using map_userspace_ok [OF run_frame_wf [OF less.prems(1)] um(1) b(1) _ al] pg by (auto simp: mapped_def)
  have ft: "run_frame b 1 s t" using run_frame_trans [OF less.prems(1) t(2)] .
  have ld: "kld (m\<lparr>mvm := t\<rparr>) (kpg b + of_nat k) = Inr (?B (i + (k - ?off)))" if "?off \<le> k" "k < 4096" for k
  proof -
    have ke: "kpg b + of_nat k = kpg b + (p AND 0xFFF) + of_nat (k - ?off)" unfolding offset_add using that(1) by simp
    have "p + of_nat (k - ?off) = ptr + of_nat (i + (k - ?off))" using less.prems(3) by simp
    then have "uaddr (mvm m) pdir (p + of_nat (k - ?off)) = uaddr s pdir (ptr + of_nat (i + (k - ?off)))"
      unfolding uaddr_def um(2) by (rule arg_cong)
    then show ?thesis unfolding ke using mapped_byte [OF t(3), of "k - ?off"] that less.prems(2) by (simp add: kld_def)
  qed
  obtain buf' where buf': "length buf' = length buf"
    "if l < i + (4096 - ?off)
     then cs_page (m\<lparr>mvm := t\<rparr>) (kpg b) [?off..<4096] i buf = Inr (Nul, l, buf') \<and> take (l + 1) buf' = map ?B [0..<l + 1]
     else cs_page (m\<lparr>mvm := t\<rparr>) (kpg b) [?off..<4096] i buf = Inr (More, i + (4096 - ?off), buf') \<and>
          take (i + (4096 - ?off)) buf' = map ?B [0..<i + (4096 - ?off)]"
    using cs_page_ok [OF ld B less.prems(4,5) _ less.prems(6)] offset_lt [of p] by (metis less_imp_le)
  show ?case
  proof (cases "l < i + (4096 - ?off)")
    case True
    obtain s' where "unmap_from_kernel (kpg b) 1 t = Inr s'" "restored s s'" using unmap_restores [OF ft b(2)] by auto
    then have "cs_loop pdir (kpg b) p i buf m = Inr (Some (l, buf'), m\<lparr>mvm := s'\<rparr>)"
      using t(1) buf' True by (subst cs_loop.simps) simp
    then show ?thesis using buf' True \<open>restored s s'\<close> less.prems(2) by (intro exI [of _ buf'] exI [of _ "m\<lparr>mvm := s'\<rparr>"]) simp
  next
    case False
    let ?i = "i + (4096 - ?off)" and ?buf = "buf'[i + (4096 - ?off) := 0]"
    have il: "?i \<le> l" using False by simp
    have lt: "l - ?i < l - i" using il offset_lt [of p] by linarith
    have pp: "(p AND NOT 0xFFF) + kpg 1 = ptr + of_nat ?i" unfolding next_page less.prems(3) by simp
    have tk: "take ?i ?buf = map ?B [0..<?i]" using buf' False by simp
    have "cs_loop pdir (kpg b) p i buf m = cs_loop pdir (kpg b) ((p AND NOT 0xFFF) + kpg 1) ?i ?buf (m\<lparr>mvm := t\<rparr>)"
      using t(1) buf' False less.prems(5) il by (subst cs_loop.simps) simp
    moreover obtain b2 m2 where "cs_loop pdir (kpg b) ((p AND NOT 0xFFF) + kpg 1) ?i ?buf (m\<lparr>mvm := t\<rparr>) = Inr (Some (l, b2), m2)"
      "length b2 = length ?buf" "take (l + 1) b2 = map ?B [0..<l + 1]" "ram m2 = ram M" "restored s (mvm m2)"
      using less.hyps [OF lt, of "m\<lparr>mvm := t\<rparr>" "(p AND NOT 0xFFF) + kpg 1" ?buf] ft less.prems(2,5) pp il tk buf'(1) by auto
    ultimately show ?thesis using buf'(1) by (intro exI [of _ b2] exI [of _ m2]) simp
  qed
qed

text \<open>A string of the user that is shorter than the buffer, on pages the user may access, is copied with its
  terminator, whatever pages it crosses; the result is its length, and the kernel's mappings and the
  memory are what they were.\<close>

lemma user_string_copied:
  assumes "kdir_wf (mvm m)" "udir_ok (mvm m) pdir" "kernel_room (mvm m) 1" "ptr \<noteq> 0"
    "user_string m pdir ptr l" "l < length buf"
  shows "\<exists>buf' m'. copy_from_userspace_string pdir ptr buf m = Inr (Some (l, buf'), m') \<and> length buf' = length buf \<and>
    take (l + 1) buf' = user_bytes m pdir ptr (l + 1) \<and> ram m' = ram m \<and> restored (mvm m) (mvm m')"
proof -
  obtain b s1 where b: "find_vspace (kernel_directory (mvm m)) 1 (mvm m) = Inr (kpg b, s1)" "kpg b \<noteq> 0" "b + 1 < 2 ^ 20"
    "run_frame b 1 (mvm m) s1" "\<forall>w. in_run b 1 w \<longrightarrow> kpage (mvm m) w = 0" using vspace_run [OF assms(1) _ assms(3)] by auto
  have pd: "pdir \<noteq> 0" using udir_okD [OF assms(2)] by blast
  have us: "user_string (m\<lparr>mvm := mvm m\<rparr>) pdir ptr l" using assms(5) by simp
  have "copy_from_userspace_string pdir ptr buf m = cs_loop pdir (kpg b) ptr 0 buf (m\<lparr>mvm := s1\<rparr>)"
    using b(1,2) pd assms(4) by (simp add: copy_from_userspace_string_def)
  then show ?thesis using cs_loop_ok [OF assms(1,2) us b(3,5), of "m\<lparr>mvm := s1\<rparr>" ptr 0 buf] b(4) assms(6)
    by (simp add: user_bytes_def)
qed

lemma cs_page_fills:
  assumes "\<And>k. off \<le> k \<Longrightarrow> k < 4096 \<Longrightarrow> \<exists>c. c \<noteq> 0 \<and> kld m (kptr + of_nat k) = Inr c" "off \<le> 4096" "i + (4096 - off) \<le> length buf"
  shows "\<exists>buf'. cs_page m kptr [off..<4096] i buf = Inr (More, i + (4096 - off), buf') \<and> length buf' = length buf"
  using assms
proof (induction "4096 - off" arbitrary: off i buf)
  case (Suc d)
  then have o: "off < 4096" "[off..<4096] = off # [off + 1..<4096]" "d = 4096 - (off + 1)" by (auto simp: upt_conv_Cons)
  obtain c where c: "c \<noteq> 0" "kld m (kptr + of_nat off) = Inr c" using Suc.prems(1) [of off] o(1) by blast
  have il: "i < length buf" using Suc.prems(3) o(1) by linarith
  have "i + 1 + (4096 - (off + 1)) \<le> length (buf[i := c])" using Suc.prems(3) o(1) by simp
  then obtain buf' where "cs_page m kptr [off + 1..<4096] (i + 1) (buf[i := c]) = Inr (More, i + 1 + (4096 - (off + 1)), buf')"
    "length buf' = length buf"
    using Suc.hyps(1) [OF o(3), of "i + 1" "buf[i := c]"] Suc.prems o(1) by auto
  moreover have "i + 1 + (4096 - (off + 1)) = i + (4096 - off)" using o(1) by simp
  ultimately show ?case using c il by (simp add: o(2))
qed simp

text \<open>A string that fills the caller's buffer up to the end of a page without a terminator makes the copy
  write one byte behind the buffer: the zero that is stored after each page is stored before the
  position is compared with the size again.\<close>

lemma copy_string_overruns:
  assumes "kdir_wf (mvm m)" "udir_ok (mvm m) pdir" "kernel_room (mvm m) 1" "ptr \<noteq> 0"
    "unat (ptr AND 0xFFF) + length buf = 4096" "user_page_ok (upage (mvm m) pdir ptr)"
    "\<forall>i<length buf. ram m (uaddr (mvm m) pdir (ptr + of_nat i)) \<noteq> 0"
  shows "copy_from_userspace_string pdir ptr buf m = Inl MemFault"
proof -
  obtain b s1 where b: "find_vspace (kernel_directory (mvm m)) 1 (mvm m) = Inr (kpg b, s1)" "kpg b \<noteq> 0" "b + 1 < 2 ^ 20"
    "run_frame b 1 (mvm m) s1" using vspace_run [OF assms(1) _ assms(3)] by auto
  have pd: "pdir \<noteq> 0" using udir_okD [OF assms(2)] by blast
  have u1: "udir_ok s1 pdir" "upage s1 pdir = upage (mvm m) pdir" using run_frame_user [OF b(4) assms(2)] by auto
  have al: "(ptr AND NOT 0xFFF) AND 0xFFF = 0" unfolding page_base by (rule kpg_aligned)
  have pg: "user_page_ok (upage s1 pdir ((ptr AND NOT 0xFFF) + kpg 0))" unfolding same_page_base u1(2) by (rule assms(6))
  obtain t where t: "map_userspace_to_kernel pdir (ptr AND NOT 0xFFF) (kpg b) 1 s1 = Inr (True, t)" "mapped s1 pdir ptr 1 b t"
    using map_userspace_ok [OF run_frame_wf [OF b(4)] u1(1) b(3) _ al] pg by (auto simp: mapped_def)
  let ?off = "unat (ptr AND 0xFFF)"
  have "\<exists>c. c \<noteq> 0 \<and> kld (m\<lparr>mvm := t\<rparr>) (kpg b + of_nat k) = Inr c" if "?off \<le> k" "k < 4096" for k
  proof -
    have ke: "kpg b + of_nat k = kpg b + (ptr AND 0xFFF) + of_nat (k - ?off)" unfolding offset_add using that(1) by simp
    define x where "x = k - ?off"
    have x: "x < length buf" "?off + x < 4096" using that assms(5) by (simp_all add: x_def)
    have "uaddr s1 pdir = uaddr (mvm m) pdir" unfolding uaddr_def u1(2) ..
    then have "ram m (uaddr s1 pdir (ptr + of_nat x)) \<noteq> 0" using assms(7) x(1) by simp
    then show ?thesis unfolding ke x_def [symmetric] using mapped_byte [OF t(2), of x] x(2) by (simp add: kld_def)
  qed
  moreover have "?off \<le> 4096" "0 + (4096 - ?off) \<le> length buf" using assms(5) by linarith+
  ultimately obtain buf' where "cs_page (m\<lparr>mvm := t\<rparr>) (kpg b) [?off..<4096] 0 buf = Inr (More, 0 + (4096 - ?off), buf')" "length buf' = length buf"
    using cs_page_fills [of ?off "m\<lparr>mvm := t\<rparr>" "kpg b" 0 buf] by blast
  moreover have "\<not> 4096 - ?off < length buf" using assms(5) by linarith
  ultimately have "cs_loop pdir (kpg b) ptr 0 buf (m\<lparr>mvm := s1\<rparr>) = Inl MemFault"
    using t(1) by (subst cs_loop.simps) (simp add: kstore_def)
  then show ?thesis using b(1,2) pd assms(4) by (simp add: copy_from_userspace_string_def)
qed

section \<open>Examples\<close>

text \<open>The kernel directory of \<open>ex_vmm\<close> beside a process with one page, at the address 0x2000.\<close>

definition ex_proc :: page_directory_t where
  "ex_proc = \<lparr>pd_virt = 0x301000, pd_entries = (\<lambda>i. if i = 0 then 0x6007 else 0), pd_tables = (\<lambda>i. if i = 0 then 0x900000 else 0),
     pd_phys = 0x301000, pd_refcount = 1\<rparr>"

definition ex_mach :: "(u32 \<Rightarrow> u8) \<Rightarrow> machine" where
  "ex_mach r = \<lparr>mvm = ex_vmm\<lparr>ptabs := (ptabs ex_vmm)(0x900000 \<mapsto> (\<lambda>j. if j = 2 then 0x5007 else 0)),
                            pdirs := [64 \<mapsto> ex_kdir, 128 \<mapsto> ex_proc]\<rparr>, ram = r\<rparr>"

lemma ex_mach_kernel: "kdir_wf (mvm (ex_mach r))" "kpage (mvm (ex_mach r)) = kpage ex_vmm"
proof -
  let ?s = "ex_vmm\<lparr>ptabs := (ptabs ex_vmm)(0x900000 \<mapsto> (\<lambda>j. if j = 2 then 0x5007 else 0))\<rparr>"
  have n: "ptabs ex_vmm 0x900000 = None" by (simp add: ex_vmm_def)
  have e: "mvm (ex_mach r) = ?s\<lparr>pdirs := [64 \<mapsto> ex_kdir, 128 \<mapsto> ex_proc]\<rparr>" by (simp add: ex_mach_def)
  have "kdir_wf (mvm (ex_mach r)) = kdir_wf ?s" unfolding e by (rule kdir_wf_cong) (simp_all add: ex_vmm_def)
  then show "kdir_wf (mvm (ex_mach r))" using new_table(1) [OF ex_kdir_wf n] by simp
  have "kpage (mvm (ex_mach r)) = kpage ?s" unfolding e by (rule kpage_cong) (simp_all add: ex_vmm_def)
  then show "kpage (mvm (ex_mach r)) = kpage ex_vmm" using new_table(2) [OF ex_kdir_wf n] by simp
qed

lemma ex_mach_udir: "udir_ok (mvm (ex_mach r)) 128"
proof -
  have "pd_tables ex_kdir i \<noteq> 0x900000" for i using ex_tables(2) [of i] by auto
  then show ?thesis by (simp add: udir_ok_def ex_mach_def ex_vmm_def ex_proc_def)
qed

lemma ex_mach_room: "kernel_room (mvm (ex_mach r)) 1"
proof -
  have "kvfree (mvm (ex_mach r)) 1" unfolding kvfree_def ex_mach_kernel(2) ex_kpage
    using ex_first_table by (simp add: BLOCK_SIZE_def)
  then show ?thesis unfolding kernel_room_def by (intro exI [of _ 1]) simp
qed

text \<open>The page of the process, and its bytes.\<close>

lemma ex_upage: "upage (mvm (ex_mach r)) 128 0x2000 = 0x5007"
  by (simp add: upage_def ex_mach_def ex_vmm_def ex_proc_def dir_index_def page_index_def)

lemma ex_user_page:
  assumes "i < 4096"
  shows "upage (mvm (ex_mach r)) 128 (0x2000 + of_nat i) = 0x5007" "uaddr (mvm (ex_mach r)) 128 (0x2000 + of_nat i) = 0x5000 + of_nat i"
proof -
  have k: "kpg 2 = 0x2000" by (simp add: kpg_def BLOCK_SIZE_def)
  have a: "pn (0x2000 + of_nat i) = pn 0x2000" "(0x2000 + of_nat i :: u32) AND 0xFFF = of_nat i"
    using addr_split [of 2 i] assms unfolding k by (simp_all add: k)
  show u: "upage (mvm (ex_mach r)) 128 (0x2000 + of_nat i) = 0x5007" using upage_pn [OF a(1)] ex_upage by simp
  show "uaddr (mvm (ex_mach r)) 128 (0x2000 + of_nat i) = 0x5000 + of_nat i" unfolding uaddr_def u a(2) by simp
qed

lemma ex_pages_ok: "user_pages_ok (mvm (ex_mach r)) 128 0x2000 1"
  using ex_upage by (simp add: user_pages_ok_def user_page_ok_def kpg_def PAGE_PRESENT_def PAGE_READWRITE_def PAGE_USER_def)

lemma ex_blocks: "0 < n \<Longrightarrow> n \<le> 4096 \<Longrightarrow> size_in_blocks 0x2000 (of_nat n) = 1" "0 < n \<Longrightarrow> n \<le> 4096 \<Longrightarrow> range_ok 0x2000 n"
proof -
  assume n: "0 < n" "n \<le> 4096"
  have "unat (4095 + of_nat n :: u32) = 4095 + n" using n by (simp add: unat_word_ariths unat_of_nat)
  then show "size_in_blocks 0x2000 (of_nat n) = 1" using n unfolding size_in_blocks_def by (simp add: unat_div_distrib)
  show "range_ok 0x2000 n" using n by (simp add: range_ok_def)
qed

lemma ex_ram [simp]: "ram (ex_mach r) = r"
  by (simp add: ex_mach_def)

lemma ex_user_bytes: "n \<le> 4096 \<Longrightarrow> user_bytes (ex_mach r) 128 0x2000 n = map (\<lambda>i. r (0x5000 + of_nat i)) [0..<n]"
  unfolding user_bytes_def ex_ram by (intro map_cong refl arg_cong [of _ _ r] ex_user_page(2)) simp

lemma ex_inj: assumes "n \<le> 4096" shows "inj_on (\<lambda>i. uaddr (mvm (ex_mach r)) 128 (0x2000 + of_nat i)) {0..<n}"
proof (rule inj_onI)
  fix i j assume ij: "i \<in> {0..<n}" "j \<in> {0..<n}"
    and e: "uaddr (mvm (ex_mach r)) 128 (0x2000 + of_nat i) = uaddr (mvm (ex_mach r)) 128 (0x2000 + of_nat j)"
  have lt: "i < 4096" "j < 4096" using ij assms by simp_all
  have "unat (of_nat i :: u32) = unat (of_nat j :: u32)" using e unfolding ex_user_page(2) [OF lt(1)] ex_user_page(2) [OF lt(2)] by simp
  then show "i = j" using lt by (simp add: unat_of_nat)
qed

lemma ex_user_string:
  assumes "l < 4096" "\<And>i. i < l \<Longrightarrow> r (0x5000 + of_nat i) \<noteq> 0" "r (0x5000 + of_nat l) = 0"
  shows "user_string (ex_mach r) 128 0x2000 l"
  unfolding user_string_def ex_ram
proof (intro conjI allI impI)
  fix i assume "i < l"
  then show "r (uaddr (mvm (ex_mach r)) 128 (0x2000 + of_nat i)) \<noteq> 0" using ex_user_page(2) [of i r] assms(1,2) by simp
next
  show "r (uaddr (mvm (ex_mach r)) 128 (0x2000 + of_nat l)) = 0" using ex_user_page(2) [of l r] assms(1,3) by simp
next
  fix i assume "i \<le> l"
  then have "upage (mvm (ex_mach r)) 128 (0x2000 + of_nat i) = 0x5007" using ex_user_page(1) [of i r] assms(1) by simp
  then show "user_page_ok (upage (mvm (ex_mach r)) 128 (0x2000 + of_nat i))"
    by (simp only:) (simp add: user_page_ok_def PAGE_PRESENT_def PAGE_READWRITE_def PAGE_USER_def)
qed

theorem copy_from_userspace_exact_witness:
  "\<exists>m'. copy_from_userspace 128 0x2000 3 (ex_mach (\<lambda>x. if x = 0x5001 then 8 else 7)) = Inr (Some [7, 8, 7], m') \<and>
    restored (mvm (ex_mach (\<lambda>x. if x = 0x5001 then 8 else 7))) (mvm m')"
proof -
  let ?r = "\<lambda>x :: u32. if x = 0x5001 then 8 else 7 :: u8"
  have "user_bytes (ex_mach ?r) 128 0x2000 3 = [7, 8, 7]" by (subst ex_user_bytes) (simp_all add: upt_rec)
  then show ?thesis
    using copy_from_userspace_exact [OF ex_mach_kernel(1) ex_mach_udir, of "0x2000" 3 ?r] ex_blocks [of 3] ex_mach_room ex_pages_ok by auto
qed

end
