(* ===== verification/Filecalls_Props.thy ===== *)
theory Filecalls_Props
  imports Filecalls Usercopy_Props Fd_Inv Fs_Props
begin

text \<open>
  The system calls on files, end to end: from the memory of the process through the kernel's mapping
  of it, the descriptor and the file system switch to the file, and back.
\<close>

text \<open>A descriptor that is open, and its entry.\<close>

definition fd_open_at :: "fdstate \<Rightarrow> addr \<Rightarrow> nat \<Rightarrow> addr \<Rightarrow> fd_entry_t \<Rightarrow> bool" where
  "fd_open_at s t i a e \<longleftrightarrow> fd_of t i s = Inr a \<and> a \<noteq> 0 \<and> t \<noteq> 0 \<and> fds s a = Some e"

text \<open>The memory of a process from which a range can be accessed.\<close>

definition user_range :: "machine \<Rightarrow> u32 \<Rightarrow> u32 \<Rightarrow> u32 \<Rightarrow> bool" where
  "user_range m pdir ptr n \<longleftrightarrow>
     kdir_wf (mvm m) \<and> udir_ok (mvm m) pdir \<and> range_ok ptr (unat n) \<and> kernel_room (mvm m) (size_in_blocks ptr n) \<and>
     user_pages_ok (mvm m) pdir ptr (size_in_blocks ptr n)"

lemma fd_io_ok:
  assumes o: "fd_open_at (kfd k) t (unat fd) a e" and u: "user_range (km k) pdir ptr len"
    and f: "\<And>b t. mapped (mvm (km k)) pdir ptr (size_in_blocks ptr len) b t \<Longrightarrow> kpg b + (ptr AND 0xFFF) \<noteq> 0 \<Longrightarrow>
       \<exists>k'. f (kpg b + (ptr AND 0xFFF)) e (k\<lparr>km := (km k)\<lparr>mvm := t\<rparr>\<rparr>) = Inr (r, k') \<and> mvm (km k') = t \<and> ram (km k') = ram' \<and>
         kfd k' = fd' \<and> fds fd' a = Some e"
  shows "\<exists>k'. fd_io t pdir fd ptr len f k = Inr (r, k') \<and> ram (km k') = ram' \<and> restored (mvm (km k)) (mvm (km k')) \<and>
    kfd k' = (if r \<noteq> -1 then set_fd a (Some (e\<lparr>fd_seek := fd_seek e + r\<rparr>)) fd' else fd')"
proof -
  let ?s = "mvm (km k)" and ?n = "size_in_blocks ptr len"
  have wf: "kdir_wf ?s" and ud: "udir_ok ?s pdir" and rg: "range_ok ptr (unat len)" and rm: "kernel_room ?s ?n"
    and ok: "user_pages_ok ?s pdir ptr ?n" using u by (simp_all add: user_range_def)
  have n1: "1 \<le> ?n" using blocks_cover [OF rg] by simp
  have l0: "len \<noteq> 0" using rg by (auto simp: range_ok_def)
  obtain b s1 where b: "find_vspace (kernel_directory ?s) ?n ?s = Inr (kpg b, s1)" "kpg b \<noteq> 0" "b + ?n < 2 ^ 20"
    "run_frame b ?n ?s s1" "\<forall>w. in_run b ?n w \<longrightarrow> kpage ?s w = 0" using vspace_run [OF wf n1 rm] by blast
  have u1: "udir_ok s1 pdir" "upage s1 pdir = upage ?s pdir" using run_frame_user [OF b(4) ud] by auto
  have al: "(ptr AND NOT 0xFFF) AND 0xFFF = 0" unfolding page_base by (rule kpg_aligned)
  have k0: "?n \<noteq> 0" using n1 by simp
  obtain s2 where s2: "map_userspace_to_kernel pdir (ptr AND NOT 0xFFF) (kpg b) ?n s1 = Inr (True, s2)" "run_frame b ?n s1 s2"
    "mapped ?s pdir ptr ?n b s2"
    using map_userspace_ok [OF run_frame_wf [OF b(4)] u1(1) b(3) k0 al] u1(2) ok
    unfolding user_pages_ok_def mapped_def by auto
  obtain s3 where s3: "unmap_from_kernel (kpg b) ?n s2 = Inr s3" "restored ?s s3"
    using unmap_restores [OF run_frame_trans [OF b(4) s2(2)] b(5) k0] by blast
  have nz: "kpg b + (ptr AND 0xFFF) \<noteq> 0" using run_start_nonzero b(2,3) n1 by simp
  obtain k' where k': "f (kpg b + (ptr AND 0xFFF)) e (k\<lparr>km := (km k)\<lparr>mvm := s2\<rparr>\<rparr>) = Inr (r, k')" "mvm (km k') = s2" "ram (km k') = ram'"
    "kfd k' = fd'" "fds fd' a = Some e" using f [OF s2(3) nz] by blast
  have "fd_io t pdir fd ptr len f k = Inr (r, k'\<lparr>km := (km k')\<lparr>mvm := s3\<rparr>,
      kfd := if r \<noteq> -1 then set_fd a (Some (e\<lparr>fd_seek := fd_seek e + r\<rparr>)) fd' else fd'\<rparr>)"
    using o l0 b(1) s2(1) k' s3(1) by (simp add: fd_io_def Let_def fd_open_at_def)
  then show ?thesis using k'(3) s3(2) by simp
qed

lemma syscall_write_ok:
  assumes o: "fd_open_at (kfd k) t (unat fd) a e" and u: "user_range (km k) pdir ptr len"
    and w: "fs_write (fd_node e) (fd_seek e) (user_bytes (km k) pdir ptr (unat len)) (fvfs (kfd k)) = Inr (r, v)"
  shows "\<exists>k'. syscall_write t pdir fd ptr len k = Inr (r, k') \<and> ram (km k') = ram (km k) \<and> restored (mvm (km k)) (mvm (km k')) \<and>
    kfd k' = (if r \<noteq> -1 then set_fd a (Some (e\<lparr>fd_seek := fd_seek e + r\<rparr>)) ((kfd k)\<lparr>fvfs := v\<rparr>) else (kfd k)\<lparr>fvfs := v\<rparr>)"
  unfolding syscall_write_def
proof (rule fd_io_ok [OF o u])
  fix b s
  assume m: "mapped (mvm (km k)) pdir ptr (size_in_blocks ptr len) b s" and nz: "kpg b + (ptr AND 0xFFF) \<noteq> 0"
  have rg: "range_ok ptr (unat len)" using u by (simp add: user_range_def)
  have "kread ((km k)\<lparr>mvm := s\<rparr>) (kpg b + (ptr AND 0xFFF)) (unat len) = Inr (user_bytes (km k) pdir ptr (unat len))"
    unfolding user_bytes_def
  proof (rule kread_ok [OF nz])
    show "unat len \<noteq> 0" using rg by (auto simp: range_ok_def)
    show "kld ((km k)\<lparr>mvm := s\<rparr>) (kpg b + (ptr AND 0xFFF) + of_nat i) = Inr (ram (km k) (uaddr (mvm (km k)) pdir (ptr + of_nat i)))"
      if "i < unat len" for i using mapped_byte [OF m, of i] blocks_cover(3) [OF rg] that by (simp add: kld_def)
  qed
  then show "\<exists>k'. kbind (kread (km (k\<lparr>km := (km k)\<lparr>mvm := s\<rparr>\<rparr>)) (kpg b + (ptr AND 0xFFF)) (unat len)) (\<lambda>bytes.
      kbind (fs_write (fd_node e) (fd_seek e) bytes (fvfs (kfd (k\<lparr>km := (km k)\<lparr>mvm := s\<rparr>\<rparr>)))) (\<lambda>(r, v).
      Inr (r, k\<lparr>km := (km k)\<lparr>mvm := s\<rparr>, kfd := (kfd (k\<lparr>km := (km k)\<lparr>mvm := s\<rparr>\<rparr>))\<lparr>fvfs := v\<rparr>\<rparr>))) = Inr (r, k') \<and>
    mvm (km k') = s \<and> ram (km k') = ram (km k) \<and> kfd k' = (kfd k)\<lparr>fvfs := v\<rparr> \<and> fds ((kfd k)\<lparr>fvfs := v\<rparr>) a = Some e"
    using w o by (simp add: fd_open_at_def)
qed

lemma syscall_read_ok:
  assumes o: "fd_open_at (kfd k) t (unat fd) a e" and u: "user_range (km k) pdir ptr len"
    and w: "fs_read (fvfs (kfd k)) (fd_node e) (fd_seek e) len = Inr (r, bytes)" "length bytes \<le> unat len"
  shows "\<exists>k'. syscall_read t pdir fd ptr len k = Inr (r, k') \<and>
    ram (km k') = put_bytes (\<lambda>i. uaddr (mvm (km k)) pdir (ptr + of_nat i)) bytes (length bytes) (ram (km k)) \<and>
    restored (mvm (km k)) (mvm (km k')) \<and>
    kfd k' = (if r \<noteq> -1 then set_fd a (Some (e\<lparr>fd_seek := fd_seek e + r\<rparr>)) (kfd k) else kfd k)"
proof -
  let ?a = "\<lambda>i. uaddr (mvm (km k)) pdir (ptr + of_nat i)"
  have rg: "range_ok ptr (unat len)" using u by (simp add: user_range_def)
  have st: "store_bytes (kpg b + (ptr AND 0xFFF)) bytes ((km k)\<lparr>mvm := s\<rparr>) =
      Inr ((km k)\<lparr>mvm := s, ram := put_bytes ?a bytes (length bytes) (ram (km k))\<rparr>)"
    if m: "mapped (mvm (km k)) pdir ptr (size_in_blocks ptr len) b s" and nz: "kpg b + (ptr AND 0xFFF) \<noteq> 0" for b s
  proof (cases "bytes = []")
    case True
    then show ?thesis by (simp add: store_bytes_def put_bytes_def)
  next
    case False
    have "kpage s (kpg b + (ptr AND 0xFFF) + of_nat i) AND PAGE_PRESENT \<noteq> 0 \<and> kaddr s (kpg b + (ptr AND 0xFFF) + of_nat i) = ?a i"
      if "i < length bytes" for i using mapped_byte [OF m, of i] blocks_cover(3) [OF rg] that w(2) by simp
    then show ?thesis using kwrite_ok [OF nz False, of "(km k)\<lparr>mvm := s\<rparr>" ?a] False by (simp add: store_bytes_def)
  qed
  have t0: "t \<noteq> 0" using o by (simp add: fd_open_at_def)
  have "\<exists>k'. fd_io t pdir fd ptr len (\<lambda>kptr2 e k. kbind (fs_read (fvfs (kfd k)) (fd_node e) (fd_seek e) len) (\<lambda>(r, bytes).
             kbind (store_bytes kptr2 bytes (km k)) (\<lambda>m. Inr (r, k\<lparr>km := m\<rparr>)))) k = Inr (r, k') \<and>
      ram (km k') = put_bytes ?a bytes (length bytes) (ram (km k)) \<and> restored (mvm (km k)) (mvm (km k')) \<and>
      kfd k' = (if r \<noteq> -1 then set_fd a (Some (e\<lparr>fd_seek := fd_seek e + r\<rparr>)) (kfd k) else kfd k)"
    by (rule fd_io_ok [OF o u]) (use st w o in \<open>simp add: fd_open_at_def\<close>)
  then show ?thesis using t0 by (simp add: syscall_read_def)
qed

lemma user_range_restored:
  assumes "user_range m pdir ptr n" "restored (mvm m) (mvm m')"
  shows "user_range m' pdir ptr n" "uaddr (mvm m') pdir = uaddr (mvm m) pdir"
proof -
  have u: "udir_ok (mvm m) pdir" using assms(1) by (simp add: user_range_def)
  note r = restored_user [OF assms(2) u]
  show "user_range m' pdir ptr n" using assms r by (simp add: user_range_def restored_def user_pages_ok_def)
  show "uaddr (mvm m') pdir = uaddr (mvm m) pdir" unfolding uaddr_def using r by simp
qed

lemma fd_open_at_seek:
  assumes "fd_open_at s t i a e" "fdts s' = fdts s" "fds s' = (fds s)(a \<mapsto> e')" "fd_node e' = fd_node e"
  shows "fd_open_at s' t i a e'"
proof -
  have g: "fd_table_get t i s' = fd_table_get t i s" by (simp add: fd_table_get_def assms(2))
  have a: "fd_table_get t i s = Inr a" "a \<noteq> 0" "t \<noteq> 0" "fd_node e \<noteq> 0"
    using assms(1) by (auto simp: fd_open_at_def fd_of_def split: if_splits)
  then show ?thesis using assms(3,4) by (simp add: fd_open_at_def fd_of_def g)
qed

lemma lseek_ok:
  "fd_open_at s t (unat fd) a e \<Longrightarrow> syscall_lseek t fd off 0 s = Inr (0, set_fd a (Some (e\<lparr>fd_seek := off\<rparr>)) s)"
  by (simp add: syscall_lseek_def fd_open_at_def)

lemma put_bytes_read:
  assumes "inj_on (\<lambda>i. uaddr (mvm m) pdir (ptr + of_nat i)) {0..<length bytes}" "uaddr (mvm m') pdir = uaddr (mvm m) pdir"
    "ram m' = put_bytes (\<lambda>i. uaddr (mvm m) pdir (ptr + of_nat i)) bytes (length bytes) r"
  shows "user_bytes m' pdir ptr (length bytes) = bytes"
  unfolding user_bytes_def assms(2,3) by (rule nth_equalityI) (use put_bytes_at [OF assms(1)] in simp_all)


text \<open>A process with a file open as descriptor 0, and one page of memory at 0x2000.\<close>

definition ex_call :: kstate where
  "ex_call = \<lparr>km = ex_mach (\<lambda>x. if x = 0x5001 then 8 else 7),
     kfd = \<lparr>fvfs = ex_files, fds = [2 \<mapsto> \<lparr>fd_node = 1, fd_seek = 0, fd_refcount = 1\<rparr>],
       fdts = [1 \<mapsto> \<lparr>ft_entries = Some (2 # replicate 15 0), ft_length = 1, ft_capacity = 16, ft_refcount = 1\<rparr>], f_next = 3\<rparr>\<rparr>"

lemma ex_call_fd: "fd_open_at (kfd ex_call) 1 (unat (0 :: u32)) 2 \<lparr>fd_node = 1, fd_seek = 0, fd_refcount = 1\<rparr>"
  by (simp add: fd_open_at_def fd_of_def fd_table_get_def entry_at_def ex_call_def)

lemma ex_call_range: "user_range (km ex_call) 128 0x2000 2" "user_range (km ex_call) 128 0x2100 2"
proof -
  have b: "size_in_blocks 0x2000 2 = 1" "size_in_blocks 0x2100 2 = 1" by (simp_all add: size_in_blocks_def)
  have "user_pages_ok (mvm (ex_mach r)) 128 0x2100 1" for r
    using ex_upage by (simp add: user_pages_ok_def user_page_ok_def kpg_def PAGE_PRESENT_def PAGE_READWRITE_def PAGE_USER_def)
  then show "user_range (km ex_call) 128 0x2000 2" "user_range (km ex_call) 128 0x2100 2"
    using ex_mach_kernel(1) ex_mach_udir ex_mach_room ex_pages_ok
    unfolding user_range_def b by (simp_all add: range_ok_def ex_call_def)
qed

lemma ex_call_inj: "inj_on (\<lambda>i. uaddr (mvm (km ex_call)) 128 (0x2100 + of_nat i)) {0..<2}"
proof -
  have "uaddr (mvm (ex_mach r)) 128 0x2100 = 0x5100" "uaddr (mvm (ex_mach r)) 128 0x2101 = 0x5101" for r
    using ex_user_page(2) [of "0x100" r] ex_user_page(2) [of "0x101" r] by simp_all
  then show ?thesis by (auto simp: inj_on_def less_2_cases_iff ex_call_def)
qed


end
