(* ===== verification/Aspace.thy ===== *)
theory Aspace
  imports Usercopy
begin

text \<open>
  Address spaces: kernel stacks (src/kernel/task.c, lines 14 to 67), the regions every process shares
  with the kernel, the copy of an address space for \<open>clone\<close> and its release (src/kernel/process.c,
  lines 208 to 322 and 537 to 606), and \<open>mmap\<close> and \<open>munmap\<close> of anonymous memory (src/kernel/syscall.c,
  lines 657 to 747). The state is that of the access to user memory: page tables with the physical
  allocator, and the physical memory. The bounds of the shared sections come from the linker and
  are parameters.
\<close>

definition KSTACK_SIZE :: nat where "KSTACK_SIZE = 8"

section \<open>On the machine\<close>

text \<open>Operations of the memory managers, and \<open>map_page\<close> with \<open>invalidate_page\<close> at a kernel address.\<close>

definition kmap_inv :: "u32 \<Rightarrow> u32 \<Rightarrow> u32 \<Rightarrow> vmm \<Rightarrow> vmm res" where
  "kmap_inv v p f s = kbind (kmap v p f s) (\<lambda>s. kbind (invalidate_page v) (\<lambda>_. Inr s))"

definition alloc_block :: "vmm \<Rightarrow> (u32 \<times> vmm) res" where
  "alloc_block s = kbind (pmm_alloc_blocks_safe (vpm s) 1) (\<lambda>(phys, p). Inr (phys, s\<lparr>vpm := p\<rparr>))"

definition free_block :: "u32 \<Rightarrow> vmm \<Rightarrow> vmm res" where
  "free_block phys s = kbind (pmm_free_blocks (vpm s) phys 1) (\<lambda>p. Inr (s\<lparr>vpm := p\<rparr>))"

text \<open>\<open>memset(v, 0, BLOCK_SIZE)\<close> and \<open>memcpy(d, s, BLOCK_SIZE)\<close> at kernel addresses.\<close>

definition zero_page :: "u32 \<Rightarrow> machine \<Rightarrow> machine res" where
  "zero_page v = kwrite v (replicate BLOCK_SIZE 0)"

definition copy_page :: "u32 \<Rightarrow> u32 \<Rightarrow> machine \<Rightarrow> machine res" where
  "copy_page d v m = kbind (kread m v BLOCK_SIZE) (\<lambda>bytes. kwrite d bytes m)"

section \<open>Kernel stacks\<close>

text \<open>The value returned is the new \<open>task->kstack\<close>.\<close>

definition ka_page :: "u32 \<Rightarrow> nat \<Rightarrow> machine \<Rightarrow> machine res" where
  "ka_page kstack i m =
     kbind (alloc_block (mvm m)) (\<lambda>(phys, s).
     kbind (kmap_inv (kstack + kpg i) phys (PAGE_PRESENT OR PAGE_READWRITE) s) (\<lambda>s.
     zero_page (kstack + kpg i) (m\<lparr>mvm := s\<rparr>)))"

definition task_kstack_alloc :: "machine \<Rightarrow> (u32 \<times> machine) res" where
  "task_kstack_alloc m =
     kbind (find_vspace (kernel_directory (mvm m)) KSTACK_SIZE (mvm m)) (\<lambda>(kstack, s).
     kbind (kassert (kstack \<noteq> 0)) (\<lambda>_.
     kbind (kmap_inv kstack PAGE_VALUE_GUARD 0 s) (\<lambda>s.
     kbind (kfor (ka_page (kstack + kpg 1)) [0..<KSTACK_SIZE - 2] (m\<lparr>mvm := s\<rparr>)) (\<lambda>m.
     let kstack = kstack + kpg 1 + kpg (KSTACK_SIZE - 2)
     in kbind (kmap_inv kstack PAGE_VALUE_GUARD 0 (mvm m)) (\<lambda>s. Inr (kstack, m\<lparr>mvm := s\<rparr>))))))"

text \<open>\<open>get_page(get_table_alloc(v, d), v)\<close>; the table may be new.\<close>

definition page_alloc :: "u32 \<Rightarrow> u32 \<Rightarrow> vmm \<Rightarrow> (u32 \<times> vmm) res" where
  "page_alloc v d s = kbind (get_table_alloc v d s) (\<lambda>(t, s). kbind (get_page t v s) (\<lambda>p. Inr (p, s)))"

definition map_alloc :: "u32 \<Rightarrow> u32 \<Rightarrow> u32 \<Rightarrow> u32 \<Rightarrow> vmm \<Rightarrow> vmm res" where
  "map_alloc v d p f s = kbind (get_table_alloc v d s) (\<lambda>(t, s). map_page t v p f s)"

definition kf_unmap :: "(u32 \<Rightarrow> bool) \<Rightarrow> u32 \<Rightarrow> vmm \<Rightarrow> (u32 \<times> vmm) res" where
  "kf_unmap P v s =
     kbind (page_alloc v (kernel_directory s) s) (\<lambda>(p, s).
     kbind (kassert (P p)) (\<lambda>_.
     kbind (map_alloc v (kernel_directory s) 0 0 s) (\<lambda>s.
     kbind (invalidate_page v) (\<lambda>_. Inr (p, s)))))"

definition kf_page :: "u32 \<Rightarrow> nat \<Rightarrow> vmm \<Rightarrow> vmm res" where
  "kf_page kstack i s =
     kbind (kf_unmap (\<lambda>p. p AND PAGE_PRESENT \<noteq> 0) (kstack - kpg i) s) (\<lambda>(p, s). free_block (p AND NOT 0xFFF) s)"

definition task_kstack_free :: "u32 \<Rightarrow> vmm \<Rightarrow> vmm res" where
  "task_kstack_free kstack s =
     kbind (kassert (kstack \<noteq> 0)) (\<lambda>_.
     kbind (kf_unmap (\<lambda>p. p = PAGE_VALUE_GUARD) kstack s) (\<lambda>(_, s).
     kbind (kfor (kf_page (kstack - kpg 1)) [0..<KSTACK_SIZE - 2] s) (\<lambda>s.
     kbind (kf_unmap (\<lambda>p. p = PAGE_VALUE_GUARD) (kstack - kpg 1 - kpg (KSTACK_SIZE - 2)) s) (\<lambda>(_, s). Inr s))))"

section \<open>Regions of a process\<close>

text \<open>The loops \<open>for (i = 0; i < end - start; i += BLOCK_SIZE)\<close>: the 32-bit counter passes every bound but those of
  the last page, where it wraps around and the loop does not end.\<close>

definition region_for :: "(u32 \<Rightarrow> vmm \<Rightarrow> vmm res) \<Rightarrow> u32 \<Rightarrow> u32 \<Rightarrow> vmm \<Rightarrow> vmm res" where
  "region_for f start stop s =
     (let n = stop - start
      in if 0xFFFFF000 < n then Inl Diverges
         else kfor (\<lambda>i. f (start + kpg i)) [0..<(unat n + 4095) div BLOCK_SIZE] s)"

definition process_map_shared_region :: "u32 \<Rightarrow> u32 \<Rightarrow> u32 \<Rightarrow> u32 \<Rightarrow> vmm \<Rightarrow> vmm res" where
  "process_map_shared_region pdir start stop permissions s =
     kbind (kassert (pdir \<noteq> 0)) (\<lambda>_.
     kbind (kassert (start AND 0xFFF = 0)) (\<lambda>_.
     region_for (\<lambda>v. map_alloc v pdir v permissions) start stop s))"

definition process_unmap_shared_region :: "u32 \<Rightarrow> u32 \<Rightarrow> u32 \<Rightarrow> vmm \<Rightarrow> vmm res" where
  "process_unmap_shared_region pdir start stop s =
     kbind (kassert (pdir \<noteq> 0)) (\<lambda>_.
     kbind (kassert (start AND 0xFFF = 0)) (\<lambda>_.
     region_for (\<lambda>v s. kbind (page_alloc v pdir s) (\<lambda>(p, s).
                       kbind (kassert (v = p AND NOT 0xFFF)) (\<lambda>_. map_alloc v pdir 0 0 s))) start stop s))"

definition process_map_kstack :: "u32 \<Rightarrow> u32 \<Rightarrow> vmm \<Rightarrow> vmm res" where
  "process_map_kstack kstack pdir s =
     kbind (kassert (kstack \<noteq> 0)) (\<lambda>_.
     kfor (\<lambda>i s. let v = kstack - kpg i
                 in kbind (get_table v (kernel_directory s) s) (\<lambda>kt.
                    kbind (get_page kt v s) (\<lambda>page.
                    kbind (kassert (page AND PAGE_USER = 0)) (\<lambda>_.
                    kbind (page_alloc v pdir s) (\<lambda>(p, s).
                    kbind (kassert (p = 0)) (\<lambda>_.
                    kbind (get_table_alloc v pdir s) (\<lambda>(t, s). set_page t v page s)))))))
       [0..<KSTACK_SIZE] s)"

definition process_unmap_kstack :: "u32 \<Rightarrow> u32 \<Rightarrow> vmm \<Rightarrow> vmm res" where
  "process_unmap_kstack kstack pdir s =
     kbind (kassert (kstack \<noteq> 0)) (\<lambda>_.
     kfor (\<lambda>i s. let v = kstack - kpg i
                 in kbind (get_table v (kernel_directory s) s) (\<lambda>kt.
                    kbind (get_page kt v s) (\<lambda>k.
                    kbind (page_alloc v pdir s) (\<lambda>(u, s).
                    kbind (kassert (k AND NOT 0xFFF = u AND NOT 0xFFF)) (\<lambda>_. map_alloc v pdir 0 0 s)))))
       [0..<KSTACK_SIZE] s)"

record shared_sections =
  start_shared_data :: u32
  stop_shared_data :: u32
  start_shared_text :: u32
  stop_shared_text :: u32

definition process_page_directory_map_shared :: "shared_sections \<Rightarrow> u32 \<Rightarrow> vmm \<Rightarrow> vmm res" where
  "process_page_directory_map_shared sh d s =
     kbind (process_map_shared_region d (start_shared_data sh) (stop_shared_data sh) PAGE_PRESENT s) (\<lambda>s.
     process_map_shared_region d (start_shared_text sh) (stop_shared_text sh) PAGE_PRESENT s)"

definition process_page_directory_new :: "shared_sections \<Rightarrow> u32 \<Rightarrow> vmm \<Rightarrow> (u32 \<times> vmm) res" where
  "process_page_directory_new sh a s =
     kbind (page_directory_new a s) (\<lambda>(d, s).
     kbind (kassert (d \<noteq> 0)) (\<lambda>_.
     kbind (process_page_directory_map_shared sh d s) (\<lambda>s. Inr (d, s))))"

text \<open>The clean-up of the last reference: each page of each table is freed, the tables and the directory stay.\<close>

definition pf_page :: "u32 \<Rightarrow> ix \<Rightarrow> vmm \<Rightarrow> vmm res" where
  "pf_page t j s =
     kbind (ld_tab s t) (\<lambda>pt.
       if pt j = 0 then Inr s
       else if pt j AND (PAGE_PRESENT OR PAGE_USER) \<noteq> 0
       then kbind (free_block (pt j AND NOT 0xFFF) s) (\<lambda>s. Inr (s\<lparr>ptabs := (ptabs s)(t \<mapsto> pt(j := 0))\<rparr>))
       else Inl AssertFailed)"

definition pf_table :: "u32 \<Rightarrow> ix \<Rightarrow> vmm \<Rightarrow> vmm res" where
  "pf_table d i s =
     kbind (ld_dir s d) (\<lambda>pd.
       if pd_entries pd i AND PAGE_PRESENT \<noteq> 0
       then kbind (kassert (pd_tables pd i \<noteq> 0)) (\<lambda>_. kfor (pf_page (pd_tables pd i)) ixs s)
       else kbind (kassert (pd_tables pd i = 0)) (\<lambda>_. Inr s))"

definition process_page_directory_free :: "shared_sections \<Rightarrow> u32 \<Rightarrow> vmm \<Rightarrow> vmm res" where
  "process_page_directory_free sh d s =
     kbind (ld_dir s d) (\<lambda>pd.
       if pd_refcount pd \<noteq> 1 then page_directory_release d s
       else kbind (process_unmap_shared_region d (start_shared_data sh) (stop_shared_data sh) s) (\<lambda>s.
            kbind (process_unmap_shared_region d (start_shared_text sh) (stop_shared_text sh) s) (\<lambda>s.
            kfor (pf_table d) ixs s)))"

section \<open>Copying an address space\<close>

definition user_entry :: "u32 \<Rightarrow> bool" where
  "user_entry p \<longleftrightarrow> p AND PAGE_PRESENT \<noteq> 0 \<and> p AND PAGE_USER \<noteq> 0"

definition ct_entry :: "u32 \<Rightarrow> u32 \<Rightarrow> u32 \<Rightarrow> u32 \<Rightarrow> ix \<Rightarrow> machine \<Rightarrow> machine res" where
  "ct_entry new old oldkv newkv i m =
     kbind (ld_tab (mvm m) old) (\<lambda>po.
     let page = po i
     in if page = 0 then Inr m
        else if page = PAGE_VALUE_GUARD then Inr m
        else if page = PAGE_VALUE_RESERVED then Inl AssertFailed
        else if page AND PAGE_PRESENT \<noteq> 0 \<and> page AND PAGE_USER = 0 then Inr m
        else if user_entry page
        then kbind (ld_tab (mvm m) new) (\<lambda>pn.
             kbind (kassert (pn i = 0)) (\<lambda>_.
             kbind (alloc_block (mvm m)) (\<lambda>(newphys, s).
             kbind (kmap_inv oldkv (page AND NOT 0x3FF) (PAGE_PRESENT OR PAGE_READWRITE) s) (\<lambda>s.
             kbind (kmap_inv newkv newphys (PAGE_PRESENT OR PAGE_READWRITE) s) (\<lambda>s.
             kbind (copy_page newkv oldkv (m\<lparr>mvm := s\<rparr>)) (\<lambda>m.
             kbind (ld_tab (mvm m) new) (\<lambda>pn.
             Inr (m\<lparr>mvm := (mvm m)\<lparr>ptabs := (ptabs (mvm m))(new \<mapsto> pn(i := newphys OR (page AND 0x3FF)))\<rparr>\<rparr>))))))))
        else Inl AssertFailed)"

definition page_directory_clone_table :: "u32 \<Rightarrow> u32 \<Rightarrow> machine \<Rightarrow> machine res" where
  "page_directory_clone_table new old m =
     kbind (kassert (old \<noteq> 0)) (\<lambda>_.
     kbind (kassert (new \<noteq> 0)) (\<lambda>_.
     kbind (find_vspace (kernel_directory (mvm m)) 1 (mvm m)) (\<lambda>(oldkv, s).
     kbind (kassert (oldkv \<noteq> 0)) (\<lambda>_.
     kbind (find_vspace (kernel_directory s) 1 s) (\<lambda>(newkv, s).
     kbind (kassert (newkv \<noteq> 0)) (\<lambda>_.
     kbind (kfor (ct_entry new old oldkv newkv) ixs (m\<lparr>mvm := s\<rparr>)) (\<lambda>m.
     kbind (kmap_inv oldkv 0 0 (mvm m)) (\<lambda>s.
     kbind (kmap_inv newkv 0 0 s) (\<lambda>s. Inr (m\<lparr>mvm := s\<rparr>))))))))))"

definition cd_table :: "u32 \<Rightarrow> u32 \<Rightarrow> ix \<Rightarrow> machine \<Rightarrow> machine res" where
  "cd_table newd oldd i m =
     kbind (ld_dir (mvm m) oldd) (\<lambda>pd.
       if pd_entries pd i AND PAGE_PRESENT = 0
       then if pd_entries pd i = 0 then Inr m else Inl AssertFailed
       else kbind (get_table_alloc (push_bit 22 (ucast i)) newd (mvm m)) (\<lambda>(newtable, s).
            page_directory_clone_table newtable (pd_tables pd i) (m\<lparr>mvm := s\<rparr>)))"

definition page_directory_clone :: "u32 \<Rightarrow> u32 \<Rightarrow> machine \<Rightarrow> machine res" where
  "page_directory_clone newd oldd m =
     kbind (kassert (oldd \<noteq> 0)) (\<lambda>_.
     kbind (kassert (newd \<noteq> 0)) (\<lambda>_. kfor (cd_table newd oldd) ixs m))"

section \<open>Anonymous memory\<close>

definition mmap_prot :: "u32 \<Rightarrow> u32" where
  "mmap_prot edx = (if edx = 3 then PAGE_PRESENT OR PAGE_USER OR PAGE_READWRITE else PAGE_PRESENT OR PAGE_USER)"

definition ma_page :: "u32 \<Rightarrow> u32 \<Rightarrow> u32 \<Rightarrow> u32 \<Rightarrow> nat \<Rightarrow> machine \<Rightarrow> machine res" where
  "ma_page pdir addr' kptr prot i m =
     (let v = addr' + kpg i
      in kbind (alloc_block (mvm m)) (\<lambda>(block, s).
         kbind (get_table v pdir s) (\<lambda>t.
         kbind (get_page t v s) (\<lambda>p.
         kbind (kassert (p = PAGE_VALUE_RESERVED)) (\<lambda>_.
         kbind (kmap kptr block (PAGE_PRESENT OR PAGE_READWRITE) s) (\<lambda>s.
         kbind (zero_page kptr (m\<lparr>mvm := s\<rparr>)) (\<lambda>m.
         kbind (kmap_inv kptr 0 0 (mvm m)) (\<lambda>s.
         kbind (get_table v pdir s) (\<lambda>t.
         kbind (map_page t v block prot s) (\<lambda>s. Inr (m\<lparr>mvm := s\<rparr>)))))))))))"

definition syscall_mmap_anon :: "u32 \<Rightarrow> u32 \<Rightarrow> u32 \<Rightarrow> u32 \<Rightarrow> machine \<Rightarrow> (u32 \<times> machine) res" where
  "syscall_mmap_anon pdir ebx ecx edx m =
     (if of_nat (BLOCK_SIZE * 300) < ecx then Inr (-1, m)
      else let len = unat ecx div BLOCK_SIZE
           in kbind (if ebx = 0 then find_vspace pdir len (mvm m) else Inr (ebx, mvm m)) (\<lambda>(addr', s).
              kbind (find_vspace (kernel_directory s) 1 s) (\<lambda>(kptr, s).
              kbind (kassert (kptr \<noteq> 0)) (\<lambda>_.
              kbind (kfor (ma_page pdir addr' kptr (mmap_prot edx)) [0..<len] (m\<lparr>mvm := s\<rparr>)) (\<lambda>m. Inr (addr', m))))))"

text \<open>The length is rounded to one or two pages, and \<open>i\<close>, not \<open>addr + i\<close>, is the address in the loop.\<close>

definition mu_page :: "u32 \<Rightarrow> nat \<Rightarrow> vmm \<Rightarrow> vmm res" where
  "mu_page pdir i s =
     (let v = kpg i
      in kbind (get_table v pdir s) (\<lambda>t.
         kbind (get_page t v s) (\<lambda>p.
           if p = 0 then Inr s
           else if p AND PAGE_USER \<noteq> 0
           then kbind (free_block (p AND NOT 0xFFF) s) (\<lambda>s.
                kbind (get_table v pdir s) (\<lambda>t. map_page t v 0 0 s))
           else Inl AssertFailed)))"

definition syscall_munmap :: "u32 \<Rightarrow> u32 \<Rightarrow> u32 \<Rightarrow> vmm \<Rightarrow> (u32 \<times> vmm) res" where
  "syscall_munmap pdir addr' len s =
     (if addr' AND 0xFFF \<noteq> 0 then Inr (-1, s)
      else if len = 0 then Inr (-1, s)
      else let len = (if len AND 0xFFF \<noteq> 0 then (len AND 0xFFF) + 0x1000 else len)
           in kbind (kfor (mu_page pdir) [0..<(unat len + 4095) div BLOCK_SIZE] s) (\<lambda>s. Inr (0, s)))"

end
