(* ===== verification/Aspace_Props.thy ===== *)
theory Aspace_Props
  imports Aspace Usercopy_Props
begin

text \<open>
  What kernel stacks and the copy of an address space guarantee: exactly the pages asked for are
  mapped, to blocks that no one else uses, and everything else is left as it was.
\<close>

section \<open>Blocks\<close>

text \<open>The free blocks that a search for one block looks at, and that there are \<open>n\<close> of them.\<close>

definition avail :: "pmm \<Rightarrow> nat set" where
  "avail p = {b. b < block_map_size p div 32 * 32 \<and> b \<notin> pmm_used p}"

definition blocks_left :: "nat \<Rightarrow> pmm \<Rightarrow> bool" where
  "blocks_left n p \<longleftrightarrow> pmm_wf p \<and> 0 \<in> pmm_used p \<and> n \<le> card (avail p)"

lemma finite_avail: "finite (avail p)"
  by (simp add: avail_def)

lemma alloc_block_ok:
  assumes "blocks_left (Suc n) (vpm s)"
  shows "\<exists>b p. alloc_block s = Inr (kpg b, s\<lparr>vpm := p\<rparr>) \<and> b \<noteq> 0 \<and> b < 2 ^ 20 \<and> b < block_map_size (vpm s) \<and> b \<notin> pmm_used (vpm s) \<and>
    pmm_used p = insert b (pmm_used (vpm s)) \<and> block_map_size p = block_map_size (vpm s) \<and> blocks_left n p"
proof -
  let ?m = "vpm s"
  have wf: "pmm_wf ?m" and z: "0 \<in> pmm_used ?m" and c: "Suc n \<le> card (avail ?m)" using assms by (auto simp: blocks_left_def)
  obtain x where "x \<in> avail ?m" using c by (metis card.empty ex_in_conv not_less_eq_eq zero_le)
  then obtain ph p c where a: "pmm_alloc_blocks ?m 1 = Inr (ph, p)" "unat ph = c * BLOCK_SIZE" "c \<notin> pmm_used ?m"
    using pmm_alloc_one_lowest [OF wf z, of x] unfolding avail_def by blast
  have "c \<noteq> 0" using a(3) z by metis
  then have "ph \<noteq> 0" using a(2) by (auto simp: BLOCK_SIZE_def)
  then have s: "pmm_alloc_blocks_safe ?m 1 = Inr (ph, p)" using a by (simp add: pmm_alloc_blocks_safe_def)
  obtain b where b: "unat ph = b * BLOCK_SIZE" "b \<notin> pmm_used ?m" "b < block_map_size ?m" "pmm_used p = insert b (pmm_used ?m)"
    "pmm_wf p" "block_map_size p = block_map_size ?m" using alloc_one [OF wf s] by blast
  have ph: "ph = kpg b" using arg_cong [OF b(1), of "of_nat :: nat \<Rightarrow> u32"] by (simp add: kpg_def)
  have "avail ?m \<subseteq> insert b (avail p)" using b(4,6) by (auto simp: avail_def)
  then have "card (avail ?m) \<le> card (insert b (avail p))" using finite_avail by (intro card_mono) auto
  also have "\<dots> \<le> Suc (card (avail p))" by (rule card_insert_le_m1) simp_all
  finally have "blocks_left n p" using c b(4,5) z by (simp add: blocks_left_def)
  moreover have "b < 2 ^ 20" using b(3) wf by (simp add: pmm_wf_def)
  moreover have "b \<noteq> 0" using b(2) z by metis
  ultimately show ?thesis using s b ph by (intro exI [of _ b] exI [of _ p]) (simp add: alloc_block_def)
qed

lemma free_block_ok:
  assumes "pmm_wf (vpm s)" "b < block_map_size (vpm s)"
  shows "\<exists>p. free_block (kpg b) s = Inr (s\<lparr>vpm := p\<rparr>) \<and> pmm_used p = pmm_used (vpm s) - {b} \<and> pmm_wf p \<and>
    block_map_size p = block_map_size (vpm s)"
proof -
  have b: "b < 2 ^ 20" using assms by (simp add: pmm_wf_def)
  have u: "unat (kpg b) = b * BLOCK_SIZE" using unat_page [of b] b unfolding kpg_def by (simp add: BLOCK_SIZE_def)
  obtain p where p: "kfor (\<lambda>i s. pmm_unset_block s (b + i)) [0..<1] (vpm s) = Inr p" "pmm_wf p" "pmm_used p = pmm_used (vpm s) - {b..<b + 1}"
    "block_map_size p = block_map_size (vpm s)"
    using blocks.unset_range_used [OF assms(1), of b 1] assms(2) by auto
  have "pmm_free_blocks (vpm s) (kpg b) 1 = Inr p" using p(1) u by (simp add: pmm_free_blocks_def Let_def BLOCK_SIZE_def)
  then show ?thesis using p by (intro exI [of _ p]) (simp add: free_block_def)
qed

section \<open>Kernel pages\<close>

text \<open>A step that changes kernel mappings and the physical allocator only.\<close>

definition kframe :: "vmm \<Rightarrow> vmm \<Rightarrow> bool" where
  "kframe s s' \<longleftrightarrow> kdir_wf s' \<and> ktab_frame (s\<lparr>vpm := vpm s'\<rparr>) s'"

lemma ktab_frame_vpm: "ktab_frame s s' \<Longrightarrow> ktab_frame (s\<lparr>vpm := p\<rparr>) (s'\<lparr>vpm := p\<rparr>)"
  by (cases s, cases s') (simp add: ktab_frame_def)

lemma kframe_refl: "kdir_wf s \<Longrightarrow> kframe s s"
  by (simp add: kframe_def)

lemma kframe_trans: "kframe s t \<Longrightarrow> kframe t u \<Longrightarrow> kframe s u"
  unfolding kframe_def using ktab_frame_vpm [of "s\<lparr>vpm := vpm t\<rparr>" t "vpm u"] ktab_frame_trans by fastforce

lemma kframe_tab: "ktab_frame s s' \<Longrightarrow> kdir_wf s' \<Longrightarrow> kframe s s'"
  using ktab_frame_simps(1) [of s s'] by (simp add: kframe_def)

lemma kdir_wf_vpm [simp]: "kdir_wf (s\<lparr>vpm := p\<rparr>) = kdir_wf s"
  by (rule kdir_wf_cong) simp_all

lemma kpage_vpm [simp]: "kpage (s\<lparr>vpm := p\<rparr>) = kpage s"
  by (rule kpage_cong) simp_all

lemma kframe_vpm: "kdir_wf s \<Longrightarrow> kframe s (s\<lparr>vpm := p\<rparr>)"
  by (simp add: kframe_def)

lemma kframe_wf: "kframe s s' \<Longrightarrow> kdir_wf s'"
  by (simp add: kframe_def)

lemma kmap_inv_ok:
  assumes "kdir_wf s"
  shows "\<exists>s'. kmap_inv (kpg j) p f s = Inr s' \<and> kframe s s' \<and> vpm s' = vpm s \<and>
    (\<forall>w. kpage s' w = (if pn w = pn (kpg j) then p OR f else kpage s w))"
proof -
  obtain s' where "kmap (kpg j) p f s = Inr s'" "kdir_wf s'" "ktab_frame s s'"
    "\<forall>w. kpage s' w = (if pn w = pn (kpg j) then p OR f else kpage s w)" using kmap_page [OF assms] by blast
  then show ?thesis using kframe_tab ktab_frame_simps(1) by (auto simp: kmap_inv_def)
qed

text \<open>The bytes of a page that is mapped at the kernel page \<open>j\<close>.\<close>

lemma page_byte:
  assumes "kpage s (kpg j) = p OR (PAGE_PRESENT OR PAGE_READWRITE)" "i < 4096"
  shows "kpage s (kpg j + of_nat i) AND PAGE_PRESENT \<noteq> 0 \<and> kaddr s (kpg j + of_nat i) = (p AND NOT 0xFFF) + of_nat i"
proof -
  have "kpage s (kpg j + of_nat i) = kpage s (kpg j)" using addr_split(1) [of j i] assms(2) by (intro kpage_pn) simp
  moreover have "(kpg j + of_nat i) AND 0xFFF = (of_nat i :: u32)" using addr_split(2) [of j i] assms(2) by simp
  ultimately show ?thesis using assms(1) flags_present [of p] flags_off [of p] by (simp only: kaddr_def) simp
qed

lemma aligned_base: "(p :: u32) AND 0xFFF = 0 \<Longrightarrow> p AND NOT 0xFFF = p"
  using page_offset [of p] page_base [of p] by simp

lemma kpg_base: "kpg b AND NOT 0xFFF = kpg b"
  by (rule aligned_base [OF kpg_aligned(1)])

lemma zero_page_ok:
  assumes "kpage (mvm m) (kpg j) = kpg b OR (PAGE_PRESENT OR PAGE_READWRITE)" "kpg j \<noteq> 0"
  shows "zero_page (kpg j) m = Inr (m\<lparr>ram := put_bytes (\<lambda>i. kpg b + of_nat i) (replicate 4096 0) 4096 (ram m)\<rparr>)"
proof -
  note kb = kpg_base [of b]
  have b: "kpage (mvm m) (kpg j + of_nat i) AND PAGE_PRESENT \<noteq> 0 \<and> kaddr (mvm m) (kpg j + of_nat i) = kpg b + of_nat i"
    if "i < length (replicate 4096 (0 :: u8))" for i using page_byte [OF assms(1), of i] that unfolding kb by simp
  have "replicate 4096 (0 :: u8) \<noteq> []" by simp
  from kwrite_ok [OF assms(2) this b] show ?thesis unfolding zero_page_def BLOCK_SIZE_def by simp
qed

section \<open>Kernel stacks\<close>

lemma in_run_Suc: "in_run c (Suc n) w \<longleftrightarrow> in_run c n w \<or> pn w = pn (kpg (c + n))"
  by (auto simp: in_run_def less_Suc_eq)

lemma kpg_nonzero: "1 \<le> j \<Longrightarrow> j < 2 ^ 20 \<Longrightarrow> kpg j \<noteq> 0"
  using unat_page [of j] unfolding kpg_def [symmetric] by auto

lemma block_bytes_apart: "b \<noteq> c \<Longrightarrow> b < 2 ^ 20 \<Longrightarrow> c < 2 ^ 20 \<Longrightarrow> i < 4096 \<Longrightarrow> j < 4096 \<Longrightarrow> kpg b + of_nat i \<noteq> kpg c + of_nat j"
  using addr_split(1) [of b i] addr_split(1) [of c j] kpg_eq [of b c] by auto

text \<open>\<open>stack_pages c bs s\<close>: the kernel pages from \<open>c\<close> on are mapped to the blocks \<open>bs\<close>.\<close>

definition stack_pages :: "nat \<Rightarrow> nat list \<Rightarrow> vmm \<Rightarrow> bool" where
  "stack_pages c bs s \<longleftrightarrow> (\<forall>j<length bs. kpage s (kpg (c + j)) = kpg (bs ! j) OR (PAGE_PRESENT OR PAGE_READWRITE))"

definition fresh_blocks :: "nat list \<Rightarrow> pmm \<Rightarrow> pmm \<Rightarrow> bool" where
  "fresh_blocks bs p p' \<longleftrightarrow> distinct bs \<and> set bs \<inter> pmm_used p = {} \<and> (\<forall>b\<in>set bs. b < block_map_size p \<and> b < 2 ^ 20) \<and>
     pmm_used p' = pmm_used p \<union> set bs \<and> block_map_size p' = block_map_size p"

definition zeroed :: "nat list \<Rightarrow> (u32 \<Rightarrow> u8) \<Rightarrow> bool" where
  "zeroed bs r \<longleftrightarrow> (\<forall>b\<in>set bs. \<forall>i<4096. r (kpg b + of_nat i) = 0)"

lemma block_inj: "inj_on (\<lambda>i. kpg b + of_nat i) {0..<4096}"
proof (rule inj_onI)
  fix i j assume ij: "i \<in> {0..<4096}" "j \<in> {0..<4096 :: nat}" "kpg b + of_nat i = kpg b + of_nat j"
  then have "unat (of_nat i :: u32) = unat (of_nat j :: u32)" by simp
  then show "i = j" using ij(1,2) by (simp add: unat_of_nat)
qed

lemma zeroed_more:
  assumes "zeroed bs r" "\<forall>b\<in>set bs. b < 2 ^ 20" "b \<notin> set bs" "b < 2 ^ 20"
  shows "zeroed (bs @ [b]) (put_bytes (\<lambda>i. kpg b + of_nat i) (replicate 4096 0) 4096 r)"
  unfolding zeroed_def
proof (intro ballI allI impI)
  fix c i
  assume c: "c \<in> set (bs @ [b])" and i: "i < (4096 :: nat)"
  show "put_bytes (\<lambda>i. kpg b + of_nat i) (replicate 4096 0) 4096 r (kpg c + of_nat i) = 0"
  proof (cases "c = b")
    case True
    then show ?thesis using put_bytes_at [OF block_inj i, of b "replicate 4096 0" r] i unfolding True by (simp only: nth_replicate)
  next
    case False
    then have cs: "c \<in> set bs" using c by simp
    then have "c < 2 ^ 20" using assms(2) by blast
    then have "kpg b + of_nat j \<noteq> kpg c + of_nat i" if "j < 4096" for j
      using block_bytes_apart [of b c j i] False assms(4) that i by blast
    then have "put_bytes (\<lambda>i. kpg b + of_nat i) (replicate 4096 0) 4096 r (kpg c + of_nat i) = r (kpg c + of_nat i)"
      by (rule put_bytes_other)
    then show ?thesis using assms(1) cs i by (simp add: zeroed_def)
  qed
qed

lemma ka_loop:
  assumes "kdir_wf (mvm m)" "blocks_left (n + k) (vpm (mvm m))" "1 \<le> c" "c + n < 2 ^ 20"
  shows "\<exists>m' bs. kfor (ka_page (kpg c)) [0..<n] m = Inr m' \<and> length bs = n \<and> kframe (mvm m) (mvm m') \<and> blocks_left k (vpm (mvm m')) \<and>
    fresh_blocks bs (vpm (mvm m)) (vpm (mvm m')) \<and> stack_pages c bs (mvm m') \<and> zeroed bs (ram m') \<and>
    (\<forall>w. \<not> in_run c n w \<longrightarrow> kpage (mvm m') w = kpage (mvm m) w)"
  using assms
proof (induction n arbitrary: k)
  case 0
  then show ?case by (intro exI [of _ m] exI [of _ "[]"]) (auto simp: kframe_refl fresh_blocks_def stack_pages_def zeroed_def)
next
  case (Suc n)
  obtain m1 bs where m1: "kfor (ka_page (kpg c)) [0..<n] m = Inr m1" "length bs = n" "kframe (mvm m) (mvm m1)" "blocks_left (Suc k) (vpm (mvm m1))"
    "fresh_blocks bs (vpm (mvm m)) (vpm (mvm m1))" "stack_pages c bs (mvm m1)" "zeroed bs (ram m1)"
    "\<forall>w. \<not> in_run c n w \<longrightarrow> kpage (mvm m1) w = kpage (mvm m) w"
    using Suc.IH [of "Suc k"] Suc.prems by auto
  obtain b p where b: "alloc_block (mvm m1) = Inr (kpg b, (mvm m1)\<lparr>vpm := p\<rparr>)" "b < 2 ^ 20" "b < block_map_size (vpm (mvm m1))"
    "b \<notin> pmm_used (vpm (mvm m1))" "pmm_used p = insert b (pmm_used (vpm (mvm m1)))" "block_map_size p = block_map_size (vpm (mvm m1))" "blocks_left k p"
    using alloc_block_ok [OF m1(4)] by blast
  have w1: "kdir_wf ((mvm m1)\<lparr>vpm := p\<rparr>)" using kframe_wf [OF m1(3)] by simp
  obtain s2 where s2: "kmap_inv (kpg (c + n)) (kpg b) (PAGE_PRESENT OR PAGE_READWRITE) ((mvm m1)\<lparr>vpm := p\<rparr>) = Inr s2"
    "kframe ((mvm m1)\<lparr>vpm := p\<rparr>) s2" "vpm s2 = vpm ((mvm m1)\<lparr>vpm := p\<rparr>)"
    "\<forall>w. kpage s2 w = (if pn w = pn (kpg (c + n)) then kpg b OR (PAGE_PRESENT OR PAGE_READWRITE) else kpage (mvm m1) w)"
    using kmap_inv_ok [OF w1, of "c + n" "kpg b" "PAGE_PRESENT OR PAGE_READWRITE", unfolded kpage_vpm] by blast
  let ?r = "put_bytes (\<lambda>i. kpg b + of_nat i) (replicate 4096 0) 4096 (ram m1)"
  let ?m = "m1\<lparr>mvm := s2, ram := ?r\<rparr>"
  have nz: "kpg (c + n) \<noteq> 0" using kpg_nonzero [of "c + n"] Suc.prems(3,4) by simp
  have kp: "kpage s2 (kpg (c + n)) = kpg b OR (PAGE_PRESENT OR PAGE_READWRITE)" using s2(4) by simp
  have z: "zero_page (kpg (c + n)) (m1\<lparr>mvm := s2\<rparr>) = Inr ?m" using zero_page_ok [OF _ nz, of "m1\<lparr>mvm := s2\<rparr>"] kp by simp
  have "ka_page (kpg c) n m1 = Inr ?m" using b(1) s2(1) z by (simp add: ka_page_def kpg_add)
  then have "kfor (ka_page (kpg c)) [0..<Suc n] m = Inr ?m" using m1(1) by (simp add: kfor_append)
  moreover have "kframe (mvm m) s2" using kframe_trans [OF m1(3)] kframe_trans [OF kframe_vpm s2(2)] kframe_wf [OF m1(3)] by blast
  moreover have fb: "fresh_blocks (bs @ [b]) (vpm (mvm m)) p" using m1(5) b(2-6) by (auto simp: fresh_blocks_def)
  moreover have "stack_pages c (bs @ [b]) s2"
    unfolding stack_pages_def
  proof (intro allI impI)
    fix j
    assume "j < length (bs @ [b])"
    then consider "j < n" | "j = n" using m1(2) by fastforce
    then show "kpage s2 (kpg (c + j)) = kpg ((bs @ [b]) ! j) OR (PAGE_PRESENT OR PAGE_READWRITE)"
    proof cases
      case 1
      then have "pn (kpg (c + j)) \<noteq> pn (kpg (c + n))" using kpg_eq [of "c + j" "c + n"] Suc.prems(4) by simp
      then show ?thesis using s2(4) m1(2,6) 1 by (simp add: stack_pages_def nth_append)
    next
      case 2
      then show ?thesis using kp m1(2) by (simp add: nth_append)
    qed
  qed
  moreover have "zeroed (bs @ [b]) ?r"
    by (rule zeroed_more [OF m1(7)]) (use m1(5) b(2,4) in \<open>auto simp: fresh_blocks_def\<close>)
  moreover have "\<forall>w. \<not> in_run c (Suc n) w \<longrightarrow> kpage s2 w = kpage (mvm m) w" using s2(4) m1(8) by (auto simp: in_run_Suc)
  ultimately show ?case using m1(2) s2(3) b(7) by (intro exI [of _ ?m] exI [of _ "bs @ [b]"]) simp
qed

lemma kf_unmap_ok:
  assumes "kdir_wf s" "P (kpage s (kpg j))"
  shows "\<exists>s'. kf_unmap P (kpg j) s = Inr (kpage s (kpg j), s') \<and> kframe s s' \<and> vpm s' = vpm s \<and>
    (\<forall>w. kpage s' w = (if pn w = pn (kpg j) then 0 else kpage s w))"
proof -
  obtain t where t: "kernel_table (kpg j) s = Inr (t, s)" "get_table (kpg j) (kernel_directory s) s = Inr t" "get_page t (kpg j) s = Inr (kpage s (kpg j))"
    using kernel_table_ok [OF assms(1)] by blast
  obtain s' where s': "kmap (kpg j) 0 0 s = Inr s'" "kdir_wf s'" "ktab_frame s s'" "\<forall>w. kpage s' w = (if pn w = pn (kpg j) then 0 OR 0 else kpage s w)"
    using kmap_page [OF assms(1)] by blast
  have "map_page t (kpg j) 0 0 s = Inr s'" using s'(1) t(2) by (simp add: kmap_def)
  then have "kf_unmap P (kpg j) s = Inr (kpage s (kpg j), s')"
    using t assms(2) by (simp add: kf_unmap_def page_alloc_def map_alloc_def kernel_get_table_alloc)
  then show ?thesis using s' kframe_tab ktab_frame_simps(1) by auto
qed

lemma kf_loop:
  assumes "kdir_wf s" "pmm_wf (vpm s)" "stack_pages c bs s" "distinct bs" "\<forall>b\<in>set bs. b < block_map_size (vpm s) \<and> b < 2 ^ 20" "c + length bs < 2 ^ 20"
  shows "\<exists>s'. kfor (kf_page (kpg (c + length bs) - kpg 1)) [0..<length bs] s = Inr s' \<and> kframe s s' \<and> pmm_used (vpm s') = pmm_used (vpm s) - set bs \<and>
    (\<forall>w. kpage s' w = (if in_run c (length bs) w then 0 else kpage s w))"
  using assms
proof (induction bs arbitrary: s rule: rev_induct)
  case Nil
  then show ?case by (auto simp: kframe_refl in_run_def)
next
  case (snoc b bs)
  let ?n = "length bs"
  have kp: "kpage s (kpg (c + ?n)) = kpg b OR (PAGE_PRESENT OR PAGE_READWRITE)" using snoc.prems(3) by (simp add: stack_pages_def nth_append)
  have pr: "kpage s (kpg (c + ?n)) AND PAGE_PRESENT \<noteq> 0" unfolding kp by (rule flags_present)
  obtain s1 where s1: "kf_unmap (\<lambda>p. p AND PAGE_PRESENT \<noteq> 0) (kpg (c + ?n)) s = Inr (kpage s (kpg (c + ?n)), s1)" "kframe s s1" "vpm s1 = vpm s"
    "\<forall>w. kpage s1 w = (if pn w = pn (kpg (c + ?n)) then 0 else kpage s w)"
    using kf_unmap_ok [OF snoc.prems(1), where P = "\<lambda>p. p AND PAGE_PRESENT \<noteq> 0", OF pr] by blast
  have pb: "kpage s (kpg (c + ?n)) AND NOT 0xFFF = kpg b" unfolding kp flags_off by (rule kpg_base)
  obtain p where p: "free_block (kpg b) s1 = Inr (s1\<lparr>vpm := p\<rparr>)" "pmm_used p = pmm_used (vpm s) - {b}" "pmm_wf p" "block_map_size p = block_map_size (vpm s)"
    using free_block_ok [of s1 b] snoc.prems(2,5) s1(3) by auto
  let ?s2 = "s1\<lparr>vpm := p\<rparr>"
  have v0: "kpg (c + length (bs @ [b])) - kpg 1 - kpg 0 = kpg (c + ?n)" by (simp add: kpg_def algebra_simps)
  have first: "kf_page (kpg (c + length (bs @ [b])) - kpg 1) 0 s = Inr ?s2" unfolding kf_page_def v0 using s1(1) p(1) pb by simp
  have later: "kpg (c + length (bs @ [b])) - kpg 1 - kpg (Suc i) = kpg (c + ?n) - kpg 1 - kpg i" for i by (simp add: kpg_def algebra_simps)
  then have step: "(\<lambda>i. kf_page (kpg (c + length (bs @ [b])) - kpg 1) (Suc i)) = kf_page (kpg (c + ?n) - kpg 1)"
    by (intro ext) (simp only: kf_page_def)
  have "stack_pages c bs ?s2"
    unfolding stack_pages_def
  proof (intro allI impI)
    fix j assume j: "j < ?n"
    then have "pn (kpg (c + j)) \<noteq> pn (kpg (c + ?n))" using kpg_eq [of "c + j" "c + ?n"] snoc.prems(6) by simp
    then show "kpage ?s2 (kpg (c + j)) = kpg (bs ! j) OR (PAGE_PRESENT OR PAGE_READWRITE)"
      using s1(4) snoc.prems(3) j by (simp add: stack_pages_def nth_append)
  qed
  then obtain s' where s': "kfor (kf_page (kpg (c + ?n) - kpg 1)) [0..<?n] ?s2 = Inr s'" "kframe ?s2 s'" "pmm_used (vpm s') = pmm_used p - set bs"
    "\<forall>w. kpage s' w = (if in_run c ?n w then 0 else kpage s1 w)"
    using snoc.IH [of ?s2] p snoc.prems(4,5,6) kframe_wf [OF s1(2)] by auto
  have "[0..<length (bs @ [b])] = 0 # map Suc [0..<?n]" by (simp add: map_Suc_upt upt_conv_Cons del: upt_Suc)
  then have "kfor (kf_page (kpg (c + length (bs @ [b])) - kpg 1)) [0..<length (bs @ [b])] s = Inr s'"
    using first s'(1) step by (simp only: kfor.simps kfor_map kbind.simps)
  moreover have "kframe s s'" using kframe_trans [OF s1(2) kframe_trans [OF kframe_vpm s'(2)]] kframe_wf [OF s1(2)] by blast
  moreover have "pmm_used (vpm s') = pmm_used (vpm s) - set (bs @ [b])" using s'(3) p(2) by auto
  moreover have "\<forall>w. kpage s' w = (if in_run c (length (bs @ [b])) w then 0 else kpage s w)" using s'(4) s1(4) by (auto simp: in_run_Suc)
  ultimately show ?case by blast
qed

lemma in_run_first: "in_run b (Suc n) w \<longleftrightarrow> pn w = pn (kpg b) \<or> in_run (b + 1) n w"
  unfolding in_run_def by (simp add: Ex_less_Suc2)

lemma in_run_sub: "in_run (b + i) n w \<Longrightarrow> i + n \<le> k \<Longrightarrow> in_run b k w"
  unfolding in_run_def by (metis add.assoc add_less_mono1 add.commute nat_add_left_cancel_less order_less_le_trans)

lemma guard_outside:
  assumes "b + 8 < 2 ^ 20"
  shows "\<not> in_run (b + 1) 6 (kpg b)"
proof
  assume "in_run (b + 1) 6 (kpg b)"
  then obtain k where "k < 6" "pn (kpg b) = pn (kpg (b + 1 + k))" by (auto simp: in_run_def)
  then show False using kpg_eq [of b "b + 1 + k"] assms by simp
qed

lemma kstack_alloc_ok:
  assumes wf: "kdir_wf (mvm m)" and room: "kernel_room (mvm m) KSTACK_SIZE" and left: "blocks_left 6 (vpm (mvm m))"
  shows "\<exists>b m1 bs. task_kstack_alloc m = Inr (kpg (b + 7), m1) \<and> 1 \<le> b \<and> b + 8 < 2 ^ 20 \<and> length bs = 6 \<and> kframe (mvm m) (mvm m1) \<and>
    pmm_wf (vpm (mvm m1)) \<and> fresh_blocks bs (vpm (mvm m)) (vpm (mvm m1)) \<and> stack_pages (b + 1) bs (mvm m1) \<and> zeroed bs (ram m1) \<and>
    kpage (mvm m1) (kpg b) = PAGE_VALUE_GUARD \<and> kpage (mvm m1) (kpg (b + 7)) = PAGE_VALUE_GUARD \<and>
    (\<forall>w. in_run b 8 w \<longrightarrow> kpage (mvm m) w = 0) \<and> (\<forall>w. \<not> in_run b 8 w \<longrightarrow> kpage (mvm m1) w = kpage (mvm m) w)"
proof -
  let ?s = "mvm m"
  have k8: "KSTACK_SIZE = 8" by (simp add: KSTACK_SIZE_def)
  obtain b s0 where b: "find_vspace (kernel_directory ?s) 8 ?s = Inr (kpg b, s0)" "kpg b \<noteq> 0" "b + 8 < 2 ^ 20"
    "run_frame b 8 ?s s0" "\<forall>w. in_run b 8 w \<longrightarrow> kpage ?s w = 0" using vspace_run [OF wf _ room] unfolding k8 by auto
  have b1: "1 \<le> b" using b(2) by (cases b) (auto simp: kpg_def)
  obtain s1 where s1: "kmap_inv (kpg b) PAGE_VALUE_GUARD 0 s0 = Inr s1" "kframe s0 s1" "vpm s1 = vpm s0"
    "\<forall>w. kpage s1 w = (if pn w = pn (kpg b) then PAGE_VALUE_GUARD OR 0 else kpage s0 w)"
    using kmap_inv_ok [OF run_frame_wf [OF b(4)]] by blast
  have f0: "kframe ?s s0" "vpm s0 = vpm ?s" using b(4) kframe_tab ktab_frame_simps(1) by (auto simp: run_frame_def)
  have left1: "blocks_left (6 + 0) (vpm (mvm (m\<lparr>mvm := s1\<rparr>)))" using left s1(3) f0(2) by simp
  obtain m2 bs where m2: "kfor (ka_page (kpg (b + 1))) [0..<6] (m\<lparr>mvm := s1\<rparr>) = Inr m2" "length bs = 6" "kframe s1 (mvm m2)"
    "fresh_blocks bs (vpm s1) (vpm (mvm m2))" "stack_pages (b + 1) bs (mvm m2)" "zeroed bs (ram m2)" "blocks_left 0 (vpm (mvm m2))"
    "\<forall>w. \<not> in_run (b + 1) 6 w \<longrightarrow> kpage (mvm m2) w = kpage s1 w"
    using ka_loop [OF _ left1, of "b + 1"] kframe_wf [OF s1(2)] b(3) by auto
  obtain s3 where s3: "kmap_inv (kpg (b + 7)) PAGE_VALUE_GUARD 0 (mvm m2) = Inr s3" "kframe (mvm m2) s3" "vpm s3 = vpm (mvm m2)"
    "\<forall>w. kpage s3 w = (if pn w = pn (kpg (b + 7)) then PAGE_VALUE_GUARD OR 0 else kpage (mvm m2) w)"
    using kmap_inv_ok [OF kframe_wf [OF m2(3)]] by blast
  have a: "kpg b + kpg 1 = kpg (b + 1)" "kpg (b + 1) + kpg 6 = kpg (b + 7)" by (simp_all only: kpg_add add.assoc) simp_all
  have alloc: "task_kstack_alloc m = Inr (kpg (b + 7), m2\<lparr>mvm := s3\<rparr>)"
    using b(1,2) s1(1) m2(1) s3(1) a by (simp add: task_kstack_alloc_def k8 Let_def)
  have ne: "pn (kpg (b + j)) \<noteq> pn (kpg (b + i))" if "j < 8" "i < 8" "i \<noteq> j" for i j
    using kpg_eq [of "b + j" "b + i"] b(3) that by simp
  have "kpage s3 (kpg (b + 1 + j)) = kpage (mvm m2) (kpg (b + 1 + j))" if "j < 6" for j
    using s3(4) ne [of "1 + j" 7] that by (simp add: add.assoc)
  then have "stack_pages (b + 1) bs s3" using m2(2,5) by (simp add: stack_pages_def)
  moreover have "kpage s3 (kpg b) = PAGE_VALUE_GUARD" using guard_outside [OF b(3)] s3(4) m2(8) s1(4) ne [of 0 7] by simp
  moreover have "kpage s3 w = kpage ?s w" if "\<not> in_run b 8 w" for w
  proof -
    have n: "pn w \<noteq> pn (kpg (b + j))" if "j < 8" for j using that \<open>\<not> in_run b 8 w\<close> by (auto simp: in_run_def)
    have "\<not> in_run (b + 1) 6 w" using in_run_sub [of b 1 6 w 8] that by auto
    then show ?thesis using s3(4) m2(8) s1(4) n [of 0] n [of 7] b(4) that by (simp add: run_frame_def)
  qed
  moreover have "kframe ?s s3" using kframe_trans [OF f0(1) kframe_trans [OF s1(2) kframe_trans [OF m2(3) s3(2)]]] .
  ultimately show ?thesis
    using alloc b1 b(3,5) m2(2,4,6,7) s3(3,4) s1(3) f0(2)
    by (intro exI [of _ b] exI [of _ "m2\<lparr>mvm := s3\<rparr>"] exI [of _ bs]) (simp add: blocks_left_def)
qed

lemma kstack_free_ok:
  assumes wf: "kdir_wf s" and pw: "pmm_wf (vpm s)" and b: "1 \<le> b" "b + 8 < 2 ^ 20" and len: "length bs = 6"
    and own: "distinct bs" "\<forall>b\<in>set bs. b < block_map_size (vpm s) \<and> b < 2 ^ 20" and sp: "stack_pages (b + 1) bs s"
    and guards: "kpage s (kpg b) = PAGE_VALUE_GUARD" "kpage s (kpg (b + 7)) = PAGE_VALUE_GUARD"
  shows "\<exists>s'. task_kstack_free (kpg (b + 7)) s = Inr s' \<and> pmm_used (vpm s') = pmm_used (vpm s) - set bs \<and>
    (\<forall>w. kpage s' w = (if in_run b 8 w then 0 else kpage s w))"
proof -
  let ?g = "\<lambda>p. p = PAGE_VALUE_GUARD"
  have ne: "pn (kpg (b + j)) \<noteq> pn (kpg (b + i))" if "j < 8" "i < 8" "i \<noteq> j" for i j
    using kpg_eq [of "b + j" "b + i"] b(2) that by simp
  obtain s1 where s1: "kf_unmap ?g (kpg (b + 7)) s = Inr (kpage s (kpg (b + 7)), s1)" "kframe s s1" "vpm s1 = vpm s"
    "\<forall>w. kpage s1 w = (if pn w = pn (kpg (b + 7)) then 0 else kpage s w)"
    using kf_unmap_ok [OF wf, where P = ?g, OF guards(2)] by blast
  have "kpage s1 (kpg (b + 1 + j)) = kpage s (kpg (b + 1 + j))" if "j < 6" for j using s1(4) ne [of "1 + j" 7] that by (simp add: add.assoc)
  then have sp1: "stack_pages (b + 1) bs s1" using len sp by (simp add: stack_pages_def)
  have "kpg (b + 1 + length bs) = kpg (b + 7)" using len by (intro arg_cong [of _ _ kpg]) simp
  then obtain s2 where s2: "kfor (kf_page (kpg (b + 7) - kpg 1)) [0..<6] s1 = Inr s2" "kframe s1 s2" "pmm_used (vpm s2) = pmm_used (vpm s) - set bs"
    "\<forall>w. kpage s2 w = (if in_run (b + 1) 6 w then 0 else kpage s1 w)"
    using kf_loop [OF kframe_wf [OF s1(2)] _ sp1] b(2) len pw own s1(3) by auto
  have "kpage s2 (kpg b) = PAGE_VALUE_GUARD" using guard_outside [OF b(2)] s2(4) s1(4) ne [of 0 7] guards(1) by simp
  then obtain s3 where s3: "kf_unmap ?g (kpg b) s2 = Inr (kpage s2 (kpg b), s3)" "kframe s2 s3" "vpm s3 = vpm s2"
    "\<forall>w. kpage s3 w = (if pn w = pn (kpg b) then 0 else kpage s2 w)"
    using kf_unmap_ok [OF kframe_wf [OF s2(2)], where P = ?g] by blast
  have v: "kpg (b + 7) - kpg 1 - kpg (8 - 2) = kpg b" by (simp add: kpg_def algebra_simps)
  have nz: "kpg (b + 7) \<noteq> 0" using kpg_nonzero [of "b + 7"] b by simp
  have "task_kstack_free (kpg (b + 7)) s = Inr s3"
    using nz s1(1) s2(1) s3(1) unfolding task_kstack_free_def KSTACK_SIZE_def v by simp
  moreover have "in_run b 8 w \<longleftrightarrow> pn w = pn (kpg b) \<or> in_run (b + 1) 6 w \<or> pn w = pn (kpg (b + 7))" for w
    using in_run_first [of b 7 w] in_run_Suc [of "b + 1" 6 w] by (simp add: add.commute)
  ultimately show ?thesis using s1(4) s2(3,4) s3(3,4) by simp
qed

text \<open>C20: A kernel stack is six pages between two guard pages, at addresses that were free, on six different blocks
  that were free, filled with zeros; no other mapping of the kernel changes. Freeing it releases
  exactly these blocks and gives the kernel the mappings it had.\<close>

theorem kstack_roundtrip:
  assumes "kdir_wf (mvm m)" "kernel_room (mvm m) KSTACK_SIZE" "blocks_left 6 (vpm (mvm m))"
  shows "\<exists>b m1 bs s2. task_kstack_alloc m = Inr (kpg (b + 7), m1) \<and> length bs = 6 \<and> fresh_blocks bs (vpm (mvm m)) (vpm (mvm m1)) \<and>
    stack_pages (b + 1) bs (mvm m1) \<and> zeroed bs (ram m1) \<and>
    kpage (mvm m1) (kpg b) = PAGE_VALUE_GUARD \<and> kpage (mvm m1) (kpg (b + 7)) = PAGE_VALUE_GUARD \<and>
    (\<forall>w. \<not> in_run b 8 w \<longrightarrow> kpage (mvm m1) w = kpage (mvm m) w) \<and>
    task_kstack_free (kpg (b + 7)) (mvm m1) = Inr s2 \<and> kpage s2 = kpage (mvm m) \<and> pmm_used (vpm s2) = pmm_used (vpm (mvm m))"
proof -
  obtain b m1 bs where a: "task_kstack_alloc m = Inr (kpg (b + 7), m1)" "1 \<le> b" "b + 8 < 2 ^ 20" "length bs = 6" "kframe (mvm m) (mvm m1)"
    "pmm_wf (vpm (mvm m1))" "fresh_blocks bs (vpm (mvm m)) (vpm (mvm m1))" "stack_pages (b + 1) bs (mvm m1)" "zeroed bs (ram m1)"
    "kpage (mvm m1) (kpg b) = PAGE_VALUE_GUARD" "kpage (mvm m1) (kpg (b + 7)) = PAGE_VALUE_GUARD"
    "\<forall>w. in_run b 8 w \<longrightarrow> kpage (mvm m) w = 0" "\<forall>w. \<not> in_run b 8 w \<longrightarrow> kpage (mvm m1) w = kpage (mvm m) w"
    using kstack_alloc_ok [OF assms] by blast
  obtain s2 where s2: "task_kstack_free (kpg (b + 7)) (mvm m1) = Inr s2" "pmm_used (vpm s2) = pmm_used (vpm (mvm m1)) - set bs"
    "\<forall>w. kpage s2 w = (if in_run b 8 w then 0 else kpage (mvm m1) w)"
    using kstack_free_ok [OF kframe_wf [OF a(5)] a(6,2,3,4) _ _ a(8,10,11)] a(7) by (auto simp: fresh_blocks_def)
  have "kpage s2 = kpage (mvm m)" using s2(3) a(12,13) by (auto simp: fun_eq_iff)
  moreover have "pmm_used (vpm s2) = pmm_used (vpm (mvm m))" using s2(2) a(7) by (auto simp: fresh_blocks_def)
  ultimately show ?thesis using a s2(1) by blast
qed

text \<open>The tables of the kernel directory.\<close>

definition kernel_tab :: "vmm \<Rightarrow> u32 \<Rightarrow> bool" where
  "kernel_tab s t \<longleftrightarrow> (case pdirs s (kernel_directory s) of None \<Rightarrow> False | Some pd \<Rightarrow> t \<in> range (pd_tables pd))"

text \<open>A machine whose kernel maps nothing yet, with the table of a parent, which maps one page, and the empty one of a child.\<close>

definition ex_parent :: "ix \<Rightarrow> u32" where
  "ex_parent j = (if j = 2 then 0x5007 else 0)"

definition ex_blocks :: pmm where
  "ex_blocks = \<lparr>block_map = [0x21], block_map_size = 32, block_map_last = 0\<rparr>"

definition ex_space :: machine where
  "ex_space = \<lparr>mvm = \<lparr>vpm = ex_blocks,
     ptabs = (\<lambda>t. if 0x400000 \<le> t \<and> t < 0x800000 \<and> t AND 0xFFF = 0 then Some (\<lambda>_. 0)
                  else if t = 0x900000 then Some ex_parent else if t = 0x901000 then Some (\<lambda>_. 0) else None),
     pdirs = [64 \<mapsto> ex_kdir], kernel_directory = 64\<rparr>, ram = (\<lambda>x. ucast x)\<rparr>"

lemma ex_space_tables:
  "kdir_wf (mvm ex_space)" "kpage (mvm ex_space) v = 0" "\<not> kernel_tab (mvm ex_space) 0x900000" "\<not> kernel_tab (mvm ex_space) 0x901000"
proof -
  have n: "pd_tables ex_kdir i \<noteq> 0" for i using ex_tables(1) [of i] by (auto simp: word_le_nat_alt)
  then show "kdir_wf (mvm ex_space)" using ex_tables by (auto simp: kdir_wf_def ex_space_def)
  show "kpage (mvm ex_space) v = 0" using ex_tables(1-3) [of "dir_index v"] by (simp add: kpage_def ex_space_def)
  have "pd_tables ex_kdir i \<noteq> 0x900000" "pd_tables ex_kdir i \<noteq> 0x901000" for i using ex_tables(2) [of i] by auto
  then show "\<not> kernel_tab (mvm ex_space) 0x900000" "\<not> kernel_tab (mvm ex_space) 0x901000" by (auto simp: kernel_tab_def ex_space_def)
qed

lemma ex_space_room: "n < 1000 \<Longrightarrow> kernel_room (mvm ex_space) n"
  unfolding kernel_room_def kvfree_def ex_space_tables(2) by (intro exI [of _ 1]) simp

lemma ex_space_used: "pmm_used (vpm (mvm ex_space)) = {0, 5}"
proof -
  have "filter (\<lambda>b. pmm_test_block ex_blocks b = Inr True) [0..<32] = [0, 5]" by code_simp
  then have "set (filter (\<lambda>b. pmm_test_block ex_blocks b = Inr True) [0..<32]) = {0, 5}" by simp
  moreover have "block_map_size ex_blocks = 32" "vpm (mvm ex_space) = ex_blocks" by (simp_all add: ex_space_def ex_blocks_def)
  ultimately show ?thesis unfolding pmm_used_def by (simp add: atLeast0LessThan)
qed

lemma ex_space_left: "n \<le> 30 \<Longrightarrow> blocks_left n (vpm (mvm ex_space))"
proof -
  have "avail (vpm (mvm ex_space)) = {..<32} - {0, 5}" unfolding avail_def ex_space_used by (auto simp: ex_space_def ex_blocks_def)
  then show "n \<le> 30 \<Longrightarrow> blocks_left n (vpm (mvm ex_space))"
    unfolding blocks_left_def ex_space_used by (simp add: ex_space_def ex_blocks_def pmm_wf_def)
qed

theorem kstack_roundtrip_witness:
  "\<exists>b m1 bs s2. task_kstack_alloc ex_space = Inr (kpg (b + 7), m1) \<and> length bs = 6 \<and> zeroed bs (ram m1) \<and>
    task_kstack_free (kpg (b + 7)) (mvm m1) = Inr s2 \<and> kpage s2 = kpage (mvm ex_space) \<and> pmm_used (vpm s2) = {0, 5}"
proof -
  have "kernel_room (mvm ex_space) KSTACK_SIZE" by (rule ex_space_room) (simp add: KSTACK_SIZE_def)
  then show ?thesis using kstack_roundtrip [OF ex_space_tables(1) _ ex_space_left] unfolding ex_space_used by auto
qed

end
