(* ===== verification/Aspace_Clone.thy ===== *)
theory Aspace_Clone
  imports Aspace_Props
begin

text \<open>
  The copy of a page table for a child process. Every page of the parent that the user can reach gets a block
  of its own with the same bytes and the same permissions; nothing the parent can see changes.
\<close>

section \<open>The frame\<close>

text \<open>A step that changes kernel mappings, the physical allocator and the one table \<open>new\<close>, which is not the kernel's.\<close>

definition clone_frame :: "u32 \<Rightarrow> vmm \<Rightarrow> vmm \<Rightarrow> bool" where
  "clone_frame new s s' \<longleftrightarrow> kdir_wf s' \<and> pdirs s' = pdirs s \<and> kernel_directory s' = kernel_directory s \<and>
     (\<forall>t. \<not> kernel_tab s t \<and> t \<noteq> new \<longrightarrow> ptabs s' t = ptabs s t)"

lemma clone_frame_tab: "clone_frame new s s' \<Longrightarrow> kernel_tab s' t = kernel_tab s t"
  by (simp add: clone_frame_def kernel_tab_def)

lemma clone_frame_trans: "clone_frame new s t \<Longrightarrow> clone_frame new t u \<Longrightarrow> clone_frame new s u"
  using clone_frame_tab [of new s t] by (simp add: clone_frame_def)

lemma kframe_others:
  assumes "kframe s s'"
  shows "clone_frame new s s'" "\<not> kernel_tab s t \<Longrightarrow> ptabs s' t = ptabs s t"
proof -
  have f: "ktab_frame (s\<lparr>vpm := vpm s'\<rparr>) s'" and wf: "kdir_wf s'" using assms by (simp_all add: kframe_def)
  note fs = ktab_frame_simps [OF f]
  obtain pd where pd: "pdirs s (kernel_directory s) = Some pd" using kdir_wfD [OF wf] fs by auto
  have "ptabs s' t = ptabs s t" if "\<not> kernel_tab s t" for t
    using f that pd unfolding ktab_frame_def kernel_tab_def by (simp add: image_iff)
  then show "clone_frame new s s'" "\<not> kernel_tab s t \<Longrightarrow> ptabs s' t = ptabs s t"
    using wf fs by (auto simp: clone_frame_def)
qed

lemma user_table_write:
  assumes "kdir_wf s" "\<not> kernel_tab s new"
  shows "clone_frame new s (s\<lparr>ptabs := (ptabs s)(new \<mapsto> pt)\<rparr>)" "kpage (s\<lparr>ptabs := (ptabs s)(new \<mapsto> pt)\<rparr>) = kpage s"
proof -
  obtain pd where pd: "pdirs s (kernel_directory s) = Some pd" using kdir_wfD [OF assms(1)] by blast
  then have ne: "pd_tables pd i \<noteq> new" for i using assms(2) by (auto simp: kernel_tab_def)
  show "kpage (s\<lparr>ptabs := (ptabs s)(new \<mapsto> pt)\<rparr>) = kpage s" using pd ne by (auto simp: kpage_def)
  have "kdir_wf (s\<lparr>ptabs := (ptabs s)(new \<mapsto> pt)\<rparr>)" using assms(1) pd ne by (auto simp: kdir_wf_def)
  then show "clone_frame new s (s\<lparr>ptabs := (ptabs s)(new \<mapsto> pt)\<rparr>)" by (simp add: clone_frame_def)
qed

section \<open>Copying one page\<close>

abbreviation KRW :: u32 where "KRW \<equiv> PAGE_PRESENT OR PAGE_READWRITE"

definition block_bytes :: "(u32 \<Rightarrow> u8) \<Rightarrow> u32 \<Rightarrow> u8 list" where
  "block_bytes r p = map (\<lambda>k. r ((p AND NOT 0xFFF) + of_nat k)) [0..<4096]"

lemma copy_page_ok:
  assumes "kpage (mvm m) (kpg a) = p OR KRW" "kpage (mvm m) (kpg b) = kpg c OR KRW" "kpg a \<noteq> 0" "kpg b \<noteq> 0"
  shows "copy_page (kpg b) (kpg a) m = Inr (m\<lparr>ram := put_bytes (\<lambda>k. kpg c + of_nat k) (block_bytes (ram m) p) 4096 (ram m)\<rparr>)"
proof -
  have l: "length (block_bytes (ram m) p) = 4096" by (simp add: block_bytes_def)
  have "kread m (kpg a) 4096 = Inr (block_bytes (ram m) p)" unfolding block_bytes_def
    by (rule kread_ok) (use assms(3) page_byte [OF assms(1)] in \<open>simp_all add: kld_def\<close>)
  moreover have "kwrite (kpg b) (block_bytes (ram m) p) m =
      Inr (m\<lparr>ram := put_bytes (\<lambda>k. kpg c + of_nat k) (block_bytes (ram m) p) (length (block_bytes (ram m) p)) (ram m)\<rparr>)"
  proof (rule kwrite_ok [OF assms(4)])
    show "block_bytes (ram m) p \<noteq> []" using l by auto
    show "kpage (mvm m) (kpg b + of_nat i) AND PAGE_PRESENT \<noteq> 0 \<and> kaddr (mvm m) (kpg b + of_nat i) = kpg c + of_nat i"
      if "i < length (block_bytes (ram m) p)" for i using page_byte [OF assms(2), of i] kpg_base [of c] that l by metis
  qed
  ultimately show ?thesis unfolding copy_page_def BLOCK_SIZE_def l by simp
qed

lemma user_entry_not_special: "user_entry p \<Longrightarrow> p \<noteq> 0 \<and> p \<noteq> PAGE_VALUE_GUARD \<and> p \<noteq> PAGE_VALUE_RESERVED"
  by (auto simp: user_entry_def PAGE_VALUE_GUARD_def PAGE_VALUE_RESERVED_def PAGE_PRESENT_def)

text \<open>The address of the parent's page is taken with \<open>~0x3FF\<close>; the hardware drops the two bits this mask keeps.\<close>

lemma mask_base: "((p :: u32) AND NOT 0x3FF) AND NOT 0xFFF = p AND NOT 0xFFF"
  unfolding mask10 mask12 by (intro bit_word_eqI) (auto simp: bit_simps)

lemma ct_entry_user:
  assumes wf: "kdir_wf (mvm m)" and old: "ptabs (mvm m) old = Some po" and u: "user_entry (po i)"
    and new: "ptabs (mvm m) new = Some pt" "pt i = 0" "\<not> kernel_tab (mvm m) new" and left: "blocks_left (Suc k) (vpm (mvm m))"
    and ab: "1 \<le> a" "1 \<le> b" "a < 2 ^ 20" "b < 2 ^ 20" "a \<noteq> b"
  shows "\<exists>c m'. ct_entry new old (kpg a) (kpg b) i m = Inr m' \<and> c < 2 ^ 20 \<and> c \<notin> pmm_used (vpm (mvm m)) \<and>
    pmm_used (vpm (mvm m')) = insert c (pmm_used (vpm (mvm m))) \<and> blocks_left k (vpm (mvm m')) \<and> clone_frame new (mvm m) (mvm m') \<and>
    ptabs (mvm m') new = Some (pt(i := kpg c OR (po i AND 0x3FF))) \<and>
    ram m' = put_bytes (\<lambda>k. kpg c + of_nat k) (block_bytes (ram m) (po i)) 4096 (ram m) \<and>
    (\<forall>w. pn w \<noteq> pn (kpg a) \<and> pn w \<noteq> pn (kpg b) \<longrightarrow> kpage (mvm m') w = kpage (mvm m) w)"
proof -
  obtain c p where c: "alloc_block (mvm m) = Inr (kpg c, (mvm m)\<lparr>vpm := p\<rparr>)" "c < 2 ^ 20" "c \<notin> pmm_used (vpm (mvm m))"
    "pmm_used p = insert c (pmm_used (vpm (mvm m)))" "blocks_left k p" using alloc_block_ok [OF left] by blast
  let ?s = "(mvm m)\<lparr>vpm := p\<rparr>" and ?p = "po i AND NOT 0x3FF"
  have w0: "kdir_wf ?s" using wf by simp
  obtain s1 where s1: "kmap_inv (kpg a) ?p KRW ?s = Inr s1" "kframe ?s s1" "vpm s1 = vpm ?s"
    "\<forall>w. kpage s1 w = (if pn w = pn (kpg a) then ?p OR KRW else kpage ?s w)" using kmap_inv_ok [OF w0] by blast
  obtain s2 where s2: "kmap_inv (kpg b) (kpg c) KRW s1 = Inr s2" "kframe s1 s2" "vpm s2 = vpm s1"
    "\<forall>w. kpage s2 w = (if pn w = pn (kpg b) then kpg c OR KRW else kpage s1 w)" using kmap_inv_ok [OF kframe_wf [OF s1(2)]] by blast
  have fr: "kframe (mvm m) s2" using kframe_trans [OF kframe_vpm [OF wf] kframe_trans [OF s1(2) s2(2)]] .
  have ks: "kpage s2 (kpg a) = ?p OR KRW" "kpage s2 (kpg b) = kpg c OR KRW"
    using s2(4) s1(4) kpg_eq [of a b] ab by simp_all
  let ?r = "put_bytes (\<lambda>k. kpg c + of_nat k) (block_bytes (ram m) (po i)) 4096 (ram m)"
  have "block_bytes (ram m) ?p = block_bytes (ram m) (po i)" unfolding block_bytes_def mask_base ..
  then have cp: "copy_page (kpg b) (kpg a) (m\<lparr>mvm := s2\<rparr>) = Inr (m\<lparr>mvm := s2, ram := ?r\<rparr>)"
    using copy_page_ok [of "m\<lparr>mvm := s2\<rparr>" a ?p b c] ks kpg_nonzero ab by simp
  have n2: "ptabs s2 new = Some pt" using kframe_others(2) [OF fr new(3)] new(1) by simp
  let ?s3 = "s2\<lparr>ptabs := (ptabs s2)(new \<mapsto> pt(i := kpg c OR (po i AND 0x3FF)))\<rparr>"
  have "ct_entry new old (kpg a) (kpg b) i m = Inr (m\<lparr>mvm := ?s3, ram := ?r\<rparr>)"
    using old new u user_entry_not_special [OF u] c(1) s1(1) s2(1) cp n2
    by (simp add: ct_entry_def ld_tab_def Let_def user_entry_def)
  moreover have k2: "\<not> kernel_tab s2 new" using clone_frame_tab [OF kframe_others(1) [OF fr]] new(3) by simp
  moreover have "clone_frame new (mvm m) ?s3"
    using clone_frame_trans [OF kframe_others(1) [OF fr] user_table_write(1) [OF kframe_wf [OF fr] k2]] .
  moreover have "kpage ?s3 w = kpage (mvm m) w" if "pn w \<noteq> pn (kpg a)" "pn w \<noteq> pn (kpg b)" for w
    unfolding user_table_write(2) [OF kframe_wf [OF fr] k2] using s2(4) s1(4) that by simp
  ultimately show ?thesis using c(2-5) s1(3) s2(3) by (intro exI [of _ c] exI [of _ "m\<lparr>mvm := ?s3, ram := ?r\<rparr>"]) simp
qed

section \<open>The loop over the table\<close>

lemma block_of: "c < 2 ^ 20 \<Longrightarrow> k < 4096 \<Longrightarrow> unat (kpg c + of_nat k) div 4096 = c"
  using addr_split(1) [of c k] unat_pn [of "kpg c + of_nat k"] unat_pn [of "kpg c"] unat_page [of c]
  unfolding kpg_def [symmetric] by (simp add: BLOCK_SIZE_def)

lemma block_index: "unat (p :: u32) div 4096 < 2 ^ 20"
  using unsigned_less [of p, where 'a = nat] by (simp add: div_less_iff_less_mult)

lemma block_bytes_cong:
  assumes "\<And>x. unat x div 4096 = unat p div 4096 \<Longrightarrow> r' x = r x"
  shows "block_bytes r' p = block_bytes r p"
  unfolding block_bytes_def page_base using assms block_of [OF block_index [of p]] by simp

lemma block_write:
  assumes "length bytes = 4096" "c < 2 ^ 20"
  shows "block_bytes (put_bytes (\<lambda>k. kpg c + of_nat k) bytes 4096 r) (kpg c) = bytes"
    "unat x div 4096 \<noteq> c \<Longrightarrow> put_bytes (\<lambda>k. kpg c + of_nat k) bytes 4096 r x = r x"
proof -
  show "block_bytes (put_bytes (\<lambda>k. kpg c + of_nat k) bytes 4096 r) (kpg c) = bytes"
    unfolding block_bytes_def kpg_base by (rule nth_equalityI) (use assms(1) put_bytes_at [OF block_inj] in simp_all)
  show "unat x div 4096 \<noteq> c \<Longrightarrow> put_bytes (\<lambda>k. kpg c + of_nat k) bytes 4096 r x = r x"
    using block_of [OF assms(2)] by (intro put_bytes_other) auto
qed

definition user_ixs :: "(ix \<Rightarrow> u32) \<Rightarrow> ix list \<Rightarrow> ix set" where
  "user_ixs po js = {i \<in> set js. user_entry (po i)}"

text \<open>\<open>m'\<close> is \<open>m\<close> with the pages \<open>po i\<close>, for the indices \<open>i\<close> in \<open>U\<close>, copied to the new blocks \<open>bs i\<close>.\<close>

definition cloned :: "(ix \<Rightarrow> u32) \<Rightarrow> (ix \<Rightarrow> nat) \<Rightarrow> ix set \<Rightarrow> machine \<Rightarrow> machine \<Rightarrow> bool" where
  "cloned po bs U m m' \<longleftrightarrow>
     inj_on bs U \<and> bs ` U \<inter> pmm_used (vpm (mvm m)) = {} \<and> (\<forall>i\<in>U. bs i < 2 ^ 20) \<and>
     pmm_used (vpm (mvm m')) = pmm_used (vpm (mvm m)) \<union> bs ` U \<and>
     (\<forall>i\<in>U. block_bytes (ram m') (kpg (bs i)) = block_bytes (ram m) (po i)) \<and>
     (\<forall>x. unat x div 4096 \<notin> bs ` U \<longrightarrow> ram m' x = ram m x)"

lemma cloned_insert:
  assumes cl: "cloned po bs U m m1" and i: "i \<notin> U" and own: "unat (po i) div 4096 \<in> pmm_used (vpm (mvm m))"
    and c: "c < 2 ^ 20" "c \<notin> pmm_used (vpm (mvm m1))" "pmm_used (vpm (mvm m2)) = insert c (pmm_used (vpm (mvm m1)))"
    and r2: "ram m2 = put_bytes (\<lambda>k. kpg c + of_nat k) (block_bytes (ram m1) (po i)) 4096 (ram m1)"
  shows "cloned po (bs(i := c)) (insert i U) m m2"
proof -
  note d = cl [unfolded cloned_def]
  have im: "(bs(i := c)) ` insert i U = insert c (bs ` U)" using i by auto
  have l: "length (block_bytes (ram m1) (po i)) = 4096" by (simp add: block_bytes_def)
  have "unat (po i) div 4096 \<notin> bs ` U" using d own by blast
  then have src: "block_bytes (ram m1) (po i) = block_bytes (ram m) (po i)" using d by (intro block_bytes_cong) simp
  have "block_bytes (ram m2) (kpg (bs j)) = block_bytes (ram m1) (kpg (bs j))" if "j \<in> U" for j
  proof (rule block_bytes_cong)
    fix x :: u32
    assume "unat x div 4096 = unat (kpg (bs j)) div 4096"
    moreover have "unat (kpg (bs j)) div 4096 = bs j" using block_of [of "bs j" 0] d that by simp
    moreover have "bs j \<noteq> c" using that c(2) d by auto
    ultimately show "ram m2 x = ram m1 x" using block_write(2) [OF l c(1)] r2 by simp
  qed
  moreover have "block_bytes (ram m2) (kpg c) = block_bytes (ram m) (po i)" using block_write(1) [OF l c(1)] r2 src by simp
  moreover have "ram m2 x = ram m x" if "unat x div 4096 \<notin> insert c (bs ` U)" for x
    using block_write(2) [OF l c(1), of x] that d r2 by simp
  moreover have "inj_on (bs(i := c)) (insert i U)" using d i c(2) by (auto simp: inj_on_def)
  ultimately show ?thesis using d i c unfolding cloned_def im by auto
qed

text \<open>What a table of the parent may hold, and the table of the child.\<close>

definition clonable :: "u32 \<Rightarrow> bool" where
  "clonable p \<longleftrightarrow> p = 0 \<or> p = PAGE_VALUE_GUARD \<or> p AND PAGE_PRESENT \<noteq> 0"

definition child_table :: "(ix \<Rightarrow> u32) \<Rightarrow> (ix \<Rightarrow> nat) \<Rightarrow> ix set \<Rightarrow> (ix \<Rightarrow> u32) \<Rightarrow> ix \<Rightarrow> u32" where
  "child_table po bs U pt i = (if i \<in> U then kpg (bs i) OR (po i AND 0x3FF) else pt i)"

lemma ct_entry_skip:
  assumes "ptabs (mvm m) old = Some po" "clonable (po i)" "\<not> user_entry (po i)"
  shows "ct_entry new old a b i m = Inr m"
proof -
  have "PAGE_VALUE_RESERVED AND PAGE_PRESENT = 0" by (simp add: PAGE_VALUE_RESERVED_def PAGE_PRESENT_def)
  then show ?thesis using assms by (auto simp: ct_entry_def ld_tab_def Let_def clonable_def user_entry_def)
qed

lemma ixs_all: "distinct ixs" "set ixs = UNIV"
proof -
  have "inj_on (of_nat :: nat \<Rightarrow> ix) {0..<1024}" 
  proof (rule inj_onI)
    fix i j assume ij: "i \<in> {0..<1024}" "j \<in> {0..<1024 :: nat}" "(of_nat i :: ix) = of_nat j"
    then have "unat (of_nat i :: ix) = unat (of_nat j :: ix)" by simp
    then show "i = j" using ij(1,2) by (simp add: unat_of_nat)
  qed
  then show "distinct ixs" by (simp add: ixs_def distinct_map)
  have "i \<in> set ixs" for i using unsigned_less [of i, where 'a = nat] by (auto simp: ixs_def intro!: image_eqI [of _ _ "unat i"])
  then show "set ixs = UNIV" by auto
qed

definition clone_inv :: "u32 \<Rightarrow> u32 \<Rightarrow> (ix \<Rightarrow> u32) \<Rightarrow> (ix \<Rightarrow> u32) \<Rightarrow> nat \<Rightarrow> nat \<Rightarrow> machine \<Rightarrow> nat \<Rightarrow> ix set \<Rightarrow> machine \<Rightarrow> bool" where
  "clone_inv new old po pt a b m n U m1 \<longleftrightarrow>
     clone_frame new (mvm m) (mvm m1) \<and> blocks_left n (vpm (mvm m1)) \<and>
     (\<forall>w. pn w \<noteq> pn (kpg a) \<and> pn w \<noteq> pn (kpg b) \<longrightarrow> kpage (mvm m1) w = kpage (mvm m) w) \<and>
     (\<exists>bs. cloned po bs U m m1 \<and> ptabs (mvm m1) new = Some (child_table po bs U pt))"

lemma clone_inv_step:
  assumes inv: "clone_inv new old po pt a b m (Suc n) U m1" and i: "i \<notin> U" "user_entry (po i)" "pt i = 0"
    and own: "unat (po i) div 4096 \<in> pmm_used (vpm (mvm m))"
    and tabs: "ptabs (mvm m) old = Some po" "\<not> kernel_tab (mvm m) old" "\<not> kernel_tab (mvm m) new" "old \<noteq> new"
    and ab: "1 \<le> a" "1 \<le> b" "a < 2 ^ 20" "b < 2 ^ 20" "a \<noteq> b"
  shows "\<exists>m2. ct_entry new old (kpg a) (kpg b) i m1 = Inr m2 \<and> clone_inv new old po pt a b m n (insert i U) m2"
proof -
  obtain bs where d: "clone_frame new (mvm m) (mvm m1)" "blocks_left (Suc n) (vpm (mvm m1))"
    "\<forall>w. pn w \<noteq> pn (kpg a) \<and> pn w \<noteq> pn (kpg b) \<longrightarrow> kpage (mvm m1) w = kpage (mvm m) w"
    "cloned po bs U m m1" "ptabs (mvm m1) new = Some (child_table po bs U pt)" using inv unfolding clone_inv_def by blast
  have o1: "ptabs (mvm m1) old = Some po" using d(1) tabs by (simp add: clone_frame_def)
  have w1: "kdir_wf (mvm m1)" using d(1) by (simp add: clone_frame_def)
  have n1: "\<not> kernel_tab (mvm m1) new" using clone_frame_tab [OF d(1)] tabs(3) by simp
  have z: "child_table po bs U pt i = 0" using i by (simp add: child_table_def)
  obtain c m2 where m2: "ct_entry new old (kpg a) (kpg b) i m1 = Inr m2" "c < 2 ^ 20" "c \<notin> pmm_used (vpm (mvm m1))"
    "pmm_used (vpm (mvm m2)) = insert c (pmm_used (vpm (mvm m1)))" "blocks_left n (vpm (mvm m2))" "clone_frame new (mvm m1) (mvm m2)"
    "ptabs (mvm m2) new = Some ((child_table po bs U pt)(i := kpg c OR (po i AND 0x3FF)))"
    "ram m2 = put_bytes (\<lambda>k. kpg c + of_nat k) (block_bytes (ram m1) (po i)) 4096 (ram m1)"
    "\<forall>w. pn w \<noteq> pn (kpg a) \<and> pn w \<noteq> pn (kpg b) \<longrightarrow> kpage (mvm m2) w = kpage (mvm m1) w"
    using ct_entry_user [OF w1 o1 i(2) d(5) z n1 d(2) ab] by blast
  have "(child_table po bs U pt)(i := kpg c OR (po i AND 0x3FF)) = child_table po (bs(i := c)) (insert i U) pt"
    using i(1) by (auto simp: child_table_def fun_eq_iff)
  moreover have "cloned po (bs(i := c)) (insert i U) m m2" by (rule cloned_insert [OF d(4) i(1) own m2(2-4,8)])
  ultimately have "clone_inv new old po pt a b m n (insert i U) m2"
    unfolding clone_inv_def using clone_frame_trans [OF d(1) m2(6)] m2(5,7,9) d(3) by auto
  then show ?thesis using m2(1) by blast
qed

lemma clone_loop:
  assumes start: "clone_inv new old po pt a b m (card (user_ixs po ixs)) {} m0"
    and entries: "\<forall>i. clonable (po i)" "\<forall>i. user_entry (po i) \<longrightarrow> pt i = 0 \<and> unat (po i) div 4096 \<in> pmm_used (vpm (mvm m))"
    and tabs: "ptabs (mvm m) old = Some po" "\<not> kernel_tab (mvm m) old" "\<not> kernel_tab (mvm m) new" "old \<noteq> new"
    and ab: "1 \<le> a" "1 \<le> b" "a < 2 ^ 20" "b < 2 ^ 20" "a \<noteq> b"
  shows "\<exists>m'. kfor (ct_entry new old (kpg a) (kpg b)) ixs m0 = Inr m' \<and> clone_inv new old po pt a b m 0 (user_ixs po ixs) m'"
proof -
  let ?U = "user_ixs po"
  let ?P = "\<lambda>js. clone_inv new old po pt a b m (card (?U ixs) - card (?U js)) (?U js)"
  have "\<exists>m'. kfor (ct_entry new old (kpg a) (kpg b)) ixs m0 = Inr m' \<and> ?P ixs m'"
  proof (rule kfor_inv [where P = ?P])
    show "?P [] m0" using start by (simp add: user_ixs_def)
    fix js i m1
    assume P: "?P js m1" and "\<exists>rest. ixs = js @ i # rest"
    then obtain rest where rest: "ixs = js @ i # rest" by blast
    have i: "i \<notin> set js" using ixs_all(1) unfolding rest by simp
    show "\<exists>m2. ct_entry new old (kpg a) (kpg b) i m1 = Inr m2 \<and> ?P (js @ [i]) m2"
    proof (cases "user_entry (po i)")
      case True
      have U: "?U (js @ [i]) = insert i (?U js)" "i \<notin> ?U js" using True i by (auto simp: user_ixs_def)
      have f: "finite (?U js')" for js' by (simp add: user_ixs_def)
      have "insert i (?U js) \<subseteq> ?U ixs" using True unfolding rest by (auto simp: user_ixs_def)
      then have "card (insert i (?U js)) \<le> card (?U ixs)" by (rule card_mono [OF f])
      then have "Suc (card (?U js)) \<le> card (?U ixs)" using U(2) f by simp
      then have "card (?U ixs) - card (?U js) = Suc (card (?U ixs) - card (?U (js @ [i])))" using U f by simp
      then have "clone_inv new old po pt a b m (Suc (card (?U ixs) - card (?U (js @ [i])))) (?U js) m1" using P by simp
      then show ?thesis unfolding U(1) by (rule clone_inv_step [OF _ U(2) True _ _ tabs ab]) (use entries(2) True in blast)+
    next
      case False
      have "clone_frame new (mvm m) (mvm m1)" using P unfolding clone_inv_def by blast
      then have "ptabs (mvm m1) old = Some po" using tabs unfolding clone_frame_def by simp
      then have "ct_entry new old (kpg a) (kpg b) i m1 = Inr m1" using ct_entry_skip [of m1 old po i, OF _ _ False] entries(1) by blast
      moreover have "?U (js @ [i]) = ?U js" using False by (auto simp: user_ixs_def)
      ultimately show ?thesis using P by (intro exI [of _ m1]) simp
    qed
  qed
  then show ?thesis by simp
qed

section \<open>The table\<close>

text \<open>Two kernel pages for the copy.\<close>

lemma vspace_page:
  assumes "kdir_wf s" "kernel_room s 1"
  shows "\<exists>b s'. find_vspace (kernel_directory s) 1 s = Inr (kpg b, s') \<and> 1 \<le> b \<and> b < 2 ^ 20 \<and> kpg b \<noteq> 0 \<and> kframe s s' \<and> vpm s' = vpm s \<and>
    kpage s (kpg b) = 0 \<and> kpage s' (kpg b) \<noteq> 0 \<and> (\<forall>w. pn w \<noteq> pn (kpg b) \<longrightarrow> kpage s' w = kpage s w)"
proof -
  obtain b s' where b: "find_vspace (kernel_directory s) 1 s = Inr (kpg b, s')" "kpg b \<noteq> 0" "b + 1 < 2 ^ 20"
    "run_frame b 1 s s'" "\<forall>w. in_run b 1 w \<longrightarrow> kpage s w = 0" "\<forall>k<1. kpage s' (kpg (b + k)) = PAGE_VALUE_RESERVED"
    using vspace_run_reserved [OF assms(1) order_refl assms(2)] by blast
  have "1 \<le> b" using b(2) by (cases b) (auto simp: kpg_def)
  moreover have "kpage s' (kpg b) \<noteq> 0" using b(6) by (simp add: PAGE_VALUE_RESERVED_def)
  ultimately show ?thesis using b kframe_tab ktab_frame_simps(1) by (auto simp: run_frame_def in_run_def)
qed

lemma kvfree_kpg: "kvfree s i \<longleftrightarrow> kpage s (kpg i) = 0"
  by (simp only: kvfree_def kpg_def)

lemma room_one: "kernel_room s 2 \<Longrightarrow> kernel_room s 1"
  unfolding kernel_room_def by (metis add_lessD1 add.assoc less_one one_add_one zero_less_numeral add.commute less_trans nat_less_le)

lemma room_after:
  assumes "kernel_room s 2" "\<forall>w. pn w \<noteq> pn (kpg a) \<longrightarrow> kpage s' w = kpage s w" "a < 2 ^ 20"
  shows "kernel_room s' 1"
proof -
  obtain b where b: "1 \<le> b" "b + 2 < 2 ^ 20" "kvfree s b" "kvfree s (b + 1)"
    using assms(1) unfolding kernel_room_def by (metis add.right_neutral one_less_numeral_iff semiring_norm(76) zero_less_numeral)
  obtain c where c: "c = b \<or> c = b + 1" "c \<noteq> a" by (metis add_cancel_right_right one_neq_zero)
  then have "pn (kpg c) \<noteq> pn (kpg a)" using kpg_eq [of c a] b(2) assms(3) by auto
  then have "kvfree s' c" using assms(2) b(3,4) c(1) unfolding kvfree_kpg by auto
  then show ?thesis using b c(1) unfolding kernel_room_def by (intro exI [of _ c]) auto
qed

lemma kunmap_ok:
  assumes "kdir_wf s"
  shows "\<exists>s'. kmap_inv (kpg j) 0 0 s = Inr s' \<and> kframe s s' \<and> vpm s' = vpm s \<and>
    (\<forall>w. kpage s' w = (if pn w = pn (kpg j) then 0 else kpage s w))"
  using kmap_inv_ok [OF assms, of j 0 0] by (simp only: or.right_neutral)

lemma clone_start:
  assumes "kframe (mvm m) s" "vpm s = vpm (mvm m)" "\<forall>w. pn w \<noteq> pn (kpg a) \<and> pn w \<noteq> pn (kpg b) \<longrightarrow> kpage s w = kpage (mvm m) w"
    "blocks_left n (vpm (mvm m))" "ptabs (mvm m) new = Some pt" "\<not> kernel_tab (mvm m) new"
  shows "clone_inv new old po pt a b m n {} (m\<lparr>mvm := s\<rparr>)"
proof -
  have "child_table po bs {} pt = pt" for bs by (simp add: child_table_def fun_eq_iff)
  then show ?thesis using assms kframe_others [OF assms(1)] by (simp add: clone_inv_def cloned_def)
qed

lemma clone_end:
  assumes "clone_inv new old po pt a b m 0 U m3" "\<not> kernel_tab (mvm m) new" "kpage (mvm m) (kpg a) = 0" "kpage (mvm m) (kpg b) = 0"
  shows "\<exists>s4 s5 bs. kmap_inv (kpg a) 0 0 (mvm m3) = Inr s4 \<and> kmap_inv (kpg b) 0 0 s4 = Inr s5 \<and> cloned po bs U m (m3\<lparr>mvm := s5\<rparr>) \<and>
    ptabs s5 new = Some (child_table po bs U pt) \<and> clone_frame new (mvm m) s5 \<and> kpage s5 = kpage (mvm m)"
proof -
  obtain bs where inv: "clone_frame new (mvm m) (mvm m3)" "\<forall>w. pn w \<noteq> pn (kpg a) \<and> pn w \<noteq> pn (kpg b) \<longrightarrow> kpage (mvm m3) w = kpage (mvm m) w"
    "cloned po bs U m m3" "ptabs (mvm m3) new = Some (child_table po bs U pt)" using assms(1) unfolding clone_inv_def by blast
  have w3: "kdir_wf (mvm m3)" using inv(1) by (simp add: clone_frame_def)
  obtain s4 where s4: "kmap_inv (kpg a) 0 0 (mvm m3) = Inr s4" "kframe (mvm m3) s4" "vpm s4 = vpm (mvm m3)"
    "\<forall>w. kpage s4 w = (if pn w = pn (kpg a) then 0 else kpage (mvm m3) w)" using kunmap_ok [OF w3] by blast
  obtain s5 where s5: "kmap_inv (kpg b) 0 0 s4 = Inr s5" "kframe s4 s5" "vpm s5 = vpm s4"
    "\<forall>w. kpage s5 w = (if pn w = pn (kpg b) then 0 else kpage s4 w)" using kunmap_ok [OF kframe_wf [OF s4(2)]] by blast
  have f: "kframe (mvm m3) s5" using kframe_trans [OF s4(2) s5(2)] .
  have "\<not> kernel_tab (mvm m3) new" using clone_frame_tab [OF inv(1)] assms(2) by simp
  then have "ptabs s5 new = Some (child_table po bs U pt)" using kframe_others(2) [OF f] inv(4) by simp
  moreover have "kpage s5 = kpage (mvm m)"
  proof
    show "kpage s5 w = kpage (mvm m) w" for w
      using s5(4) s4(4) inv(2) kpage_pn [of w "kpg a" "mvm m"] kpage_pn [of w "kpg b" "mvm m"] assms(3,4)
      by (cases "pn w = pn (kpg a)"; cases "pn w = pn (kpg b)") simp_all
  qed
  moreover have "cloned po bs U m (m3\<lparr>mvm := s5\<rparr>)" using inv(3) s4(3) s5(3) by (simp add: cloned_def)
  ultimately show ?thesis using s4(1) s5(1) clone_frame_trans [OF inv(1) kframe_others(1) [OF f]] by blast
qed

text \<open>C6: Copying a page table of the parent for a child gives every page the user can reach a free block of its
  own, with the bytes and the flags of the parent's page; the table of the parent, its memory, every other table
  and every mapping of the kernel are as before.\<close>

theorem clone_table_copies:
  assumes wf: "kdir_wf (mvm m)" and room: "kernel_room (mvm m) 2"
    and tabs: "ptabs (mvm m) old = Some po" "ptabs (mvm m) new = Some pt" "old \<noteq> 0" "new \<noteq> 0" "old \<noteq> new"
      "\<not> kernel_tab (mvm m) old" "\<not> kernel_tab (mvm m) new"
    and entries: "\<forall>i. clonable (po i)" "\<forall>i. user_entry (po i) \<longrightarrow> pt i = 0 \<and> unat (po i) div 4096 \<in> pmm_used (vpm (mvm m))"
    and left: "blocks_left (card {i. user_entry (po i)}) (vpm (mvm m))"
  shows "\<exists>m' bs. page_directory_clone_table new old m = Inr m' \<and> cloned po bs {i. user_entry (po i)} m m' \<and>
    ptabs (mvm m') new = Some (child_table po bs {i. user_entry (po i)} pt) \<and>
    (\<forall>t. \<not> kernel_tab (mvm m) t \<and> t \<noteq> new \<longrightarrow> ptabs (mvm m') t = ptabs (mvm m) t) \<and>
    kpage (mvm m') = kpage (mvm m) \<and> pdirs (mvm m') = pdirs (mvm m)"
proof -
  have U: "{i. user_entry (po i)} = user_ixs po ixs" by (simp add: user_ixs_def ixs_all)
  have room1: "kernel_room (mvm m) 1" by (rule room_one [OF room])
  obtain a s1 where a: "find_vspace (kernel_directory (mvm m)) 1 (mvm m) = Inr (kpg a, s1)" "1 \<le> a" "a < 2 ^ 20" "kpg a \<noteq> 0" "kframe (mvm m) s1"
    "vpm s1 = vpm (mvm m)" "kpage (mvm m) (kpg a) = 0" "kpage s1 (kpg a) \<noteq> 0" "\<forall>w. pn w \<noteq> pn (kpg a) \<longrightarrow> kpage s1 w = kpage (mvm m) w"
    using vspace_page [OF wf room1] by blast
  obtain b s2 where b: "find_vspace (kernel_directory s1) 1 s1 = Inr (kpg b, s2)" "1 \<le> b" "b < 2 ^ 20" "kpg b \<noteq> 0" "kframe s1 s2"
    "vpm s2 = vpm s1" "kpage s1 (kpg b) = 0" "\<forall>w. pn w \<noteq> pn (kpg b) \<longrightarrow> kpage s2 w = kpage s1 w"
    using vspace_page [OF kframe_wf [OF a(5)] room_after [OF room a(9,3)]] by blast
  have ab: "a \<noteq> b" using a(8) b(7) by metis
  have "\<forall>w. pn w \<noteq> pn (kpg a) \<and> pn w \<noteq> pn (kpg b) \<longrightarrow> kpage s2 w = kpage (mvm m) w" using a(9) b(8) by simp
  then have "clone_inv new old po pt a b m (card (user_ixs po ixs)) {} (m\<lparr>mvm := s2\<rparr>)"
    using clone_start [OF kframe_trans [OF a(5) b(5)] _ _ _ tabs(2,7)] a(6) b(6) left unfolding U by simp
  then obtain m3 where m3: "kfor (ct_entry new old (kpg a) (kpg b)) ixs (m\<lparr>mvm := s2\<rparr>) = Inr m3"
    "clone_inv new old po pt a b m 0 (user_ixs po ixs) m3"
    using clone_loop [OF _ entries tabs(1,6,7,5) a(2) b(2) a(3) b(3) ab] by blast
  have kb: "kpage (mvm m) (kpg b) = 0" using a(9) b(7) kpg_eq [of b a] a(3) b(3) ab by simp
  obtain s4 s5 bs where e: "kmap_inv (kpg a) 0 0 (mvm m3) = Inr s4" "kmap_inv (kpg b) 0 0 s4 = Inr s5"
    "cloned po bs (user_ixs po ixs) m (m3\<lparr>mvm := s5\<rparr>)" "ptabs s5 new = Some (child_table po bs (user_ixs po ixs) pt)"
    "clone_frame new (mvm m) s5" "kpage s5 = kpage (mvm m)"
    using clone_end [OF m3(2) tabs(7) a(7) kb] by blast
  have "page_directory_clone_table new old m = Inr (m3\<lparr>mvm := s5\<rparr>)"
    using tabs(3,4) a(1,4) b(1,4) m3(1) e(1,2) by (simp add: page_directory_clone_table_def)
  then show ?thesis using e(3-6) unfolding U by (intro exI [of _ "m3\<lparr>mvm := s5\<rparr>"] exI [of _ bs]) (auto simp: clone_frame_def)
qed

lemma ex_parent_user: "user_entry (ex_parent i) \<longleftrightarrow> i = 2"
  by (simp add: ex_parent_def user_entry_def PAGE_PRESENT_def PAGE_USER_def)

theorem clone_table_copies_witness:
  "\<exists>m' bs. page_directory_clone_table 0x901000 0x900000 ex_space = Inr m' \<and> cloned ex_parent bs {2} ex_space m' \<and>
    ptabs (mvm m') 0x901000 = Some (child_table ex_parent bs {2} (\<lambda>_. 0)) \<and> ptabs (mvm m') 0x900000 = Some ex_parent"
proof -
  have U: "{i. user_entry (ex_parent i)} = {2}" by (simp add: ex_parent_user)
  have t: "ptabs (mvm ex_space) 0x900000 = Some ex_parent" "ptabs (mvm ex_space) 0x901000 = Some (\<lambda>_. 0)" by (simp_all add: ex_space_def)
  have c: "\<forall>i. clonable (ex_parent i)" by (simp add: clonable_def ex_parent_def PAGE_PRESENT_def)
  have e: "\<forall>i. user_entry (ex_parent i) \<longrightarrow> (0 :: u32) = 0 \<and> unat (ex_parent i) div 4096 \<in> pmm_used (vpm (mvm ex_space))"
    unfolding ex_parent_user ex_space_used by (simp add: ex_parent_def)
  have l: "blocks_left (card {i. user_entry (ex_parent i)}) (vpm (mvm ex_space))" unfolding U by (rule ex_space_left) simp
  have "kernel_room (mvm ex_space) 2" by (rule ex_space_room) simp
  from clone_table_copies [OF ex_space_tables(1) this t _ _ _ ex_space_tables(3,4) c e l]
  obtain m' bs where "page_directory_clone_table 0x901000 0x900000 ex_space = Inr m'" "cloned ex_parent bs {2} ex_space m'"
    "ptabs (mvm m') 0x901000 = Some (child_table ex_parent bs {2} (\<lambda>_. 0))"
    "\<forall>t. \<not> kernel_tab (mvm ex_space) t \<and> t \<noteq> 0x901000 \<longrightarrow> ptabs (mvm m') t = ptabs (mvm ex_space) t" unfolding U by auto
  then show ?thesis using ex_space_tables(3) t(1) by (intro exI [of _ m'] exI [of _ bs]) simp
qed

end
