(* ===== verification/Checksum.thy ===== *)
theory Checksum
  imports Prelude
begin

text \<open>
  Byte order and the Internet checksum (src/kernel/include/net/net.h, src/kernel/net/checksum.c). A packet is the
  list of its bytes, and a pointer into it is an offset: an access behind the last byte is a fault.
\<close>

text \<open>The macros \<open>htons\<close> and \<open>ntohs\<close>, which are the same.\<close>

definition htons :: "u16 \<Rightarrow> u16" where
  "htons x = push_bit 8 (x AND 0xFF) OR drop_bit 8 (x AND 0xFF00)"

definition ntohs :: "u16 \<Rightarrow> u16" where
  "ntohs x = htons x"

text \<open>A \<open>uint16_t\<close> of a packed structure at the offset \<open>i\<close>, and a number of bytes from there on.\<close>

definition ld16 :: "u8 list \<Rightarrow> nat \<Rightarrow> u16 res" where
  "ld16 p i = kbind (kload p i) (\<lambda>a. kbind (kload p (i + 1)) (\<lambda>b. Inr (ucast a OR push_bit 8 (ucast b))))"

definition st16 :: "u8 list \<Rightarrow> nat \<Rightarrow> u16 \<Rightarrow> u8 list res" where
  "st16 p i v = kbind (kstore p i (ucast v)) (\<lambda>p. kstore p (i + 1) (ucast (drop_bit 8 v)))"

definition ldn :: "u8 list \<Rightarrow> nat \<Rightarrow> nat \<Rightarrow> u8 list res" where
  "ldn p i n = kfor (\<lambda>k out. kbind (kload p (i + k)) (\<lambda>c. Inr (out @ [c]))) [0..<n] []"

text \<open>The bytes of a \<open>uint16_t\<close> as they lie in memory.\<close>

definition bytes16 :: "u16 \<Rightarrow> u8 list" where
  "bytes16 v = [ucast v, ucast (drop_bit 8 v)]"

section \<open>The checksum\<close>

definition sum16 :: "u8 list \<Rightarrow> nat \<Rightarrow> nat \<Rightarrow> u32 \<Rightarrow> u32 res" where
  "sum16 p off n v = kfor (\<lambda>i v. kbind (ld16 p (off + 2 * i)) (\<lambda>s. Inr (v + ucast (ntohs s)))) [0..<n] v"

definition fold16 :: "u32 \<Rightarrow> u16" where
  "fold16 v =
     (let v = (drop_bit 16 v AND 0xFFFF) + (v AND 0xFFFF);
          v = v + (drop_bit 16 v AND 0xFFFF)
      in NOT (ucast v))"

definition net_calc_checksum :: "u8 list \<Rightarrow> nat \<Rightarrow> nat \<Rightarrow> u16 res" where
  "net_calc_checksum p off size' = kbind (sum16 p off (size' div 2) 0) (\<lambda>v. Inr (fold16 v))"

definition net_calc_checksum2 :: "u8 list \<Rightarrow> u8 list \<Rightarrow> nat \<Rightarrow> nat \<Rightarrow> u16 \<Rightarrow> u16 res" where
  "net_calc_checksum2 data1 p off size2 checksum =
     kbind (kassert (length data1 mod 2 = 0)) (\<lambda>_.
     kbind (sum16 data1 0 (length data1 div 2) 0) (\<lambda>v.
     let v = (if 0xFFFF < v then drop_bit 16 (v AND 0xFFFF0000) + (v AND 0xFFFF) else v)
     in kbind (sum16 p off (size2 div 2) v) (\<lambda>v.
        let v = v - ucast checksum
        in kbind (if size2 mod 2 \<noteq> 0
                  then kbind (kload p (off + size2 div 2 * 2)) (\<lambda>t. Inr (v + ucast (ntohs (ucast t))))
                  else Inr v) (\<lambda>v. Inr (fold16 v)))))"

section \<open>Words in network order\<close>

definition be16 :: "u8 list \<Rightarrow> nat \<Rightarrow> nat" where
  "be16 p i = 256 * unat (p ! i) + unat (p ! (i + 1))"

lemma bit_u8: "bit (a :: u8) n \<Longrightarrow> n < 8"
  using bit_imp_le_length [of a n] by simp

lemma bit_htons: "bit (htons x) n \<longleftrightarrow> n < 16 \<and> (if n < 8 then bit x (n + 8) else bit x (n - 8))"
proof -
  have m: "(0xFF :: u16) = mask 8" "(0xFF00 :: u16) = push_bit 8 (mask 8)" by (simp_all add: mask_eq_exp_minus_1 push_bit_eq_mult)
  show ?thesis unfolding htons_def m by (auto simp: bit_simps add.commute)
qed

lemma htons_swap: "htons (ucast (a :: u8) OR push_bit 8 (ucast (b :: u8))) = ucast b OR push_bit 8 (ucast a)"
  by (rule bit_word_eqI) (auto simp: bit_htons bit_simps dest: bit_u8)

lemma unat_bytes: "unat (ucast (b :: u8) OR push_bit 8 (ucast (a :: u8)) :: u16) = 256 * unat a + unat b"
proof -
  have "(ucast b :: u16) AND push_bit 8 (ucast a) = 0"
    by (rule bit_word_eqI) (auto simp: bit_simps dest: bit_u8)
  then have "ucast b OR push_bit 8 (ucast a) = (ucast b + push_bit 8 (ucast a) :: u16)" by (simp add: disjunctive_add_eq_or)
  moreover have "unat a < 256" "unat b < 256" using unsigned_less [of a, where 'a = nat] unsigned_less [of b, where 'a = nat] by simp_all
  ultimately show ?thesis by (simp add: unat_word_ariths push_bit_eq_mult unsigned_ucast_eq take_bit_eq_mod)
qed

lemma htons_htons [simp]: "htons (htons x) = x"
  by (rule bit_word_eqI) (auto simp: bit_htons)

lemma ntohs_htons [simp]: "ntohs (htons x) = x" "htons (ntohs x) = x"
  by (simp_all add: ntohs_def)

lemma ld16_in: "i + 1 < length p \<Longrightarrow> ld16 p i = Inr (ucast (p ! i) OR push_bit 8 (ucast (p ! (i + 1))))"
  by (simp add: ld16_def)

lemma unat_ntohs: "i + 1 < length p \<Longrightarrow> ld16 p i = Inr w \<Longrightarrow> unat (ntohs w) = be16 p i"
  by (auto simp: ld16_in ntohs_def htons_swap unat_bytes be16_def)

section \<open>One's complement\<close>

text \<open>The sum of 16-bit words with the carry added back after every addition, the definition of the checksum.\<close>

definition eac :: "nat \<Rightarrow> nat \<Rightarrow> nat" where
  "eac x y = (if x + y < 65536 then x + y else x + y - 65535)"

definition ones_sum :: "nat list \<Rightarrow> nat" where
  "ones_sum ws = foldl eac 0 ws"

text \<open>The representative, from 1 to 65535, of a positive number modulo 65535.\<close>

definition ones :: "nat \<Rightarrow> nat" where
  "ones s = (if s = 0 then 0 else (s - 1) mod 65535 + 1)"

lemma ones_small: "s \<le> 65535 \<Longrightarrow> ones s = s"
  by (auto simp: ones_def)

lemma ones_add: "ones (s + 65535) = (if s = 0 then 65535 else ones s)"
proof (cases s)
  case (Suc k)
  then show ?thesis by (simp add: ones_def mod_add_self2 [of k 65535, simplified])
qed (simp add: ones_def)

lemma ones_mult: "0 < s \<Longrightarrow> ones (s + 65535 * k) = ones s"
proof (induction k)
  case (Suc k)
  then show ?case using ones_add [of "s + 65535 * k"] by (simp add: algebra_simps)
qed simp

lemma ones_le: "ones s \<le> 65535"
  by (simp add: ones_def Suc_le_eq)

lemma ones_pos: "0 < s \<Longrightarrow> 0 < ones s"
  by (simp add: ones_def)

lemma ones_split: "\<exists>k. s = ones s + 65535 * k"
proof (cases s)
  case (Suc n)
  then show ?thesis using div_mult_mod_eq [of n 65535] by (intro exI [of _ "n div 65535"]) (simp add: ones_def)
qed (simp add: ones_def)

lemma eac_ones:
  assumes "w \<le> 65535"
  shows "eac (ones s) w = ones (s + w)"
proof (cases "s = 0")
  case True
  then show ?thesis using assms by (simp add: eac_def ones_small)
next
  case False
  obtain k where k: "s = ones s + 65535 * k" using ones_split by blast
  have p: "0 < ones s" using ones_pos False by simp
  have "ones (s + w) = ones (ones s + w + 65535 * k)" by (rule arg_cong [of _ _ ones]) (use k in linarith)
  also have "\<dots> = ones (ones s + w)" using p by (intro ones_mult) simp
  also have "\<dots> = eac (ones s) w"
  proof (cases "ones s + w < 65536")
    case False
    then show ?thesis using ones_add [of "ones s + w - 65535"] ones_le [of s] assms by (simp add: eac_def ones_small)
  qed (simp add: eac_def ones_small)
  finally show ?thesis by simp
qed

lemma ones_sum_ones: "\<forall>w\<in>set ws. w \<le> 65535 \<Longrightarrow> ones_sum ws = ones (sum_list ws)"
proof (induction ws rule: rev_induct)
  case (snoc w ws)
  then show ?case using eac_ones [of w "sum_list ws"] by (simp add: ones_sum_def)
qed (simp add: ones_sum_def ones_def)

lemma unat_not: "unat (NOT (w :: u16)) = 65535 - unat w"
proof -
  have "NOT w = -1 - w" by (simp add: not_eq_complement)
  moreover have "w \<le> -1" by simp
  ultimately show ?thesis by (simp add: unat_sub unsigned_minus_1_eq_mask mask_eq_exp_minus_1)
qed

text \<open>Folding the carries at the end gives the same.\<close>

lemma unat_fold16: "unat (fold16 v) = 65535 - ones (unat v)"
proof -
  define hi lo where "hi = unat v div 65536" and "lo = unat v mod 65536"
  have v: "unat v = 65536 * hi + lo" by (simp add: hi_def lo_def)
  have b: "hi < 65536" "lo < 65536" using unsigned_less [of v, where 'a = nat] by (simp_all add: hi_def lo_def div_less_iff_less_mult)
  have m: "(0xFFFF :: u32) = mask 16" by (simp add: mask_eq_exp_minus_1)
  have d: "unat (drop_bit 16 x AND 0xFFFF) = unat x div 65536" for x :: u32
    using unsigned_less [of x, where 'a = nat]
    unfolding m by (simp add: unsigned_take_bit_eq unat_drop_bit_eq drop_bit_eq_div take_bit_eq_mod div_less_iff_less_mult unat_mod_distrib unat_div_distrib flip: take_bit_eq_mask)
  have l: "unat (x AND 0xFFFF) = unat x mod 65536" for x :: u32
    unfolding m by (simp add: unsigned_take_bit_eq take_bit_eq_mod unat_mod_distrib flip: take_bit_eq_mask)
  define v1 where "v1 = (drop_bit 16 v AND 0xFFFF) + (v AND 0xFFFF)"
  have u1: "unat v1 = hi + lo" 
    using b d [of v, folded hi_def] l [of v, folded lo_def] by (simp add: v1_def unat_word_ariths(1))
  have "unat (v1 + (drop_bit 16 v1 AND 0xFFFF)) = hi + lo + (hi + lo) div 65536" using b u1 by (simp add: unat_word_ariths(1) d)
  then have f: "unat (fold16 v) = 65535 - (hi + lo + (hi + lo) div 65536) mod 65536"
    unfolding fold16_def Let_def v1_def [symmetric] unat_not by (simp add: unsigned_ucast_eq take_bit_eq_mod)
  have "65536 * hi + lo = (hi + lo) + 65535 * hi" by simp
  then have o: "ones (unat v) = ones (hi + lo)" using ones_mult [of "hi + lo" hi] unfolding v by (cases "hi + lo = 0") simp_all
  show ?thesis
  proof (cases "hi + lo < 65536")
    case True
    then show ?thesis using f o by (simp add: ones_small)
  next
    case False
    have "(hi + lo) div 65536 = 1" using False b by (simp add: div_nat_eqI)
    moreover have "(hi + lo + 1) mod 65536 = hi + lo - 65535" using False b by (simp add: mod_if)
    moreover have "ones (hi + lo) = hi + lo - 65535" using ones_add [of "hi + lo - 65535"] False b by (simp add: ones_small)
    ultimately show ?thesis using f o by simp
  qed
qed

lemma be16_less: "be16 p i \<le> 65535"
  using unsigned_less [of "p ! i", where 'a = nat] unsigned_less [of "p ! (i + 1)", where 'a = nat] by (simp add: be16_def)

lemma sum16_in:
  assumes "off + 2 * n \<le> length p"
  shows "sum16 p off n v = Inr (v + of_nat (\<Sum>i<n. be16 p (off + 2 * i)))"
  using assms
proof (induction n)
  case (Suc n)
  let ?i = "off + 2 * n"
  obtain w where w: "ld16 p ?i = Inr w" "unat (ntohs w) = be16 p ?i" using Suc.prems ld16_in [of ?i p] unat_ntohs [of ?i p] by auto
  then have "ucast (ntohs w) = (of_nat (be16 p ?i) :: u32)" by (metis of_nat_unat)
  then show ?case using Suc w(1) by (simp add: sum16_def kfor_append)
qed (simp add: sum16_def)

text \<open>The words of a range of a packet, and the sum of the range.\<close>

definition words16 :: "u8 list \<Rightarrow> nat \<Rightarrow> nat \<Rightarrow> nat list" where
  "words16 p off n = map (\<lambda>i. be16 p (off + 2 * i)) [0..<n]"

lemma words16_le: "\<forall>w\<in>set (words16 p off n). w \<le> 65535"
  by (auto simp: words16_def be16_less)

lemma words16_sum: "sum_list (words16 p off n) = (\<Sum>i<n. be16 p (off + 2 * i))"
  by (simp add: words16_def interv_sum_list_conv_sum_set_nat atLeast0LessThan)

lemma words16_bound: "(\<Sum>i<n. be16 p (off + 2 * i)) \<le> n * 65535"
  using sum_bounded_above [of "{..<n}" "\<lambda>i. be16 p (off + 2 * i)" 65535] be16_less by simp

lemma net_calc_checksum_ok:
  assumes "off + size' \<le> length p" "size' \<le> 131072"
  shows "\<exists>c. net_calc_checksum p off size' = Inr c \<and> unat c = 65535 - ones_sum (words16 p off (size' div 2))"
proof -
  let ?n = "size' div 2"
  define S where "S = (\<Sum>i<?n. be16 p (off + 2 * i))"
  have n: "off + 2 * ?n \<le> length p" using assms(1) by simp
  have "?n \<le> 65536" using assms(2) by simp
  then have "S \<le> 65536 * 65535" using words16_bound [of p off ?n, folded S_def] mult_le_mono1 [of ?n 65536 65535] by linarith
  then have "unat (of_nat S :: u32) = S" by (simp add: unat_of_nat)
  then show ?thesis
    using sum16_in [OF n, of 0, folded S_def] unat_fold16 [of "of_nat S"] ones_sum_ones [OF words16_le [of p off ?n]]
      words16_sum [of p off ?n, folded S_def]
    by (simp add: net_calc_checksum_def)
qed

text \<open>C28: The checksum of a packet of up to 128 KiB is the one's complement of the one's complement sum of its
  16-bit words in network order: adding the carries at the end is the same as after each addition. An odd last
  byte is left out.\<close>

theorem checksum_ones_complement:
  assumes "off + size' \<le> length p" "size' \<le> 131072"
  shows "\<exists>c. net_calc_checksum p off size' = Inr c \<and> unat c + ones_sum (words16 p off (size' div 2)) = 65535"
proof -
  have "ones_sum (words16 p off (size' div 2)) \<le> 65535" unfolding ones_sum_ones [OF words16_le] by (rule ones_le)
  then show ?thesis using net_calc_checksum_ok [OF assms] by fastforce
qed

theorem checksum_ones_complement_witness:
  "\<exists>c. net_calc_checksum [0xFF, 0xFF, 0x00, 0x02, 0x10] 0 5 = Inr c \<and> unat c + ones_sum (words16 [0xFF, 0xFF, 0x00, 0x02, 0x10] 0 2) = 65535"
  using checksum_ones_complement [of 0 5 "[0xFF, 0xFF, 0x00, 0x02, 0x10]"] by simp

end
