(* ===== verification/E1000.thy ===== *)
theory E1000
  imports Prelude
begin

text \<open>
  The data path of the network card driver (src/kernel/net/e1000.c): the transmit ring, the receive interrupt
  and the queue of received packets. A descriptor is modelled with the bytes of its DMA buffer. The registers
  the driver reads back are fields of the state; the card itself moves on between the operations only. The
  queue of packets is the list that \<open>list_insert\<close> appends to and \<open>list_dequeue\<close> takes the first element of.
  The boolean function \<open>mem\<close> tells which of the allocations of an operation, in their order, succeed.
\<close>

definition E1000_NUM_RX_DESC :: nat where "E1000_NUM_RX_DESC = 32"
definition E1000_NUM_TX_DESC :: nat where "E1000_NUM_TX_DESC = 8"

record e1000_rx_desc =
  rd_buf :: "u8 list"
  rd_length :: u16
  rd_status :: u8

record e1000_tx_desc =
  td_buf :: "u8 list"
  td_length :: u16
  td_cmd :: u8
  td_status :: u8

record e1000 =
  e_rx :: "e1000_rx_desc list"
  e_rx_head :: u32
  e_rx_tail :: u32
  e_tx :: "e1000_tx_desc list"
  e_tx_tail :: u32
  e_rx_queue :: "u8 list list"

text \<open>\<open>memcpy\<close> of \<open>data\<close> to the start of the buffer \<open>buf\<close>.\<close>

definition buf_copy :: "u8 list \<Rightarrow> u8 list \<Rightarrow> u8 list res" where
  "buf_copy buf data =
     kbind (kassert (data \<noteq> [])) (\<lambda>_.
     if length data \<le> length buf then Inr (data @ drop (length data) buf) else Inl MemFault)"

definition e1000_send_packet :: "u8 list \<Rightarrow> e1000 \<Rightarrow> e1000 res" where
  "e1000_send_packet data e =
     kbind (kassert (length data \<noteq> 0)) (\<lambda>_.
     kbind (kassert (length data \<le> 4096)) (\<lambda>_.
     let tx_index = unat (e_tx_tail e)
     in kbind (kload (e_tx e) tx_index) (\<lambda>d.
        kbind (buf_copy (td_buf d) data) (\<lambda>buf.
        Inr (e\<lparr>e_tx := (e_tx e)[tx_index := d\<lparr>td_buf := buf, td_length := of_nat (length data), td_cmd := 15, td_status := 0\<rparr>],
               e_tx_tail := of_nat ((tx_index + 1) mod E1000_NUM_TX_DESC)\<rparr>)))))"

text \<open>\<open>None\<close>: the caller waits in \<open>semaphore_acquire\<close> for a packet.\<close>

definition e1000_receive_packet :: "e1000 \<Rightarrow> (u8 list \<times> e1000) option" where
  "e1000_receive_packet e =
     (case e_rx_queue e of [] \<Rightarrow> None | p # ps \<Rightarrow> Some (p, e\<lparr>e_rx_queue := ps\<rparr>))"

text \<open>The body of the loop over the descriptors of received packets, and the loop. It ends because each round clears
  the status bit of a descriptor.\<close>

definition rx_take :: "(nat \<Rightarrow> bool) \<Rightarrow> nat \<Rightarrow> e1000_rx_desc \<Rightarrow> e1000 \<Rightarrow> e1000 res" where
  "rx_take mem j d e =
     kbind (kassert (rd_length d \<le> 4096)) (\<lambda>_.
     kbind (kassert (rd_length d \<noteq> 0)) (\<lambda>_.
     kbind (kassert (mem 0)) (\<lambda>_.
     kbind (kassert (mem 1)) (\<lambda>_.
     if unat (rd_length d) \<le> length (rd_buf d)
     then Inr (e\<lparr>e_rx := (e_rx e)[j := d\<lparr>rd_status := 0\<rparr>],
                 e_rx_queue := e_rx_queue e @ [take (unat (rd_length d)) (rd_buf d)],
                 e_rx_tail := of_nat j\<rparr>)
     else Inl MemFault))))"

definition rx_pending :: "e1000 \<Rightarrow> nat" where
  "rx_pending e = length (filter (\<lambda>d. rd_status d AND 1 \<noteq> 0) (e_rx e))"

lemma rx_take_pending:
  assumes "rx_take mem j d e = Inr e'" "j < length (e_rx e)" "e_rx e ! j = d" "rd_status d AND 1 \<noteq> 0"
  shows "rx_pending e' < rx_pending e"
proof -
  let ?P = "\<lambda>d. rd_status d AND 1 \<noteq> 0"
  have e': "e_rx e' = (e_rx e)[j := d\<lparr>rd_status := 0\<rparr>]" using assms(1) by (auto simp: rx_take_def split: if_splits)
  have s: "e_rx e = take j (e_rx e) @ d # drop (Suc j) (e_rx e)" using id_take_nth_drop [OF assms(2)] unfolding assms(3) .
  have "filter ?P (e_rx e) = filter ?P (take j (e_rx e)) @ d # filter ?P (drop (Suc j) (e_rx e))"
    by (subst s) (simp add: assms(4))
  moreover have "filter ?P (e_rx e') = filter ?P (take j (e_rx e)) @ filter ?P (drop (Suc j) (e_rx e))"
    unfolding e' using assms(2) by (simp add: upd_conv_take_nth_drop)
  ultimately show ?thesis by (simp add: rx_pending_def)
qed

function rx_loop :: "(nat \<Rightarrow> bool) \<Rightarrow> e1000 \<Rightarrow> e1000 res" where
  "rx_loop mem e =
     kbind (kassert (e_rx_tail e \<noteq> e_rx_head e)) (\<lambda>_.
     let j = unat (e_rx_tail e + 1) mod E1000_NUM_RX_DESC
     in kbind (kload (e_rx e) j) (\<lambda>d.
        if rd_status d AND 1 \<noteq> 0
        then kbind (rx_take mem j d e) (\<lambda>e. rx_loop (\<lambda>i. mem (i + 2)) e)
        else Inr e))"
  by pat_completeness auto
termination
  by (relation "measure (\<lambda>(_, e). rx_pending e)") (auto dest: rx_take_pending)

declare rx_loop.simps [simp del]

text \<open>The interrupt handler, for the value of the interrupt cause register: \<open>None\<close> is \<open>IRQ_IGNORED\<close>, \<open>Some ()\<close> is
  \<open>IRQ_HANDLED\<close>. A status with no known bit leaves \<open>should_return\<close> uninitialised, which the model treats as a fault.\<close>

definition e1000_irq :: "(nat \<Rightarrow> bool) \<Rightarrow> u32 \<Rightarrow> e1000 \<Rightarrow> (unit option \<times> e1000) res" where
  "e1000_irq mem status e =
     (if status = 0 then Inr (None, e)
      else kbind (if status AND 0x80 \<noteq> 0 then rx_loop mem e else Inr e) (\<lambda>e.
           if status AND 0x40 \<noteq> 0 then Inl AssertFailed
           else if status AND 0x97 \<noteq> 0 then Inr (Some (), e) else Inl MemFault))"

section \<open>The rings\<close>

definition tx_ok :: "e1000 \<Rightarrow> bool" where
  "tx_ok e \<longleftrightarrow> unat (e_tx_tail e) < E1000_NUM_TX_DESC \<and> E1000_NUM_TX_DESC \<le> length (e_tx e) \<and> (\<forall>d\<in>set (e_tx e). length (td_buf d) = 4096)"

text \<open>The frame in slot \<open>i\<close> of the transmit ring.\<close>

definition tx_frame :: "e1000 \<Rightarrow> nat \<Rightarrow> u8 list" where
  "tx_frame e i = take (unat (td_length (e_tx e ! i))) (td_buf (e_tx e ! i))"

lemma e1000_send_ok:
  assumes "tx_ok e" "data \<noteq> []" "length data \<le> 4096"
  shows "\<exists>e'. e1000_send_packet data e = Inr e' \<and> tx_ok e' \<and> tx_frame e' (unat (e_tx_tail e)) = data \<and>
    unat (e_tx_tail e') = (unat (e_tx_tail e) + 1) mod E1000_NUM_TX_DESC \<and> e_rx_queue e' = e_rx_queue e \<and>
    (\<forall>i. i \<noteq> unat (e_tx_tail e) \<longrightarrow> e_tx e' ! i = e_tx e ! i)"
proof -
  let ?i = "unat (e_tx_tail e)"
  have i: "?i < length (e_tx e)" "length (td_buf (e_tx e ! ?i)) = 4096" using assms(1) by (auto simp: tx_ok_def)
  have u: "unat (of_nat (length data) :: u16) = length data" using assms(3) by (simp add: unat_of_nat)
  have n: "unat (of_nat ((?i + 1) mod 8) :: u32) = (?i + 1) mod 8" by (simp add: unat_of_nat)
  let ?d = "(e_tx e ! ?i)\<lparr>td_buf := data @ drop (length data) (td_buf (e_tx e ! ?i)), td_length := of_nat (length data), td_cmd := 15, td_status := 0\<rparr>"
  have "length (td_buf ?d) = 4096" using i assms(3) by simp
  then have "\<forall>d\<in>set ((e_tx e)[?i := ?d]). length (td_buf d) = 4096"
    using set_update_subset_insert [of "e_tx e" ?i ?d] assms(1) unfolding tx_ok_def by blast
  then show ?thesis using assms i u n
    by (simp add: e1000_send_packet_def buf_copy_def Let_def tx_ok_def tx_frame_def E1000_NUM_TX_DESC_def)
qed

section \<open>Received packets\<close>

definition rx_slot :: "e1000 \<Rightarrow> nat \<Rightarrow> nat" where
  "rx_slot e k = (unat (e_rx_tail e) + 1 + k) mod E1000_NUM_RX_DESC"

definition rx_frame :: "e1000_rx_desc \<Rightarrow> u8 list" where
  "rx_frame d = take (unat (rd_length d)) (rd_buf d)"

definition rx_done :: "e1000_rx_desc \<Rightarrow> bool" where
  "rx_done d \<longleftrightarrow> rd_status d AND 1 \<noteq> 0 \<and> rd_length d \<noteq> 0 \<and> rd_length d \<le> 4096 \<and> length (rd_buf d) = 4096"

text \<open>The card has filled the \<open>n\<close> descriptors behind the tail, and no more.\<close>

definition rx_filled :: "nat \<Rightarrow> e1000 \<Rightarrow> bool" where
  "rx_filled n e \<longleftrightarrow> length (e_rx e) = E1000_NUM_RX_DESC \<and> unat (e_rx_tail e) < E1000_NUM_RX_DESC \<and> n + 1 < E1000_NUM_RX_DESC \<and>
     unat (e_rx_head e) = rx_slot e n \<and>
     (\<forall>k<n. rx_done (e_rx e ! rx_slot e k)) \<and> rd_status (e_rx e ! rx_slot e n) AND 1 = 0"

lemma rx_slot_eq: "i < 32 \<Longrightarrow> k < 32 \<Longrightarrow> rx_slot e i = rx_slot e k \<longleftrightarrow> i = k"
proof
  assume ik: "i < 32" "k < 32" "rx_slot e i = rx_slot e k"
  have "i mod 32 = k mod 32" using ik(3) unfolding rx_slot_def E1000_NUM_RX_DESC_def nat_mod_eq_iff by auto
  then show "i = k" using ik(1,2) by simp
qed simp

lemma rx_next: "unat (e_rx_tail e) < 32 \<Longrightarrow> unat (e_rx_tail e + 1) mod 32 = rx_slot e 0"
  by (simp add: rx_slot_def E1000_NUM_RX_DESC_def unat_word_ariths(1))

lemma rx_tail_head: "rx_filled n e \<Longrightarrow> e_rx_tail e \<noteq> e_rx_head e"
proof
  assume f: "rx_filled n e" and "e_rx_tail e = e_rx_head e"
  then have "rx_slot e n = rx_slot e 31" by (simp add: rx_filled_def rx_slot_def E1000_NUM_RX_DESC_def)
  then show False using f rx_slot_eq [of n 31 e] by (simp add: rx_filled_def E1000_NUM_RX_DESC_def)
qed

lemma rx_take_filled:
  assumes f: "rx_filled (Suc n) e" and mem: "\<And>i. mem i" and d: "d = e_rx e ! rx_slot e 0"
  shows "\<exists>e'. rx_take mem (rx_slot e 0) d e = Inr e' \<and> rx_filled n e' \<and> e_rx_queue e' = e_rx_queue e @ [rx_frame d] \<and>
    (\<forall>k<n. e_rx e' ! rx_slot e' k = e_rx e ! rx_slot e (Suc k)) \<and> e_tx e' = e_tx e \<and> e_tx_tail e' = e_tx_tail e"
proof -
  note F = f [unfolded rx_filled_def E1000_NUM_RX_DESC_def]
  let ?j = "rx_slot e 0"
  let ?e = "e\<lparr>e_rx := (e_rx e)[?j := d\<lparr>rd_status := 0\<rparr>], e_rx_queue := e_rx_queue e @ [rx_frame d], e_rx_tail := of_nat ?j\<rparr>"
  have j: "?j < 32" by (simp add: rx_slot_def E1000_NUM_RX_DESC_def)
  have rd: "rx_done d" using F d by blast
  have "unat (rd_length d) \<le> 4096" using rd by (simp add: rx_done_def word_le_nat_alt)
  then have t: "rx_take mem ?j d e = Inr ?e" using rd mem by (simp add: rx_take_def rx_done_def rx_frame_def)
  have s: "rx_slot ?e k = rx_slot e (Suc k)" for k
    using mod_add_left_eq [of "unat (e_rx_tail e) + 1 + 0" 32 "1 + k"] unfolding rx_slot_def E1000_NUM_RX_DESC_def by (simp add: unat_of_nat)
  have o: "e_rx ?e ! rx_slot ?e k = e_rx e ! rx_slot e (Suc k)" if "k < 31" for k
    using that rx_slot_eq [of "Suc k" 0 e] unfolding s by simp
  have "rx_filled n ?e" using F o j s by (simp add: rx_filled_def E1000_NUM_RX_DESC_def unat_of_nat)
  then show ?thesis using t o F by (intro exI [of _ ?e]) simp
qed

lemma rx_loop_delivers:
  assumes "rx_filled n e" "\<And>i. mem i"
  shows "\<exists>e'. rx_loop mem e = Inr e' \<and> rx_filled 0 e' \<and> e_rx_queue e' = e_rx_queue e @ map (\<lambda>k. rx_frame (e_rx e ! rx_slot e k)) [0..<n] \<and>
    e_tx e' = e_tx e \<and> e_tx_tail e' = e_tx_tail e"
  using assms
proof (induction n arbitrary: e mem)
  case 0
  have "rx_loop mem e = Inr e"
    using 0 rx_next [of e] rx_tail_head [OF 0(1)] by (subst rx_loop.simps) (simp add: rx_filled_def E1000_NUM_RX_DESC_def Let_def rx_slot_def)
  then show ?case using 0(1) by (intro exI [of _ e]) simp
next
  case (Suc n)
  let ?d = "e_rx e ! rx_slot e 0"
  obtain e1 where e1: "rx_take mem (rx_slot e 0) ?d e = Inr e1" "rx_filled n e1" "e_rx_queue e1 = e_rx_queue e @ [rx_frame ?d]"
    "\<forall>k<n. e_rx e1 ! rx_slot e1 k = e_rx e ! rx_slot e (Suc k)" "e_tx e1 = e_tx e" "e_tx_tail e1 = e_tx_tail e"
    using rx_take_filled [of n e mem, OF Suc.prems refl] by blast
  obtain e' where e': "rx_loop (\<lambda>i. mem (i + 2)) e1 = Inr e'" "rx_filled 0 e'"
    "e_rx_queue e' = e_rx_queue e1 @ map (\<lambda>k. rx_frame (e_rx e1 ! rx_slot e1 k)) [0..<n]" "e_tx e' = e_tx e1" "e_tx_tail e' = e_tx_tail e1"
    using Suc.IH [OF e1(2), of "\<lambda>i. mem (i + 2)"] Suc.prems(2) by blast
  have d: "rx_done ?d" "rx_slot e 0 < length (e_rx e)" "unat (e_rx_tail e) < 32"
    using Suc.prems(1) by (auto simp: rx_filled_def rx_slot_def E1000_NUM_RX_DESC_def)
  have "rx_loop mem e = Inr e'"
    using d e1(1) e'(1) rx_next [OF d(3)] rx_tail_head [OF Suc.prems(1)]
    by (subst rx_loop.simps) (simp add: E1000_NUM_RX_DESC_def Let_def rx_done_def)
  moreover have "[0..<Suc n] = 0 # map Suc [0..<n]" by (simp add: upt_conv_Cons map_Suc_upt del: upt_Suc)
  ultimately show ?case using e1(3-6) e'(2-5) by simp
qed


definition ex_ring :: e1000 where
  "ex_ring = \<lparr>e_rx = \<lparr>rd_buf = [7, 8, 9] @ replicate 4093 0, rd_length = 3, rd_status = 1\<rparr> #
                      replicate 31 \<lparr>rd_buf = replicate 4096 0, rd_length = 0, rd_status = 0\<rparr>,
              e_rx_head = 1, e_rx_tail = 31, e_tx = [], e_tx_tail = 0, e_rx_queue = [[1, 2]]\<rparr>"


end
