(* ===== verification/Net.thy ===== *)
theory Net
  imports Checksum E1000
begin

text \<open>
  The network stack (src/kernel/net/net.c, udp.c and tcp.c): building and sending Ethernet, ARP, IPv4 and UDP
  packets, and the handlers of received packets. The bytes of a received frame are the list \<open>p\<close>; the structures
  are read at their offsets: the Ethernet header at 0, the IPv4 or ARP header at 14, the payload of IPv4 at 34.
  A packet that is built is the list of the bytes of its packed structure. \<open>mem\<close> tells which allocations of
  the call succeed, in their order. Debugging output is left out, except that it reads the packet.
\<close>

record netif_t =
  ni_ip :: "u8 list"
  ni_mac :: "u8 list"
  ni_gateway :: "u8 list"
  ni_gateway_mac :: "u8 list"
  ni_gateway_mac_configured :: bool
  ni_dev :: e1000

definition ETHERNET_TYPE_ARP :: u16 where "ETHERNET_TYPE_ARP = 0x0806"
definition ETHERNET_TYPE_IPV4 :: u16 where "ETHERNET_TYPE_IPV4 = 0x0800"
definition ETHERNET_TYPE_IPV6 :: u16 where "ETHERNET_TYPE_IPV6 = 0x86dd"
definition ARP_HWTYPE_ETHERNET :: u16 where "ARP_HWTYPE_ETHERNET = 1"
definition ARP_OPCODE_REQUEST :: u16 where "ARP_OPCODE_REQUEST = 1"
definition ARP_OPCODE_REPLY :: u16 where "ARP_OPCODE_REPLY = 2"
definition IPV4_TYPE_ICMP :: u8 where "IPV4_TYPE_ICMP = 1"
definition IPV4_TYPE_TCP :: u8 where "IPV4_TYPE_TCP = 6"
definition IPV4_TYPE_UDP :: u8 where "IPV4_TYPE_UDP = 17"
definition ICMP_TYPE_ECHO_REPLY :: u8 where "ICMP_TYPE_ECHO_REPLY = 0"
definition ICMP_TYPE_ECHO_REQUEST :: u8 where "ICMP_TYPE_ECHO_REQUEST = 8"

text \<open>\<open>memcmp(&p[i], xs, n) == 0\<close>, which stops at the first difference, and \<open>memcpy\<close> out of a packet.\<close>

fun mem_eq :: "u8 list \<Rightarrow> nat \<Rightarrow> u8 list \<Rightarrow> bool res" where
  "mem_eq p i [] = Inr True"
| "mem_eq p i (x # xs) = kbind (kload p i) (\<lambda>c. if c = x then mem_eq p (i + 1) xs else Inr False)"

definition cpy :: "u8 list \<Rightarrow> nat \<Rightarrow> nat \<Rightarrow> u8 list res" where
  "cpy p i n = kbind (kassert (n \<noteq> 0)) (\<lambda>_. ldn p i n)"

section \<open>Registration\<close>

definition net_register_netif :: "u8 list \<Rightarrow> e1000 \<Rightarrow> netif_t" where
  "net_register_netif mac dev =
     \<lparr>ni_ip = [10, 0, 0, 2], ni_mac = mac, ni_gateway = [10, 20, 0, 1], ni_gateway_mac = [0, 0, 0, 0, 0, 0],
      ni_gateway_mac_configured = False, ni_dev = dev\<rparr>"

section \<open>Sending\<close>

definition ethernet_frame :: "u8 list \<Rightarrow> u8 list \<Rightarrow> u16 \<Rightarrow> u8 list \<Rightarrow> u8 list" where
  "ethernet_frame srcmac dstmac type data =
     (let packet = dstmac @ srcmac @ bytes16 (htons type) @ data
      in packet @ replicate (60 - length packet) 0)"

definition net_send_ethernet :: "(nat \<Rightarrow> bool) \<Rightarrow> u8 list \<Rightarrow> u8 list \<Rightarrow> u16 \<Rightarrow> u8 list \<Rightarrow> netif_t \<Rightarrow> (bool \<times> netif_t) res" where
  "net_send_ethernet mem srcmac dstmac type data n =
     (if \<not> mem 0 then Inr (False, n)
      else kbind (kassert (data \<noteq> [])) (\<lambda>_.
           kbind (e1000_send_packet (ethernet_frame srcmac dstmac type data) (ni_dev n)) (\<lambda>d.
           Inr (True, n\<lparr>ni_dev := d\<rparr>))))"

definition arp_packet :: "u16 \<Rightarrow> u8 list \<Rightarrow> u8 list \<Rightarrow> u8 list \<Rightarrow> u8 list \<Rightarrow> u8 list" where
  "arp_packet opcode srchw srcpr dsthw dstpr =
     bytes16 (htons ARP_HWTYPE_ETHERNET) @ bytes16 (htons ETHERNET_TYPE_IPV4) @ [6, 4] @ bytes16 (htons opcode) @
     srchw @ srcpr @ dsthw @ dstpr"

definition net_send_arp ::
    "(nat \<Rightarrow> bool) \<Rightarrow> u8 list \<Rightarrow> u8 list \<Rightarrow> u16 \<Rightarrow> u8 list \<Rightarrow> u8 list \<Rightarrow> u8 list \<Rightarrow> u8 list \<Rightarrow> netif_t \<Rightarrow> (bool \<times> netif_t) res" where
  "net_send_arp mem srcmac dstmac opcode srchw srcpr dsthw dstpr n =
     (if \<not> mem 0 then Inr (False, n)
      else net_send_ethernet (\<lambda>i. mem (i + 1)) srcmac dstmac ETHERNET_TYPE_ARP (arp_packet opcode srchw srcpr dsthw dstpr) n)"

definition net_send_arp_request :: "(nat \<Rightarrow> bool) \<Rightarrow> u8 list \<Rightarrow> netif_t \<Rightarrow> (bool \<times> netif_t) res" where
  "net_send_arp_request mem ip n =
     net_send_arp mem (ni_mac n) [0xFF, 0xFF, 0xFF, 0xFF, 0xFF, 0xFF] ARP_OPCODE_REQUEST (ni_mac n) (ni_ip n) [0, 0, 0, 0, 0, 0] ip n"

text \<open>The IPv4 header, and the packet with its checksum.\<close>

definition ipv4_header :: "u16 \<Rightarrow> u16 \<Rightarrow> u8 \<Rightarrow> u16 \<Rightarrow> u8 list \<Rightarrow> u8 list \<Rightarrow> u8 list" where
  "ipv4_header len identification protocol checksum srcip dstip =
     [0x45, 0] @ bytes16 (htons len) @ bytes16 (htons identification) @ [0, 0, 64, protocol] @ bytes16 checksum @ srcip @ dstip"

definition ipv4_calculate_checksum :: "u8 list \<Rightarrow> nat \<Rightarrow> u16 res" where
  "ipv4_calculate_checksum p off = kbind (st16 p (off + 10) 0) (\<lambda>p. net_calc_checksum p off 20)"

definition ipv4_is_checksum_valid :: "u8 list \<Rightarrow> nat \<Rightarrow> bool res" where
  "ipv4_is_checksum_valid p off =
     kbind (ipv4_calculate_checksum p off) (\<lambda>calc. kbind (ld16 p (off + 10)) (\<lambda>c. Inr (calc = ntohs c)))"

definition net_send_ipv4 ::
    "(nat \<Rightarrow> bool) \<Rightarrow> u8 list option \<Rightarrow> u16 \<Rightarrow> u8 \<Rightarrow> u8 list \<Rightarrow> u8 list \<Rightarrow> u8 list \<Rightarrow> netif_t \<Rightarrow> (bool \<times> netif_t) res" where
  "net_send_ipv4 mem dstmac identification protocol srcip dstip data n =
     (if \<not> mem 0 then Inr (False, n)
      else kbind (kassert (data \<noteq> [])) (\<lambda>_.
           let packet = ipv4_header (of_nat (20 + length data)) identification protocol 0 srcip dstip @ data
           in kbind (ipv4_calculate_checksum packet 0) (\<lambda>c.
              kbind (st16 packet 10 (htons c)) (\<lambda>packet.
              case dstmac of
                Some mac \<Rightarrow> net_send_ethernet (\<lambda>i. mem (i + 1)) (ni_mac n) mac ETHERNET_TYPE_IPV4 packet n
              | None \<Rightarrow> if \<not> ni_gateway_mac_configured n then Inr (False, n)
                        else net_send_ethernet (\<lambda>i. mem (i + 1)) (ni_mac n) (ni_gateway_mac n) ETHERNET_TYPE_IPV4 packet n))))"

definition net_send_udp :: "(nat \<Rightarrow> bool) \<Rightarrow> u8 list \<Rightarrow> u16 \<Rightarrow> u16 \<Rightarrow> u8 list \<Rightarrow> netif_t \<Rightarrow> (bool \<times> netif_t) res" where
  "net_send_udp mem dstip srcport dstport data n =
     (if \<not> mem 0 then Inr (False, n)
      else kbind (kassert (data \<noteq> [])) (\<lambda>_.
           net_send_ipv4 (\<lambda>i. mem (i + 1)) None 0 IPV4_TYPE_UDP (ni_ip n) dstip
             (bytes16 (htons srcport) @ bytes16 (htons dstport) @ bytes16 (htons (of_nat (8 + length data))) @ [0, 0] @ data) n))"

section \<open>ICMP\<close>

definition net_handle_icmp_echo :: "(nat \<Rightarrow> bool) \<Rightarrow> u8 list \<Rightarrow> nat \<Rightarrow> netif_t \<Rightarrow> netif_t res" where
  "net_handle_icmp_echo mem p icmp_packet_data_size n =
     (if icmp_packet_data_size < 4 then Inr n
      else let data_length = icmp_packet_data_size - 4
           in if \<not> mem 0 then Inr n
              else kbind (ldn p 38 2) (\<lambda>identifier.
                   kbind (ldn p 40 2) (\<lambda>sequence.
                   kbind (if data_length \<noteq> 0 then cpy p 42 data_length else Inr []) (\<lambda>data.
                   let reply = [ICMP_TYPE_ECHO_REPLY, 0, 0, 0] @ identifier @ sequence @ data
                   in kbind (net_calc_checksum reply 0 (length reply)) (\<lambda>c.
                      kbind (st16 reply 2 (htons c)) (\<lambda>reply.
                      kbind (ldn p 6 6) (\<lambda>srcmac.
                      kbind (ld16 p 18) (\<lambda>identification.
                      kbind (ldn p 26 4) (\<lambda>srcip.
                      kbind (net_send_ipv4 (\<lambda>i. mem (i + 1)) (Some srcmac) identification IPV4_TYPE_ICMP (ni_ip n) srcip reply n)
                        (\<lambda>(_, n). Inr n))))))))))"

text \<open>Only echo requests are answered; the checksum is set to zero in the packet while it is compared.\<close>

definition net_handle_icmp :: "(nat \<Rightarrow> bool) \<Rightarrow> u8 list \<Rightarrow> nat \<Rightarrow> netif_t \<Rightarrow> netif_t res" where
  "net_handle_icmp mem p ipv4_data_length n =
     (if ipv4_data_length < 4 then Inr n
      else kbind (ld16 p 36) (\<lambda>c.
           let old_checksum = ntohs c
           in kbind (st16 p 36 0) (\<lambda>p.
              kbind (net_calc_checksum p 34 ipv4_data_length) (\<lambda>calc.
              if old_checksum \<noteq> calc then Inr n
              else kbind (st16 p 36 (htons old_checksum)) (\<lambda>p.
                   kbind (kload p 34) (\<lambda>type.
                   if type = ICMP_TYPE_ECHO_REQUEST then net_handle_icmp_echo mem p (ipv4_data_length - 4) n else Inr n))))))"

section \<open>UDP and TCP\<close>

text \<open>The loop that prints the data of a UDP packet runs to the length in its header less 8, a 32-bit difference.\<close>

definition udp_dump :: "u8 list \<Rightarrow> u32 \<Rightarrow> unit res" where
  "udp_dump p n = kfor (\<lambda>i _. kbind (kload p (42 + i)) (\<lambda>_. Inr ())) [0..<unat n] ()"

definition net_handle_udp :: "(nat \<Rightarrow> bool) \<Rightarrow> u8 list \<Rightarrow> nat \<Rightarrow> netif_t \<Rightarrow> netif_t res" where
  "net_handle_udp mem p ipv4_data_length n =
     (if ipv4_data_length < 8 then Inr n
      else kbind (ld16 p 34) (\<lambda>srcport.
           kbind (ld16 p 36) (\<lambda>dstport.
           kbind (ld16 p 38) (\<lambda>len.
           kbind (ld16 p 40) (\<lambda>_.
           kbind (udp_dump p (ucast (ntohs len) - 8)) (\<lambda>_.
           kbind (ldn p 26 4) (\<lambda>srcip.
           if \<not> mem 0 then Inr n
           else kbind (cpy p 42 (unat (ntohs len))) (\<lambda>data.
                kbind (net_send_udp mem srcip (ntohs dstport) (ntohs srcport) data n) (\<lambda>(_, n). Inr n)))))))))"

datatype tcp_verdict = TcpTooShort | TcpOffset | TcpLonger | TcpReserved | TcpChecksum | TcpValid

definition tcp_calc_checksum :: "u8 list \<Rightarrow> nat \<Rightarrow> u16 res" where
  "tcp_calc_checksum p len =
     kbind (ldn p 26 4) (\<lambda>srcip.
     kbind (ldn p 30 4) (\<lambda>dstip.
     kbind (ld16 p 50) (\<lambda>c.
     net_calc_checksum2 (srcip @ dstip @ [0, IPV4_TYPE_TCP] @ bytes16 (htons (of_nat len))) p 34 len (ntohs c))))"

text \<open>What the handler prints of a TCP segment; it does nothing else with it.\<close>

definition net_handle_tcp :: "u8 list \<Rightarrow> nat \<Rightarrow> tcp_verdict res" where
  "net_handle_tcp p ipv4_data_length =
     (if ipv4_data_length < 20 then Inr TcpTooShort
      else kbind (ldn p 34 12) (\<lambda>_.
           kbind (ld16 p 46) (\<lambda>f.
           let flags = ntohs f;
               data_offset = ucast (drop_bit 12 flags AND 0xF) * 4 :: u32;
               data_length = of_nat ipv4_data_length - data_offset;
               len = data_offset + data_length
           in if data_offset < 20 then Inr TcpOffset
              else if 60 < data_offset then Inr TcpOffset
              else if of_nat ipv4_data_length < len then Inr TcpLonger
              else if flags AND 0xE00 \<noteq> 0 then Inr TcpReserved
              else kbind (ldn p 48 2) (\<lambda>_.
                   kbind (ld16 p 50) (\<lambda>received.
                   kbind (tcp_calc_checksum p (unat len)) (\<lambda>calculated.
                   if ntohs received \<noteq> calculated then Inr TcpChecksum
                   else kbind (ldn p 52 2) (\<lambda>_. Inr TcpValid)))))))"

section \<open>IPv4\<close>

definition net_handle_ipv4 :: "(nat \<Rightarrow> bool) \<Rightarrow> u8 list \<Rightarrow> netif_t \<Rightarrow> netif_t res" where
  "net_handle_ipv4 mem p n =
     (if length p < 34 then Inr n
      else kbind (kload p 14) (\<lambda>version_ihl.
           if version_ihl AND 0x0F \<noteq> 5 then Inr n
           else if drop_bit 4 (version_ihl AND 0xF0) \<noteq> 4 then Inr n
           else kbind (ld16 p 16) (\<lambda>len.
                let ipv4_packet_length = unat (ntohs len)
                in if ipv4_packet_length < 20 then Inr n
                   else if length p < ipv4_packet_length + 14 + 4 then Inr n
                   else kbind (ld16 p 20) (\<lambda>ffo.
                        let flags = drop_bit 13 (ntohs ffo AND 0xE000)
                        in if flags AND 1 \<noteq> 0 then Inr n
                           else if flags AND 4 \<noteq> 0 then Inr n
                           else kbind (ipv4_is_checksum_valid p 14) (\<lambda>valid.
                                if \<not> valid then Inr n
                                else kbind (mem_eq p 30 (ni_ip n)) (\<lambda>us.
                                     if \<not> us then Inr n
                                     else kbind (kload p 23) (\<lambda>protocol.
                                          let data_length = ipv4_packet_length - 20
                                          in if protocol = IPV4_TYPE_ICMP then net_handle_icmp mem p data_length n
                                             else if protocol = IPV4_TYPE_TCP then kbind (net_handle_tcp p data_length) (\<lambda>_. Inr n)
                                             else if protocol = IPV4_TYPE_UDP then net_handle_udp mem p data_length n
                                             else Inr n)))))))"

definition net_handle_ipv6 :: "u8 list \<Rightarrow> netif_t \<Rightarrow> netif_t res" where
  "net_handle_ipv6 p n = Inr n"

section \<open>ARP\<close>

definition arp_msg :: "u8 list" where
  "arp_msg = map of_char ''hello from the other side. I must have called a thousand times!'' @ [10, 0]"

text \<open>The addresses of the packet: they are printed before the packet is looked at.\<close>

definition arp_fields :: "u8 list \<Rightarrow> (u8 list \<times> u8 list \<times> u8 list \<times> u8 list) res" where
  "arp_fields p =
     kbind (ldn p 22 6) (\<lambda>srchw.
     kbind (ldn p 28 4) (\<lambda>srcpr.
     kbind (ldn p 32 6) (\<lambda>dsthw.
     kbind (ldn p 38 4) (\<lambda>dstpr. Inr (srchw, srcpr, dsthw, dstpr)))))"

definition net_handle_arp :: "(nat \<Rightarrow> bool) \<Rightarrow> u8 list \<Rightarrow> netif_t \<Rightarrow> netif_t res" where
  "net_handle_arp mem p n =
     (if length p < 34 then Inr n
      else kbind (ld16 p 14) (\<lambda>hwtype.
           if ntohs hwtype \<noteq> 1 then Inr n
           else kbind (ld16 p 16) (\<lambda>ptype.
                if ntohs ptype \<noteq> ETHERNET_TYPE_IPV4 then Inr n
                else kbind (kload p 18) (\<lambda>hlen.
                     if hlen \<noteq> 6 then Inr n
                     else kbind (kload p 19) (\<lambda>plen.
                          if plen \<noteq> 4 then Inr n
                          else kbind (ld16 p 20) (\<lambda>opcode.
                               if ntohs opcode = ARP_OPCODE_REQUEST
                               then kbind (arp_fields p) (\<lambda>(srchw, srcpr, dsthw, dstpr).
                                    if ni_ip n = dstpr
                                    then kbind (ldn p 6 6) (\<lambda>srcmac.
                                         kbind (net_send_arp mem (ni_mac n) srcmac ARP_OPCODE_REPLY (ni_mac n) (ni_ip n) srchw srcpr n)
                                           (\<lambda>(_, n). Inr n))
                                    else Inr n)
                               else if ntohs opcode = ARP_OPCODE_REPLY
                               then kbind (arp_fields p) (\<lambda>(srchw, srcpr, dsthw, dstpr).
                                    if srcpr = ni_gateway n
                                    then let n = n\<lparr>ni_gateway_mac := srchw, ni_gateway_mac_configured := True\<rparr>
                                         in kbind (net_send_udp mem (ni_gateway n) 1234 4321 arp_msg n) (\<lambda>(_, n). Inr n)
                                    else Inr n)
                               else Inr n))))))"

section \<open>The network task\<close>

text \<open>One round of \<open>ktask_net\<close>; \<open>None\<close> when it waits for a packet.\<close>

definition net_handle_packet :: "(nat \<Rightarrow> bool) \<Rightarrow> u8 list \<Rightarrow> netif_t \<Rightarrow> netif_t res" where
  "net_handle_packet mem p n =
     (if length p < 14 then Inr n
      else kbind (ld16 p 12) (\<lambda>t.
           let type = ntohs t
           in if type = ETHERNET_TYPE_ARP then net_handle_arp mem p n
              else if type = ETHERNET_TYPE_IPV4 then net_handle_ipv4 mem p n
              else if type = ETHERNET_TYPE_IPV6 then net_handle_ipv6 p n
              else Inr n))"

definition ktask_net :: "(nat \<Rightarrow> bool) \<Rightarrow> netif_t \<Rightarrow> netif_t option res" where
  "ktask_net mem n =
     (case e1000_receive_packet (ni_dev n) of
        None \<Rightarrow> Inr None
      | Some (p, d) \<Rightarrow> kbind (net_handle_packet mem p (n\<lparr>ni_dev := d\<rparr>)) (\<lambda>n. Inr (Some n)))"

end
