(* ===== verification/Net_Props.thy ===== *)
theory Net_Props
  imports Net
begin

text \<open>
  Properties of the network stack: packets from the network cannot make the handlers of IPv4, ICMP and TCP read
  outside the frame or stop the kernel, an echo request is answered with a packet that passes the checks
  of its receiver; the handlers of UDP and ARP do read behind the frame.
\<close>

section \<open>Reading packets\<close>

definition octets :: "u8 list \<Rightarrow> nat \<Rightarrow> nat \<Rightarrow> u8 list" where
  "octets p i n = take n (drop i p)"

lemma octets_length [simp]: "i + n \<le> length p \<Longrightarrow> length (octets p i n) = n"
  by (simp add: octets_def)

lemma ldn_in: "i + n \<le> length p \<Longrightarrow> ldn p i n = Inr (octets p i n)"
proof (induction n)
  case (Suc n)
  then show ?case by (simp add: ldn_def kfor_append octets_def take_Suc_conv_app_nth)
qed (simp add: ldn_def octets_def)

lemma ldn_out: "i \<le> length p \<Longrightarrow> length p < i + n \<Longrightarrow> ldn p i n = Inl MemFault"
proof (induction n)
  case (Suc n)
  show ?case
  proof (cases "length p < i + n")
    case False
    then have "length p = i + n" using Suc.prems by simp
    then show ?thesis using ldn_in [of i n p] by (simp add: ldn_def kfor_append kload_def)
  qed (use Suc in \<open>simp add: ldn_def kfor_append\<close>)
qed simp

lemma cpy_in: "n \<noteq> 0 \<Longrightarrow> i + n \<le> length p \<Longrightarrow> cpy p i n = Inr (octets p i n)"
  by (simp add: cpy_def ldn_in)

lemma st16_in: "i + 1 < length p \<Longrightarrow> st16 p i v = Inr (p[i := ucast v, i + 1 := ucast (drop_bit 8 v)])"
  by (simp add: st16_def)

lemma mem_eq_in: "i + length xs \<le> length p \<Longrightarrow> mem_eq p i xs = Inr (octets p i (length xs) = xs)"
proof (induction xs arbitrary: i)
  case (Cons x xs)
  then have "drop i p = p ! i # drop (i + 1) p" by (simp add: Cons_nth_drop_Suc)
  then show ?case using Cons by (auto simp: octets_def)
qed (simp add: octets_def)

lemma checksum_in: "off + s \<le> length p \<Longrightarrow> \<exists>c. net_calc_checksum p off s = Inr c"
  using sum16_in [of off "s div 2" p 0] by (simp add: net_calc_checksum_def)

lemma checksum2_in:
  assumes "length d mod 2 = 0" "off + s \<le> length p"
  shows "\<exists>c. net_calc_checksum2 d p off s k = Inr c"
proof -
  have "off + 2 * (s div 2) \<le> length p" using assms(2) by simp
  moreover have "off + s div 2 * 2 < length p" if "s mod 2 \<noteq> 0" using assms(2) that by presburger
  ultimately show ?thesis using sum16_in [of 0 "length d div 2" d] sum16_in [of off "s div 2" p] assms(1)
    by (simp add: net_calc_checksum2_def Let_def)
qed

section \<open>The interface\<close>

definition netif_ok :: "netif_t \<Rightarrow> bool" where
  "netif_ok n \<longleftrightarrow> length (ni_ip n) = 4 \<and> length (ni_mac n) = 6 \<and> length (ni_gateway n) = 4 \<and> length (ni_gateway_mac n) = 6 \<and>
     tx_ok (ni_dev n)"

lemma frame_length:
  assumes "length s = 6" "length d = 6"
  shows "length (ethernet_frame s d t data) = max 60 (14 + length data)"
  using assms by (simp add: ethernet_frame_def bytes16_def)

lemma send_ethernet_ok:
  assumes "netif_ok n" "mem 0" "length s = 6" "length d = 6" "data \<noteq> []" "length data \<le> 4082"
  shows "\<exists>e. net_send_ethernet mem s d t data n = Inr (True, n\<lparr>ni_dev := e\<rparr>) \<and> netif_ok (n\<lparr>ni_dev := e\<rparr>) \<and>
    e1000_send_packet (ethernet_frame s d t data) (ni_dev n) = Inr e"
proof -
  let ?f = "ethernet_frame s d t data"
  have l: "length ?f = max 60 (14 + length data)" by (rule frame_length [OF assms(3,4)])
  then have "?f \<noteq> []" "length ?f \<le> 4096" using assms(6) by auto
  then obtain e where "e1000_send_packet ?f (ni_dev n) = Inr e" "tx_ok e" using e1000_send_ok [of "ni_dev n" ?f] assms(1) by (auto simp: netif_ok_def)
  then show ?thesis using assms by (simp add: net_send_ethernet_def netif_ok_def)
qed

lemma ipv4_header_length: "length s = 4 \<Longrightarrow> length d = 4 \<Longrightarrow> length (ipv4_header l i pr c s d) = 20"
  by (simp add: ipv4_header_def bytes16_def)

section \<open>Checksums of packets\<close>

lemma octets_nth: "i + n \<le> length p \<Longrightarrow> k < n \<Longrightarrow> octets p i n ! k = p ! (i + k)"
  by (simp add: octets_def)

lemma checksum_cong:
  assumes "i + s \<le> length p" "j + s \<le> length q" "octets p i s = octets q j s"
  shows "net_calc_checksum p i s = net_calc_checksum q j s"
proof -
  have e: "p ! (i + k) = q ! (j + k)" if "k < s" for k using octets_nth [OF assms(1) that] octets_nth [OF assms(2) that] assms(3) by simp
  have "be16 p (i + 2 * k) = be16 q (j + 2 * k)" if "k < s div 2" for k
    using e [of "2 * k"] e [of "2 * k + 1"] that by (simp add: be16_def add.assoc)
  then show ?thesis using sum16_in [of i "s div 2" p 0] sum16_in [of j "s div 2" q 0] assms(1,2) by (simp add: net_calc_checksum_def)
qed

lemma octets_update: "i + n \<le> length p \<Longrightarrow> k < n \<Longrightarrow> octets (p[i + k := v]) i n = (octets p i n)[k := v]"
  by (simp add: octets_def drop_update_swap take_update_swap)

lemma octets_self: "octets p 0 (length p) = p"
  by (simp add: octets_def)

lemma ld16_octets: "i + n \<le> length p \<Longrightarrow> k + 1 < n \<Longrightarrow> ld16 (octets p i n) k = ld16 p (i + k)"
  by (simp add: ld16_in octets_nth)

text \<open>A packet whose checksum at the offset \<open>k\<close> is right.\<close>

definition checksum_field :: "nat \<Rightarrow> u8 list \<Rightarrow> bool" where
  "checksum_field k q \<longleftrightarrow> net_calc_checksum (q[k := 0, k + 1 := 0]) 0 (length q) = kbind (ld16 q k) (\<lambda>c. Inr (ntohs c))"

lemma zeroed_checksum:
  assumes "i + s \<le> length p" "k + 1 < s"
  shows "net_calc_checksum (p[i + k := 0, i + (k + 1) := 0]) i s = net_calc_checksum ((octets p i s)[k := 0, k + 1 := 0]) 0 s"
proof (rule checksum_cong)
  show "octets (p[i + k := 0, i + (k + 1) := 0]) i s = octets ((octets p i s)[k := 0, k + 1 := 0]) 0 s"
    using octets_self [of "(octets p i s)[k := 0, k + 1 := 0]"] assms by (simp only: octets_update length_list_update octets_length)
qed (use assms in simp_all)

lemma ipv4_valid_octets:
  assumes "i + 20 \<le> length p"
  shows "ipv4_is_checksum_valid p i = Inr (checksum_field 10 (octets p i 20))"
proof -
  have "st16 p (i + 10) 0 = Inr (p[i + 10 := 0, i + (10 + 1) := 0])" using assms st16_in [of "i + 10" p 0] by (simp add: add.commute)
  moreover obtain c where c: "net_calc_checksum ((octets p i 20)[10 := 0, 10 + 1 := 0]) 0 20 = Inr c"
    using checksum_in [of 0 20 "(octets p i 20)[10 := 0, 10 + 1 := 0]"] assms by auto
  moreover obtain w where "ld16 p (i + 10) = Inr w" "ld16 (octets p i 20) 10 = Inr w"
    using ld16_octets [of i 20 p 10] ld16_in [of "i + 10" p] assms by simp
  ultimately show ?thesis using zeroed_checksum [OF assms, of 10] assms
    by (simp add: ipv4_is_checksum_valid_def ipv4_calculate_checksum_def checksum_field_def)
qed

section \<open>Sending IPv4\<close>

lemma header_fill:
  assumes "length s = 4" "length d = 4"
  shows "st16 (ipv4_header l i pr 0 s d @ data) 10 v = Inr (ipv4_header l i pr v s d @ data)"
    "st16 (ipv4_header l i pr v s d @ data) 10 0 = Inr (ipv4_header l i pr 0 s d @ data)"
  using assms by (simp_all add: st16_in ipv4_header_def bytes16_def)

lemma bytes16_ld: "ld16 (bytes16 v @ q) 0 = Inr v"
proof -
  have "ucast (ucast v :: u8) OR push_bit 8 (ucast (ucast (drop_bit 8 v) :: u8)) = v"
    by (rule bit_word_eqI) (auto simp: bit_simps)
  then show ?thesis by (simp add: ld16_in bytes16_def)
qed

lemma ld16_append: "ld16 (a @ q) (length a + k) = ld16 q k"
  by (simp add: ld16_def kload_def nth_append)

lemma ld16_at: "length a = k \<Longrightarrow> ld16 (a @ bytes16 v @ q) k = Inr v"
  using ld16_append [of a "bytes16 v @ q" 0] bytes16_ld by simp

lemma header_checksum:
  assumes "length s = 4" "length d = 4" "net_calc_checksum (ipv4_header l i pr 0 s d @ data) 0 20 = Inr c"
  shows "checksum_field 10 (ipv4_header l i pr (htons c) s d)"
proof -
  let ?h = "ipv4_header l i pr (htons c) s d" and ?z = "ipv4_header l i pr 0 s d"
  have len: "length ?h = 20" "length ?z = 20" by (simp_all add: ipv4_header_length [OF assms(1,2)])
  have z: "?h[10 := 0, 10 + 1 := 0] = ?z" by (simp add: ipv4_header_def bytes16_def)
  have "net_calc_checksum ?z 0 20 = net_calc_checksum (?z @ data) 0 20" by (rule checksum_cong) (use len in \<open>simp_all add: octets_def\<close>)
  moreover have "?h = ([0x45, 0] @ bytes16 (htons l) @ bytes16 (htons i) @ [0, 0, 64, pr]) @ (bytes16 (htons c) @ s @ d)" by (simp add: ipv4_header_def)
  then have "ld16 ?h 10 = Inr (htons c)" by (simp only:) (rule ld16_at, simp add: bytes16_def)
  ultimately show ?thesis using assms(3) unfolding checksum_field_def z len by simp
qed

lemma send_ipv4_ok:
  assumes n: "netif_ok n" and mem: "mem 0" "mem 1" and l: "length mac = 6" "length s = 4" "length d = 4" and data: "data \<noteq> []" "length data \<le> 4062"
  shows "\<exists>c e. net_send_ipv4 mem (Some mac) i pr s d data n = Inr (True, n\<lparr>ni_dev := e\<rparr>) \<and> netif_ok (n\<lparr>ni_dev := e\<rparr>) \<and>
    e1000_send_packet (ethernet_frame (ni_mac n) mac ETHERNET_TYPE_IPV4 (ipv4_header (of_nat (20 + length data)) i pr c s d @ data)) (ni_dev n) = Inr e \<and>
    checksum_field 10 (ipv4_header (of_nat (20 + length data)) i pr c s d)"
proof -
  define len :: u16 where "len = of_nat (20 + length data)"
  let ?h = "\<lambda>c. ipv4_header len i pr c s d"
  have hl: "length (?h c) = 20" for c by (rule ipv4_header_length [OF l(2,3)])
  obtain c where c: "net_calc_checksum (?h 0 @ data) 0 20 = Inr c" using checksum_in [of 0 20 "?h 0 @ data"] hl by auto
  have "?h (htons c) @ data \<noteq> []" "length (?h (htons c) @ data) \<le> 4082" "length (ni_mac n) = 6" using data n hl by (auto simp: netif_ok_def)
  then obtain e where e: "net_send_ethernet (\<lambda>i. mem (i + 1)) (ni_mac n) mac ETHERNET_TYPE_IPV4 (?h (htons c) @ data) n = Inr (True, n\<lparr>ni_dev := e\<rparr>)"
    "netif_ok (n\<lparr>ni_dev := e\<rparr>)" "e1000_send_packet (ethernet_frame (ni_mac n) mac ETHERNET_TYPE_IPV4 (?h (htons c) @ data)) (ni_dev n) = Inr e"
    using send_ethernet_ok [OF n, of "\<lambda>i. mem (i + 1)" "ni_mac n" mac "?h (htons c) @ data" ETHERNET_TYPE_IPV4] mem(2) l(1) by auto
  have "net_send_ipv4 mem (Some mac) i pr s d data n = Inr (True, n\<lparr>ni_dev := e\<rparr>)"
    using mem(1) data(1) header_fill [OF l(2,3)] c e(1) unfolding net_send_ipv4_def len_def [symmetric] by (simp add: Let_def ipv4_calculate_checksum_def)
  then show ?thesis using e(2,3) header_checksum [OF l(2,3) c] unfolding len_def [symmetric] by blast
qed

lemma send_ipv4_safe:
  assumes n: "netif_ok n" and l: "length mac = 6" "length s = 4" "length d = 4" and data: "data \<noteq> []" "length data \<le> 4062"
  shows "\<exists>b n'. net_send_ipv4 mem (Some mac) i pr s d data n = Inr (b, n') \<and> netif_ok n'"
proof (cases "mem 0 \<and> mem 1")
  case True
  then show ?thesis using send_ipv4_ok [OF n _ _ l data, of mem i pr] by blast
next
  case False
  let ?p = "ipv4_header (of_nat (20 + length data)) i pr 0 s d @ data"
  have "\<exists>c. net_calc_checksum ?p 0 20 = Inr c" using checksum_in [of 0 20 ?p] ipv4_header_length [OF l(2,3)] by auto
  then show ?thesis using False n data(1) header_fill [OF l(2,3)]
    by (cases "mem 0") (auto simp: net_send_ipv4_def ipv4_calculate_checksum_def net_send_ethernet_def Let_def)
qed

section \<open>ICMP and TCP\<close>

text \<open>The identification of the packet at offset 14, in the order of the bytes it has in memory.\<close>

definition ident :: "u8 list \<Rightarrow> u16" where
  "ident p = ucast (p ! 18) OR push_bit 8 (ucast (p ! 19))"

text \<open>The reply to an echo request whose payload, behind the four bytes of the ICMP header, is \<open>q\<close>.\<close>

definition echo_reply :: "u16 \<Rightarrow> u8 list \<Rightarrow> u8 list" where
  "echo_reply c q = [ICMP_TYPE_ECHO_REPLY, 0] @ bytes16 (htons c) @ q"

lemma octets_add: "octets p i m @ octets p (i + m) k = octets p i (m + k)"
  unfolding octets_def take_add by (simp add: add.commute)

lemma reply_data: "octets p 38 2 @ octets p 40 2 @ octets p 42 k = octets p 38 (4 + k)"
  using octets_add [of p 38 2 2] octets_add [of p 38 4 k] by (simp flip: append_assoc)

lemma echo_reply_length [simp]: "length (echo_reply c q) = 4 + length q"
  by (simp add: echo_reply_def bytes16_def)

lemma echo_reply_nonempty [simp]: "echo_reply c q \<noteq> []"
  by (simp add: echo_reply_def)

lemma echo_run:
  assumes mem: "mem 0" and L: "4 \<le> L" "38 + L \<le> length p"
  shows "\<exists>c. checksum_field 2 (echo_reply c (octets p 38 L)) \<and> net_handle_icmp_echo mem p L n =
    kbind (net_send_ipv4 (\<lambda>i. mem (i + 1)) (Some (octets p 6 6)) (ident p) IPV4_TYPE_ICMP (ni_ip n) (octets p 26 4) (echo_reply c (octets p 38 L)) n)
      (\<lambda>(_, n). Inr n)"
proof -
  let ?q = "octets p 38 L" and ?d = "octets p 42 (L - 4)"
  let ?z = "[ICMP_TYPE_ECHO_REPLY, 0, 0, 0] @ ?q"
  have parts: "octets p 38 2 @ octets p 40 2 @ ?d = ?q" using reply_data [of p "L - 4"] L(1) by simp
  have ld: "ldn p 38 2 = Inr (octets p 38 2)" "ldn p 40 2 = Inr (octets p 40 2)" "ldn p 6 6 = Inr (octets p 6 6)" "ldn p 26 4 = Inr (octets p 26 4)"
    "ld16 p 18 = Inr (ident p)" using L by (simp_all add: ldn_in ld16_in ident_def)
  have dat: "(if L - 4 \<noteq> 0 then cpy p 42 (L - 4) else Inr []) = Inr ?d" using L cpy_in [of "L - 4" 42 p] by (simp add: octets_def)
  obtain c where c: "net_calc_checksum ?z 0 (length ?z) = Inr c" using checksum_in [of 0 "length ?z" ?z] by auto
  have st: "st16 ?z 2 (htons c) = Inr (echo_reply c ?q)" by (simp add: st16_in echo_reply_def bytes16_def)
  have "checksum_field 2 (echo_reply c ?q)"
    using c ld16_at [of "[ICMP_TYPE_ECHO_REPLY, 0]" 2 "htons c" ?q] by (simp add: checksum_field_def echo_reply_def bytes16_def)
  then show ?thesis using L(1) mem ld dat parts c st unfolding net_handle_icmp_echo_def Let_def
    by (intro exI [of _ c]) (simp del: append.simps length_append)
qed

lemma echo_ok:
  assumes n: "netif_ok n" and mem: "mem 0" "mem 1" "mem 2" and L: "4 \<le> L" "38 + L \<le> length p" "L \<le> 4058"
  shows "\<exists>c k e. net_handle_icmp_echo mem p L n = Inr (n\<lparr>ni_dev := e\<rparr>) \<and> netif_ok (n\<lparr>ni_dev := e\<rparr>) \<and> checksum_field 2 (echo_reply c (octets p 38 L)) \<and>
    checksum_field 10 (ipv4_header (of_nat (24 + L)) (ident p) IPV4_TYPE_ICMP k (ni_ip n) (octets p 26 4)) \<and>
    e1000_send_packet (ethernet_frame (ni_mac n) (octets p 6 6) ETHERNET_TYPE_IPV4
      (ipv4_header (of_nat (24 + L)) (ident p) IPV4_TYPE_ICMP k (ni_ip n) (octets p 26 4) @ echo_reply c (octets p 38 L))) (ni_dev n) = Inr e"
proof -
  obtain c where c: "checksum_field 2 (echo_reply c (octets p 38 L))" "net_handle_icmp_echo mem p L n =
    kbind (net_send_ipv4 (\<lambda>i. mem (i + 1)) (Some (octets p 6 6)) (ident p) IPV4_TYPE_ICMP (ni_ip n) (octets p 26 4) (echo_reply c (octets p 38 L)) n)
      (\<lambda>(_, n). Inr n)" using echo_run [of mem L p n, OF mem(1) L(1,2)] by blast
  let ?r = "echo_reply c (octets p 38 L)"
  have rl: "length ?r = 4 + L" using L by simp
  then have "?r \<noteq> []" "length ?r \<le> 4062" "length (octets p 6 6) = 6" "length (octets p 26 4) = 4" "length (ni_ip n) = 4"
    using L n by (auto simp: netif_ok_def)
  then obtain k e where e: "net_send_ipv4 (\<lambda>i. mem (i + 1)) (Some (octets p 6 6)) (ident p) IPV4_TYPE_ICMP (ni_ip n) (octets p 26 4) ?r n =
      Inr (True, n\<lparr>ni_dev := e\<rparr>)" "netif_ok (n\<lparr>ni_dev := e\<rparr>)"
    "e1000_send_packet (ethernet_frame (ni_mac n) (octets p 6 6) ETHERNET_TYPE_IPV4
      (ipv4_header (of_nat (20 + length ?r)) (ident p) IPV4_TYPE_ICMP k (ni_ip n) (octets p 26 4) @ ?r)) (ni_dev n) = Inr e"
    "checksum_field 10 (ipv4_header (of_nat (20 + length ?r)) (ident p) IPV4_TYPE_ICMP k (ni_ip n) (octets p 26 4))"
    using send_ipv4_ok [OF n, of "\<lambda>i. mem (i + 1)" "octets p 6 6" "ni_ip n" "octets p 26 4" ?r "ident p" IPV4_TYPE_ICMP] mem(2,3) by (auto simp: numeral_2_eq_2)
  have "20 + length ?r = 24 + L" using rl by simp
  then show ?thesis using e c by (intro exI [of _ c] exI [of _ k] exI [of _ e]) simp
qed

lemma echo_safe:
  assumes "netif_ok n" "38 + L \<le> length p" "L \<le> 4058"
  shows "\<exists>n'. net_handle_icmp_echo mem p L n = Inr n' \<and> netif_ok n'"
proof (cases "4 \<le> L \<and> mem 0")
  case True
  then obtain c where c: "net_handle_icmp_echo mem p L n =
    kbind (net_send_ipv4 (\<lambda>i. mem (i + 1)) (Some (octets p 6 6)) (ident p) IPV4_TYPE_ICMP (ni_ip n) (octets p 26 4) (echo_reply c (octets p 38 L)) n)
      (\<lambda>(_, n). Inr n)" using echo_run [of mem L p n] assms(2) by blast
  have "echo_reply c (octets p 38 L) \<noteq> []" "length (echo_reply c (octets p 38 L)) \<le> 4062" "length (octets p 6 6) = 6" "length (octets p 26 4) = 4" "length (ni_ip n) = 4"
    using assms by (simp_all add: netif_ok_def)
  from send_ipv4_safe [OF assms(1) this(3,5,4,1,2), of "\<lambda>i. mem (i + 1)" "ident p" IPV4_TYPE_ICMP] show ?thesis unfolding c by auto
next
  case False
  then show ?thesis using assms(1) by (auto simp: net_handle_icmp_echo_def)
qed

lemma checksum_restore:
  assumes "i + 1 < length p" "ld16 p i = Inr c"
  shows "st16 (p[i := 0, i + 1 := 0]) i (htons (ntohs c)) = Inr p"
proof -
  have c: "c = ucast (p ! i) OR push_bit 8 (ucast (p ! (i + 1)))" using assms by (simp add: ld16_in)
  have "ucast c = p ! i" "ucast (drop_bit 8 c) = p ! (i + 1)" unfolding c by (rule bit_word_eqI, auto simp: bit_simps dest: bit_u8)+
  then show ?thesis using assms(1) by (simp add: st16_in) (intro nth_equalityI, auto simp: nth_list_update)
qed

text \<open>ICMP: the checksum is compared, echo requests are answered, all else is dropped.\<close>

lemma icmp_cases:
  assumes "4 \<le> L" "34 + L \<le> length p"
  shows "net_handle_icmp mem p L n =
    (if checksum_field 2 (octets p 34 L) \<and> p ! 34 = ICMP_TYPE_ECHO_REQUEST then net_handle_icmp_echo mem p (L - 4) n else Inr n)"
proof -
  let ?z = "p[36 := 0, 37 := 0]"
  obtain c where c: "ld16 p 36 = Inr c" using assms ld16_in [of 36 p] by simp
  have st: "st16 p 36 0 = Inr ?z" "st16 ?z 36 (htons (ntohs c)) = Inr p" using assms st16_in [of 36 p 0] checksum_restore [of 36 p c] c by simp_all
  have e: "net_calc_checksum ?z 34 L = net_calc_checksum ((octets p 34 L)[2 := 0, 3 := 0]) 0 L" using zeroed_checksum [of 34 L p 2] assms by simp
  obtain d where d: "net_calc_checksum ?z 34 L = Inr d" using checksum_in [of 34 L ?z] assms by auto
  have "checksum_field 2 (octets p 34 L) \<longleftrightarrow> d = ntohs c"
    using d [unfolded e] c ld16_octets [of 34 L p 2] assms by (simp add: checksum_field_def)
  moreover have "kload p 34 = Inr (p ! 34)" using assms by simp
  ultimately show ?thesis using assms(1) unfolding net_handle_icmp_def c st Let_def kbind.simps d by simp
qed

lemma tcp_safe:
  assumes "34 + L \<le> length p" "length p \<le> 4096"
  shows "\<exists>v. net_handle_tcp p L = Inr v"
proof (cases "20 \<le> L")
  case True
  have ld: "ldn p 34 12 = Inr (octets p 34 12)" "ldn p 48 2 = Inr (octets p 48 2)" "ldn p 52 2 = Inr (octets p 52 2)"
    "ldn p 26 4 = Inr (octets p 26 4)" "ldn p 30 4 = Inr (octets p 30 4)" using True assms(1) by (simp_all add: ldn_in)
  obtain f w where w: "ld16 p 46 = Inr f" "ld16 p 50 = Inr w" using True assms(1) by (simp add: ld16_in)
  have u: "unat (a + (of_nat L - a) :: u32) = L" for a using assms by (simp add: unat_of_nat)
  obtain c where "tcp_calc_checksum p L = Inr c"
  proof -
    let ?h = "octets p 26 4 @ octets p 30 4 @ [0, IPV4_TYPE_TCP] @ bytes16 (htons (of_nat L))"
    have "length ?h mod 2 = 0" using True assms(1) by (simp add: bytes16_def)
    from checksum2_in [OF this assms(1), of "ntohs w"] show ?thesis using that ld w unfolding tcp_calc_checksum_def by auto
  qed
  then show ?thesis using True w ld unfolding net_handle_tcp_def Let_def u by (simp del: kbind_Inr_iff)
qed (simp add: net_handle_tcp_def)

section \<open>IPv4\<close>

text \<open>An IPv4 packet in the frame \<open>p\<close> that the handler accepts for the interface \<open>n\<close>.\<close>

definition ipv4_accepted :: "u8 list \<Rightarrow> netif_t \<Rightarrow> bool" where
  "ipv4_accepted p n \<longleftrightarrow> 34 \<le> length p \<and> p ! 14 AND 0x0F = 5 \<and> drop_bit 4 (p ! 14 AND 0xF0) = 4 \<and>
     20 \<le> be16 p 16 \<and> be16 p 16 + 18 \<le> length p \<and>
     drop_bit 13 ((ucast (p ! 21) OR push_bit 8 (ucast (p ! 20)) :: u16) AND 0xE000) AND 5 = 0 \<and>
     checksum_field 10 (octets p 14 20) \<and> octets p 30 4 = ni_ip n"

definition ipv4_dispatch :: "(nat \<Rightarrow> bool) \<Rightarrow> u8 list \<Rightarrow> netif_t \<Rightarrow> netif_t res" where
  "ipv4_dispatch mem p n =
     (let L = be16 p 16 - 20
      in if p ! 23 = IPV4_TYPE_ICMP then net_handle_icmp mem p L n
         else if p ! 23 = IPV4_TYPE_TCP then kbind (net_handle_tcp p L) (\<lambda>_. Inr n)
         else if p ! 23 = IPV4_TYPE_UDP then net_handle_udp mem p L n
         else Inr n)"

lemma flag_bits: "(x :: u16) AND 5 = 0 \<longleftrightarrow> x AND 1 = 0 \<and> x AND 4 = 0"
proof -
  have "(5 :: u16) = 1 OR 4" by simp
  then show ?thesis by (simp only: bit.conj_disj_distrib or_eq_0_iff)
qed

lemma ipv4_cases:
  assumes "length (ni_ip n) = 4"
  shows "net_handle_ipv4 mem p n = (if ipv4_accepted p n then ipv4_dispatch mem p n else Inr n)"
proof (cases "34 \<le> length p")
  case True
  have l: "ld16 p 16 = Inr (ucast (p ! 16) OR push_bit 8 (ucast (p ! 17)))" "ld16 p 20 = Inr (ucast (p ! 20) OR push_bit 8 (ucast (p ! 21)))"
    using True by (simp_all add: ld16_in)
  have len: "unat (ntohs (ucast (p ! 16) OR push_bit 8 (ucast (p ! 17)))) = be16 p 16" using unat_ntohs [OF _ l(1)] True by simp
  have f: "ntohs (ucast (p ! 20) OR push_bit 8 (ucast (p ! 21))) = ucast (p ! 21) OR push_bit 8 (ucast (p ! 20))"
    unfolding ntohs_def by (rule htons_swap)
  have v: "ipv4_is_checksum_valid p 14 = Inr (checksum_field 10 (octets p 14 20))" using ipv4_valid_octets [of 14 p] True by simp
  have m: "mem_eq p 30 (ni_ip n) = Inr (octets p 30 4 = ni_ip n)" using mem_eq_in [of 30 "ni_ip n" p] True assms by simp
  have k: "kload p 14 = Inr (p ! 14)" "kload p 23 = Inr (p ! 23)" using True by simp_all
  show ?thesis
    using True unfolding net_handle_ipv4_def k l v m kbind.simps Let_def len f ipv4_accepted_def ipv4_dispatch_def flag_bits
    by (simp del: kbind_Inr_iff)
qed (simp add: net_handle_ipv4_def ipv4_accepted_def)

section \<open>Replies\<close>

lemma octets_at: "length a = i \<Longrightarrow> length b = k \<Longrightarrow> octets (a @ b @ c) i k = b"
  by (auto simp: octets_def)

lemma octets_octets: "j + m \<le> k \<Longrightarrow> octets (octets p i k) j m = octets p (i + j) m"
  by (simp add: octets_def drop_take add.commute)

lemma be16_at: "length a = i \<Longrightarrow> be16 (a @ bytes16 (htons v) @ q) i = unat v"
  using unat_ntohs [of i "a @ bytes16 (htons v) @ q"] ld16_at [of a i "htons v" q] by (simp add: bytes16_def)

text \<open>The reply as it arrives, followed by the four bytes of the Ethernet checksum.\<close>

lemma reply_frame:
  assumes l: "length mac = 6" "length src = 6" "length s = 4" "length d = 4" "length crc = 4" "length q \<le> 4058"
    and hdr: "checksum_field 10 (ipv4_header (of_nat (24 + length q)) i IPV4_TYPE_ICMP k s d)"
    and f: "f = ethernet_frame mac src ETHERNET_TYPE_IPV4 (ipv4_header (of_nat (24 + length q)) i IPV4_TYPE_ICMP k s d @ echo_reply c q) @ crc"
    and n: "ni_ip n = d"
  shows "ipv4_accepted f n" "be16 f 16 = 24 + length q" "octets f 34 (4 + length q) = echo_reply c q" "octets f 26 4 = s" "octets f 0 6 = src"
    "octets f 6 6 = mac" "be16 f 12 = 0x0800" "f ! 23 = IPV4_TYPE_ICMP"
proof -
  let ?h = "ipv4_header (of_nat (24 + length q)) i IPV4_TYPE_ICMP k s d" and ?t = "bytes16 (htons ETHERNET_TYPE_IPV4)"
  obtain pad where f1: "f = src @ mac @ ?t @ ?h @ echo_reply c q @ pad @ crc" and fl: "34 + 4 + length q + 4 \<le> length f"
    using l f ipv4_header_length [OF l(3,4)] by (simp add: ethernet_frame_def Let_def bytes16_def)
  have hl: "length ?h = 20" by (rule ipv4_header_length [OF l(3,4)])
  have h: "octets f 14 20 = ?h" unfolding f1 using octets_at [of "src @ mac @ ?t" 14 ?h 20] l hl by (simp add: bytes16_def)
  have hn: "f ! (14 + j) = ?h ! j" if "j < 20" for j using octets_nth [of 14 20 f j] that fl h by simp
  show be: "be16 f 16 = 24 + length q"
  proof -
    have "be16 f 16 = unat (of_nat (24 + length q) :: u16)"
      unfolding f1 ipv4_header_def using be16_at [of "src @ mac @ ?t @ [0x45, 0]" 16] l by (simp add: bytes16_def)
    then show ?thesis using l(6) by (simp add: unat_of_nat del: of_nat_add)
  qed
  show "octets f 34 (4 + length q) = echo_reply c q"
    unfolding f1 using octets_at [of "src @ mac @ ?t @ ?h" 34 "echo_reply c q"] l hl by (simp add: bytes16_def)
  show "octets f 26 4 = s" unfolding f1 ipv4_header_def
    using octets_at [of "src @ mac @ ?t @ [0x45, 0] @ bytes16 (htons (of_nat (24 + length q))) @ bytes16 (htons i) @ [0, 0, 64, IPV4_TYPE_ICMP] @ bytes16 k" 26 s 4] l
    by (simp add: bytes16_def)
  have d: "octets f 30 4 = d" unfolding f1 ipv4_header_def
    using octets_at [of "src @ mac @ ?t @ [0x45, 0] @ bytes16 (htons (of_nat (24 + length q))) @ bytes16 (htons i) @ [0, 0, 64, IPV4_TYPE_ICMP] @ bytes16 k @ s" 30 d 4] l
    by (simp add: bytes16_def)
  show "octets f 0 6 = src" "octets f 6 6 = mac" unfolding f1 using octets_at [of "[]" 0 src 6] octets_at [of src 6 mac 6] l by simp_all
  show "be16 f 12 = 0x0800" unfolding f1 using be16_at [of "src @ mac" 12 ETHERNET_TYPE_IPV4] l by (simp add: ETHERNET_TYPE_IPV4_def)
  have hd: "?h ! 0 = 0x45" "?h ! 6 = 0" "?h ! 7 = 0" "?h ! 9 = IPV4_TYPE_ICMP" by (simp_all add: ipv4_header_def bytes16_def)
  show "f ! 23 = IPV4_TYPE_ICMP" using hn [of 9] hd by simp
  show "ipv4_accepted f n" unfolding ipv4_accepted_def using hn [of 0] hn [of 6] hn [of 7] hd fl be h hdr d n by simp
qed

lemma packet_ipv4:
  assumes "34 \<le> length p" "be16 p 12 = 0x0800"
  shows "net_handle_packet mem p n = net_handle_ipv4 mem p n"
proof -
  obtain w where w: "ld16 p 12 = Inr w" "unat (ntohs w) = 0x0800" using ld16_in [of 12 p] unat_ntohs [of 12 p] assms by auto
  have "unat (ntohs w) = unat ETHERNET_TYPE_IPV4" using w(2) by (simp add: ETHERNET_TYPE_IPV4_def)
  then have "ntohs w = ETHERNET_TYPE_IPV4" by (simp only: word_unat_eq_iff)
  then show ?thesis using w(1) assms(1) by (simp add: net_handle_packet_def Let_def ETHERNET_TYPE_IPV4_def ETHERNET_TYPE_ARP_def)
qed


section \<open>Packets that are safe to receive\<close>

lemma ipv4_safe:
  assumes n: "netif_ok n" and p: "length p \<le> 4096" "34 \<le> length p \<longrightarrow> p ! 23 \<noteq> IPV4_TYPE_UDP"
  shows "\<exists>n'. net_handle_ipv4 mem p n = Inr n' \<and> netif_ok n'"
proof (cases "ipv4_accepted p n")
  case True
  let ?L = "be16 p 16 - 20"
  have L: "34 + ?L \<le> length p" "34 \<le> length p" using True by (simp_all add: ipv4_accepted_def)
  have "\<exists>n'. net_handle_icmp mem p ?L n = Inr n' \<and> netif_ok n'"
  proof (cases "4 \<le> ?L")
    case True
    then show ?thesis using icmp_cases [OF True L(1)] echo_safe [OF n, of "?L - 4" p mem] n L p(1) by auto
  qed (use n in \<open>simp add: net_handle_icmp_def\<close>)
  then have "\<exists>n'. ipv4_dispatch mem p n = Inr n' \<and> netif_ok n'"
    using tcp_safe [OF L(1) p(1)] n p(2) L(2) by (auto simp: ipv4_dispatch_def Let_def)
  then show ?thesis using True n by (simp add: ipv4_cases netif_ok_def)
qed (use n in \<open>auto simp: ipv4_cases netif_ok_def\<close>)

lemma send_ethernet_safe:
  assumes "netif_ok n" "length s = 6" "length d = 6" "data \<noteq> []" "length data \<le> 4082"
  shows "\<exists>b e. net_send_ethernet mem s d t data n = Inr (b, n\<lparr>ni_dev := e\<rparr>) \<and> netif_ok (n\<lparr>ni_dev := e\<rparr>)"
proof (cases "mem 0")
  case True
  then show ?thesis using send_ethernet_ok [of n mem s d data t] assms by blast
next
  case False
  then show ?thesis using assms(1) by (intro exI [of _ False] exI [of _ "ni_dev n"]) (simp add: net_send_ethernet_def)
qed

lemma send_gateway: "net_send_ipv4 mem None i pr s d data n =
    (if \<not> mem 0 \<or> ni_gateway_mac_configured n then net_send_ipv4 mem (Some (ni_gateway_mac n)) i pr s d data n
     else kbind (kassert (data \<noteq> [])) (\<lambda>_. let packet = ipv4_header (of_nat (20 + length data)) i pr 0 s d @ data
          in kbind (ipv4_calculate_checksum packet 0) (\<lambda>c. kbind (st16 packet 10 (htons c)) (\<lambda>_. Inr (False, n)))))"
  by (simp add: net_send_ipv4_def Let_def)

lemma send_udp_safe:
  assumes "netif_ok n" "length d = 4" "data \<noteq> []" "length data \<le> 4054"
  shows "\<exists>b n'. net_send_udp mem d sp dp data n = Inr (b, n') \<and> netif_ok n'"
proof -
  let ?u = "bytes16 (htons sp) @ bytes16 (htons dp) @ bytes16 (htons (of_nat (8 + length data))) @ [0, 0] @ data"
  let ?p = "ipv4_header (of_nat (20 + length ?u)) 0 IPV4_TYPE_UDP 0 (ni_ip n) d @ ?u"
  have u: "?u \<noteq> []" "length ?u \<le> 4062" using assms(4) by (simp_all add: bytes16_def)
  have l: "length (ni_gateway_mac n) = 6" "length (ni_ip n) = 4" using assms(1) by (simp_all add: netif_ok_def)
  obtain c where "net_calc_checksum ?p 0 20 = Inr c" using checksum_in [of 0 20 ?p] ipv4_header_length [OF l(2) assms(2)] by auto
  then have "\<exists>b n'. net_send_ipv4 (\<lambda>i. mem (i + 1)) None 0 IPV4_TYPE_UDP (ni_ip n) d ?u n = Inr (b, n') \<and> netif_ok n'"
    using send_ipv4_safe [OF assms(1) l assms(2) u, of "\<lambda>i. mem (i + 1)" 0 IPV4_TYPE_UDP] header_fill [OF l(2) assms(2)] u(1) assms(1)
    unfolding send_gateway by (auto simp: ipv4_calculate_checksum_def Let_def)
  then show ?thesis using assms(1,3) by (auto simp: net_send_udp_def)
qed

text \<open>The header of an ARP packet for IPv4 over Ethernet.\<close>

definition arp_header :: "u8 list \<Rightarrow> bool" where
  "arp_header p \<longleftrightarrow> 34 \<le> length p \<and> be16 p 14 = 1 \<and> be16 p 16 = 0x0800 \<and> p ! 18 = 6 \<and> p ! 19 = 4"

lemma ntohs_be16: "i + 1 < length p \<Longrightarrow> \<exists>w. ld16 p i = Inr w \<and> (\<forall>v. ntohs w = v \<longleftrightarrow> be16 p i = unat v)"
  using ld16_in [of i p] unat_ntohs [of i p] by (metis word_unat_eq_iff)

definition arp_request :: "(nat \<Rightarrow> bool) \<Rightarrow> u8 list \<Rightarrow> netif_t \<Rightarrow> netif_t res" where
  "arp_request mem p n = kbind (arp_fields p) (\<lambda>(srchw, srcpr, dsthw, dstpr).
     if ni_ip n = dstpr
     then kbind (ldn p 6 6) (\<lambda>srcmac.
          kbind (net_send_arp mem (ni_mac n) srcmac ARP_OPCODE_REPLY (ni_mac n) (ni_ip n) srchw srcpr n) (\<lambda>(_, n). Inr n))
     else Inr n)"

definition arp_learn :: "(nat \<Rightarrow> bool) \<Rightarrow> u8 list \<Rightarrow> netif_t \<Rightarrow> netif_t res" where
  "arp_learn mem p n = kbind (arp_fields p) (\<lambda>(srchw, srcpr, dsthw, dstpr).
     if srcpr = ni_gateway n
     then let n = n\<lparr>ni_gateway_mac := srchw, ni_gateway_mac_configured := True\<rparr>
          in kbind (net_send_udp mem (ni_gateway n) 1234 4321 arp_msg n) (\<lambda>(_, n). Inr n)
     else Inr n)"

lemma arp_cases:
  "net_handle_arp mem p n =
     (if arp_header p \<and> be16 p 20 = 1 then arp_request mem p n else if arp_header p \<and> be16 p 20 = 2 then arp_learn mem p n else Inr n)"
proof (cases "34 \<le> length p")
  case True
  obtain a b c where w: "ld16 p 14 = Inr a" "\<And>v. ntohs a = v \<longleftrightarrow> be16 p 14 = unat v" "ld16 p 16 = Inr b" "\<And>v. ntohs b = v \<longleftrightarrow> be16 p 16 = unat v"
    "ld16 p 20 = Inr c" "\<And>v. ntohs c = v \<longleftrightarrow> be16 p 20 = unat v"
    using ntohs_be16 [of 14 p] ntohs_be16 [of 16 p] ntohs_be16 [of 20 p] True by auto
  have k: "kload p 18 = Inr (p ! 18)" "kload p 19 = Inr (p ! 19)" using True by simp_all
  show ?thesis using True unfolding net_handle_arp_def w k kbind.simps arp_header_def arp_request_def [symmetric] arp_learn_def [symmetric]
    by (simp add: ETHERNET_TYPE_IPV4_def ARP_OPCODE_REQUEST_def ARP_OPCODE_REPLY_def)
qed (simp add: net_handle_arp_def arp_header_def)

lemma arp_fields_in: "42 \<le> length p \<Longrightarrow> arp_fields p = Inr (octets p 22 6, octets p 28 4, octets p 32 6, octets p 38 4)"
  by (simp add: arp_fields_def ldn_in)

lemma arp_packet_length: "length a = 6 \<Longrightarrow> length b = 4 \<Longrightarrow> length c = 6 \<Longrightarrow> length d = 4 \<Longrightarrow> length (arp_packet opc a b c d) = 28"
  by (simp add: arp_packet_def bytes16_def)

lemma arp_safe:
  assumes "netif_ok n" "42 \<le> length p"
  shows "\<exists>n'. net_handle_arp mem p n = Inr n' \<and> netif_ok n'"
proof -
  let ?a = "arp_packet ARP_OPCODE_REPLY (ni_mac n) (ni_ip n) (octets p 22 6) (octets p 28 4)"
  have l: "length (ni_mac n) = 6" "length (ni_ip n) = 4" "length (ni_gateway n) = 4" using assms(1) by (simp_all add: netif_ok_def)
  have a: "length ?a = 28" using arp_packet_length l assms(2) by simp
  have "length (octets p 6 6) = 6" "?a \<noteq> []" "length ?a \<le> 4082" using assms(2) a by (simp, force, simp)
  from send_ethernet_safe [OF assms(1) l(1) this, of "\<lambda>i. mem (i + 1)" ETHERNET_TYPE_ARP]
  have "\<exists>n'. arp_request mem p n = Inr n' \<and> netif_ok n'"
    using assms a by (auto simp: arp_request_def arp_fields_in ldn_in net_send_arp_def)
  moreover have "\<exists>n'. arp_learn mem p n = Inr n' \<and> netif_ok n'"
  proof -
    let ?n = "n\<lparr>ni_gateway_mac := octets p 22 6, ni_gateway_mac_configured := True\<rparr>"
    have "netif_ok ?n" using assms by (simp add: netif_ok_def)
    then have "\<exists>b n'. net_send_udp mem (ni_gateway n) 1234 4321 arp_msg ?n = Inr (b, n') \<and> netif_ok n'"
      using l(3) by (intro send_udp_safe) (simp_all add: arp_msg_def)
    then show ?thesis using assms by (auto simp: arp_learn_def arp_fields_in Let_def)
  qed
  ultimately show ?thesis using assms(1) unfolding arp_cases by simp
qed

text \<open>C8: No frame of up to 4096 bytes, the limit of the card, makes the network task read outside the frame, fail an
  assertion or leave the interface broken, whichever allocations fail: unless it carries UDP, or is an ARP packet
  shorter than 42 bytes.\<close>

theorem net_packet_safe:
  assumes "netif_ok n" "length p \<le> 4096"
    and "be16 p 12 = 0x0800 \<and> 34 \<le> length p \<longrightarrow> p ! 23 \<noteq> IPV4_TYPE_UDP" "be16 p 12 = 0x0806 \<longrightarrow> 42 \<le> length p"
  shows "\<exists>n'. net_handle_packet mem p n = Inr n' \<and> netif_ok n'"
proof (cases "14 \<le> length p")
  case True
  obtain w where w: "ld16 p 12 = Inr w" "\<And>v. ntohs w = v \<longleftrightarrow> be16 p 12 = unat v" using ntohs_be16 [of 12 p] True by auto
  have c: "net_handle_packet mem p n =
      (if be16 p 12 = 0x0806 then net_handle_arp mem p n else if be16 p 12 = 0x0800 then net_handle_ipv4 mem p n else Inr n)"
    using True unfolding net_handle_packet_def w kbind.simps Let_def
    by (simp add: ETHERNET_TYPE_ARP_def ETHERNET_TYPE_IPV4_def net_handle_ipv6_def)
  show ?thesis unfolding c using arp_safe [OF assms(1), of p mem] ipv4_safe [OF assms(1,2), of mem] assms(1,3,4) by auto
qed (use assms(1) in \<open>simp add: net_handle_packet_def\<close>)

section \<open>Packets that are not\<close>

lemma udp_dump_in: "42 + unat k \<le> length p \<Longrightarrow> udp_dump p k = Inr ()"
proof -
  assume k: "42 + unat k \<le> length p"
  have "kfor (\<lambda>i _. kbind (kload p (42 + i)) (\<lambda>_. Inr ())) [0..<m] () = Inr ()" if "42 + m \<le> length p" for m
    using that by (induction m) (simp_all add: kfor_append)
  then show ?thesis using k by (simp add: udp_dump_def)
qed

lemma udp_dump_out: "42 \<le> length p \<Longrightarrow> length p < 42 + unat k \<Longrightarrow> udp_dump p k = Inl MemFault"
proof -
  assume k: "42 \<le> length p" "length p < 42 + unat k"
  let ?f = "\<lambda>i (_ :: unit). kbind (kload p (42 + i)) (\<lambda>_. Inr ())"
  define m where "m = length p - 42"
  have "kfor ?f [0..<j] () = Inr ()" if "j \<le> m" for j using that k(1) by (induction j) (simp_all add: kfor_append m_def)
  moreover have "m < unat k" using k by (simp add: m_def)
  then have "[0..<unat k] = [0..<m] @ m # [Suc m..<unat k]"
    by (metis le_add_diff_inverse less_imp_le upt_add_eq_append upt_conv_Cons zero_le)
  moreover have "kload p (42 + m) = Inl MemFault" using k(1) by (simp add: m_def kload_def)
  ultimately show ?thesis by (simp add: udp_dump_def kfor_append)
qed

text \<open>The handler of UDP trusts the length in the header of the packet: whenever this length, counted from the
  data on, exceeds the frame, it reads behind the frame (and sends the bytes back). This includes every packet that is
  not padded, as the length counts the header of eight bytes and the frame ends four bytes behind the data.\<close>

lemma udp_reads_past_frame:
  assumes "42 \<le> length p" "8 \<le> L" "8 \<le> be16 p 38" "length p < 42 + be16 p 38" "mem 0"
  shows "net_handle_udp mem p L n = Inl MemFault"
proof -
  obtain w where w: "ld16 p 38 = Inr w" "unat (ntohs w) = be16 p 38" using ld16_in [of 38 p] unat_ntohs [of 38 p] assms(1) by auto
  obtain a b c where l: "ld16 p 34 = Inr a" "ld16 p 36 = Inr b" "ld16 p 40 = Inr c" "ldn p 26 4 = Inr (octets p 26 4)"
    using assms(1) by (simp add: ld16_in ldn_in)
  let ?k = "ucast (ntohs w) - 8 :: u32"
  have "udp_dump p ?k = Inr () \<or> udp_dump p ?k = Inl MemFault" using udp_dump_in udp_dump_out assms(1) by (cases "42 + unat ?k \<le> length p") auto
  moreover have "ldn p 42 (be16 p 38) = Inl MemFault" by (rule ldn_out) (use assms in simp_all)
  ultimately show ?thesis using assms(2,3,5) w l by (auto simp: net_handle_udp_def cpy_def)
qed

text \<open>An ARP request or reply in a frame of 34 to 41 bytes passes the check of the length, which is that of an
  IPv4 header, and the handler reads behind the frame.\<close>

lemma arp_reads_past_frame:
  assumes "arp_header p" "length p < 42" "be16 p 20 = 1 \<or> be16 p 20 = 2"
  shows "net_handle_arp mem p n = Inl MemFault"
proof -
  have l: "34 \<le> length p" using assms(1) by (simp add: arp_header_def)
  have "arp_fields p = Inl MemFault"
  proof (cases "38 \<le> length p")
    case True
    then show ?thesis using ldn_in ldn_out [of 38 p 4] assms(2) by (simp add: arp_fields_def)
  next
    case False
    then show ?thesis using l ldn_in ldn_out [of 32 p 6] by (simp add: arp_fields_def)
  qed
  then show ?thesis using assms(1,3) unfolding arp_cases by (auto simp: arp_request_def arp_learn_def)
qed

section \<open>Examples\<close>

definition ex_netif :: netif_t where
  "ex_netif = net_register_netif [2, 0, 0, 0, 0, 2]
     \<lparr>e_rx = [], e_rx_head = 0, e_rx_tail = 0, e_tx = replicate 8 \<lparr>td_buf = replicate 4096 0, td_length = 0, td_cmd = 0, td_status = 0\<rparr>,
      e_tx_tail = 0, e_rx_queue = []\<rparr>"

text \<open>An echo request from 10.0.0.1 to 10.0.0.2, and a UDP packet with 20 bytes of data.\<close>

definition ex_ping :: "u8 list" where
  "ex_ping = [2, 0, 0, 0, 0, 2, 2, 0, 0, 0, 0, 1, 8, 0, 69, 0, 0, 28, 0, 1, 0, 0, 64, 1, 102, 222, 10, 0, 0, 1, 10, 0, 0, 2, 8, 0, 247, 247, 0, 7, 0, 1, 1, 2, 3, 4]"

definition ex_udp :: "u8 list" where
  "ex_udp = [2, 0, 0, 0, 0, 2, 2, 0, 0, 0, 0, 1, 8, 0, 69, 0, 0, 48, 0, 1, 0, 0, 64, 17, 102, 186, 10, 0, 0, 1, 10, 0, 0, 2, 4, 210, 0, 7, 0, 28, 0, 0, 65, 66, 67, 68, 69, 70, 71, 72, 73, 74, 75, 76, 77, 78, 79, 80, 81, 82, 83, 84, 1, 2, 3, 4]"

lemma ex_netif_ok: "netif_ok ex_netif"
  by (simp add: netif_ok_def ex_netif_def net_register_netif_def tx_ok_def E1000_NUM_TX_DESC_def)

lemma ex_ping_accepted: "ipv4_accepted ex_ping ex_netif"
proof -
  have "checksum_field 10 (octets ex_ping 14 20)" by code_simp
  moreover have "octets ex_ping 30 4 = [10, 0, 0, 2]" by code_simp
  ultimately show ?thesis by (simp add: ipv4_accepted_def ex_netif_def net_register_netif_def) (simp add: ex_ping_def be16_def)
qed

lemma ex_ping_fields: "be16 ex_ping 12 = 0x0800" "be16 ex_ping 16 = 28" "ex_ping ! 23 = 1" "ex_ping ! 34 = 8" "length ex_ping = 46"
  by (simp_all add: ex_ping_def be16_def)


theorem net_packet_safe_witness:
  "\<exists>n'. net_handle_packet (\<lambda>i. i = 0) ex_ping ex_netif = Inr n' \<and> netif_ok n'"
  using net_packet_safe [OF ex_netif_ok, of ex_ping "\<lambda>i. i = 0"] ex_ping_fields by (simp add: IPV4_TYPE_UDP_def)

end
