(* ===== verification/Proc.thy ===== *)
theory Proc
  imports Bitmap Filecalls Aspace Sched
begin

text \<open>
  Processes (src/kernel/process.c, lines 23 to 48, 323 to 536 and 608 to 764, and src/kernel/tree.c): process numbers, the
  process tree, loading a program, cloning, exit and waiting. The task of a process is its first member and has its
  address; the task itself belongs to the scheduler, the file descriptors and the memory to their
  components. The children of a tree node are the values of its list, to which \<open>list_insert\<close> appends and from which
  \<open>list_remove\<close> takes the first occurrence. Objects get addresses that were never used; \<open>kcalloc\<close> and \<open>kmalloc\<close> succeed
  here. The saved registers are bytes on the kernel stack.
\<close>

definition PROCESS_MAX_PID :: nat where "PROCESS_MAX_PID = 32768"

record process_t =
  p_name :: "cstr option"
  p_pid :: nat
  p_fd_table :: addr
  p_ptree_node :: addr
  p_pdir :: u32
  p_registers :: u32
  p_esp :: u32

record tree_node_t =
  tn_value :: addr
  tn_children :: "addr list"
  tn_parent :: addr

record pstate =
  pk :: kstate
  psched :: sched
  pid_bitmap :: bitmap_t
  last_pid :: nat
  procs :: "addr \<rightharpoonup> process_t"
  tnodes :: "addr \<rightharpoonup> tree_node_t"
  ptree_root :: addr
  p_next :: addr

definition set_proc :: "addr \<Rightarrow> process_t \<Rightarrow> pstate \<Rightarrow> pstate" where
  "set_proc a p s = s\<lparr>procs := (procs s)(a \<mapsto> p)\<rparr>"

definition set_node :: "addr \<Rightarrow> tree_node_t \<Rightarrow> pstate \<Rightarrow> pstate" where
  "set_node v n s = s\<lparr>tnodes := (tnodes s)(v \<mapsto> n)\<rparr>"

text \<open>Steps on the page tables, on the machine and on the descriptors.\<close>

definition on_vm :: "(vmm \<Rightarrow> vmm res) \<Rightarrow> pstate \<Rightarrow> pstate res" where
  "on_vm f s = kbind (f (mvm (km (pk s)))) (\<lambda>v. Inr (s\<lparr>pk := (pk s)\<lparr>km := (km (pk s))\<lparr>mvm := v\<rparr>\<rparr>\<rparr>))"

definition on_km :: "(machine \<Rightarrow> machine res) \<Rightarrow> pstate \<Rightarrow> pstate res" where
  "on_km f s = kbind (f (km (pk s))) (\<lambda>m. Inr (s\<lparr>pk := (pk s)\<lparr>km := m\<rparr>\<rparr>))"

definition on_fd :: "(fdstate \<Rightarrow> fdstate res) \<Rightarrow> pstate \<Rightarrow> pstate res" where
  "on_fd f s = kbind (f (kfd (pk s))) (\<lambda>d. Inr (s\<lparr>pk := (pk s)\<lparr>kfd := d\<rparr>\<rparr>))"

definition on_sched :: "(sched \<Rightarrow> sched res) \<Rightarrow> pstate \<Rightarrow> pstate res" where
  "on_sched f s = kbind (f (psched s)) (\<lambda>t. Inr (s\<lparr>psched := t\<rparr>))"

text \<open>The macro \<open>current_process\<close>.\<close>

definition current_process :: "pstate \<Rightarrow> addr res" where
  "current_process s =
     kbind (ld_task (psched s) (current_task (psched s))) (\<lambda>t.
     Inr (if t_type t = TASK_TYPE_USER_PROCESS then t_obj t else 0))"

definition kstack_of :: "addr \<Rightarrow> pstate \<Rightarrow> u32 res" where
  "kstack_of a s = kbind (ld_task (psched s) a) (\<lambda>t. Inr (t_kstack t))"

section \<open>Process numbers\<close>

definition get_pid :: "pstate \<Rightarrow> (nat \<times> pstate) res" where
  "get_pid s =
     kbind (kassert (\<not> PROCESS_MAX_PID < last_pid s)) (\<lambda>_.
     let pid = last_pid s + 1
     in kbind (bitmap_test (pid_bitmap s) pid) (\<lambda>b.
        kbind (kassert (\<not> b)) (\<lambda>_.
        kbind (bitmap_set (pid_bitmap s) pid) (\<lambda>m.
        Inr (pid, s\<lparr>last_pid := pid, pid_bitmap := m\<rparr>)))))"

section \<open>The process tree\<close>

definition tree_node_new :: "pstate \<Rightarrow> addr \<times> pstate" where
  "tree_node_new s =
     (p_next s, (set_node (p_next s) \<lparr>tn_value = 0, tn_children = [], tn_parent = 0\<rparr> s)\<lparr>p_next := p_next s + 1\<rparr>)"

definition tree_node_insert_child :: "addr \<Rightarrow> addr \<Rightarrow> pstate \<Rightarrow> pstate res" where
  "tree_node_insert_child parent node s =
     kbind (get_obj (tnodes s) parent) (\<lambda>n.
     kbind (kassert (node \<noteq> 0)) (\<lambda>_. Inr (set_node parent (n\<lparr>tn_children := tn_children n @ [node]\<rparr>) s)))"

definition tree_node_delete_child :: "addr \<Rightarrow> addr \<Rightarrow> pstate \<Rightarrow> pstate res" where
  "tree_node_delete_child parent node s =
     kbind (get_obj (tnodes s) parent) (\<lambda>n. Inr (set_node parent (n\<lparr>tn_children := remove1 node (tn_children n)\<rparr>) s))"

text \<open>The search recurses over the tree; \<open>n\<close> bounds the depth, and \<open>Diverges\<close> stands for a tree that is deeper.\<close>

fun tree_node_find :: "nat \<Rightarrow> (addr \<rightharpoonup> tree_node_t) \<Rightarrow> addr \<Rightarrow> addr \<Rightarrow> addr res"
  and tf_children :: "nat \<Rightarrow> (addr \<rightharpoonup> tree_node_t) \<Rightarrow> addr list \<Rightarrow> addr \<Rightarrow> addr res" where
  "tree_node_find 0 T parent v = Inl Diverges"
| "tree_node_find (Suc n) T parent v =
     kbind (get_obj T parent) (\<lambda>nd. if tn_value nd = v then Inr parent else tf_children n T (tn_children nd) v)"
| "tf_children n T [] v = Inr 0"
| "tf_children n T (c # cs) v = kbind (tree_node_find n T c v) (\<lambda>r. if r \<noteq> 0 then Inr r else tf_children n T cs v)"

definition tree_find :: "nat \<Rightarrow> pstate \<Rightarrow> addr \<Rightarrow> addr res" where
  "tree_find n s v = tree_node_find n (tnodes s) (ptree_root s) v"

definition ptree_get_init_node :: "pstate \<Rightarrow> addr" where
  "ptree_get_init_node s = ptree_root s"

definition ptree_new_node :: "addr \<Rightarrow> addr \<Rightarrow> pstate \<Rightarrow> (addr \<times> pstate) res" where
  "ptree_new_node parent process s =
     (let (v, s) = tree_node_new s
      in kbind (get_obj (tnodes s) v) (\<lambda>n.
         let s = set_node v (n\<lparr>tn_value := process\<rparr>) s
         in kbind (get_obj (tnodes s) parent) (\<lambda>pn.
            kbind (get_obj (procs s) (tn_value pn)) (\<lambda>pp.
            kbind (tree_node_insert_child (p_ptree_node pp) v s) (\<lambda>s. Inr (v, s))))))"

definition process_init :: "pstate \<Rightarrow> pstate res" where
  "process_init s =
     kbind (bitmap_new True True PROCESS_MAX_PID) (\<lambda>b.
       case b of None \<Rightarrow> Inl AssertFailed
       | Some b \<Rightarrow>
           kbind (bitmap_set b 0) (\<lambda>b.
           kbind (bitmap_set b 1) (\<lambda>b.
           let (r, s) = tree_node_new (s\<lparr>pid_bitmap := b, last_pid := 1\<rparr>) in Inr (s\<lparr>ptree_root := r\<rparr>))))"

section \<open>Loading a program\<close>

text \<open>A 32-bit store to kernel memory, and the bytes of a number of words.\<close>

definition le32 :: "u32 \<Rightarrow> u8 list" where
  "le32 w = [ucast w, ucast (drop_bit 8 w), ucast (drop_bit 16 w), ucast (drop_bit 24 w)]"

definition kst32 :: "u32 \<Rightarrow> u32 \<Rightarrow> machine \<Rightarrow> machine res" where
  "kst32 v w = kwrite v (le32 w)"

text \<open>A zeroed page of a region of the process, mapped through the kernel page \<open>k_tmp\<close>.\<close>

definition pe_zero :: "u32 \<Rightarrow> u32 \<Rightarrow> u32 \<Rightarrow> nat \<Rightarrow> machine \<Rightarrow> machine res" where
  "pe_zero pdir k_tmp start i m =
     kbind (alloc_block (mvm m)) (\<lambda>(block, s).
     kbind (kmap_inv k_tmp block (PAGE_PRESENT OR PAGE_READWRITE) s) (\<lambda>s.
     kbind (zero_page k_tmp (m\<lparr>mvm := s\<rparr>)) (\<lambda>m.
     kbind (map_alloc (start + kpg i) pdir block (PAGE_PRESENT OR PAGE_READWRITE OR PAGE_USER) (mvm m)) (\<lambda>s.
     Inr (m\<lparr>mvm := s\<rparr>)))))"

text \<open>A page of the program: the file is read over whatever the block held before.\<close>

definition pe_text :: "vfs \<Rightarrow> addr \<Rightarrow> u32 \<Rightarrow> u32 \<Rightarrow> u32 \<Rightarrow> nat \<Rightarrow> machine \<Rightarrow> machine res" where
  "pe_text v f pdir k_tmp start i m =
     kbind (alloc_block (mvm m)) (\<lambda>(block, s).
     kbind (kmap_inv k_tmp block (PAGE_PRESENT OR PAGE_READWRITE) s) (\<lambda>s.
     kbind (fs_read v f (kpg i) (of_nat BLOCK_SIZE)) (\<lambda>(j, bytes).
     kbind (store_bytes k_tmp bytes (m\<lparr>mvm := s\<rparr>)) (\<lambda>m.
     kbind (kassert (j \<noteq> -1)) (\<lambda>_.
     kbind (map_alloc (start + kpg i) pdir block (PAGE_PRESENT OR PAGE_USER OR PAGE_READWRITE) (mvm m)) (\<lambda>s.
     Inr (m\<lparr>mvm := s\<rparr>)))))))"

text \<open>The strings of \<open>argv\<close> or \<open>envp\<close> are copied to the region behind \<open>ptr\<close>; the result are their addresses.\<close>

fun process_exec_copy_array :: "u32 \<Rightarrow> u32 \<Rightarrow> cstr list \<Rightarrow> u32 \<Rightarrow> machine \<Rightarrow> (u32 list \<times> u32 \<times> machine) res" where
  "process_exec_copy_array pdir region_end [] ptr m = Inr ([], ptr, m)"
| "process_exec_copy_array pdir region_end (v # vs) ptr m =
     (let v_len = of_nat (length v + 1)
      in kbind (kassert (\<not> region_end \<le> ptr + v_len)) (\<lambda>_.
         kbind (copy_to_userspace pdir ptr (v @ [0]) m) (\<lambda>(r, m).
         kbind (kassert (r \<noteq> None)) (\<lambda>_.
         kbind (process_exec_copy_array pdir region_end vs (ptr + v_len) m) (\<lambda>(ptrs, ptr', m).
         Inr (ptr # ptrs, ptr', m))))))"

definition exec_stack :: "u32 list \<Rightarrow> u32 list \<Rightarrow> u32 list" where
  "exec_stack argv_ptrs envp_ptrs = of_nat (length argv_ptrs) # argv_ptrs @ [0] @ envp_ptrs @ [0]"

text \<open>The fields of the register frame that are set, with their offsets.\<close>

definition exec_regs :: "u32 \<Rightarrow> u32 \<Rightarrow> (u32 \<times> u32) list" where
  "exec_regs phys sp =
     [(0, phys), (4, 0), (8, 0), (12, 0x23), (16, 0x23), (20, 0), (24, 0), (28, 0), (72, 0), (36, 0), (44, 0), (48, 0),
      (52, 0), (56, 0), (60, 0x1000000), (64, 0x1B), (68, 0x200), (72, sp), (76, 0x23)]"

definition sizeof_regs :: u32 where "sizeof_regs = 80"

text \<open>The new image of the process: its regions, and the stack with the arguments, whose address is returned.\<close>

definition pe_image :: "vfs \<Rightarrow> addr \<Rightarrow> u32 \<Rightarrow> cstr list \<Rightarrow> cstr list \<Rightarrow> machine \<Rightarrow> (u32 \<times> machine) res" where
  "pe_image v f pdir argv envp m =
     kbind (find_vspace (kernel_directory (mvm m)) 1 (mvm m)) (\<lambda>(k_tmp, s).
     kbind (kassert (k_tmp \<noteq> 0)) (\<lambda>_.
     kbind (kfor (pe_zero pdir k_tmp 0x2000000) [0..<256] (m\<lparr>mvm := s\<rparr>)) (\<lambda>m.
     kbind (get_obj (vfs.nodes v) f) (\<lambda>nd.
     kbind (kfor (pe_text v f pdir k_tmp 0x1000000) [0..<(unat (nd_length nd) + 4095) div BLOCK_SIZE] m) (\<lambda>m.
     kbind (kfor (pe_zero pdir k_tmp 0x8000000) [0..<256] m) (\<lambda>m.
     kbind (kfor (pe_zero pdir k_tmp 0x10000000) [0..<1] m) (\<lambda>m.
     kbind (kmap k_tmp 0 0 (mvm m)) (\<lambda>s.
     kbind (process_exec_copy_array pdir 0x10001000 argv 0x10000000 (m\<lparr>mvm := s\<rparr>)) (\<lambda>(argv_ptrs, misc_ptr, m).
     kbind (process_exec_copy_array pdir 0x10001000 envp misc_ptr m) (\<lambda>(envp_ptrs, _, m).
     let stack = concat (map le32 (exec_stack argv_ptrs envp_ptrs)); top = 0x2000000 + kpg 256 - of_nat (length stack)
     in kbind (copy_to_userspace pdir top stack m) (\<lambda>(r, m).
        kbind (kassert (r \<noteq> None)) (\<lambda>_. Inr (top, m)))))))))))))"

text \<open>\<open>a\<close> is the address of the new page directory object.\<close>

definition process_execve :: "shared_sections \<Rightarrow> u32 \<Rightarrow> addr \<Rightarrow> addr \<Rightarrow> cstr list \<Rightarrow> cstr list \<Rightarrow> pstate \<Rightarrow> pstate res" where
  "process_execve sh a process f argv envp s =
     kbind (kassert (process \<noteq> 0)) (\<lambda>_.
     kbind (kassert (f \<noteq> 0)) (\<lambda>_.
     kbind (get_obj (vfs.nodes (fvfs (kfd (pk s)))) f) (\<lambda>nd.
     kbind (kassert (nd_length nd \<noteq> 0)) (\<lambda>_.
     kbind (get_obj (procs s) process) (\<lambda>p.
     kbind (kstack_of process s) (\<lambda>kstack.
     kbind (if p_pdir p \<noteq> 0
            then kbind (on_vm (process_unmap_kstack kstack (p_pdir p)) s) (on_vm (process_page_directory_free sh (p_pdir p)))
            else Inr s) (\<lambda>s.
     kbind (on_sched (upd_task process (t_type_update (\<lambda>_. TASK_TYPE_USER_PROCESS))) s) (\<lambda>s.
     kbind (process_page_directory_new sh a (mvm (km (pk s)))) (\<lambda>(pdir, v).
     kbind (if kstack = 0 then task_kstack_alloc ((km (pk s))\<lparr>mvm := v\<rparr>) else Inr (kstack, (km (pk s))\<lparr>mvm := v\<rparr>)) (\<lambda>(kstack, m).
     kbind (process_map_kstack kstack pdir (mvm m)) (\<lambda>v.
     kbind (pe_image (fvfs (kfd (pk s))) f pdir argv envp (m\<lparr>mvm := v\<rparr>)) (\<lambda>(top, m).
     kbind (ld_dir (mvm m) pdir) (\<lambda>pd.
     let regs = kstack - sizeof_regs
     in kbind (kfor (\<lambda>(off, w). kst32 (regs + off) w) (exec_regs (pd_phys pd) top) m) (\<lambda>m.
        kbind (on_sched (upd_task process (t_kstack_update (\<lambda>_. kstack))) (s\<lparr>pk := (pk s)\<lparr>km := m\<rparr>\<rparr>)) (\<lambda>s.
        Inr (set_proc process (p\<lparr>p_pdir := pdir, p_registers := regs, p_esp := regs\<rparr>) s))))))))))))))))"

definition blank_task :: "task_type \<Rightarrow> addr \<Rightarrow> task_t" where
  "blank_task ty ob = \<lparr>t_type = ty, t_obj = ob, t_kstack = 0, t_next = 0, t_state = TASK_STATE_READY, t_wait = 0, t_resume = Fresh\<rparr>"

text \<open>\<open>kcalloc(1, sizeof(process_t))\<close>.\<close>

definition proc_alloc :: "pstate \<Rightarrow> addr \<times> pstate" where
  "proc_alloc s =
     (let a = p_next s
      in (a, (set_proc a \<lparr>p_name = None, p_pid = 0, p_fd_table = 0, p_ptree_node = 0, p_pdir = 0, p_registers = 0, p_esp = 0\<rparr> s)
               \<lparr>p_next := a + 1, psched := (psched s)\<lparr>tasks := (tasks (psched s))(a \<mapsto> blank_task TASK_TYPE_INVALID 0)\<rparr>\<rparr>))"

text \<open>The first process; \<open>init_fds\<close> makes its descriptors, \<open>tty_node\<close> is the node of the terminal.\<close>

definition process_spawn_init :: "shared_sections \<Rightarrow> u32 \<Rightarrow> addr \<Rightarrow> addr \<Rightarrow> cstr list \<Rightarrow> pstate \<Rightarrow> (addr \<times> pstate) res" where
  "process_spawn_init sh a tty_node f argv s =
     kbind (kassert (f \<noteq> 0)) (\<lambda>_.
     kbind (get_obj (vfs.nodes (fvfs (kfd (pk s)))) f) (\<lambda>nd.
     kbind (kassert (nd_length nd \<noteq> 0)) (\<lambda>_.
     let (process, s) = proc_alloc s; root = ptree_get_init_node s
     in kbind (on_sched (upd_task process (\<lambda>t. t\<lparr>t_type := TASK_TYPE_USER_PROCESS, t_obj := process\<rparr>)) s) (\<lambda>s.
        kbind (get_obj (tnodes s) root) (\<lambda>n.
        kbind (init_fds tty_node (kfd (pk s))) (\<lambda>(t, d).
        kbind (get_obj (procs s) process) (\<lambda>p.
        let s = set_proc process (p\<lparr>p_pid := 1, p_ptree_node := root, p_fd_table := t\<rparr>)
                  (set_node root (n\<lparr>tn_value := process\<rparr>) (s\<lparr>pk := (pk s)\<lparr>kfd := d\<rparr>\<rparr>))
        in kbind (process_execve sh a process f argv [] s) (\<lambda>s. Inr (process, s)))))))))"

section \<open>Cloning\<close>

definition SYSCALL_CLONE_FLAGS_VM :: u32 where "SYSCALL_CLONE_FLAGS_VM = 0x100"
definition SYSCALL_CLONE_FLAGS_FILES :: u32 where "SYSCALL_CLONE_FLAGS_FILES = 0x400"

text \<open>The descriptor table and the address space of the child.\<close>

definition clone_files :: "u32 \<Rightarrow> addr \<Rightarrow> fdstate \<Rightarrow> (addr \<times> fdstate) res" where
  "clone_files flags t d =
     (if flags AND SYSCALL_CLONE_FLAGS_FILES \<noteq> 0 then kbind (fd_table_reference t d) (\<lambda>d. Inr (t, d)) else fd_table_clone t d)"

definition clone_space :: "shared_sections \<Rightarrow> u32 \<Rightarrow> u32 \<Rightarrow> u32 \<Rightarrow> machine \<Rightarrow> (u32 \<times> machine) res" where
  "clone_space sh a flags pdir m =
     (if flags AND SYSCALL_CLONE_FLAGS_VM \<noteq> 0
      then kbind (page_directory_reference pdir (mvm m)) (\<lambda>(d, s). Inr (d, m\<lparr>mvm := s\<rparr>))
      else kbind (page_directory_new a (mvm m)) (\<lambda>(d, s).
           kbind (page_directory_clone d pdir (m\<lparr>mvm := s\<rparr>)) (\<lambda>m.
           kbind (process_page_directory_map_shared sh d (mvm m)) (\<lambda>s. Inr (d, m\<lparr>mvm := s\<rparr>)))))"

text \<open>The register frame of the child: a copy of the one of the caller, with the directory, the result 0 and the stack.\<close>

definition clone_regs :: "u32 \<Rightarrow> u32 \<Rightarrow> u32 \<Rightarrow> u32 \<Rightarrow> machine \<Rightarrow> machine res" where
  "clone_regs regs old phys child_stack m =
     kbind (kread m old (unat sizeof_regs)) (\<lambda>bytes.
     kbind (kwrite regs bytes m) (\<lambda>m.
     kbind (kst32 regs phys m) (\<lambda>m.
     kbind (kst32 (regs + 48) 0 m) (\<lambda>m.
     if child_stack \<noteq> 0 then kst32 (regs + 72) child_stack m else Inr m))))"

text \<open>The resources of the child: its descriptor table, address space and kernel stack.\<close>

definition clone_parts :: "shared_sections \<Rightarrow> u32 \<Rightarrow> u32 \<Rightarrow> addr \<Rightarrow> u32 \<Rightarrow> kstate \<Rightarrow> (addr \<times> u32 \<times> u32 \<times> kstate) res" where
  "clone_parts sh a flags fd_table old_pdir k =
     kbind (clone_files flags fd_table (kfd k)) (\<lambda>(t, d).
     kbind (clone_space sh a flags old_pdir (km k)) (\<lambda>(pdir, m).
     kbind (task_kstack_alloc m) (\<lambda>(kstack, m).
     kbind (process_map_kstack kstack pdir (mvm m)) (\<lambda>v.
     Inr (t, pdir, kstack, k\<lparr>km := m\<lparr>mvm := v\<rparr>, kfd := d\<rparr>)))))"

text \<open>The rest: the number, the tree node, the registers and the fields. \<open>cur\<close> is the current process.\<close>

definition clone_register :: "addr \<Rightarrow> process_t \<Rightarrow> addr \<Rightarrow> cstr \<Rightarrow> addr \<Rightarrow> u32 \<Rightarrow> u32 \<Rightarrow> addr \<Rightarrow> u32 \<Rightarrow> pstate \<Rightarrow> pstate res" where
  "clone_register cur cp child name t pdir kstack old_node child_stack s =
     kbind (get_pid s) (\<lambda>(pid, s).
     kbind (ptree_new_node old_node child s) (\<lambda>(node, s).
     kbind (ld_task (psched s) cur) (\<lambda>ct.
     kbind (ld_dir (mvm (km (pk s))) pdir) (\<lambda>pd.
     let regs = kstack - sizeof_regs
     in kbind (on_km (clone_regs regs (p_registers cp) (pd_phys pd) child_stack) s) (\<lambda>s.
        kbind (on_sched (upd_task child (\<lambda>t. t\<lparr>t_type := t_type ct, t_state := TASK_STATE_READY, t_kstack := kstack, t_obj := child\<rparr>)) s) (\<lambda>s.
        Inr (set_proc child \<lparr>p_name = Some name, p_pid = pid, p_fd_table = t, p_ptree_node = node, p_pdir = pdir,
                             p_registers = regs, p_esp = regs\<rparr> s)))))))"

definition process_clone :: "shared_sections \<Rightarrow> u32 \<Rightarrow> addr \<Rightarrow> u32 \<Rightarrow> u32 \<Rightarrow> pstate \<Rightarrow> (addr \<times> pstate) res" where
  "process_clone sh a oldproc flags child_stack s =
     (let (child, s) = proc_alloc s
      in kbind (current_process s) (\<lambda>cur.
         kbind (get_obj (procs s) cur) (\<lambda>cp.
         kbind (get_obj (procs s) oldproc) (\<lambda>op.
         kbind (clone_parts sh a flags (p_fd_table cp) (p_pdir op) (pk s)) (\<lambda>(t, pdir, kstack, k).
         kbind (case p_name cp of None \<Rightarrow> Inl MemFault | Some n \<Rightarrow> Inr n) (\<lambda>name.
         kbind (clone_register cur cp child name t pdir kstack (p_ptree_node op) child_stack (s\<lparr>pk := k\<rparr>)) (\<lambda>s.
         Inr (child, s))))))))"

definition process_add :: "addr \<Rightarrow> pstate \<Rightarrow> pstate res" where
  "process_add process s =
     kbind (kassert (process \<noteq> 0)) (\<lambda>_.
     kbind (ld_task (psched s) process) (\<lambda>t.
     kbind (kassert (process = t_obj t)) (\<lambda>_. on_sched (task_add process) s)))"

section \<open>The end of a process\<close>

definition process_destroy :: "shared_sections \<Rightarrow> addr \<Rightarrow> pstate \<Rightarrow> pstate res" where
  "process_destroy sh process s =
     kbind (get_obj (procs s) process) (\<lambda>p.
     kbind (kassert (p_pid p \<noteq> 1)) (\<lambda>_.
     kbind (kassert (p_pid p \<noteq> 0)) (\<lambda>_.
     kbind (bitmap_unset (pid_bitmap s) (p_pid p)) (\<lambda>b.
     let s = s\<lparr>pid_bitmap := b\<rparr>
     in kbind (get_obj (tnodes s) (p_ptree_node p)) (\<lambda>n.
        kbind (tree_node_delete_child (tn_parent n) (p_ptree_node p) s) (\<lambda>s.
        kbind (kstack_of process s) (\<lambda>kstack.
        kbind (on_vm (process_unmap_kstack kstack (p_pdir p)) s) (\<lambda>s.
        kbind (on_vm (task_kstack_free kstack) s) (\<lambda>s.
        kbind (on_sched (upd_task process (t_kstack_update (\<lambda>_. 0))) s) (\<lambda>s.
        kbind (on_fd (fd_table_free (p_fd_table p)) s) (\<lambda>s.
        kbind (on_vm (process_page_directory_free sh (p_pdir p)) s) (\<lambda>s.
        Inr (s\<lparr>procs := (procs s)(process := None), psched := (psched s)\<lparr>tasks := (tasks (psched s))(process := None)\<rparr>\<rparr>)))))))))))))"

text \<open>The queue of the tasks that wait for the process.\<close>

definition wait_queue :: "addr \<Rightarrow> qid" where
  "wait_queue process = BlockQ process"

text \<open>The kernel does not return from \<open>process_exit\<close>: the result is the state in which the next task runs.\<close>

definition process_exit :: "shared_sections \<Rightarrow> pstate \<Rightarrow> pstate res" where
  "process_exit sh s =
     kbind (current_process s) (\<lambda>c.
     kbind (get_obj (procs s) c) (\<lambda>p.
     if p_pid p = 1 then Inl Halted
     else kbind (on_fd (fd_table_free (p_fd_table p)) s) (\<lambda>s.
          kbind (kstack_of c s) (\<lambda>kstack.
          kbind (on_vm (process_unmap_kstack kstack (p_pdir p)) s) (\<lambda>s.
          kbind (on_vm (process_page_directory_free sh (p_pdir p)) s) (\<lambda>s.
          kbind (on_sched scheduler_lock s) (\<lambda>s.
          kbind (on_sched (task_unblock_next (wait_queue c)) s) (\<lambda>s.
          kbind (task_exit (psched s)) (\<lambda>(_, t). Inr (s\<lparr>psched := t\<rparr>)))))))))) "

section \<open>Waiting\<close>

fun wf_children :: "pstate \<Rightarrow> nat \<Rightarrow> addr list \<Rightarrow> addr res" where
  "wf_children s pid [] = Inr 0"
| "wf_children s pid (c # cs) =
     kbind (get_obj (tnodes s) c) (\<lambda>n.
     kbind (get_obj (procs s) (tn_value n)) (\<lambda>candidate.
     if p_pid candidate = pid then Inr (tn_value n) else wf_children s pid cs))"

definition process_waitpid_find :: "addr \<Rightarrow> nat \<Rightarrow> pstate \<Rightarrow> addr res" where
  "process_waitpid_find parent_node pid s =
     kbind (get_obj (tnodes s) parent_node) (\<lambda>n. wf_children s pid (tn_children n))"

text \<open>One round of the loop of \<open>process_waitpid\<close>: it returns a number, or blocks the caller, who starts the next round
  when it runs again.\<close>

datatype wait_round = WaitReturns u32 | WaitBlocks

definition process_waitpid :: "nat \<Rightarrow> pstate \<Rightarrow> (wait_round \<times> pstate) res" where
  "process_waitpid pid s =
     kbind (current_process s) (\<lambda>c.
     kbind (get_obj (procs s) c) (\<lambda>cp.
     kbind (process_waitpid_find (p_ptree_node cp) pid s) (\<lambda>p.
     if p = 0 then Inr (WaitReturns (-1), s)
     else kbind (get_obj (procs s) p) (\<lambda>pp.
          kbind (ld_task (psched s) p) (\<lambda>t.
          if t_state t = TASK_STATE_TERMINATED then Inr (WaitReturns (of_nat (p_pid pp)), s)
          else kbind (on_sched (task_block (wait_queue p) TASK_STATE_BLOCKED) s) (\<lambda>s. Inr (WaitBlocks, s)))))))"

end
