(* ===== verification/Syscalls.thy ===== *)
theory Syscalls
  imports Proc
begin

text \<open>
  The system call gate (src/kernel/syscall.c, lines 277 to 371 and 395 to 996): the calls on processes, the remaining
  small calls, and the dispatch on the number in \<open>eax\<close>. A call of the handler either gives the value that the caller finds
  in \<open>eax\<close> when it runs again, or leaves the caller in the wait queue of a process with the call still to be finished, or
  ends the caller. \<open>junk\<close> is what the 256-byte path buffers hold before the call, \<open>a\<close> the address of a new page directory.
\<close>

record sregs =
  r_eax :: u32
  r_ebx :: u32
  r_ecx :: u32
  r_edx :: u32

datatype sysresult = SysReturns u32 | SysBlocks | SysExits

text \<open>The calls of the other components, on the state of the calling process.\<close>

definition with_cur :: "(addr \<Rightarrow> process_t \<Rightarrow> (sysresult \<times> pstate) res) \<Rightarrow> pstate \<Rightarrow> (sysresult \<times> pstate) res" where
  "with_cur f s = kbind (current_process s) (\<lambda>c. kbind (get_obj (procs s) c) (f c))"

definition sys_k :: "(process_t \<Rightarrow> kstate \<Rightarrow> (u32 \<times> kstate) res) \<Rightarrow> pstate \<Rightarrow> (sysresult \<times> pstate) res" where
  "sys_k f s = with_cur (\<lambda>_ p. kbind (f p (pk s)) (\<lambda>(r, k). Inr (SysReturns r, s\<lparr>pk := k\<rparr>))) s"

definition sys_fd :: "(addr \<Rightarrow> fdstate \<Rightarrow> (u32 \<times> fdstate) res) \<Rightarrow> pstate \<Rightarrow> (sysresult \<times> pstate) res" where
  "sys_fd f = sys_k (\<lambda>p k. kbind (f (p_fd_table p) (kfd k)) (\<lambda>(r, d). Inr (r, k\<lparr>kfd := d\<rparr>)))"

definition sys_m :: "(u32 \<Rightarrow> machine \<Rightarrow> (u32 \<times> machine) res) \<Rightarrow> pstate \<Rightarrow> (sysresult \<times> pstate) res" where
  "sys_m f = sys_k (\<lambda>p k. kbind (f (p_pdir p) (km k)) (\<lambda>(r, m). Inr (r, k\<lparr>km := m\<rparr>)))"

section \<open>Calls on processes\<close>

text \<open>An array of strings from user memory; when it cannot be read, the program gets no strings.\<close>

definition user_array :: "u8 list \<Rightarrow> u32 \<Rightarrow> u32 \<Rightarrow> machine \<Rightarrow> (cstr list \<times> machine) res" where
  "user_array junk pdir ptr m =
     kbind (copy_from_userspace_array junk pdir ptr 20 m) (\<lambda>(r, m). Inr (case r of None \<Rightarrow> [] | Some vs \<Rightarrow> vs, m))"

text \<open>The strings of \<open>argv\<close> are freed at the end. Without \<open>user_argv\<close> the only one is the array \<open>path\<close> on the stack, for which
  \<open>liballoc_verify_magic\<close> fails its assertion.\<close>

definition free_argv :: "u32 \<Rightarrow> unit res" where
  "free_argv user_argv = kassert (user_argv \<noteq> 0)"

text \<open>From the point where the path and the strings are known.\<close>

definition execve_path :: "shared_sections \<Rightarrow> u32 \<Rightarrow> addr \<Rightarrow> u32 \<Rightarrow> cstr \<Rightarrow> cstr list \<Rightarrow> cstr list \<Rightarrow> pstate \<Rightarrow> (sysresult \<times> pstate) res" where
  "execve_path sh a c user_argv path argv envp s =
     kbind (kopen path (fvfs (kfd (pk s)))) (\<lambda>(f, v).
     let s = s\<lparr>pk := (pk s)\<lparr>kfd := (kfd (pk s))\<lparr>fvfs := v\<rparr>\<rparr>\<rparr>
     in if f = 0 then kbind (free_argv user_argv) (\<lambda>_. Inr (SysReturns 2, s))
        else kbind (process_execve sh a c f argv envp s) (\<lambda>s.
             kbind (fs_close f (fvfs (kfd (pk s)))) (\<lambda>(_, v).
             kbind (free_argv user_argv) (\<lambda>_.
             kbind (on_sched (upd_task c (t_state_update (\<lambda>_. TASK_STATE_RUNNING)))
                      (s\<lparr>pk := (pk s)\<lparr>kfd := (kfd (pk s))\<lparr>fvfs := v\<rparr>\<rparr>\<rparr>)) (\<lambda>s.
             kbind (kstack_of c s) (\<lambda>kstack.
             Inr (SysReturns 0, s\<lparr>psched := (psched s)\<lparr>tss_esp0 := kstack\<rparr>\<rparr>)))))))"

definition syscall_execve :: "shared_sections \<Rightarrow> u8 list \<Rightarrow> u32 \<Rightarrow> u32 \<Rightarrow> u32 \<Rightarrow> u32 \<Rightarrow> pstate \<Rightarrow> (sysresult \<times> pstate) res" where
  "syscall_execve sh junk a user_path user_argv user_envp s =
     with_cur (\<lambda>c p.
       kbind (copy_from_userspace_string (p_pdir p) user_path (take PATH_BUF junk) (km (pk s))) (\<lambda>(r, m).
         case r of
           None \<Rightarrow> Inr (SysReturns (-1), s\<lparr>pk := (pk s)\<lparr>km := m\<rparr>\<rparr>)
         | Some (_, buf) \<Rightarrow>
             let path = takeWhile (\<lambda>c. c \<noteq> 0) (buf[255 := 0])
             in kbind (if user_argv = 0 then Inr ([path], m) else user_array junk (p_pdir p) user_argv m) (\<lambda>(argv, m).
                kbind (if user_envp = 0 then Inr ([], m) else user_array junk (p_pdir p) user_envp m) (\<lambda>(envp, m).
                execve_path sh a c user_argv path argv envp (s\<lparr>pk := (pk s)\<lparr>km := m\<rparr>\<rparr>))))) s"

definition syscall_clone :: "shared_sections \<Rightarrow> u32 \<Rightarrow> u32 \<Rightarrow> u32 \<Rightarrow> pstate \<Rightarrow> (sysresult \<times> pstate) res" where
  "syscall_clone sh a flags child_stack s =
     kbind (current_process s) (\<lambda>c.
     kbind (process_clone sh a c flags child_stack s) (\<lambda>(child, s).
     kbind (process_add child s) (\<lambda>s.
     kbind (get_obj (procs s) child) (\<lambda>p. Inr (SysReturns (of_nat (p_pid p)), s)))))"

definition syscall_waitpid :: "u32 \<Rightarrow> pstate \<Rightarrow> (sysresult \<times> pstate) res" where
  "syscall_waitpid pid s =
     kbind (process_waitpid (unat pid) s) (\<lambda>(r, s). Inr (case r of WaitReturns v \<Rightarrow> SysReturns v | WaitBlocks \<Rightarrow> SysBlocks, s))"

definition syscall_getpid :: "pstate \<Rightarrow> (sysresult \<times> pstate) res" where
  "syscall_getpid s = with_cur (\<lambda>_ p. Inr (SysReturns (of_nat (p_pid p)), s)) s"

definition syscall_exit :: "shared_sections \<Rightarrow> pstate \<Rightarrow> (sysresult \<times> pstate) res" where
  "syscall_exit sh s = with_cur (\<lambda>_ _. kbind (process_exit sh s) (\<lambda>s. Inr (SysExits, s))) s"

text \<open>The value 0 is the result that the caller finds when it runs again.\<close>

definition syscall_sched_yield :: "pstate \<Rightarrow> (sysresult \<times> pstate) res" where
  "syscall_sched_yield s = kbind (on_sched yield s) (\<lambda>s. Inr (SysReturns 0, s))"

definition syscall_nano_sleep :: "u32 \<Rightarrow> pstate \<Rightarrow> (sysresult \<times> pstate) res" where
  "syscall_nano_sleep delay s =
     kbind (on_sched (task_sleep_until (timer_ticks (psched s) + ucast delay)) s) (\<lambda>s. Inr (SysReturns 0, s))"

section \<open>Directories\<close>

text \<open>\<open>struct dirent_user\<close>: eight bytes of inode number, the type, which no file system sets, 256 bytes of name and three bytes of
  padding \<open>pad\<close> from the stack.\<close>

definition dirent_user :: "u8 list \<Rightarrow> dirent \<Rightarrow> u8 list" where
  "dirent_user pad d =
     (case d of (ino, name) \<Rightarrow>
        le32 ino @ le32 0 @ [0] @ take 256 name @ replicate (256 - length name) 0 @ take 3 pad @ replicate (3 - length pad) 0)"

definition syscall_readdir :: "u8 list \<Rightarrow> addr \<Rightarrow> u32 \<Rightarrow> u32 \<Rightarrow> u32 \<Rightarrow> u32 \<Rightarrow> kstate \<Rightarrow> (u32 \<times> kstate) res" where
  "syscall_readdir pad t pdir fd_num d_ino ptr k =
     kbind (fd_table_get t (unat fd_num) (kfd k)) (\<lambda>fd.
       if fd = 0 then Inr (-1, k)
       else kbind (get_obj (fds (kfd k)) fd) (\<lambda>e.
            kbind (fs_readdir (fd_node e) d_ino (fvfs (kfd k))) (\<lambda>d.
              case d of
                None \<Rightarrow> Inr (0, k)
              | Some d \<Rightarrow>
                  kbind (copy_to_userspace pdir ptr (dirent_user pad d) (km k)) (\<lambda>(r, m).
                  Inr (if r = None then -1 else 1, k\<lparr>km := m\<rparr>)))))"

section \<open>The dispatch\<close>

text \<open>The calls that do nothing but return a constant.\<close>

definition const_call :: "u32 \<Rightarrow> u32 option" where
  "const_call n =
     (if n \<in> {0x28, 0x2b, 0x4e} then Some (-1)
      else if n \<in> {0xFF, 0xa4, 0xaa, 0xc7, 0xc8, 0xc9, 0xca, 0xd5, 0xd6} then Some 0 else None)"

definition file_call :: "u8 list \<Rightarrow> sregs \<Rightarrow> (pstate \<Rightarrow> (sysresult \<times> pstate) res) option" where
  "file_call junk regs =
     (let n = r_eax regs; b = r_ebx regs; c = r_ecx regs; d = r_edx regs
      in if n = 0x03 then Some (sys_k (\<lambda>p. syscall_read (p_fd_table p) (p_pdir p) b c d))
         else if n = 0x04 then Some (sys_k (\<lambda>p. syscall_write (p_fd_table p) (p_pdir p) b c d))
         else if n = 0x05 then Some (sys_k (\<lambda>p. syscall_open junk (p_fd_table p) (p_pdir p) b))
         else if n = 0x06 then Some (sys_fd (\<lambda>t. syscall_close t b))
         else if n = 0x08 then Some (sys_k (\<lambda>p. syscall_create junk (p_pdir p) b))
         else if n = 0x0A then Some (sys_k (\<lambda>p. syscall_unlink junk (p_pdir p) b))
         else if n = 0x0C then Some (sys_k (\<lambda>p. syscall_uname (p_pdir p) b))
         else if n = 0x13 then Some (sys_fd (\<lambda>t. syscall_lseek t b c d))
         else if n = 0x27 then Some (sys_k (\<lambda>p. syscall_mkdir junk (p_pdir p) b))
         else if n = 0x29 then Some (sys_fd (\<lambda>t. syscall_dup t b))
         else if n = 0x3f then Some (sys_fd (\<lambda>t. syscall_dup2 t b c))
         else if n = 0x59 then Some (sys_k (\<lambda>p. syscall_readdir junk (p_fd_table p) (p_pdir p) b c d))
         else if n = 0x14a then Some (sys_fd (\<lambda>t. syscall_dup3 t b c d))
         else None)"

definition process_call :: "shared_sections \<Rightarrow> u8 list \<Rightarrow> u32 \<Rightarrow> sregs \<Rightarrow> (pstate \<Rightarrow> (sysresult \<times> pstate) res) option" where
  "process_call sh junk a regs =
     (let n = r_eax regs; b = r_ebx regs; c = r_ecx regs; d = r_edx regs
      in if n = 0x01 then Some (syscall_exit sh)
         else if n = 0x07 then Some (syscall_waitpid b)
         else if n = 0x0B then Some (syscall_execve sh junk a b c d)
         else if n = 0x14 then Some syscall_getpid
         else if n = 0x78 then Some (syscall_clone sh a b c)
         else if n = 0x9E then Some syscall_sched_yield
         else if n = 0xa2 then Some (syscall_nano_sleep b)
         else if n = 0x200 then Some (sys_m (\<lambda>pdir. syscall_mmap_anon pdir b c d))
         else if n = 0x201 then Some (sys_m (\<lambda>pdir m. kbind (syscall_munmap pdir b c (mvm m)) (\<lambda>(r, v). Inr (r, m\<lparr>mvm := v\<rparr>))))
         else None)"

definition syscall_handler :: "shared_sections \<Rightarrow> u8 list \<Rightarrow> u32 \<Rightarrow> sregs \<Rightarrow> pstate \<Rightarrow> (sysresult \<times> pstate) res" where
  "syscall_handler sh junk a regs s =
     (case const_call (r_eax regs) of
        Some v \<Rightarrow> Inr (SysReturns v, s)
      | None \<Rightarrow>
          (case file_call junk regs of
             Some f \<Rightarrow> f s
           | None \<Rightarrow> (case process_call sh junk a regs of Some f \<Rightarrow> f s | None \<Rightarrow> Inl AssertFailed)))"

end
