(* ===== verification/Proc_Props.thy ===== *)
theory Proc_Props
  imports Syscalls Sched_Reach
begin

text \<open>
  What the process table keeps. \<open>proc_inv\<close> is the invariant: process numbers are pairwise different and marked in the bitmap,
  none lies above \<open>last_pid\<close>, every process has a tree node that carries it, and the children of every node carry processes.
  It holds at the start and every system call and timer interrupt keeps it.
\<close>

section \<open>Process numbers\<close>

definition pid_inv :: "bitmap_t \<Rightarrow> nat \<Rightarrow> bool" where
  "pid_inv b l \<longleftrightarrow> bitmap_wf b \<and> bm_size b = PROCESS_MAX_PID \<and> pidmap.used b \<subseteq> {0..l} \<and> l < PROCESS_MAX_PID"

lemma get_pid_ok:
  assumes "pid_inv (pid_bitmap s) (last_pid s)" "last_pid s + 1 < PROCESS_MAX_PID"
  shows "\<exists>b. get_pid s = Inr (last_pid s + 1, s\<lparr>last_pid := last_pid s + 1, pid_bitmap := b\<rparr>) \<and> pid_inv b (last_pid s + 1) \<and>
    pidmap.used b = insert (last_pid s + 1) (pidmap.used (pid_bitmap s))"
proof -
  let ?i = "last_pid s + 1"
  have wf: "bitmap_wf (pid_bitmap s)" and i: "?i < bm_size (pid_bitmap s)" and u: "pidmap.used (pid_bitmap s) \<subseteq> {0..last_pid s}"
    and sz: "bm_size (pid_bitmap s) = PROCESS_MAX_PID"
    using assms by (auto simp: pid_inv_def)
  have t: "bitmap_test (pid_bitmap s) ?i = Inr False" using pidmap.test_used [OF wf i] u by auto
  obtain b where b: "bitmap_set (pid_bitmap s) ?i = Inr b" "bitmap_wf b" "bm_size b = bm_size (pid_bitmap s)"
    "pidmap.used b = insert ?i (pidmap.used (pid_bitmap s))" using pidmap.set_used [OF wf i] by blast
  have "get_pid s = Inr (?i, s\<lparr>last_pid := ?i, pid_bitmap := b\<rparr>)" using t b(1) assms(2) by (simp add: get_pid_def Let_def)
  moreover have "pid_inv b ?i" using b(2-4) sz u assms(2) by (auto simp: pid_inv_def)
  ultimately show ?thesis using b(4) by blast
qed

lemma get_pid_end:
  assumes "pid_inv (pid_bitmap s) (last_pid s)" "last_pid s + 1 = PROCESS_MAX_PID"
  shows "get_pid s = Inl AssertFailed"
  using assms by (simp add: get_pid_def pid_inv_def bitmap_test_def Let_def)

lemma get_pid_cases:
  assumes "get_pid s = Inr (pid, s')" "pid_inv (pid_bitmap s) (last_pid s)"
  shows "\<exists>b. pid = last_pid s + 1 \<and> s' = s\<lparr>last_pid := pid, pid_bitmap := b\<rparr> \<and> pid_inv b pid \<and>
    pidmap.used b = insert pid (pidmap.used (pid_bitmap s))"
proof (cases "last_pid s + 1 < PROCESS_MAX_PID")
  case True
  then show ?thesis using get_pid_ok [OF assms(2) True] assms(1) by auto
next
  case False
  then show ?thesis using get_pid_end [OF assms(2)] assms by (auto simp: pid_inv_def)
qed

section \<open>The invariant\<close>

definition proc_tree :: "(addr \<rightharpoonup> process_t) \<Rightarrow> (addr \<rightharpoonup> tree_node_t) \<Rightarrow> addr \<Rightarrow> bool" where
  "proc_tree P T nx \<longleftrightarrow>
     (\<forall>a p. P a = Some p \<longrightarrow> a \<noteq> 0 \<and> a < nx \<and> (\<exists>n. T (p_ptree_node p) = Some n \<and> tn_value n = a)) \<and>
     (\<forall>v n. T v = Some n \<longrightarrow> v \<noteq> 0 \<and> v < nx \<and> tn_parent n = 0 \<and> tn_value n \<in> dom P \<and> set (tn_children n) \<subseteq> dom T)"

definition proc_pids :: "(addr \<rightharpoonup> process_t) \<Rightarrow> nat set \<Rightarrow> bool" where
  "proc_pids P used \<longleftrightarrow>
     (\<forall>a p. P a = Some p \<longrightarrow> p_pid p \<in> used \<and> p_pid p \<noteq> 0) \<and>
     (\<forall>a b p q. P a = Some p \<longrightarrow> P b = Some q \<longrightarrow> p_pid p = p_pid q \<longrightarrow> a = b)"

definition proc_inv :: "pstate \<Rightarrow> bool" where
  "proc_inv s \<longleftrightarrow> pid_inv (pid_bitmap s) (last_pid s) \<and> proc_tree (procs s) (tnodes s) (p_next s) \<and>
     proc_pids (procs s) (pidmap.used (pid_bitmap s)) \<and> p_next s \<noteq> 0"

text \<open>The state after \<open>process_init\<close> and \<open>process_spawn_init\<close>.\<close>

definition proc_start :: "pstate \<Rightarrow> bool" where
  "proc_start s \<longleftrightarrow> bitmap_wf (pid_bitmap s) \<and> bm_size (pid_bitmap s) = PROCESS_MAX_PID \<and> pidmap.used (pid_bitmap s) = {0, 1} \<and>
     last_pid s = 1 \<and>
     (\<exists>a p. a \<noteq> 0 \<and> a < p_next s \<and> p_ptree_node p \<noteq> 0 \<and> p_ptree_node p < p_next s \<and> procs s = [a \<mapsto> p] \<and> p_pid p = 1 \<and>
            tnodes s = [p_ptree_node p \<mapsto> \<lparr>tn_value = a, tn_children = [], tn_parent = 0\<rparr>])"

lemma start_inv:
  assumes "proc_start s"
  shows "proc_inv s"
proof -
  obtain a p where a: "a \<noteq> 0" "a < p_next s" "procs s = [a \<mapsto> p]" "p_pid p = 1"
      "tnodes s = [p_ptree_node p \<mapsto> \<lparr>tn_value = a, tn_children = [], tn_parent = 0\<rparr>]"
    and r: "p_ptree_node p \<noteq> 0" "p_ptree_node p < p_next s"
    using assms by (auto simp: proc_start_def)
  have "pid_inv (pid_bitmap s) (last_pid s)" using assms by (simp add: proc_start_def pid_inv_def PROCESS_MAX_PID_def)
  moreover have "proc_tree (procs s) (tnodes s) (p_next s)" unfolding proc_tree_def a(3,5) using a(1,2) r by simp
  moreover have "proc_pids (procs s) (pidmap.used (pid_bitmap s))" unfolding proc_pids_def a(3) using a(4) assms by (simp add: proc_start_def)
  ultimately show ?thesis using a(2) by (simp add: proc_inv_def)
qed

text \<open>What the invariant reads of a process.\<close>

definition pview :: "(addr \<rightharpoonup> process_t) \<Rightarrow> addr \<Rightarrow> (nat \<times> addr) option" where
  "pview P a = map_option (\<lambda>p. (p_pid p, p_ptree_node p)) (P a)"

definition pframe :: "pstate \<Rightarrow> pstate \<Rightarrow> bool" where
  "pframe s s' \<longleftrightarrow> pid_bitmap s' = pid_bitmap s \<and> last_pid s' = last_pid s \<and> tnodes s' = tnodes s \<and> p_next s' = p_next s \<and>
     pview (procs s') = pview (procs s)"

lemma pview_Some:
  assumes "pview P = pview Q" "P a = Some p"
  shows "\<exists>q. Q a = Some q \<and> p_pid q = p_pid p \<and> p_ptree_node q = p_ptree_node p"
  using fun_cong [OF assms(1), of a] assms(2) by (cases "Q a") (auto simp: pview_def)

lemma pview_dom: "pview P = pview Q \<Longrightarrow> dom P = dom Q"
  using pview_Some [of P Q] pview_Some [of Q P] by (fastforce simp: dom_def)

lemma proc_tree_view: "pview P = pview Q \<Longrightarrow> proc_tree Q T nx \<Longrightarrow> proc_tree P T nx"
  unfolding proc_tree_def using pview_Some [of P Q] pview_dom [of P Q] by (smt (verit, best))

lemma proc_pids_view: "pview P = pview Q \<Longrightarrow> proc_pids Q U \<Longrightarrow> proc_pids P U"
  unfolding proc_pids_def using pview_Some [of P Q] by (smt (verit, best))

lemma pframe_inv: "pframe s s' \<Longrightarrow> proc_inv s \<Longrightarrow> proc_inv s'"
  unfolding pframe_def proc_inv_def using proc_tree_view proc_pids_view by (metis (no_types))

lemma pframe_refl [simp]: "pframe s s"
  by (simp add: pframe_def)

lemma pframe_trans: "pframe s t \<Longrightarrow> pframe t u \<Longrightarrow> pframe s u"
  by (simp add: pframe_def)

lemma pframe_parts [simp]: "pframe s (s\<lparr>pk := k\<rparr>)" "pframe s (s\<lparr>psched := t\<rparr>)"
  by (simp_all add: pframe_def)

lemma pframe_set_proc:
  "procs s a = Some p \<Longrightarrow> p_pid q = p_pid p \<Longrightarrow> p_ptree_node q = p_ptree_node p \<Longrightarrow> pframe s (set_proc a q s)"
  by (auto simp: pframe_def set_proc_def pview_def)


section \<open>The system calls\<close>

text \<open>A step on another component leaves all of the process table in place.\<close>

definition ptab :: "pstate \<Rightarrow> bitmap_t \<times> nat \<times> (addr \<rightharpoonup> tree_node_t) \<times> addr \<times> (addr \<rightharpoonup> process_t)" where
  "ptab s = (pid_bitmap s, last_pid s, tnodes s, p_next s, procs s)"

lemma ptab_parts [simp]: "ptab (s\<lparr>pk := k\<rparr>) = ptab s" "ptab (s\<lparr>psched := t\<rparr>) = ptab s"
  by (simp_all add: ptab_def)

lemma ptab_frame: "ptab s' = ptab s \<Longrightarrow> pframe s s'"
  by (simp add: ptab_def pframe_def)

lemma ptab_procs: "ptab s' = ptab s \<Longrightarrow> procs s' = procs s"
  by (simp add: ptab_def)

lemma on_ptab:
  "on_vm f s = Inr s' \<Longrightarrow> ptab s' = ptab s"
  "on_km g s = Inr s' \<Longrightarrow> ptab s' = ptab s"
  "on_fd h s = Inr s' \<Longrightarrow> ptab s' = ptab s"
  "on_sched k s = Inr s' \<Longrightarrow> ptab s' = ptab s"
  by (auto simp: on_vm_def on_km_def on_fd_def on_sched_def)

lemma frame_set_proc:
  assumes "procs s a = Some p" "ptab s1 = ptab s"
  shows "pframe s (set_proc a (p\<lparr>p_pdir := d, p_registers := r, p_esp := e\<rparr>) s1)"
proof -
  have "pframe s1 (set_proc a (p\<lparr>p_pdir := d, p_registers := r, p_esp := e\<rparr>) s1)"
    by (rule pframe_set_proc [of _ _ p]) (use assms(1) ptab_procs [OF assms(2)] in simp_all)
  then show ?thesis using pframe_trans [OF ptab_frame [OF assms(2)]] by blast
qed

lemma execve_frame: "process_execve sh a process f argv envp s = Inr s' \<Longrightarrow> pframe s s'"
  unfolding process_execve_def by (auto simp: Let_def get_obj_def frame_set_proc split: option.splits if_splits dest!: on_ptab)

lemma sys_frames:
  "sys_k f s = Inr (r, s') \<Longrightarrow> pframe s s'"
  "sys_fd g s = Inr (r, s') \<Longrightarrow> pframe s s'"
  "sys_m h s = Inr (r, s') \<Longrightarrow> pframe s s'"
  by (auto simp: sys_k_def sys_fd_def sys_m_def with_cur_def)

lemma file_call_frame: "file_call junk regs = Some f \<Longrightarrow> f s = Inr (r, s') \<Longrightarrow> pframe s s'"
  unfolding file_call_def Let_def by (auto split: if_splits intro: sys_frames)

lemma exit_frame: "process_exit sh s = Inr s' \<Longrightarrow> pframe s s'"
  unfolding process_exit_def by (auto split: if_splits dest!: on_ptab intro: ptab_frame)

lemma small_call_frames:
  "syscall_exit sh s = Inr (r, s') \<Longrightarrow> pframe s s'"
  "syscall_waitpid pid s = Inr (r, s') \<Longrightarrow> pframe s s'"
  "syscall_getpid s = Inr (r, s') \<Longrightarrow> pframe s s'"
  "syscall_sched_yield s = Inr (r, s') \<Longrightarrow> pframe s s'"
  "syscall_nano_sleep d s = Inr (r, s') \<Longrightarrow> pframe s s'"
  subgoal by (auto simp: syscall_exit_def with_cur_def intro: exit_frame)
  subgoal by (auto simp: syscall_waitpid_def process_waitpid_def split: if_splits dest!: on_ptab intro: ptab_frame)
  subgoal by (auto simp: syscall_getpid_def with_cur_def)
  subgoal by (auto simp: syscall_sched_yield_def dest!: on_ptab intro: ptab_frame)
  subgoal by (auto simp: syscall_nano_sleep_def dest!: on_ptab intro: ptab_frame)
  done

lemma pframe_step: "pframe t u \<Longrightarrow> ptab t = ptab s \<Longrightarrow> ptab s' = ptab u \<Longrightarrow> pframe s s'"
  using pframe_trans [of s t u] pframe_trans [of s u s'] ptab_frame [of t s] ptab_frame [of s' u] by blast

lemma execve_path_frame:
  assumes "execve_path sh a c ua path argv envp s = Inr (r, s')"
  shows "pframe s s'"
proof -
  obtain f v where "kopen path (fvfs (kfd (pk s))) = Inr (f, v)" using assms unfolding execve_path_def by auto
  then show ?thesis
    using assms unfolding execve_path_def
    by (cases "f = 0") (auto simp: Let_def dest!: on_ptab execve_frame intro: ptab_frame elim!: pframe_step)
qed

lemma syscall_execve_frame:
  assumes "syscall_execve sh junk a pa ar en s = Inr (r, s')"
  shows "pframe s s'"
proof -
  have "pframe s s' \<or> (\<exists>c path argv envp m. execve_path sh a c ar path argv envp (s\<lparr>pk := (pk s)\<lparr>km := m\<rparr>\<rparr>) = Inr (r, s'))"
    using assms unfolding syscall_execve_def with_cur_def Let_def by (auto split: option.splits)
  then show ?thesis using execve_path_frame pframe_parts(1) pframe_trans by blast
qed


section \<open>Cloning\<close>

lemma new_node_ok:
  assumes "procs s old = Some op" "tnodes s (p_ptree_node op) = Some n" "tn_value n = old" "p_ptree_node op \<noteq> p_next s" "p_next s \<noteq> 0"
  shows "ptree_new_node (p_ptree_node op) child s = Inr (p_next s,
    s\<lparr>tnodes := (tnodes s)(p_next s \<mapsto> \<lparr>tn_value = child, tn_children = [], tn_parent = 0\<rparr>,
                           p_ptree_node op \<mapsto> n\<lparr>tn_children := tn_children n @ [p_next s]\<rparr>), p_next := p_next s + 1\<rparr>)"
  using assms by (simp add: ptree_new_node_def tree_node_new_def tree_node_insert_child_def set_node_def get_obj_def Let_def)

text \<open>What a clone adds: a process with the next number, and its node as the last child of the node of the parent.\<close>

definition add_child :: "addr \<Rightarrow> process_t \<Rightarrow> bitmap_t \<Rightarrow> pstate \<Rightarrow> bitmap_t \<times> nat \<times> (addr \<rightharpoonup> tree_node_t) \<times> addr \<times> (addr \<rightharpoonup> process_t)" where
  "add_child par cp b s =
     (b, p_pid cp,
      (tnodes s)(p_ptree_node cp \<mapsto> \<lparr>tn_value = p_next s, tn_children = [], tn_parent = 0\<rparr>,
                 par \<mapsto> (the (tnodes s par))\<lparr>tn_children := tn_children (the (tnodes s par)) @ [p_ptree_node cp]\<rparr>),
      p_next s + 2, (procs s)(p_next s \<mapsto> cp))"

lemma clone_adds:
  assumes inv: "proc_inv s" and old: "procs s old = Some op" and run: "process_clone sh a old flags st s = Inr (child, s')"
  shows "\<exists>cp b. child = p_next s \<and> p_pid cp = last_pid s + 1 \<and> p_ptree_node cp = p_next s + 1 \<and> pid_inv b (last_pid s + 1) \<and>
    pidmap.used b = insert (last_pid s + 1) (pidmap.used (pid_bitmap s)) \<and> ptab s' = add_child (p_ptree_node op) cp b s"
proof -
  let ?c = "p_next s"
  define s0 where "s0 = snd (proc_alloc s)"
  have s0: "pid_bitmap s0 = pid_bitmap s" "last_pid s0 = last_pid s" "tnodes s0 = tnodes s" "p_next s0 = ?c + 1"
    "procs s0 = (procs s)(?c \<mapsto> \<lparr>p_name = None, p_pid = 0, p_fd_table = 0, p_ptree_node = 0, p_pdir = 0, p_registers = 0, p_esp = 0\<rparr>)"
    by (simp_all add: s0_def proc_alloc_def set_proc_def Let_def)
  have al: "proc_alloc s = (?c, s0)" by (simp add: s0_def proc_alloc_def Let_def)
  obtain n where n: "tnodes s (p_ptree_node op) = Some n" "tn_value n = old" and oc: "old < ?c" "p_ptree_node op < ?c"
    using inv old by (fastforce simp: proc_inv_def proc_tree_def)
  have op: "procs s0 old = Some op" using old oc(1) by (simp add: s0)
  obtain k cur cq name t pdir ks where k: "child = ?c" "clone_register cur cq ?c name t pdir ks (p_ptree_node op) st (s0\<lparr>pk := k\<rparr>) = Inr s'"
    using run op unfolding process_clone_def al by (auto split: option.split_asm)
  obtain pid s1 node s2 s4 cp where g: "get_pid (s0\<lparr>pk := k\<rparr>) = Inr (pid, s1)" "ptree_new_node (p_ptree_node op) ?c s1 = Inr (node, s2)"
    "ptab s4 = ptab s2" "s' = set_proc ?c cp s4" "p_pid cp = pid" "p_ptree_node cp = node"
    using k(2) unfolding clone_register_def by (auto simp: Let_def dest!: on_ptab)
  obtain b where b: "pid = last_pid s + 1" "s1 = s0\<lparr>pk := k, last_pid := pid, pid_bitmap := b\<rparr>" "pid_inv b pid"
    "pidmap.used b = insert pid (pidmap.used (pid_bitmap s))"
    using get_pid_cases [OF g(1)] inv by (auto simp: s0 proc_inv_def)
  have nn: "node = ?c + 1 \<and> s2 = s1\<lparr>tnodes := (tnodes s)(?c + 1 \<mapsto> \<lparr>tn_value = ?c, tn_children = [], tn_parent = 0\<rparr>,
      p_ptree_node op \<mapsto> n\<lparr>tn_children := tn_children n @ [?c + 1]\<rparr>), p_next := ?c + 2\<rparr>"
    using new_node_ok [of s1 old op n ?c] g(2) op n oc unfolding b(2) by (simp add: s0)
  have "ptab s' = add_child (p_ptree_node op) cp b s"
    using g(3-6) b(1) nn n(1) unfolding b(2) by (simp add: ptab_def add_child_def set_proc_def s0)
  then show ?thesis using b nn g(5,6) k(1) by auto
qed


lemma add_child_tree:
  assumes "proc_tree P T nx" "P a = Some p" "p_ptree_node cp = nx + 1" "nx \<noteq> 0" "T (p_ptree_node p) = Some n"
  shows "proc_tree (P(nx \<mapsto> cp))
    (T(nx + 1 \<mapsto> \<lparr>tn_value = nx, tn_children = [], tn_parent = 0\<rparr>, p_ptree_node p \<mapsto> n\<lparr>tn_children := tn_children n @ [nx + 1]\<rparr>)) (nx + 2)"
    (is "proc_tree ?P ?T _")
proof -
  have P: "P b = Some q \<Longrightarrow> b \<noteq> 0 \<and> b < nx \<and> (\<exists>m. T (p_ptree_node q) = Some m \<and> tn_value m = b)" for b q
    using assms(1) by (auto simp: proc_tree_def)
  have T: "T v = Some m \<Longrightarrow> v \<noteq> 0 \<and> v < nx \<and> tn_parent m = 0 \<and> tn_value m \<in> dom P \<and> set (tn_children m) \<subseteq> dom T" for v m
    using assms(1) by (auto simp: proc_tree_def)
  have "b \<noteq> 0 \<and> b < nx + 2 \<and> (\<exists>m. ?T (p_ptree_node q) = Some m \<and> tn_value m = b)" if q: "?P b = Some q" for b q
  proof (cases "b = nx")
    case True
    then show ?thesis using q assms(3,4) T [OF assms(5)] by auto
  next
    case False
    then obtain m where "T (p_ptree_node q) = Some m" "tn_value m = b" "b \<noteq> 0" "b < nx" using P q by auto
    then show ?thesis using T [of "p_ptree_node q" m] assms(5) by auto
  qed
  moreover have "v \<noteq> 0 \<and> v < nx + 2 \<and> tn_parent m = 0 \<and> tn_value m \<in> dom ?P \<and> set (tn_children m) \<subseteq> dom ?T" if m: "?T v = Some m" for v m
    using m T [of v] T [OF assms(5)] by (auto split: if_splits)
  ultimately show ?thesis unfolding proc_tree_def by blast
qed

lemma add_child_inv:
  assumes inv: "proc_inv s" and old: "procs s old = Some op" and cp: "p_pid cp = last_pid s + 1" "p_ptree_node cp = p_next s + 1"
    and b: "pid_inv b (last_pid s + 1)" "pidmap.used b = insert (last_pid s + 1) (pidmap.used (pid_bitmap s))"
    and s': "ptab s' = add_child (p_ptree_node op) cp b s"
  shows "proc_inv s'"
proof -
  obtain n where n: "tnodes s (p_ptree_node op) = Some n" using inv old by (fastforce simp: proc_inv_def proc_tree_def)
  have t: "proc_tree (procs s') (tnodes s') (p_next s')"
    using add_child_tree [of "procs s" "tnodes s" "p_next s" old op cp n] inv old cp n s'
    by (simp add: proc_inv_def ptab_def add_child_def)
  have u: "p_pid q \<in> pidmap.used (pid_bitmap s) \<and> p_pid q \<noteq> 0 \<and> p_pid q \<le> last_pid s" if "procs s a = Some q" for a q
    using inv that by (fastforce simp: proc_inv_def proc_pids_def pid_inv_def)
  have "proc_pids ((procs s)(p_next s \<mapsto> cp)) (pidmap.used b)"
    using inv u cp(1) b(2) unfolding proc_inv_def proc_pids_def by (auto split: if_splits) (metis not_less_eq_eq order_refl)+
  then show ?thesis using t s' b(1) cp(1) by (simp add: proc_inv_def ptab_def add_child_def)
qed

lemma current_kept: "current_process s = Inr c \<Longrightarrow> current_process (snd (proc_alloc s)) = Inr d \<Longrightarrow> d = c \<or> d = 0"
  by (auto simp: current_process_def proc_alloc_def Let_def blank_task_def ld_task_def split: option.splits if_splits)

lemma add_frame: "process_add p s = Inr s' \<Longrightarrow> ptab s' = ptab s"
  unfolding process_add_def by (auto dest!: on_ptab)

text \<open>The caller of a clone that succeeds is a process of the table.\<close>

lemma clone_caller:
  assumes inv: "proc_inv s" and cur: "current_process s = Inr c" and run: "process_clone sh a c flags st s = Inr (child, s1)"
  shows "\<exists>op. procs s c = Some op"
proof -
  define s0 where "s0 = snd (proc_alloc s)"
  have s0: "procs s0 = (procs s)(p_next s \<mapsto> \<lparr>p_name = None, p_pid = 0, p_fd_table = 0, p_ptree_node = 0, p_pdir = 0, p_registers = 0, p_esp = 0\<rparr>)"
    by (simp add: s0_def proc_alloc_def set_proc_def Let_def)
  have al: "proc_alloc s = (p_next s, s0)" by (simp add: s0_def proc_alloc_def Let_def)
  obtain d q name where d: "current_process s0 = Inr d" "procs s0 d = Some q" "p_name q = Some name"
    using run unfolding process_clone_def al by (auto split: option.split_asm)
  have "procs s d = Some q" using d(2,3) by (auto simp: s0 split: if_splits)
  moreover have "d \<noteq> 0" using inv calculation by (auto simp: proc_inv_def proc_tree_def)
  ultimately show ?thesis using current_kept [OF cur] d(1) by (auto simp: s0_def)
qed

lemma syscall_clone_adds:
  assumes inv: "proc_inv s" and run: "syscall_clone sh a flags st s = Inr (r, s')"
  shows "proc_inv s'"
proof -
  obtain c child s1 where c: "current_process s = Inr c" "process_clone sh a c flags st s = Inr (child, s1)" "ptab s' = ptab s1"
    using run unfolding syscall_clone_def by (auto dest!: add_frame)
  obtain op where op: "procs s c = Some op" using clone_caller [OF inv c(1,2)] by blast
  from clone_adds [OF inv op c(2)] have "proc_inv s1" using add_child_inv [OF inv op] by blast
  then show ?thesis using pframe_inv [OF ptab_frame [OF c(3)]] by blast
qed

lemma handler_inv:
  assumes "proc_inv s" "syscall_handler sh junk a regs s = Inr (r, s')"
  shows "proc_inv s'"
proof -
  have "pframe s s' \<or> syscall_clone sh a (r_ebx regs) (r_ecx regs) s = Inr (r, s')"
    using assms(2) unfolding syscall_handler_def process_call_def Let_def
    by (auto split: option.splits if_splits intro: file_call_frame small_call_frames syscall_execve_frame sys_frames)
  then show ?thesis using assms(1) pframe_inv syscall_clone_adds by blast
qed

text \<open>The runs of the kernel: system calls of the current process, and timer interrupts, after the start.\<close>

inductive proc_reach :: "pstate \<Rightarrow> bool" where
  start: "proc_start s \<Longrightarrow> proc_reach s"
| call: "proc_reach s \<Longrightarrow> syscall_handler sh junk a regs s = Inr (r, s') \<Longrightarrow> proc_reach s'"
| tick: "proc_reach s \<Longrightarrow> irq0_handler (psched s) = Some (Inr t) \<Longrightarrow> proc_reach (s\<lparr>psched := t\<rparr>)"

lemma reach_inv: "proc_reach s \<Longrightarrow> proc_inv s"
proof (induction rule: proc_reach.induct)
  case (tick s t)
  then show ?case using pframe_inv [OF pframe_parts(2)] by blast
qed (use start_inv handler_inv in blast)+


section \<open>The start\<close>

lemma pid_map_init:
  "\<exists>b. process_init s = Inr (s\<lparr>pid_bitmap := b, last_pid := 1, tnodes := (tnodes s)(p_next s \<mapsto> \<lparr>tn_value = 0, tn_children = [], tn_parent = 0\<rparr>),
     p_next := p_next s + 1, ptree_root := p_next s\<rparr>) \<and> bitmap_wf b \<and> bm_size b = PROCESS_MAX_PID \<and> pidmap.used b = {0, 1}"
proof -
  obtain b0 where b0: "bitmap_new True True PROCESS_MAX_PID = Inr (Some b0)" by (simp add: bitmap_new_def PROCESS_MAX_PID_def)
  have w: "bitmap_wf b0" "bm_size b0 = PROCESS_MAX_PID" using bitmap_new_wf [OF b0] by auto
  have u: "pidmap.used b0 = {}" using bitmap_new_empty [OF b0] w(2) by (auto simp: pidmap.used_def)
  obtain b1 where b1: "bitmap_set b0 0 = Inr b1" "bitmap_wf b1" "bm_size b1 = bm_size b0" "pidmap.used b1 = {0}"
    using pidmap.set_used [OF w(1), of 0] u w(2) by (auto simp: PROCESS_MAX_PID_def)
  obtain b2 where b2: "bitmap_set b1 1 = Inr b2" "bitmap_wf b2" "bm_size b2 = bm_size b0" "pidmap.used b2 = {0, 1}"
    using pidmap.set_used [OF b1(2), of 1] b1 w(2) by (auto simp: PROCESS_MAX_PID_def)
  then show ?thesis using b0 b1(1) w(2) by (auto simp: process_init_def tree_node_new_def set_node_def Let_def)
qed

lemma boot_start:
  assumes empty: "procs s = Map.empty" "tnodes s = Map.empty" "p_next s \<noteq> 0" and init: "process_init s = Inr s1"
    and spawn: "process_spawn_init sh a tty f argv s1 = Inr (p, s2)"
  shows "proc_start s2"
proof -
  obtain b where b: "s1 = s\<lparr>pid_bitmap := b, last_pid := 1, tnodes := (tnodes s)(p_next s \<mapsto> \<lparr>tn_value = 0, tn_children = [], tn_parent = 0\<rparr>),
     p_next := p_next s + 1, ptree_root := p_next s\<rparr>" "bitmap_wf b" "bm_size b = PROCESS_MAX_PID" "pidmap.used b = {0, 1}"
    using pid_map_init [of s] init by auto
  obtain q u where u: "process_execve sh a (p_next s + 1) f argv [] u = Inr s2" "procs u = [p_next s + 1 \<mapsto> q]" "p_pid q = 1" "p_ptree_node q = p_next s"
    "tnodes u = [p_next s \<mapsto> \<lparr>tn_value = p_next s + 1, tn_children = [], tn_parent = 0\<rparr>]" "pid_bitmap u = b" "last_pid u = 1"
    "p_next u = p_next s + 2"
    using spawn empty unfolding process_spawn_init_def b(1)
    by (auto simp: proc_alloc_def set_proc_def set_node_def ptree_get_init_node_def Let_def on_sched_def)
  have v: "pframe u s2" by (rule execve_frame [OF u(1)])
  have m: "pview (procs s2) x = pview [p_next s + 1 \<mapsto> q] x" for x using v u(2) by (simp add: pframe_def)
  obtain q' where q': "procs s2 (p_next s + 1) = Some q'" "p_pid q' = 1" "p_ptree_node q' = p_next s"
    using m [of "p_next s + 1"] u(3,4) by (auto simp: pview_def)
  have "procs s2 x = None" if "x \<noteq> p_next s + 1" for x using m [of x] that by (simp add: pview_def)
  then have p2: "procs s2 = [p_next s + 1 \<mapsto> q']" using q'(1) by auto
  have f: "pid_bitmap s2 = b" "last_pid s2 = 1" "tnodes s2 = [p_next s \<mapsto> \<lparr>tn_value = p_next s + 1, tn_children = [], tn_parent = 0\<rparr>]"
    "p_next s2 = p_next s + 2" using v u(5-8) by (simp_all add: pframe_def)
  show ?thesis unfolding proc_start_def f using b(2-4) p2 q' empty(3) by (intro conjI exI [of _ "p_next s + 1"] exI [of _ q']) simp_all
qed


section \<open>Waiting\<close>

text \<open>The search among children whose nodes carry processes finds the first one with the number.\<close>

definition pid_of :: "pstate \<Rightarrow> addr \<Rightarrow> nat option" where
  "pid_of s v = Option.bind (tnodes s v) (\<lambda>n. map_option p_pid (procs s (tn_value n)))"

lemma wf_children_Cons:
  "pid_of s v = Some q \<Longrightarrow> wf_children s pid (v # vs) = (if q = pid then Inr (tn_value (the (tnodes s v))) else wf_children s pid vs)"
  by (auto simp: pid_of_def bind_eq_Some_conv)

lemma wf_children_total: "\<forall>v\<in>set vs. pid_of s v \<noteq> None \<Longrightarrow> \<exists>c. wf_children s pid vs = Inr c"
  by (induction vs) (auto simp: wf_children_Cons simp del: wf_children.simps(2))

lemma wf_children_append:
  "\<forall>v\<in>set vs. \<exists>q. pid_of s v = Some q \<and> q \<noteq> pid \<Longrightarrow> wf_children s pid (vs @ ws) = wf_children s pid ws"
  by (induction vs) (auto simp: wf_children_Cons simp del: wf_children.simps(2))

lemma wf_children_same:
  assumes "\<forall>v\<in>set vs. \<exists>n p. tnodes s v = Some n \<and> procs s (tn_value n) = Some p \<and>
    (\<exists>n' p'. tnodes s' v = Some n' \<and> tn_value n' = tn_value n \<and> procs s' (tn_value n) = Some p' \<and> p_pid p' = p_pid p)"
  shows "wf_children s' pid vs = wf_children s pid vs"
  using assms by (induction vs) auto

lemma wf_children_drop_last:
  "pid_of s v = Some q \<Longrightarrow> q \<noteq> pid \<Longrightarrow> \<forall>v\<in>set vs. pid_of s v \<noteq> None \<Longrightarrow> wf_children s pid (vs @ [v]) = wf_children s pid vs"
  by (induction vs) (auto simp: wf_children_Cons simp del: wf_children.simps(2))

lemma child_pids:
  assumes "proc_inv s" "tnodes s v = Some n" "c \<in> set (tn_children n)"
  shows "\<exists>m p. tnodes s c = Some m \<and> procs s (tn_value m) = Some p \<and> p_pid p \<le> last_pid s \<and> tn_value m < p_next s \<and> c < p_next s"
proof -
  obtain m where m: "tnodes s c = Some m" using assms by (fastforce simp: proc_inv_def proc_tree_def)
  then obtain p where p: "procs s (tn_value m) = Some p" "tn_value m < p_next s" "c < p_next s"
    using assms(1) by (fastforce simp: proc_inv_def proc_tree_def)
  have "p_pid p \<le> last_pid s" using assms(1) p(1) by (fastforce simp: proc_inv_def proc_pids_def pid_inv_def)
  with m p show ?thesis by blast
qed

lemma find_total:
  assumes "proc_inv s" "tnodes s v = Some n"
  shows "\<exists>c. process_waitpid_find v pid s = Inr c"
proof -
  have "\<forall>c\<in>set (tn_children n). pid_of s c \<noteq> None" using child_pids [OF assms] by (fastforce simp: pid_of_def)
  then show ?thesis using wf_children_total assms(2) by (simp add: process_waitpid_find_def)
qed

text \<open>A process added to the table as the last child of \<open>par\<close> is found under its number, and no other search changes.\<close>

lemma added_child_found:
  assumes inv: "proc_inv s" and old: "procs s old = Some op" and cp: "p_pid cp = last_pid s + 1" "p_ptree_node cp = p_next s + 1"
    and s': "ptab s' = add_child (p_ptree_node op) cp b s"
  shows "process_waitpid_find (p_ptree_node op) (p_pid cp) s' = Inr (p_next s)"
    and "q \<noteq> p_pid cp \<Longrightarrow> process_waitpid_find (p_ptree_node op) q s' = process_waitpid_find (p_ptree_node op) q s"
proof -
  obtain n where n: "tnodes s (p_ptree_node op) = Some n" "p_ptree_node op < p_next s" using inv old by (fastforce simp: proc_inv_def proc_tree_def)
  let ?cs = "tn_children n" and ?v = "p_next s + 1"
  have n': "tnodes s' (p_ptree_node op) = Some (n\<lparr>tn_children := ?cs @ [?v]\<rparr>)" and v: "tnodes s' ?v = Some \<lparr>tn_value = p_next s, tn_children = [], tn_parent = 0\<rparr>"
    and c: "procs s' (p_next s) = Some cp"
    using s' n cp(2) by (auto simp: ptab_def add_child_def)
  have kids: "\<exists>m p. tnodes s x = Some m \<and> procs s (tn_value m) = Some p \<and> p_pid p \<le> last_pid s \<and>
      (\<exists>m'. tnodes s' x = Some m' \<and> tn_value m' = tn_value m \<and> procs s' (tn_value m) = Some p)" if "x \<in> set ?cs" for x
    using child_pids [OF inv n(1) that] s' cp(2) n by (auto simp: ptab_def add_child_def)
  have "\<forall>x\<in>set ?cs. \<exists>q. pid_of s' x = Some q \<and> q \<noteq> p_pid cp"
  proof
    fix x assume "x \<in> set ?cs"
    then show "\<exists>q. pid_of s' x = Some q \<and> q \<noteq> p_pid cp" using kids [of x] cp(1) by (auto simp: pid_of_def)
  qed
  then have "wf_children s' (p_pid cp) (?cs @ [?v]) = wf_children s' (p_pid cp) [?v]" by (rule wf_children_append)
  then show "process_waitpid_find (p_ptree_node op) (p_pid cp) s' = Inr (p_next s)" using n' v c by (simp add: process_waitpid_find_def)
  have "\<forall>x\<in>set ?cs. pid_of s' x \<noteq> None" using kids by (fastforce simp: pid_of_def)
  moreover have "pid_of s' ?v = Some (p_pid cp)" using v c by (simp add: pid_of_def)
  moreover have "wf_children s' q ?cs = wf_children s q ?cs" by (rule wf_children_same) (use kids in blast)
  ultimately show "process_waitpid_find (p_ptree_node op) q s' = process_waitpid_find (p_ptree_node op) q s" if "q \<noteq> p_pid cp"
    using wf_children_drop_last [of s' ?v "p_pid cp" q ?cs] n' n(1) that by (simp add: process_waitpid_find_def)
qed

end
