(* ===== verification/Syscalls_Props.thy ===== *)
theory Syscalls_Props
  imports Proc_Props Filecalls_Props
begin

text \<open>
  The properties of processes and of the system call gate: unique process numbers in every reachable state, the exact
  behaviour of \<open>get_pid\<close>, waiting for a new child, and the calls that stop the kernel.
\<close>

section \<open>An example\<close>

text \<open>The kernel with the first process, at address 2, running as task 100 with one open file.\<close>

definition ex_pids :: bitmap_t where
  "ex_pids = \<lparr>bm_map = (replicate 4096 0)[0 := 3], bm_size = 32768\<rparr>"

definition ex_init :: process_t where
  "ex_init = \<lparr>p_name = Some [105], p_pid = 1, p_fd_table = 1, p_ptree_node = 1, p_pdir = 128, p_registers = 0, p_esp = 0\<rparr>"

definition ex_kernel :: pstate where
  "ex_kernel = \<lparr>pk = ex_call,
     psched = ex_sched\<lparr>tasks := (tasks ex_sched)(100 \<mapsto> (ex_task 0 TASK_STATE_RUNNING 0 InCall)\<lparr>t_type := TASK_TYPE_USER_PROCESS, t_obj := 2\<rparr>)\<rparr>,
     pid_bitmap = ex_pids, last_pid = 1, procs = [2 \<mapsto> ex_init], tnodes = [1 \<mapsto> \<lparr>tn_value = 2, tn_children = [], tn_parent = 0\<rparr>],
     ptree_root = 1, p_next = 3\<rparr>"

lemma ex_pids_used: "pidmap.used ex_pids = {0, 1}"
proof -
  have "bitmap_test ex_pids i = Inr (i < 2)" if "i < 32768" for i
  proof (cases "i < 8")
    case True
    then consider "i = 0" | "i = 1" | "i = 2" | "i = 3" | "i = 4" | "i = 5" | "i = 6" | "i = 7" by linarith
    then show ?thesis by cases (simp_all add: bitmap_test_def ex_pids_def)
  next
    case False
    moreover have "i div 8 < 4096" using that by simp
    ultimately show ?thesis using that by (simp add: bitmap_test_def ex_pids_def nth_list_update)
  qed
  then show ?thesis by (auto simp: pidmap.used_def ex_pids_def less_2_cases_iff)
qed

lemma ex_kernel_start: "proc_start ex_kernel"
  unfolding proc_start_def
  by (intro conjI exI [of _ 2] exI [of _ ex_init])
    (simp_all add: ex_kernel_def ex_pids_used, simp_all add: ex_pids_def bitmap_wf_def PROCESS_MAX_PID_def ex_init_def)

lemma ex_kernel_reach: "proc_reach ex_kernel"
  by (rule proc_reach.start [OF ex_kernel_start])

lemma ex_kernel_fields [simp]:
  "procs ex_kernel 2 = Some ex_init" "last_pid ex_kernel = 1" "tnodes ex_kernel 1 = Some \<lparr>tn_value = 2, tn_children = [], tn_parent = 0\<rparr>"
  "p_next ex_kernel = 3" "p_ptree_node ex_init = 1" "p_pid ex_init = 1" "pid_bitmap ex_kernel = ex_pids"
  by (simp_all add: ex_kernel_def ex_init_def)

lemma ex_kernel_current: "current_process ex_kernel = Inr 2"
  by (simp add: current_process_def ex_kernel_def ld_task_def ex_sched_def)

lemma ex_getpid: "syscall_handler sh junk a \<lparr>r_eax = 0x14, r_ebx = 0, r_ecx = 0, r_edx = 0\<rparr> ex_kernel = Inr (SysReturns 1, ex_kernel)"
  by (simp add: syscall_handler_def const_call_def file_call_def process_call_def syscall_getpid_def with_cur_def ex_kernel_current)

section \<open>Process numbers\<close>

text \<open>C4: In every state the kernel reaches after its start by system calls and timer interrupts, no two processes have the same
  number, every number in use is marked in the bitmap and at most \<open>last_pid\<close>, every process is the value of its tree node,
  and the search for a child among the children of any node ends without a fault.\<close>

theorem proc_reachable_safe:
  assumes "proc_reach s"
  shows "(\<forall>a b p q. procs s a = Some p \<longrightarrow> procs s b = Some q \<longrightarrow> p_pid p = p_pid q \<longrightarrow> a = b) \<and>
    (\<forall>a p. procs s a = Some p \<longrightarrow> bitmap_test (pid_bitmap s) (p_pid p) = Inr True \<and> p_pid p \<le> last_pid s \<and>
             (\<exists>n. tnodes s (p_ptree_node p) = Some n \<and> tn_value n = a)) \<and>
    (\<forall>v n pid. tnodes s v = Some n \<longrightarrow> (\<exists>c. process_waitpid_find v pid s = Inr c))"
proof -
  have inv: "proc_inv s" by (rule reach_inv [OF assms])
  then have "pid_inv (pid_bitmap s) (last_pid s)" "proc_tree (procs s) (tnodes s) (p_next s)" "proc_pids (procs s) (pidmap.used (pid_bitmap s))"
    by (auto simp: proc_inv_def)
  then show ?thesis using find_total [OF inv] unfolding proc_pids_def proc_tree_def pid_inv_def pidmap.used_def by fastforce
qed

theorem proc_reachable_safe_witness:
  "proc_reach ex_kernel \<and> bitmap_test (pid_bitmap ex_kernel) 1 = Inr True \<and> (\<exists>c. process_waitpid_find 1 5 ex_kernel = Inr c)"
  using proc_reachable_safe [OF proc_reach.call [OF ex_kernel_reach ex_getpid]] ex_kernel_reach ex_kernel_fields(1,3,6) by metis

text \<open>C34: Below the limit \<open>get_pid\<close> returns the number after \<open>last_pid\<close>, which no process has and the bitmap did not contain, and marks
  it and nothing else; at the limit it stops the kernel, even if all other processes have ended.\<close>

theorem get_pid_exact:
  assumes "proc_reach s"
  shows "if last_pid s + 1 < PROCESS_MAX_PID
    then \<exists>b. get_pid s = Inr (last_pid s + 1, s\<lparr>last_pid := last_pid s + 1, pid_bitmap := b\<rparr>) \<and>
      bitmap_test (pid_bitmap s) (last_pid s + 1) = Inr False \<and> (\<forall>a p. procs s a = Some p \<longrightarrow> p_pid p \<noteq> last_pid s + 1) \<and>
      (\<forall>i<PROCESS_MAX_PID. bitmap_test b i = (if i = last_pid s + 1 then Inr True else bitmap_test (pid_bitmap s) i))
    else get_pid s = Inl AssertFailed"
proof -
  have inv: "pid_inv (pid_bitmap s) (last_pid s)" and pids: "proc_pids (procs s) (pidmap.used (pid_bitmap s))"
    using reach_inv [OF assms] by (auto simp: proc_inv_def)
  have t: "bitmap_test b i = Inr (i \<in> pidmap.used b)" if "pid_inv b l" "i < PROCESS_MAX_PID" for b l i
    using pidmap.test_used [of b i] that by (simp add: pid_inv_def)
  have below: "p_pid p \<noteq> last_pid s + 1" if "procs s a = Some p" for a p
    using pids inv that by (fastforce simp: proc_pids_def pid_inv_def)
  show ?thesis
  proof (cases "last_pid s + 1 < PROCESS_MAX_PID")
    case True
    have "last_pid s + 1 \<notin> pidmap.used (pid_bitmap s)" using inv by (auto simp: pid_inv_def)
    then show ?thesis using get_pid_ok [OF inv True] t [OF inv] t below True by auto
  next
    case False
    then show ?thesis using get_pid_end [OF inv] inv by (auto simp: pid_inv_def)
  qed
qed

theorem get_pid_exact_witness:
  "\<exists>b. get_pid ex_kernel = Inr (2, ex_kernel\<lparr>last_pid := 2, pid_bitmap := b\<rparr>) \<and> bitmap_test b 2 = Inr True"
proof -
  have lt: "(1 + 1 < PROCESS_MAX_PID) = True" "(2 :: nat) < PROCESS_MAX_PID" by (simp_all add: PROCESS_MAX_PID_def)
  from get_pid_exact [OF ex_kernel_reach] obtain b where b: "get_pid ex_kernel = Inr (1 + 1, ex_kernel\<lparr>last_pid := 1 + 1, pid_bitmap := b\<rparr>)"
    "\<forall>i<PROCESS_MAX_PID. bitmap_test b i = (if i = 1 + 1 then Inr True else bitmap_test ex_pids i)"
    unfolding ex_kernel_fields lt if_True by blast
  have "bitmap_test b 2 = Inr True" using b(2) lt(2) by simp
  then show ?thesis using b(1) by (auto simp: numeral_2_eq_2)
qed

section \<open>Waiting for a new child\<close>

text \<open>C33: The steps of a clone that make the child known succeed below the limit of process numbers: it gets the next number and a
  tree node, and as soon as it is stored with that number, \<open>process_waitpid_find\<close> on the node of the parent finds it,
  and finds the same as before for every other number.\<close>

theorem forked_child_found:
  assumes "proc_reach s" "procs s par = Some pp" "last_pid s + 1 < PROCESS_MAX_PID"
  shows "\<exists>s1 node s2. get_pid (snd (proc_alloc s)) = Inr (last_pid s + 1, s1) \<and>
    ptree_new_node (p_ptree_node pp) (fst (proc_alloc s)) s1 = Inr (node, s2) \<and>
    (\<forall>cp. p_pid cp = last_pid s + 1 \<longrightarrow> p_ptree_node cp = node \<longrightarrow>
       process_waitpid_find (p_ptree_node pp) (last_pid s + 1) (set_proc (fst (proc_alloc s)) cp s2) = Inr (fst (proc_alloc s)) \<and>
       (\<forall>q. q \<noteq> last_pid s + 1 \<longrightarrow>
          process_waitpid_find (p_ptree_node pp) q (set_proc (fst (proc_alloc s)) cp s2) = process_waitpid_find (p_ptree_node pp) q s))"
proof -
  let ?c = "p_next s" and ?s0 = "snd (proc_alloc s)"
  have inv: "proc_inv s" by (rule reach_inv [OF assms(1)])
  obtain n where n: "tnodes s (p_ptree_node pp) = Some n" "tn_value n = par" "par < ?c" "p_ptree_node pp < ?c"
    using inv assms(2) by (fastforce simp: proc_inv_def proc_tree_def)
  have s0: "pid_bitmap ?s0 = pid_bitmap s" "last_pid ?s0 = last_pid s" "tnodes ?s0 = tnodes s" "p_next ?s0 = ?c + 1" "fst (proc_alloc s) = ?c"
    "procs ?s0 par = Some pp" "(procs ?s0)(?c \<mapsto> cp) = (procs s)(?c \<mapsto> cp)" for cp
    using assms(2) n(3) by (simp_all add: proc_alloc_def set_proc_def Let_def)
  obtain b where b: "get_pid ?s0 = Inr (last_pid s + 1, ?s0\<lparr>last_pid := last_pid s + 1, pid_bitmap := b\<rparr>)"
    using get_pid_ok [of ?s0] inv assms(3) by (auto simp: s0 proc_inv_def)
  define s1 where "s1 = ?s0\<lparr>last_pid := last_pid s + 1, pid_bitmap := b\<rparr>"
  define s2 where "s2 = s1\<lparr>tnodes := (tnodes s)(?c + 1 \<mapsto> \<lparr>tn_value = ?c, tn_children = [], tn_parent = 0\<rparr>,
      p_ptree_node pp \<mapsto> n\<lparr>tn_children := tn_children n @ [?c + 1]\<rparr>), p_next := ?c + 2\<rparr>"
  have "ptree_new_node (p_ptree_node pp) ?c s1 = Inr (?c + 1, s2)"
    using new_node_ok [of s1 par pp n ?c] n s0(6) by (simp add: s1_def s2_def s0(1-4))
  moreover have "ptab (set_proc ?c cp s2) = add_child (p_ptree_node pp) cp b s" if "p_pid cp = last_pid s + 1" "p_ptree_node cp = ?c + 1" for cp
    using that n(1) by (simp add: ptab_def add_child_def set_proc_def s2_def s1_def s0(7))
  ultimately show ?thesis using b added_child_found [OF inv assms(2)] unfolding s0(5) s1_def [symmetric] by metis
qed

theorem forked_child_found_witness:
  "\<exists>s1 s2. get_pid (snd (proc_alloc ex_kernel)) = Inr (2, s1) \<and> ptree_new_node 1 3 s1 = Inr (4, s2) \<and>
    process_waitpid_find 1 2 (set_proc 3 (ex_init\<lparr>p_pid := 2, p_ptree_node := 4\<rparr>) s2) = Inr 3"
proof -
  have f: "fst (proc_alloc ex_kernel) = 3" by (simp add: proc_alloc_def Let_def)
  obtain s1 node s2 where g: "get_pid (snd (proc_alloc ex_kernel)) = Inr (2, s1)" "ptree_new_node 1 3 s1 = Inr (node, s2)"
    "\<And>cp. p_pid cp = 2 \<Longrightarrow> p_ptree_node cp = node \<Longrightarrow> process_waitpid_find 1 2 (set_proc 3 cp s2) = Inr 3"
    using forked_child_found [OF ex_kernel_reach ex_kernel_fields(1)] by (auto simp: f PROCESS_MAX_PID_def numeral_2_eq_2)
  have "p_next s1 = 4" using g(1) by (auto simp: get_pid_def proc_alloc_def set_proc_def Let_def)
  then have "node = 4" using g(2) by (auto simp: ptree_new_node_def tree_node_new_def Let_def)
  then show ?thesis using g by (intro exI [of _ s1] exI [of _ s2]) simp
qed

section \<open>Calls that stop the kernel\<close>

text \<open>C39: In no reachable state can a process be destroyed: \<open>process_destroy\<close> stops at its assertion for the first process and follows
  the parent pointer of the tree node, which is NULL, for every other one.\<close>

theorem destroy_never_succeeds:
  assumes "proc_reach s" "procs s a = Some p"
  shows "process_destroy sh a s = Inl (if p_pid p = 1 then AssertFailed else MemFault)"
proof -
  have inv: "proc_inv s" by (rule reach_inv [OF assms(1)])
  obtain n where n: "tnodes s (p_ptree_node p) = Some n" using inv assms(2) by (fastforce simp: proc_inv_def proc_tree_def)
  have z: "tn_parent n = 0" "tnodes s 0 = None" using inv n unfolding proc_inv_def proc_tree_def by (blast, metis not_None_eq)
  have u: "p_pid p \<in> pidmap.used (pid_bitmap s)" "p_pid p \<noteq> 0" "bitmap_wf (pid_bitmap s)"
    using inv assms(2) by (auto simp: proc_inv_def proc_pids_def pid_inv_def)
  then obtain b where "bitmap_unset (pid_bitmap s) (p_pid p) = Inr b" using pidmap.unset_used [OF u(3), of "p_pid p"] by (auto simp: pidmap.used_def)
  then show ?thesis using assms(2) n z u(2) by (simp add: process_destroy_def tree_node_delete_child_def get_obj_def Let_def)
qed

theorem destroy_never_succeeds_witness:
  "process_destroy \<lparr>start_shared_data = 0, stop_shared_data = 0, start_shared_text = 0, stop_shared_text = 0\<rparr> 2 ex_kernel = Inl AssertFailed"
  using destroy_never_succeeds [OF ex_kernel_reach ex_kernel_fields(1)] by simp

text \<open>A system call with a number that the kernel does not know fails an assertion, so any program can stop the kernel; the known
  numbers are the 34 of the list.\<close>

lemma unknown_syscall_panics:
  assumes "r_eax regs \<notin> set [0x01, 0x03, 0x04, 0x05, 0x06, 0x07, 0x08, 0x0A, 0x0B, 0x0C, 0x13, 0x14, 0x27, 0x28, 0x29, 0x2b, 0x3f, 0x4e,
    0x59, 0xFF, 0x78, 0x9E, 0xa2, 0xa4, 0xaa, 0xc7, 0xc8, 0xc9, 0xca, 0xd5, 0xd6, 0x14a, 0x200, 0x201]"
  shows "syscall_handler sh junk a regs s = Inl AssertFailed"
  using assms by (simp add: syscall_handler_def const_call_def file_call_def process_call_def Let_def)



end
