(* ===== verification/Console.thy ===== *)
theory Console
  imports Sched Numstr Path
begin

text \<open>
  Character input and output: the ring buffers with their semaphores (src/kernel/ringbuffer.c), the keyboard and serial interrupt
  handlers that fill them, the line editor and the device node of the console (src/kernel/console.c), formatted output, and
  the text screen (src/kernel/tty.c). Port reads are arguments, what is written to the serial port or the screen a result.
  The screen is the one that \<open>tty_init\<close> accepted (\<open>vmem\<close> is not NULL). The mutex of \<open>vprintf\<close> and the spin lock of \<open>putc\<close> are those of the scheduler and are left out here.
\<close>

section \<open>Ring buffers\<close>

record ringbuffer_t =
  rb_buffer :: "u8 list"
  rb_size :: nat
  write_head :: nat
  read_head :: nat
  rb_sem :: addr

definition ringbuffer_unread :: "ringbuffer_t \<Rightarrow> nat" where
  "ringbuffer_unread rb =
     (if write_head rb < read_head rb then (rb_size rb - read_head rb) + write_head rb else write_head rb - read_head rb)"

definition ringbuffer_init :: "addr \<Rightarrow> u8 list \<Rightarrow> sched \<Rightarrow> ringbuffer_t \<times> sched" where
  "ringbuffer_init sem buf s =
     (\<lparr>rb_buffer = buf, rb_size = length buf, write_head = 0, read_head = 0, rb_sem = sem\<rparr>, s\<lparr>sem_count := (sem_count s)(sem := 0)\<rparr>)"

text \<open>The part of \<open>ringbuffer_read_byte\<close> behind the semaphore, and the part of \<open>ringbuffer_write_byte\<close> in front of it.\<close>

definition rb_take :: "ringbuffer_t \<Rightarrow> (u8 \<times> ringbuffer_t) res" where
  "rb_take rb = kbind (kload (rb_buffer rb) (read_head rb)) (\<lambda>c. Inr (c, rb\<lparr>read_head := (read_head rb + 1) mod rb_size rb\<rparr>))"

definition rb_put :: "u8 \<Rightarrow> ringbuffer_t \<Rightarrow> ringbuffer_t res" where
  "rb_put c rb =
     kbind (kstore (rb_buffer rb) (write_head rb) c) (\<lambda>buf.
     Inr (rb\<lparr>rb_buffer := buf, write_head := (write_head rb + 1) mod rb_size rb\<rparr>))"

text \<open>\<open>None\<close>: the caller waits for a byte, and takes it when it runs again.\<close>

definition ringbuffer_read_byte :: "ringbuffer_t \<times> sched \<Rightarrow> (u8 option \<times> ringbuffer_t \<times> sched) res" where
  "ringbuffer_read_byte x =
     (case x of (rb, s) \<Rightarrow>
        kbind (semaphore_acquire (rb_sem rb) s) (\<lambda>s'.
          if 0 < sem_count s (rb_sem rb) then kbind (rb_take rb) (\<lambda>(c, rb). Inr (Some c, rb, s')) else Inr (None, rb, s')))"

definition ringbuffer_write_byte :: "u8 \<Rightarrow> ringbuffer_t \<times> sched \<Rightarrow> (ringbuffer_t \<times> sched) res" where
  "ringbuffer_write_byte c x =
     (case x of (rb, s) \<Rightarrow>
        kbind (rb_put c rb) (\<lambda>rb. kbind (semaphore_release (rb_sem rb) s) (\<lambda>s. Inr (rb, s))))"

section \<open>Interrupt handlers\<close>

definition keyboard_map :: "u8 list" where
  "keyboard_map =
     [0, 27, 49, 50, 51, 52, 53, 54, 55, 56, 57, 48, 45, 61, 8, 9, 113, 119, 101, 114, 116, 121, 117, 105, 111, 112, 91, 93, 10, 0,
      97, 115, 100, 102, 103, 104, 106, 107, 108, 59, 39, 96, 0, 92, 122, 120, 99, 118, 98, 110, 109, 44, 46, 47, 0, 42, 0, 32] @
     replicate 16 0 @ [45, 0, 0, 0, 43] @ replicate 49 0"

text \<open>\<open>True\<close> is \<open>IRQ_HANDLED\<close>. \<open>status\<close> and \<open>code\<close> are what the ports 0x64 and 0x60 return; a release code is negative as a \<open>char\<close>.\<close>

definition irq1_handler :: "u8 \<Rightarrow> u8 \<Rightarrow> ringbuffer_t \<times> sched \<Rightarrow> (bool \<times> ringbuffer_t \<times> sched) res" where
  "irq1_handler status code x =
     (if status AND 1 \<noteq> 0
      then if sint code < 0 then Inr (True, x)
           else kbind (kload keyboard_map (unat code)) (\<lambda>c. kbind (ringbuffer_write_byte c x) (\<lambda>x. Inr (True, x)))
      else Inr (False, x))"

definition irq4_handler :: "u8 \<Rightarrow> u8 \<Rightarrow> ringbuffer_t \<times> sched \<Rightarrow> (bool \<times> ringbuffer_t \<times> sched) res" where
  "irq4_handler status c x =
     (if status AND 1 \<noteq> 0 then kbind (ringbuffer_write_byte c x) (\<lambda>x. Inr (True, x)) else Inr (False, x))"

section \<open>The line editor\<close>

text \<open>\<open>getc\<close> on what \<open>serial_getc\<close> returns.\<close>

definition getc_map :: "u8 \<Rightarrow> u8" where
  "getc_map c = (if c = 13 then 10 else c)"

definition TMP_SIZE :: nat where "TMP_SIZE = 1024"

text \<open>The first loop of \<open>buffer_fill\<close> on the bytes that the serial line delivers: the temporary buffer, the position in it and what is echoed.
  \<open>None\<close>: the caller waits for more input.\<close>

fun bf_loop :: "u8 list \<Rightarrow> u8 list \<Rightarrow> nat \<Rightarrow> (u8 list \<times> u8 list \<times> u8 list) option res" where
  "bf_loop [] tmp i = (if i < TMP_SIZE then Inr None else Inr (Some (tmp, [], [])))"
| "bf_loop (b # bs) tmp i =
     (if i < TMP_SIZE
      then let c = getc_map b
           in kbind (kassert (c \<noteq> 0)) (\<lambda>_.
                if c = 8 \<or> c = 127
                then kbind (bf_loop bs tmp (i - 1)) (\<lambda>r. Inr (map_option (\<lambda>(t, e, rest). (t, 8 # e, rest)) r))
                else kbind (kstore tmp i c) (\<lambda>tmp.
                       if c = 10 then Inr (Some (tmp, [c], bs))
                       else kbind (bf_loop bs tmp (i + 1)) (\<lambda>r. Inr (map_option (\<lambda>(t, e, rest). (t, c # e, rest)) r))))
      else Inr (Some (tmp, [], b # bs)))"

text \<open>The second loop: the buffer up to and with its first newline goes to the ring buffer.\<close>

fun bf_flush :: "u8 list \<Rightarrow> ringbuffer_t \<times> sched \<Rightarrow> (ringbuffer_t \<times> sched) res" where
  "bf_flush [] x = Inr x"
| "bf_flush (c # cs) x = kbind (ringbuffer_write_byte c x) (\<lambda>x. if c = 10 then Inr x else bf_flush cs x)"

record console =
  text_buffer :: "ringbuffer_t \<times> sched"
  serial_in :: "u8 list"
  con_out :: "u8 list"

text \<open>\<open>junk\<close> is what \<open>tmp_buffer\<close> holds at first. The result says whether the line is complete.\<close>

definition buffer_fill :: "u8 list \<Rightarrow> console \<Rightarrow> (bool \<times> console) res" where
  "buffer_fill junk con =
     kbind (bf_loop (serial_in con) (take TMP_SIZE junk) 0) (\<lambda>r.
       case r of
         None \<Rightarrow> Inr (False, con)
       | Some (tmp, echo, rest) \<Rightarrow>
           kbind (bf_flush tmp (text_buffer con)) (\<lambda>x.
           Inr (True, con\<lparr>text_buffer := x, serial_in := rest, con_out := con_out con @ echo\<rparr>)))"

text \<open>\<open>None\<close>: the caller waits.\<close>

definition buffer_getc :: "u8 list \<Rightarrow> console \<Rightarrow> (u8 option \<times> console) res" where
  "buffer_getc junk con =
     kbind (if ringbuffer_unread (fst (text_buffer con)) = 0 then buffer_fill junk con else Inr (True, con)) (\<lambda>(ok, con).
       if \<not> ok then Inr (None, con)
       else kbind (kassert (0 < ringbuffer_unread (fst (text_buffer con)))) (\<lambda>_.
            kbind (ringbuffer_read_byte (text_buffer con)) (\<lambda>(c, x). Inr (c, con\<lparr>text_buffer := x\<rparr>))))"

fun tty_read :: "u8 list \<Rightarrow> nat \<Rightarrow> console \<Rightarrow> (u8 list option \<times> console) res" where
  "tty_read junk 0 con = Inr (Some [], con)"
| "tty_read junk (Suc n) con =
     kbind (buffer_getc junk con) (\<lambda>(c, con).
       case c of
         None \<Rightarrow> Inr (None, con)
       | Some c \<Rightarrow> kbind (tty_read junk n con) (\<lambda>(cs, con). Inr (map_option ((#) c) cs, con)))"

section \<open>Formatted output\<close>

datatype parg = PInt u32 | PStr "cstr option"

definition puts :: "cstr option \<Rightarrow> u8 list" where
  "puts s = (case s of None \<Rightarrow> [40, 110, 117, 108, 108, 41] | Some s \<Rightarrow> s)"

fun pf_width :: "cstr \<Rightarrow> u32 \<Rightarrow> u32 \<times> cstr" where
  "pf_width [] w = (w, [])"
| "pf_width (c # fmt) w = (if 48 \<le> c \<and> c \<le> 57 then pf_width fmt (w * 10 + ucast (c - 48)) else (w, c # fmt))"

lemma pf_width_length: "length (snd (pf_width fmt w)) \<le> length fmt"
  by (induction fmt w rule: pf_width.induct) auto

text \<open>A number, written to the buffer of 256 bytes, whose contents before are \<open>junk\<close>.\<close>

definition pf_number :: "(u8 list \<Rightarrow> (unit option \<times> u8 list) res) \<Rightarrow> u8 list \<Rightarrow> u8 list res" where
  "pf_number conv junk = kbind (conv (take 256 junk)) (\<lambda>(_, buf). Inr (takeWhile (\<lambda>c. c \<noteq> 0) buf))"

definition pf_arg :: "u8 \<Rightarrow> u32 \<Rightarrow> u8 list \<Rightarrow> parg \<Rightarrow> u8 list res" where
  "pf_arg c w junk a =
     (case a of
        PInt v \<Rightarrow>
          if c = 99 then Inr [ucast v]
          else if c = 105 \<or> c = 100 then pf_number (\<lambda>b. itoa v b 10 (sint w)) junk
          else if c = 117 then pf_number (\<lambda>b. utoa v b 10 (sint w)) junk
          else if c = 112 then kbind (pf_number (\<lambda>b. utoa v b 16 (sint w)) junk) (\<lambda>s. Inr ([42, 48, 120] @ s))
          else if c = 120 then pf_number (\<lambda>b. utoa v b 16 (sint w)) junk
          else Inl MemFault
      | PStr s \<Rightarrow> if c = 115 then Inr (puts s) else Inl MemFault)"

definition skip_l :: "cstr \<Rightarrow> cstr" where
  "skip_l fmt = (case fmt of [] \<Rightarrow> [] | c # cs \<Rightarrow> if c = 108 then cs else fmt)"

lemma skip_l_length: "length (skip_l fmt) \<le> length fmt"
  by (cases fmt) (auto simp: skip_l_def)

lemma pf_rest_shorter: "(w, f) = pf_width fmt 0 \<Longrightarrow> skip_l f = d # rest \<Longrightarrow> length rest < length fmt"
  using pf_width_length [of fmt 0] skip_l_length [of f] by (cases "pf_width fmt 0") auto

text \<open>An argument of the wrong kind, or a missing one, is undefined behaviour.\<close>

function vprintf :: "u8 list \<Rightarrow> cstr \<Rightarrow> parg list \<Rightarrow> u8 list res" where
  "vprintf junk fmt args =
     (case fmt of
        [] \<Rightarrow> Inr []
      | c # fmt \<Rightarrow>
          if c \<noteq> 37 then kbind (vprintf junk fmt args) (\<lambda>out. Inr (c # out))
          else if fmt = [] then Inl AssertFailed
          else (case pf_width fmt 0 of (w, f) \<Rightarrow>
                 (case skip_l f of
                    [] \<Rightarrow> Inl AssertFailed
                  | d # rest \<Rightarrow>
                      if d = 37 then kbind (vprintf junk rest args) (\<lambda>out. Inr (37 # out))
                      else if d \<in> {99, 115, 105, 100, 117, 112, 120}
                      then (case args of
                              [] \<Rightarrow> Inl MemFault
                            | a # args \<Rightarrow> kbind (pf_arg d w junk a) (\<lambda>out. kbind (vprintf junk rest args) (\<lambda>out'. Inr (out @ out'))))
                      else Inl AssertFailed)))"
  by pat_completeness auto
termination
  by (relation "measure (\<lambda>(junk, fmt, args). length fmt)") (auto dest: pf_rest_shorter)

declare vprintf.simps [simp del]

section \<open>The text screen\<close>

text \<open>The screen memory starts at \<open>vmem\<close>; a cell has \<open>bpp\<close> = 2 bytes, the character and its attribute. Cursor and size are 16 bits wide.\<close>

record tty =
  tt_mem :: "u8 list"
  cursor_x :: nat
  cursor_y :: nat
  tt_width :: nat
  tt_height :: nat
  tt_pitch :: nat
  tt_pos :: nat

definition TTY_DEFAULT_ATTRIBUTE :: u8 where "TTY_DEFAULT_ATTRIBUTE = 7"

definition tt_cell :: "tty \<Rightarrow> nat \<Rightarrow> nat \<Rightarrow> nat" where
  "tt_cell s x y = y * tt_pitch s + x * 2"

definition tt_store :: "nat \<Rightarrow> nat \<Rightarrow> u8 \<Rightarrow> u8 \<Rightarrow> tty \<Rightarrow> tty res" where
  "tt_store x y c a s =
     kbind (kstore (tt_mem s) (tt_cell s x y) c) (\<lambda>m.
     kbind (kstore m (tt_cell s x y + 1) a) (\<lambda>m. Inr (s\<lparr>tt_mem := m\<rparr>)))"

definition tty_update_cursor :: "tty \<Rightarrow> tty" where
  "tty_update_cursor s = s\<lparr>tt_pos := (cursor_y s * tt_width s + cursor_x s) mod 65536\<rparr>"

definition tty_clear_line :: "nat \<Rightarrow> tty \<Rightarrow> tty res" where
  "tty_clear_line y s = kfor (\<lambda>x. tt_store x y 32 TTY_DEFAULT_ATTRIBUTE) [0..<tt_width s] s"

definition tt_copy :: "nat \<Rightarrow> nat \<Rightarrow> nat \<Rightarrow> tty \<Rightarrow> tty res" where
  "tt_copy from to x s =
     kbind (kload (tt_mem s) (tt_cell s x from)) (\<lambda>c.
     kbind (kload (tt_mem s) (tt_cell s x from + 1)) (\<lambda>a. tt_store x to c a s))"

definition tty_copy_line :: "nat \<Rightarrow> nat \<Rightarrow> tty \<Rightarrow> tty res" where
  "tty_copy_line from to s = kfor (tt_copy from to) [0..<tt_width s] s"

definition tty_scroll :: "tty \<Rightarrow> tty res" where
  "tty_scroll s =
     kbind (kfor (\<lambda>y. tty_copy_line (y + 1) y) [0..<tt_height s - 1] s) (tty_clear_line (tt_height s - 1))"

definition tty_move_cursor :: "nat \<Rightarrow> nat \<Rightarrow> tty \<Rightarrow> tty" where
  "tty_move_cursor x y s = tty_update_cursor (s\<lparr>cursor_x := x mod 65536, cursor_y := y mod 65536\<rparr>)"

definition tty_clear_screen :: "tty \<Rightarrow> tty res" where
  "tty_clear_screen s = kbind (kfor tty_clear_line [0..<tt_height s] s) (\<lambda>s. Inr (tty_move_cursor 0 0 s))"

text \<open>\<open>tty_putc\<close>: what follows the case distinction, the other characters, and the newline, which prints a carriage return first.\<close>

definition tp_end :: "tty \<Rightarrow> tty res" where
  "tp_end s =
     (let s = (if tt_width s \<le> cursor_x s then s\<lparr>cursor_x := 0, cursor_y := (cursor_y s + 1) mod 65536\<rparr> else s)
      in kbind (if tt_height s \<le> cursor_y s
                then kbind (tty_scroll s) (\<lambda>s. Inr (s\<lparr>cursor_x := 0, cursor_y := tt_height s - 1\<rparr>))
                else Inr s) (\<lambda>s. Inr (tty_update_cursor s)))"

definition tp_plain :: "u8 \<Rightarrow> tty \<Rightarrow> tty res" where
  "tp_plain c s =
     kbind (kassert (cursor_x s < tt_width s)) (\<lambda>_.
     kbind (kassert (cursor_y s < tt_height s)) (\<lambda>_.
     kbind (if c = 8 \<and> 0 < cursor_x s then Inr (s\<lparr>cursor_x := cursor_x s - 1\<rparr>)
            else if c = 13 then Inr (s\<lparr>cursor_x := 0\<rparr>)
            else if c = 9 then Inr (s\<lparr>cursor_x := (cursor_x s + 4) mod 65536\<rparr>)
            else kbind (tt_store (cursor_x s) (cursor_y s) c TTY_DEFAULT_ATTRIBUTE s) (\<lambda>s.
                 Inr (s\<lparr>cursor_x := (cursor_x s + 1) mod 65536\<rparr>))) tp_end))"

definition tty_putc :: "u8 \<Rightarrow> tty \<Rightarrow> tty res" where
  "tty_putc c s =
     (if c = 10
      then kbind (kassert (cursor_x s < tt_width s)) (\<lambda>_.
           kbind (kassert (cursor_y s < tt_height s)) (\<lambda>_.
           kbind (tp_plain 13 s) (\<lambda>s. tp_end (s\<lparr>cursor_x := 0, cursor_y := (cursor_y s + 1) mod 65536\<rparr>))))
      else tp_plain c s)"

end
