(* ===== verification/Console_Props.thy ===== *)
theory Console_Props
  imports Console Sched_Reach
begin

text \<open>
  The ring buffer is a bounded queue of bytes whose semaphore counts them, the line editor delivers the edited line, and the
  text screen stays inside its memory and shows what an abstract terminal would.
\<close>

section \<open>The ring buffer as a queue\<close>

definition rb_data :: "ringbuffer_t \<Rightarrow> u8 list \<Rightarrow> bool" where
  "rb_data rb bs \<longleftrightarrow> length (rb_buffer rb) = rb_size rb \<and> read_head rb < rb_size rb \<and> rb_size rb < 2 ^ 32 \<and> length bs \<le> rb_size rb \<and>
     write_head rb = (read_head rb + length bs) mod rb_size rb \<and>
     (\<forall>i<length bs. rb_buffer rb ! ((read_head rb + i) mod rb_size rb) = bs ! i)"

lemma mod_offset_inj:
  assumes "(r + i) mod n = (r + j) mod n" "i < n" "j < (n :: nat)"
  shows "i = j"
proof -
  have le: "a = b" if "(r + a) mod n = (r + b) mod n" "a \<le> b" "b < n" for a b
  proof -
    have "n dvd (r + b) - (r + a)" using that by (metis mod_eq_dvd_iff_nat add_le_cancel_left)
    then have "n dvd b - a" by simp
    moreover have "b - a < n" using that(3) by linarith
    ultimately have "b - a = 0" using nat_dvd_not_less by blast
    then show ?thesis using that(2) by simp
  qed
  show ?thesis using le [of i j] le [of j i] assms by (cases "i \<le> j") auto
qed

lemma rb_put_ok:
  assumes "rb_data rb bs" "length bs < rb_size rb"
  shows "\<exists>rb'. rb_put c rb = Inr rb' \<and> rb_data rb' (bs @ [c]) \<and> rb_size rb' = rb_size rb \<and> rb_sem rb' = rb_sem rb"
proof -
  let ?n = "rb_size rb" and ?w = "write_head rb" and ?r = "read_head rb"
  have d: "length (rb_buffer rb) = ?n" "?r < ?n" "?n < 2 ^ 32" "?w = (?r + length bs) mod ?n"
    "\<And>i. i < length bs \<Longrightarrow> rb_buffer rb ! ((?r + i) mod ?n) = bs ! i"
    using assms(1) by (auto simp: rb_data_def)
  have n: "0 < ?n" "?w < ?n" using d(2,4) by simp_all
  define rb' where "rb' = rb\<lparr>rb_buffer := (rb_buffer rb)[?w := c], write_head := (?w + 1) mod ?n\<rparr>"
  have "rb_buffer rb' ! ((?r + i) mod ?n) = (bs @ [c]) ! i" if i: "i < length (bs @ [c])" for i
  proof (cases "i = length bs")
    case True
    then show ?thesis using n(2) d(1,4) by (simp add: rb'_def)
  next
    case False
    then have l: "i < length bs" using i by simp
    then have "(?r + i) mod ?n \<noteq> ?w" using mod_offset_inj [of ?r i ?n "length bs"] assms(2) d(4) by auto
    then show ?thesis using d(5) [OF l] l by (simp add: rb'_def nth_append)
  qed
  moreover have "(?w + 1) mod ?n = (?r + length (bs @ [c])) mod ?n" unfolding d(4) by (simp add: mod_Suc_eq)
  ultimately have "rb_data rb' (bs @ [c])" using d(1-3) assms(2) by (simp add: rb_data_def rb'_def)
  moreover have "rb_put c rb = Inr rb'" using n(2) d(1) by (simp add: rb_put_def rb'_def)
  ultimately show ?thesis by (simp add: rb'_def)
qed

lemma rb_take_ok:
  assumes "rb_data rb (c # bs)"
  shows "\<exists>rb'. rb_take rb = Inr (c, rb') \<and> rb_data rb' bs \<and> rb_size rb' = rb_size rb \<and> rb_sem rb' = rb_sem rb"
proof -
  let ?n = "rb_size rb" and ?r = "read_head rb"
  have d: "length (rb_buffer rb) = ?n" "?r < ?n" "?n < 2 ^ 32" "write_head rb = (?r + Suc (length bs)) mod ?n"
    "\<And>i. i < Suc (length bs) \<Longrightarrow> rb_buffer rb ! ((?r + i) mod ?n) = (c # bs) ! i"
    using assms by (auto simp: rb_data_def)
  define rb' where "rb' = rb\<lparr>read_head := (?r + 1) mod ?n\<rparr>"
  have "rb_buffer rb' ! ((read_head rb' + i) mod ?n) = bs ! i" if "i < length bs" for i
    using d(5) [of "Suc i"] that by (simp add: rb'_def mod_add_left_eq)
  moreover have "write_head rb' = (read_head rb' + length bs) mod ?n" using d(4) by (simp add: rb'_def mod_add_left_eq)
  ultimately have "rb_data rb' bs" using d assms by (simp add: rb_data_def rb'_def)
  moreover have "rb_take rb = Inr (c, rb')" using d(1,2) d(5) [of 0] by (simp add: rb_take_def rb'_def)
  ultimately show ?thesis by (simp add: rb'_def)
qed

text \<open>The queue with its semaphore: nobody waits for it, and it counts the bytes.\<close>

definition ring :: "ringbuffer_t \<times> sched \<Rightarrow> u8 list \<Rightarrow> bool" where
  "ring x bs \<longleftrightarrow> rb_data (fst x) bs \<and> sem_count (snd x) (rb_sem (fst x)) = of_nat (length bs) \<and> current_task (snd x) \<noteq> 0 \<and>
     (\<exists>Q. rest (snd x) Q \<and> Q (BlockQ (rb_sem (fst x))) = [])"

definition ring_room :: "ringbuffer_t \<times> sched \<Rightarrow> unit \<Rightarrow> u8 \<Rightarrow> bool" where
  "ring_room x _ c \<longleftrightarrow> unat (sem_count (snd x) (rb_sem (fst x))) < rb_size (fst x)"

text \<open>The read of a caller who does not have to wait.\<close>

definition ring_get :: "ringbuffer_t \<times> sched \<Rightarrow> (u8 \<times> ringbuffer_t \<times> sched) res" where
  "ring_get x = kbind (ringbuffer_read_byte x) (\<lambda>(c, x). case c of None \<Rightarrow> Inl Diverges | Some c \<Rightarrow> Inr (c, x))"

lemma ring_count: "ring x bs \<Longrightarrow> unat (sem_count (snd x) (rb_sem (fst x))) = length bs"
  by (simp add: ring_def rb_data_def unat_of_nat)

lemma ring_write:
  assumes "ring x bs" "length bs < rb_size (fst x)"
  shows "\<exists>x'. ringbuffer_write_byte c x = Inr x' \<and> ring x' (bs @ [c]) \<and> rb_size (fst x') = rb_size (fst x)"
proof -
  obtain rb s where x: "x = (rb, s)" by (cases x)
  from assms x obtain Q where Q: "rest s Q" "Q (BlockQ (rb_sem rb)) = []" "current_task s \<noteq> 0" "rb_data rb bs"
    "sem_count s (rb_sem rb) = of_nat (length bs)" by (auto simp: ring_def)
  obtain rb' where rb': "rb_put c rb = Inr rb'" "rb_data rb' (bs @ [c])" "rb_size rb' = rb_size rb" "rb_sem rb' = rb_sem rb"
    using rb_put_ok [OF Q(4)] assms(2) x by auto
  obtain s' Q' where s': "semaphore_release (rb_sem rb) s = Inr s'" "rest s' Q'" "(current_task s', Q') = (current_task s, Q)"
    "sem_count s' = (sem_count s)(rb_sem rb := sem_count s (rb_sem rb) + 1)"
    using semaphore_release_ok [OF Q(1,3), of "rb_sem rb"] Q(2) by (auto simp: spec_unblock_next_def)
  have "ring (rb', s') (bs @ [c])" using rb' s' Q by (auto simp: ring_def)
  then show ?thesis using rb' s'(1) x by (simp add: ringbuffer_write_byte_def)
qed

lemma ring_read:
  assumes "ring x (c # bs)"
  shows "\<exists>x'. ringbuffer_read_byte x = Inr (Some c, x') \<and> ring x' bs \<and> rb_size (fst x') = rb_size (fst x)"
proof -
  obtain rb s where x: "x = (rb, s)" by (cases x)
  from assms x obtain Q where Q: "rest s Q" "Q (BlockQ (rb_sem rb)) = []" "current_task s \<noteq> 0" "rb_data rb (c # bs)"
    "sem_count s (rb_sem rb) = of_nat (Suc (length bs))" by (auto simp: ring_def)
  obtain rb' where rb': "rb_take rb = Inr (c, rb')" "rb_data rb' bs" "rb_size rb' = rb_size rb" "rb_sem rb' = rb_sem rb"
    using rb_take_ok [OF Q(4)] by auto
  have "unat (sem_count s (rb_sem rb)) = Suc (length bs)" using ring_count [OF assms] x by simp
  then have pos: "0 < sem_count s (rb_sem rb)" by (simp add: word_less_nat_alt)
  obtain s' Q' where s': "semaphore_acquire (rb_sem rb) s = Inr s'" "rest s' Q'" "(current_task s', Q') = (current_task s, Q)"
    "sem_count s' = (sem_count s)(rb_sem rb := sem_count s (rb_sem rb) - 1)"
    using semaphore_acquire_ok [OF Q(1,3), of "rb_sem rb"] pos by auto
  have "ring (rb', s') bs" using rb' s' Q by (auto simp: ring_def)
  then show ?thesis using rb' s'(1) pos x by (simp add: ringbuffer_read_byte_def)
qed

interpretation ringq: fifo_queue ring ring_room "\<lambda>_. ringbuffer_write_byte" ring_get
proof unfold_locales
  fix x bs u c
  assume "ring x bs" "ring_room x u c"
  then show "\<exists>x'. ringbuffer_write_byte c x = Inr x' \<and> ring x' (bs @ [c])" using ring_write ring_count by (metis ring_room_def)
next
  fix x c bs
  assume "ring x (c # bs)"
  then show "\<exists>x'. ring_get x = Inr (c, x') \<and> ring x' bs" using ring_read by (fastforce simp: ring_get_def)
qed


lemma unread_count:
  assumes "rb_data rb bs"
  shows "ringbuffer_unread rb = (if length bs = rb_size rb then 0 else length bs)"
proof -
  let ?n = "rb_size rb" and ?r = "read_head rb"
  have d: "?r < ?n" "write_head rb = (?r + length bs) mod ?n" "length bs \<le> ?n" using assms by (auto simp: rb_data_def)
  show ?thesis
  proof (cases "?r + length bs < ?n")
    case True
    then show ?thesis using d(2) by (simp add: ringbuffer_unread_def)
  next
    case False
    then have "write_head rb = ?r + length bs - ?n" using d by (simp add: mod_if)
    then show ?thesis using False d(1,3) by (auto simp: ringbuffer_unread_def)
  qed
qed

lemma ring_writes:
  assumes "ring x bs" "length bs + length ws \<le> rb_size (fst x)"
  shows "\<exists>x'. kfor ringbuffer_write_byte ws x = Inr x' \<and> ring x' (bs @ ws) \<and> rb_size (fst x') = rb_size (fst x)"
  using assms
proof (induction ws arbitrary: x bs)
  case (Cons w ws)
  obtain x1 where x1: "ringbuffer_write_byte w x = Inr x1" "ring x1 (bs @ [w])" "rb_size (fst x1) = rb_size (fst x)"
    using ring_write [OF Cons.prems(1), of w] Cons.prems(2) by auto
  from Cons.IH [OF x1(2)] Cons.prems(2) x1 show ?case by auto
qed simp

text \<open>C25: Bytes written to a ring buffer that has room for them are read back after those it held, in the order they were written,
  without blocking. \<open>ringbuffer_unread\<close> counts them, except that a full buffer counts as empty.\<close>

theorem ring_fifo:
  assumes "ring x bs" "length bs + length ws \<le> rb_size (fst x)"
  shows "\<exists>x1 x2. kfor ringbuffer_write_byte ws x = Inr x1 \<and> ringq.drain (length bs + length ws) x1 = Inr (bs @ ws, x2) \<and> ring x2 [] \<and>
    ringbuffer_unread (fst x1) = (if length bs + length ws = rb_size (fst x) then 0 else length bs + length ws)"
proof -
  obtain x1 where x1: "kfor ringbuffer_write_byte ws x = Inr x1" "ring x1 (bs @ ws)" "rb_size (fst x1) = rb_size (fst x)"
    using ring_writes [OF assms] by blast
  obtain x2 where x2: "ringq.drain (length (bs @ ws)) x1 = Inr (bs @ ws, x2)" "ring x2 []" using ringq.drain_all [of x1 "bs @ ws" "[]"] x1(2) by auto
  have "ringbuffer_unread (fst x1) = (if length (bs @ ws) = rb_size (fst x1) then 0 else length (bs @ ws))"
    using x1(2) by (intro unread_count) (simp add: ring_def)
  then show ?thesis using x1 x2 by (intro exI [of _ x1] exI [of _ x2]) simp
qed

text \<open>The console's buffer with one byte, in a scheduler with a running task.\<close>

definition ex_bytes :: "ringbuffer_t \<times> sched" where
  "ex_bytes = (\<lparr>rb_buffer = [9, 9, 9, 5], rb_size = 4, write_head = 0, read_head = 3, rb_sem = 81\<rparr>,
              ex_sched\<lparr>sem_count := (\<lambda>_. 0)(81 := 1)\<rparr>)"

lemma ex_sem_ring:
  assumes "rb_data rb bs" "rb_sem rb = 81"
  shows "ring (rb, ex_sched\<lparr>sem_count := (\<lambda>_. 0)(81 := of_nat (length bs))\<rparr>) bs"
proof -
  have "rest (ex_sched\<lparr>sem_count := n\<rparr>) ex_queues" for n using ex_sched_rest unfolding rest_def sched_wf_def cur_state_def by simp
  moreover have "ex_queues (BlockQ 81) = []" by simp
  moreover have "current_task ex_sched \<noteq> 0" by (simp add: ex_sched_def)
  ultimately show ?thesis unfolding ring_def using assms by (intro conjI exI [of _ ex_queues]) simp_all
qed

lemma ex_bytes_ok: "ring ex_bytes [5]"
  using ex_sem_ring [of "fst ex_bytes" "[5]"] by (simp add: ex_bytes_def rb_data_def)

theorem ring_fifo_witness:
  "\<exists>x1 x2. kfor ringbuffer_write_byte [6, 7, 8] ex_bytes = Inr x1 \<and> ringq.drain 4 x1 = Inr ([5, 6, 7, 8], x2) \<and> ringbuffer_unread (fst x1) = 0"
proof -
  have n: "length [5 :: u8] + length [6 :: u8, 7, 8] = 4" "rb_size (fst ex_bytes) = 4" by (simp_all add: ex_bytes_def)
  show ?thesis using ring_fifo [OF ex_bytes_ok, of "[6, 7, 8]"] unfolding n by (simp del: kfor.simps) blast
qed

section \<open>The line editor\<close>

definition is_erase :: "u8 \<Rightarrow> bool" where
  "is_erase c \<longleftrightarrow> c = 8 \<or> c = 127"

definition edit_char :: "u8 list \<Rightarrow> u8 \<Rightarrow> u8 list" where
  "edit_char acc c = (if is_erase c then butlast acc else acc @ [c])"

definition edit_line :: "u8 list \<Rightarrow> u8 list" where
  "edit_line cs = foldl edit_char [] cs"

definition echo_char :: "u8 \<Rightarrow> u8" where
  "echo_char c = (if is_erase c then 8 else c)"

lemma foldl_edit_length: "length (foldl edit_char acc cs) \<le> length acc + length cs"
proof (induction cs arbitrary: acc)
  case (Cons c cs)
  have "length (edit_char acc c) \<le> length acc + 1" by (auto simp: edit_char_def)
  then show ?case using Cons [of "edit_char acc c"] by simp
qed simp

lemma foldl_edit_set: "set (foldl edit_char acc cs) \<subseteq> set acc \<union> set cs"
proof (induction cs arbitrary: acc)
  case (Cons c cs)
  have "set (edit_char acc c) \<subseteq> set acc \<union> {c}" by (auto simp: edit_char_def dest: in_set_butlastD)
  then show ?case using Cons [of "edit_char acc c"] by auto
qed simp

lemma bf_loop_line:
  assumes "take i tmp = acc" "length acc = i" "length tmp = TMP_SIZE" "i + length cs < TMP_SIZE" "0 \<notin> set cs" "10 \<notin> set cs" "13 \<notin> set cs"
    "nl = 10 \<or> nl = 13"
  shows "\<exists>tmp'. bf_loop (cs @ nl # inp) tmp i = Inr (Some (tmp', map echo_char cs @ [10], inp)) \<and> length tmp' = TMP_SIZE \<and>
    (\<exists>ws. tmp' = foldl edit_char acc cs @ 10 # ws)"
  using assms
proof (induction cs arbitrary: i tmp acc)
  case Nil
  have "tmp[i := 10] = acc @ 10 # drop (Suc i) tmp" using Nil by (simp add: upd_conv_take_nth_drop)
  moreover have "getc_map nl = 10" using Nil.prems(8) by (auto simp: getc_map_def)
  ultimately show ?case using Nil by simp
next
  case (Cons c cs)
  have c: "getc_map c = c" "c \<noteq> 0" "c \<noteq> 10" using Cons.prems(5-7) by (auto simp: getc_map_def)
  have i: "i < TMP_SIZE" using Cons.prems(4) by simp
  show ?case
  proof (cases "is_erase c")
    case True
    have "take (i - 1) tmp = butlast acc" "length (butlast acc) = i - 1" using Cons.prems(1,2,3) i by (auto simp: butlast_take)
    from Cons.IH [OF this Cons.prems(3)] Cons.prems(4-8) i c True show ?thesis
      by (auto simp: is_erase_def edit_char_def echo_char_def)
  next
    case False
    have "take (i + 1) (tmp[i := c]) = acc @ [c]" "length (acc @ [c]) = i + 1"
      using Cons.prems(1-3) i by (simp_all add: take_Suc_conv_app_nth)
    from Cons.IH [OF this] Cons.prems(3-8) i c False show ?thesis
      by (auto simp: is_erase_def edit_char_def echo_char_def Let_def)
  qed
qed

lemma bf_flush_line:
  assumes "ring x bs" "length bs + length cs < rb_size (fst x)" "10 \<notin> set cs"
  shows "\<exists>x'. bf_flush (cs @ 10 # ws) x = Inr x' \<and> ring x' (bs @ cs @ [10]) \<and> rb_size (fst x') = rb_size (fst x)"
  using assms
proof (induction cs arbitrary: x bs)
  case Nil
  then show ?case using ring_write [of x bs 10] by auto
next
  case (Cons c cs)
  obtain x1 where x1: "ringbuffer_write_byte c x = Inr x1" "ring x1 (bs @ [c])" "rb_size (fst x1) = rb_size (fst x)"
    using ring_write [OF Cons.prems(1), of c] Cons.prems(2) by auto
  from Cons.IH [OF x1(2)] Cons.prems(2,3) x1 show ?case by auto
qed

lemma tty_read_buffered:
  assumes "ring (text_buffer con) (bs @ ws)" "length (bs @ ws) < rb_size (fst (text_buffer con))"
  shows "\<exists>x. tty_read junk (length bs) con = Inr (Some bs, con\<lparr>text_buffer := x\<rparr>) \<and> ring x ws"
  using assms
proof (induction bs arbitrary: con)
  case Nil
  then show ?case by (intro exI [of _ "text_buffer con"]) simp
next
  case (Cons b bs)
  have "0 < ringbuffer_unread (fst (text_buffer con))" using unread_count Cons.prems by (auto simp: ring_def)
  moreover obtain x1 where x1: "ringbuffer_read_byte (text_buffer con) = Inr (Some b, x1)" "ring x1 (bs @ ws)"
    "rb_size (fst x1) = rb_size (fst (text_buffer con))" using ring_read [of "text_buffer con" b "bs @ ws"] Cons.prems(1) by auto
  ultimately have "buffer_getc junk con = Inr (Some b, con\<lparr>text_buffer := x1\<rparr>)" by (simp add: buffer_getc_def)
  then show ?case using Cons.IH [of "con\<lparr>text_buffer := x1\<rparr>"] x1(2,3) Cons.prems(2) by auto
qed

text \<open>C12: A process that reads from the console gets the line that was typed: when the serial line delivers fewer than 1024 characters
  and a newline or carriage return, reading as many bytes as the edited line has returns the line with every erased
  character removed and a newline at the end; the typed characters are echoed and the rest of the input is left.\<close>

theorem tty_read_line:
  assumes "ring (text_buffer con) []" "rb_size (fst (text_buffer con)) = 2048" "serial_in con = cs @ nl # inp" "nl = 10 \<or> nl = 13"
    "0 \<notin> set cs" "10 \<notin> set cs" "13 \<notin> set cs" "length cs < 1024" "1024 \<le> length junk"
  shows "\<exists>con'. tty_read junk (length (edit_line cs) + 1) con = Inr (Some (edit_line cs @ [10]), con') \<and> ring (text_buffer con') [] \<and>
    serial_in con' = inp \<and> con_out con' = con_out con @ map echo_char cs @ [10]"
proof -
  have t: "take 0 (take TMP_SIZE junk) = []" "length ([] :: u8 list) = 0" "length (take TMP_SIZE junk) = TMP_SIZE" "0 + length cs < TMP_SIZE"
    using assms(8,9) by (simp_all add: TMP_SIZE_def)
  obtain tmp ws where tmp: "bf_loop (serial_in con) (take TMP_SIZE junk) 0 = Inr (Some (tmp, map echo_char cs @ [10], inp))"
    "tmp = edit_line cs @ 10 # ws" using bf_loop_line [OF t assms(5,6,7,4), of inp] assms(3) by (auto simp: edit_line_def)
  have l: "length (edit_line cs) < 1024" "10 \<notin> set (edit_line cs)"
    using foldl_edit_length [of "[]" cs] foldl_edit_set [of "[]" cs] assms(6,8) by (auto simp: edit_line_def)
  obtain x where x: "bf_flush tmp (text_buffer con) = Inr x" "ring x (edit_line cs @ [10])" "rb_size (fst x) = 2048"
    using bf_flush_line [OF assms(1), of "edit_line cs" ws] assms(2) l by (auto simp: tmp(2))
  let ?con = "con\<lparr>text_buffer := x, serial_in := inp, con_out := con_out con @ map echo_char cs @ [10]\<rparr>"
  have fill: "buffer_fill junk con = Inr (True, ?con)" using tmp(1) x(1) by (simp add: buffer_fill_def)
  have "ringbuffer_unread (fst (text_buffer con)) = 0" "0 < ringbuffer_unread (fst x)"
    using unread_count [of "fst (text_buffer con)" "[]"] unread_count [of "fst x" "edit_line cs @ [10]"] assms(1,2) x l by (auto simp: ring_def)
  then have "buffer_getc junk con = buffer_getc junk ?con" using fill by (simp add: buffer_getc_def)
  then have "tty_read junk (length (edit_line cs) + 1) con = tty_read junk (length (edit_line cs @ [10])) ?con" by simp
  then show ?thesis using tty_read_buffered [of ?con "edit_line cs @ [10]" "[]" junk] x(2,3) l by auto
qed


definition ex_console :: console where
  "ex_console = \<lparr>text_buffer = (\<lparr>rb_buffer = replicate 2048 0, rb_size = 2048, write_head = 0, read_head = 0, rb_sem = 81\<rparr>,
                               ex_sched\<lparr>sem_count := (\<lambda>_. 0)(81 := of_nat (length ([] :: u8 list)))\<rparr>),
                 serial_in = [108, 122, 8, 115, 13, 120], con_out = []\<rparr>"

theorem tty_read_line_witness:
  "\<exists>con'. tty_read (replicate 1024 1) 3 ex_console = Inr (Some [108, 115, 10], con') \<and> serial_in con' = [120] \<and>
    con_out con' = [108, 122, 8, 115, 10]"
proof -
  have r: "ring (text_buffer ex_console) []" unfolding ex_console_def console.simps by (rule ex_sem_ring) (simp_all add: rb_data_def)
  have i: "serial_in ex_console = [108, 122, 8, 115] @ 13 # [120]" "rb_size (fst (text_buffer ex_console)) = 2048" "con_out ex_console = []"
    by (simp_all add: ex_console_def)
  have e: "edit_line [108, 122, 8, 115] = [108, 115]" "map echo_char [108, 122, 8, 115] = [108, 122, 8, 115]"
    by (simp_all add: edit_line_def edit_char_def echo_char_def is_erase_def)
  have n: "length [108 :: u8, 115] + 1 = 3" by simp
  from tty_read_line [OF r i(2,1), of "replicate 1024 1"] show ?thesis unfolding e i(3) n by (simp del: tty_read.simps) blast
qed

section \<open>The text screen\<close>

definition tty_geo :: "tty \<Rightarrow> bool" where
  "tty_geo s \<longleftrightarrow> length (tt_mem s) = tt_height s * tt_pitch s \<and> tt_width s * 2 \<le> tt_pitch s \<and> 0 < tt_width s \<and> tt_width s \<le> 65532 \<and>
     0 < tt_height s \<and> tt_height s < 65536"

definition tty_wf :: "tty \<Rightarrow> bool" where
  "tty_wf s \<longleftrightarrow> tty_geo s \<and> cursor_x s < tt_width s \<and> cursor_y s < tt_height s"

definition screen :: "tty \<Rightarrow> nat \<Rightarrow> nat \<Rightarrow> u8 \<times> u8" where
  "screen s x y = (if x < tt_width s \<and> y < tt_height s then (tt_mem s ! tt_cell s x y, tt_mem s ! (tt_cell s x y + 1)) else (0, 0))"

text \<open>A step that changes only the contents of the screen.\<close>

definition paints :: "tty \<Rightarrow> (nat \<Rightarrow> nat \<Rightarrow> u8 \<times> u8) \<Rightarrow> tty \<Rightarrow> bool" where
  "paints s f s' \<longleftrightarrow> tty_geo s' \<and> s' = s\<lparr>tt_mem := tt_mem s'\<rparr> \<and> (\<forall>x<tt_width s. \<forall>y<tt_height s. screen s' x y = f x y)"

lemma cell_in:
  assumes "tty_geo s" "x < tt_width s" "y < tt_height s"
  shows "tt_cell s x y + 1 < length (tt_mem s)"
proof -
  have "x * 2 + 1 < tt_pitch s" using assms by (simp add: tty_geo_def)
  moreover have "(y + 1) * tt_pitch s \<le> tt_height s * tt_pitch s" using assms(3) by (intro mult_le_mono1) simp
  ultimately show ?thesis using assms(1) by (simp add: tty_geo_def tt_cell_def)
qed

lemma cell_eq:
  assumes "tty_geo s" "x < tt_width s" "x' < tt_width s" "k < 2" "k' < (2 :: nat)" "tt_cell s x y + k = tt_cell s x' y' + k'"
  shows "x = x' \<and> y = y' \<and> k = k'"
proof -
  have o: "x * 2 + k < tt_pitch s" "x' * 2 + k' < tt_pitch s" using assms by (auto simp: tty_geo_def)
  have e: "y * tt_pitch s + (x * 2 + k) = y' * tt_pitch s + (x' * 2 + k')" using assms(6) by (simp add: tt_cell_def)
  have "y = y'" using arg_cong [OF e, of "\<lambda>n. n div tt_pitch s"] o by simp
  then have "x * 2 + k = x' * 2 + k'" using e by simp
  then have "x = x'" "k = k'" using assms(4,5) by presburger+
  with \<open>y = y'\<close> show ?thesis by simp
qed

lemma paints_refl: "tty_geo s \<Longrightarrow> \<forall>x<tt_width s. \<forall>y<tt_height s. screen s x y = f x y \<Longrightarrow> paints s f s"
  by (simp add: paints_def)

lemma paints_geo: "paints s f s' \<Longrightarrow> tty_geo s' \<and> tt_width s' = tt_width s \<and> tt_height s' = tt_height s \<and> tt_pitch s' = tt_pitch s \<and>
    cursor_x s' = cursor_x s \<and> cursor_y s' = cursor_y s"
  unfolding paints_def by (metis tty.select_convs tty.surjective tty.update_convs(1))

lemma paints_trans:
  assumes "paints s f s1" "paints s1 g s2" "\<forall>x<tt_width s. \<forall>y<tt_height s. g x y = h x y"
  shows "paints s h s2"
proof -
  have "s2 = s\<lparr>tt_mem := tt_mem s2\<rparr>" using assms(1,2) unfolding paints_def by (metis tty.unfold_congs(1) tty.surjective tty.update_convs(1))
  then show ?thesis using assms paints_geo [OF assms(1)] by (simp add: paints_def)
qed

lemma tt_store_ok:
  assumes g: "tty_geo s" and x: "x < tt_width s" "y < tt_height s"
  shows "\<exists>s'. tt_store x y c a s = Inr s' \<and> paints s (\<lambda>x' y'. if x' = x \<and> y' = y then (c, a) else screen s x' y') s'"
proof -
  let ?i = "tt_cell s x y"
  let ?s = "s\<lparr>tt_mem := (tt_mem s)[?i := c, ?i + 1 := a]\<rparr>"
  note l = cell_in [OF g x]
  have "screen ?s x' y' = (if x' = x \<and> y' = y then (c, a) else screen s x' y')" if x': "x' < tt_width s" "y' < tt_height s" for x' y'
  proof (cases "x' = x \<and> y' = y")
    case True
    then show ?thesis using l x by (simp add: screen_def tt_cell_def)
  next
    case False
    have "tt_cell s x' y' + k' \<noteq> ?i + k" if "k < 2" "k' < 2" for k k' using cell_eq [OF g x'(1) x(1) that(2,1)] False by blast
    from this [of 0 0] this [of 1 0] this [of 0 1] this [of 1 1] show ?thesis using False x' by (auto simp: screen_def tt_cell_def)
  qed
  then have "paints s (\<lambda>x' y'. if x' = x \<and> y' = y then (c, a) else screen s x' y') ?s" using g by (simp add: paints_def tty_geo_def)
  moreover have "tt_store x y c a s = Inr ?s" using l by (simp add: tt_store_def)
  ultimately show ?thesis by blast
qed


text \<open>A loop of painting steps: after the indices \<open>done\<close> the screen is \<open>F done\<close>.\<close>

lemma paint_loop:
  assumes "paints s (F []) s"
    and "\<And>ds i t. paints s (F ds) t \<Longrightarrow> \<exists>rs. is = ds @ i # rs \<Longrightarrow>
           \<exists>t'. f i t = Inr t' \<and> paints t (\<lambda>x y. F (ds @ [i]) x y) t'"
  shows "\<exists>s'. kfor f is s = Inr s' \<and> paints s (F is) s'"
proof (rule kfor_inv [where P = "\<lambda>ds. paints s (F ds)"])
  fix ds i t
  assume p: "paints s (F ds) t" "\<exists>rs. is = ds @ i # rs"
  then obtain t' where "f i t = Inr t'" "paints t (\<lambda>x y. F (ds @ [i]) x y) t'" using assms(2) by blast
  then show "\<exists>t'. f i t = Inr t' \<and> paints s (F (ds @ [i])) t'" using paints_trans [OF p(1)] by blast
qed (rule assms(1))

lemma paints_screen: "paints s f t \<Longrightarrow> x < tt_width s \<Longrightarrow> y < tt_height s \<Longrightarrow> screen t x y = f x y"
  by (simp add: paints_def)

lemma paints_change:
  assumes "paints t g t'" "\<forall>x<tt_width t. \<forall>y<tt_height t. g x y = h x y"
  shows "paints t h t'"
  using assms by (simp add: paints_def)

lemma upt_mid: "[0..<n] = ds @ i # rs \<Longrightarrow> i < n"
  by (metis in_set_conv_decomp set_upt atLeastLessThan_iff)

lemma clear_line_ok:
  assumes g: "tty_geo s" and y: "y < tt_height s"
  shows "\<exists>s'. tty_clear_line y s = Inr s' \<and> paints s (\<lambda>x y'. if y' = y then (32, TTY_DEFAULT_ATTRIBUTE) else screen s x y') s'"
proof -
  define F where "F ds x y' = (if y' = y \<and> x \<in> set ds then (32, TTY_DEFAULT_ATTRIBUTE) else screen s x y')" for ds x y'
  have "\<exists>s'. kfor (\<lambda>x. tt_store x y 32 TTY_DEFAULT_ATTRIBUTE) [0..<tt_width s] s = Inr s' \<and> paints s (F [0..<tt_width s]) s'"
  proof (rule paint_loop)
    show "paints s (F []) s" using g by (intro paints_refl) (simp_all add: F_def)
    fix ds i t
    assume p: "paints s (F ds) t" "\<exists>rs. [0..<tt_width s] = ds @ i # rs"
    then have i: "i < tt_width s" using upt_mid by blast
    note G = paints_geo [OF p(1)]
    obtain t' where t': "tt_store i y 32 TTY_DEFAULT_ATTRIBUTE t = Inr t'"
      "paints t (\<lambda>x' y'. if x' = i \<and> y' = y then (32, TTY_DEFAULT_ATTRIBUTE) else screen t x' y') t'"
      using tt_store_ok [of t i y] G i y by auto
    have "paints t (\<lambda>x y. F (ds @ [i]) x y) t'"
      by (rule paints_change [OF t'(2)]) (use paints_screen [OF p(1)] G in \<open>auto simp: F_def\<close>)
    with t'(1) show "\<exists>t'. tt_store i y 32 TTY_DEFAULT_ATTRIBUTE t = Inr t' \<and> paints t (\<lambda>x y. F (ds @ [i]) x y) t'" by blast
  qed
  then obtain s' where s': "tty_clear_line y s = Inr s'" "paints s (F [0..<tt_width s]) s'" by (auto simp: tty_clear_line_def)
  have "paints s (\<lambda>x y'. if y' = y then (32, TTY_DEFAULT_ATTRIBUTE) else screen s x y') s'"
    by (rule paints_change [OF s'(2)]) (simp add: F_def)
  with s'(1) show ?thesis by blast
qed

lemma copy_line_ok:
  assumes g: "tty_geo s" and y: "from < tt_height s" "to < tt_height s" "from \<noteq> to"
  shows "\<exists>s'. tty_copy_line from to s = Inr s' \<and> paints s (\<lambda>x y'. screen s x (if y' = to then from else y')) s'"
proof -
  define F where "F ds x y' = screen s x (if y' = to \<and> x \<in> set ds then from else y')" for ds x y'
  have "\<exists>s'. kfor (tt_copy from to) [0..<tt_width s] s = Inr s' \<and> paints s (F [0..<tt_width s]) s'"
  proof (rule paint_loop)
    show "paints s (F []) s" using g by (intro paints_refl) (simp_all add: F_def)
    fix ds i t
    assume p: "paints s (F ds) t" "\<exists>rs. [0..<tt_width s] = ds @ i # rs"
    then have i: "i < tt_width s" using upt_mid by blast
    note G = paints_geo [OF p(1)]
    have l: "tt_cell t i from + 1 < length (tt_mem t)" using cell_in [of t i "from"] G i y(1) by simp
    have v: "screen t i from = screen s i from" using paints_screen [OF p(1) i y(1)] y(3) by (simp add: F_def)
    have "i < tt_width t" "to < tt_height t" using G i y(2) by simp_all
    from tt_store_ok [OF conjunct1 [OF G] this] obtain t' where
      t': "tt_store i to (tt_mem t ! tt_cell t i from) (tt_mem t ! (tt_cell t i from + 1)) t = Inr t'"
      "paints t (\<lambda>x' y'. if x' = i \<and> y' = to then (tt_mem t ! tt_cell t i from, tt_mem t ! (tt_cell t i from + 1)) else screen t x' y') t'"
      by blast
    have e: "(tt_mem t ! tt_cell t i from, tt_mem t ! (tt_cell t i from + 1)) = screen s i from"
      using v i y(1) G by (simp add: screen_def)
    have "paints t (\<lambda>x y. F (ds @ [i]) x y) t'"
      by (rule paints_change [OF t'(2)]) (use paints_screen [OF p(1)] G in \<open>auto simp: F_def e [simplified]\<close>)
    moreover have "tt_copy from to i t = Inr t'" using t'(1) l by (simp add: tt_copy_def)
    ultimately show "\<exists>t'. tt_copy from to i t = Inr t' \<and> paints t (\<lambda>x y. F (ds @ [i]) x y) t'" by blast
  qed
  then obtain s' where s': "tty_copy_line from to s = Inr s'" "paints s (F [0..<tt_width s]) s'" by (auto simp: tty_copy_line_def)
  have "paints s (\<lambda>x y'. screen s x (if y' = to then from else y')) s'" by (rule paints_change [OF s'(2)]) (simp add: F_def)
  with s'(1) show ?thesis by blast
qed

definition scrolled :: "nat \<Rightarrow> (nat \<Rightarrow> nat \<Rightarrow> u8 \<times> u8) \<Rightarrow> nat \<Rightarrow> nat \<Rightarrow> u8 \<times> u8" where
  "scrolled h f x y = (if y + 1 < h then f x (y + 1) else (32, TTY_DEFAULT_ATTRIBUTE))"

lemma scroll_ok:
  assumes g: "tty_geo s"
  shows "\<exists>s'. tty_scroll s = Inr s' \<and> paints s (scrolled (tt_height s) (screen s)) s'"
proof -
  let ?h = "tt_height s"
  define F where "F ds x y = screen s x (if y \<in> set ds then y + 1 else y)" for ds x y
  have "\<exists>s'. kfor (\<lambda>y. tty_copy_line (y + 1) y) [0..<?h - 1] s = Inr s' \<and> paints s (F [0..<?h - 1]) s'"
  proof (rule paint_loop)
    show "paints s (F []) s" using g by (intro paints_refl) (simp_all add: F_def)
    fix ds i t
    assume p: "paints s (F ds) t" "\<exists>rs. [0..<?h - 1] = ds @ i # rs"
    then obtain rs where rs: "[0..<?h - 1] = ds @ i # rs" by blast
    have i: "i + 1 < ?h" using upt_mid [OF rs] by simp
    have nd: "i + 1 \<notin> set ds"
    proof
      assume "i + 1 \<in> set ds"
      moreover have "sorted (ds @ i # rs)" unfolding rs [symmetric] by simp
      ultimately show False by (auto simp: sorted_append)
    qed
    note G = paints_geo [OF p(1)]
    obtain t' where t': "tty_copy_line (i + 1) i t = Inr t'" "paints t (\<lambda>x y'. screen t x (if y' = i then i + 1 else y')) t'"
      using copy_line_ok [of t "i + 1" i] G i by auto
    have "paints t (\<lambda>x y. F (ds @ [i]) x y) t'"
      by (rule paints_change [OF t'(2)]) (use paints_screen [OF p(1)] G i nd in \<open>auto simp: F_def\<close>)
    with t'(1) show "\<exists>t'. tty_copy_line (i + 1) i t = Inr t' \<and> paints t (\<lambda>x y. F (ds @ [i]) x y) t'" by blast
  qed
  then obtain s1 where s1: "kfor (\<lambda>y. tty_copy_line (y + 1) y) [0..<?h - 1] s = Inr s1" "paints s (F [0..<?h - 1]) s1" by blast
  note G = paints_geo [OF s1(2)]
  have h: "0 < ?h" using g by (simp add: tty_geo_def)
  obtain s2 where s2: "tty_clear_line (?h - 1) s1 = Inr s2"
    "paints s1 (\<lambda>x y'. if y' = ?h - 1 then (32, TTY_DEFAULT_ATTRIBUTE) else screen s1 x y') s2"
    using clear_line_ok [of s1 "?h - 1"] G h by auto
  have "paints s (scrolled ?h (screen s)) s2"
    by (rule paints_trans [OF s1(2) s2(2)]) (use paints_screen [OF s1(2)] h in \<open>auto simp: scrolled_def F_def\<close>)
  then show ?thesis using s1(1) s2(1) by (auto simp: tty_scroll_def)
qed


text \<open>The abstract terminal of \<open>w\<close> columns and \<open>h\<close> lines: the cursor and the cells.\<close>

definition spec_end :: "nat \<Rightarrow> nat \<Rightarrow> nat \<times> nat \<times> (nat \<Rightarrow> nat \<Rightarrow> u8 \<times> u8) \<Rightarrow> nat \<times> nat \<times> (nat \<Rightarrow> nat \<Rightarrow> u8 \<times> u8)" where
  "spec_end w h v =
     (case v of (cx, cy, f) \<Rightarrow>
        let (cx, cy) = (if w \<le> cx then (0, cy + 1) else (cx, cy)) in if h \<le> cy then (0, h - 1, scrolled h f) else (cx, cy, f))"

definition spec_putc :: "nat \<Rightarrow> nat \<Rightarrow> u8 \<Rightarrow> nat \<times> nat \<times> (nat \<Rightarrow> nat \<Rightarrow> u8 \<times> u8) \<Rightarrow> nat \<times> nat \<times> (nat \<Rightarrow> nat \<Rightarrow> u8 \<times> u8)" where
  "spec_putc w h c v =
     (case v of (cx, cy, f) \<Rightarrow>
        if c = 10 then spec_end w h (0, cy + 1, f)
        else if c = 8 \<and> 0 < cx then (cx - 1, cy, f)
        else if c = 13 then (0, cy, f)
        else if c = 9 then spec_end w h (cx + 4, cy, f)
        else spec_end w h (cx + 1, cy, \<lambda>x y. if x = cx \<and> y = cy then (c, TTY_DEFAULT_ATTRIBUTE) else f x y))"

definition displays :: "tty \<Rightarrow> nat \<times> nat \<times> (nat \<Rightarrow> nat \<Rightarrow> u8 \<times> u8) \<Rightarrow> bool" where
  "displays s v \<longleftrightarrow> (case v of (cx, cy, f) \<Rightarrow> cursor_x s = cx \<and> cursor_y s = cy \<and> (\<forall>x<tt_width s. \<forall>y<tt_height s. screen s x y = f x y))"

definition same_screen :: "tty \<Rightarrow> tty \<Rightarrow> bool" where
  "same_screen s s' \<longleftrightarrow> tt_width s' = tt_width s \<and> tt_height s' = tt_height s \<and> tt_pitch s' = tt_pitch s"

lemma screen_cursor [simp]:
  "screen (s\<lparr>cursor_x := a\<rparr>) = screen s" "screen (s\<lparr>cursor_y := b\<rparr>) = screen s" "screen (s\<lparr>tt_pos := p\<rparr>) = screen s"
  "tty_geo (s\<lparr>cursor_x := a\<rparr>) = tty_geo s" "tty_geo (s\<lparr>cursor_y := b\<rparr>) = tty_geo s" "tty_geo (s\<lparr>tt_pos := p\<rparr>) = tty_geo s"
  by (auto simp: screen_def tt_cell_def tty_geo_def fun_eq_iff)

lemma tp_end_ok:
  assumes g: "tty_geo s" and c: "cursor_x s < 65536" "cursor_y s < tt_height s + (if cursor_x s < tt_width s then 1 else 0)"
    and v: "displays s (cx, cy, f)"
  shows "\<exists>s'. tp_end s = Inr s' \<and> tty_wf s' \<and> same_screen s s' \<and> displays s' (spec_end (tt_width s) (tt_height s) (cx, cy, f)) \<and>
    tt_pos s' = (cursor_y s' * tt_width s' + cursor_x s') mod 65536"
proof -
  define t where "t = (if tt_width s \<le> cursor_x s then s\<lparr>cursor_x := 0, cursor_y := (cursor_y s + 1) mod 65536\<rparr> else s)"
  have gs: "0 < tt_width s" "0 < tt_height s" "tt_height s < 65536" using g by (auto simp: tty_geo_def)
  have t: "tty_geo t" "same_screen s t" "cursor_x t < tt_width s" "screen t = screen s"
    "(cursor_x t, cursor_y t) = (if tt_width s \<le> cx then (0, cy + 1) else (cx, cy))"
    using g gs c v by (auto simp: t_def same_screen_def displays_def)
  show ?thesis
  proof (cases "tt_height s \<le> cursor_y t")
    case True
    obtain u where u: "tty_scroll t = Inr u" "paints t (scrolled (tt_height t) (screen t)) u" using scroll_ok [OF t(1)] by blast
    note G = paints_geo [OF u(2)]
    have "tp_end s = Inr (tty_update_cursor (u\<lparr>cursor_x := 0, cursor_y := tt_height u - 1\<rparr>))"
      using True t(2) u(1) by (simp add: tp_end_def t_def [symmetric] same_screen_def)
    moreover have "displays (u\<lparr>cursor_x := 0, cursor_y := tt_height u - 1\<rparr>) (spec_end (tt_width s) (tt_height s) (cx, cy, f))"
      using True t u(2) G v gs by (auto simp: displays_def spec_end_def paints_def same_screen_def scrolled_def split: if_splits)
    ultimately show ?thesis using G t(2) gs by (simp add: tty_update_cursor_def tty_wf_def same_screen_def displays_def split: prod.splits)
  next
    case False
    have "tp_end s = Inr (tty_update_cursor t)" using False t(2) by (simp add: tp_end_def t_def [symmetric] same_screen_def)
    moreover have "displays t (spec_end (tt_width s) (tt_height s) (cx, cy, f))"
      using False t v by (auto simp: displays_def spec_end_def same_screen_def split: if_splits)
    ultimately show ?thesis using t False by (simp add: tty_update_cursor_def tty_wf_def same_screen_def displays_def split: prod.splits)
  qed
qed


lemma tp_plain_ok:
  assumes wf: "tty_wf s" and v: "displays s (cx, cy, f)" and c: "c \<noteq> 10"
  shows "\<exists>s'. tp_plain c s = Inr s' \<and> tty_wf s' \<and> same_screen s s' \<and> displays s' (spec_putc (tt_width s) (tt_height s) c (cx, cy, f)) \<and>
    tt_pos s' = (cursor_y s' * tt_width s' + cursor_x s') mod 65536"
proof -
  have g: "tty_geo s" "cursor_x s < tt_width s" "cursor_y s < tt_height s" "tt_width s \<le> 65532" using wf by (auto simp: tty_wf_def tty_geo_def)
  have cc: "cursor_x s = cx" "cursor_y s = cy" using v by (auto simp: displays_def)
  have same: "spec_end (tt_width s) (tt_height s) (x, cy, f) = (x, cy, f)" if "x < tt_width s" for x using g(3) cc(2) that by (simp add: spec_end_def)
  consider "c = 8 \<and> 0 < cx" | "c = 13" | "c = 9" | "\<not> (c = 8 \<and> 0 < cx)" "c \<noteq> 13" "c \<noteq> 9" by blast
  then show ?thesis
  proof cases
    case 1
    from tp_end_ok [of "s\<lparr>cursor_x := cx - 1\<rparr>" "cx - 1" cy f] 1 g cc v same [of "cx - 1"]
    show ?thesis by (simp add: tp_plain_def spec_putc_def displays_def same_screen_def)
  next
    case 2
    from tp_end_ok [of "s\<lparr>cursor_x := 0\<rparr>" 0 cy f] 2 g cc v same [of 0]
    show ?thesis by (simp add: tp_plain_def spec_putc_def displays_def same_screen_def)
  next
    case 3
    from tp_end_ok [of "s\<lparr>cursor_x := cx + 4\<rparr>" "cx + 4" cy f] 3 g cc v
    show ?thesis by (simp add: tp_plain_def spec_putc_def displays_def same_screen_def)
  next
    case 4
    obtain t where t: "tt_store cx cy c TTY_DEFAULT_ATTRIBUTE s = Inr t"
      "paints s (\<lambda>x' y'. if x' = cx \<and> y' = cy then (c, TTY_DEFAULT_ATTRIBUTE) else screen s x' y') t"
      using tt_store_ok [OF g(1-3), unfolded cc] by blast
    note G = paints_geo [OF t(2)]
    let ?f = "\<lambda>x y. if x = cx \<and> y = cy then (c, TTY_DEFAULT_ATTRIBUTE) else f x y"
    have "tp_plain c s = tp_end (t\<lparr>cursor_x := cx + 1\<rparr>)" using 4 t(1) G g cc by (auto simp: tp_plain_def)
    moreover have "spec_putc (tt_width s) (tt_height s) c (cx, cy, f) = spec_end (tt_width s) (tt_height s) (cx + 1, cy, ?f)"
      using 4 c by (auto simp: spec_putc_def)
    moreover have "displays (t\<lparr>cursor_x := cx + 1\<rparr>) (cx + 1, cy, ?f)"
      using v G cc t(2) by (auto simp: displays_def paints_def)
    ultimately show ?thesis using tp_end_ok [of "t\<lparr>cursor_x := cx + 1\<rparr>" "cx + 1" cy ?f] G g cc by (simp add: same_screen_def)
  qed
qed

text \<open>C13: Printing any character on a text screen whose cursor is inside it succeeds, writes only inside the screen memory, leaves the
  cursor inside, and shows what an abstract terminal shows: printable characters at the cursor, backspace, carriage return,
  tabulator and newline, wrapping at the right margin and scrolling at the bottom. The hardware cursor follows.\<close>

theorem tty_putc_refines:
  assumes "tty_wf s" "displays s v"
  shows "\<exists>s'. tty_putc c s = Inr s' \<and> tty_wf s' \<and> same_screen s s' \<and> displays s' (spec_putc (tt_width s) (tt_height s) c v) \<and>
    tt_pos s' = (cursor_y s' * tt_width s' + cursor_x s') mod 65536"
proof -
  obtain cx cy f where v: "v = (cx, cy, f)" by (cases v)
  show ?thesis
  proof (cases "c = 10")
    case True
    obtain t where t: "tp_plain 13 s = Inr t" "tty_wf t" "same_screen s t" "displays t (0, cy, f)"
      using tp_plain_ok [OF assms(1), of cx cy f 13] assms(2) by (auto simp: v spec_putc_def)
    have h: "tt_height t < 65536" "cursor_y t < tt_height t" "0 < tt_width t" using t(2) by (auto simp: tty_wf_def tty_geo_def)
    have "displays (t\<lparr>cursor_x := 0, cursor_y := (cursor_y t + 1) mod 65536\<rparr>) (0, cy + 1, f)" using t(4) h by (auto simp: displays_def)
    from tp_end_ok [OF _ _ _ this] t(2,3) h obtain s' where "tp_end (t\<lparr>cursor_x := 0, cursor_y := (cursor_y t + 1) mod 65536\<rparr>) = Inr s'"
      "tty_wf s'" "same_screen s s'" "displays s' (spec_end (tt_width s) (tt_height s) (0, cy + 1, f))"
      "tt_pos s' = (cursor_y s' * tt_width s' + cursor_x s') mod 65536" by (auto simp: same_screen_def tty_wf_def)
    then show ?thesis using True t(1) assms(1) by (simp add: tty_putc_def tty_wf_def v spec_putc_def)
  next
    case False
    then show ?thesis using tp_plain_ok [OF assms(1) _ False, of cx cy f] assms(2) by (simp add: tty_putc_def v)
  qed
qed

text \<open>A screen of two columns and two lines with the cursor in the last cell.\<close>

definition ex_tty :: tty where
  "ex_tty = \<lparr>tt_mem = [97, 7, 98, 7, 99, 7, 32, 7], cursor_x = 1, cursor_y = 1, tt_width = 2, tt_height = 2, tt_pitch = 4, tt_pos = 3\<rparr>"

theorem tty_putc_refines_witness:
  "\<exists>s'. tty_putc 100 ex_tty = Inr s' \<and> cursor_x s' = 0 \<and> cursor_y s' = 1 \<and> screen s' 0 0 = (99, 7) \<and> screen s' 1 0 = (100, 7) \<and>
    screen s' 0 1 = (32, 7)"
proof -
  have wf: "tty_wf ex_tty" "displays ex_tty (1, 1, screen ex_tty)" by (simp_all add: tty_wf_def tty_geo_def displays_def ex_tty_def)
  have dim: "tt_width ex_tty = 2" "tt_height ex_tty = 2" by (simp_all add: ex_tty_def)
  have sp: "spec_putc (tt_width ex_tty) (tt_height ex_tty) 100 (1, 1, screen ex_tty) =
    (0, 1, scrolled 2 (\<lambda>x y. if x = 1 \<and> y = 1 then (100, TTY_DEFAULT_ATTRIBUTE) else screen ex_tty x y))"
    using dim by (simp add: spec_putc_def spec_end_def)
  have c: "screen ex_tty 0 1 = (99, 7)" by (simp add: screen_def ex_tty_def tt_cell_def)
  obtain s' where s': "tty_putc 100 ex_tty = Inr s'" "same_screen ex_tty s'"
    "displays s' (0, 1, scrolled 2 (\<lambda>x y. if x = 1 \<and> y = 1 then (100, TTY_DEFAULT_ATTRIBUTE) else screen ex_tty x y))"
    using tty_putc_refines [OF wf, of 100] unfolding sp by blast
  then have "tt_width s' = 2" "tt_height s' = 2" by (simp_all add: same_screen_def ex_tty_def)
  then show ?thesis using s'(1,3) c by (auto simp: displays_def scrolled_def TTY_DEFAULT_ATTRIBUTE_def)
qed

end
