(* ===== verification/Printf_Props.thy ===== *)
theory Printf_Props
  imports Console
begin

text \<open>
  Formatted output. A format is described by its items; \<open>vprintf\<close> on the format string of a list of items and its arguments
  writes the text of the items one after the other.
\<close>

datatype fitem = FLit u8 | FPercent | FChar u32 | FStr "cstr option" | FNat u32 | FHex u32 | FPtr u32

fun fmt_of :: "fitem \<Rightarrow> cstr" where
  "fmt_of (FLit c) = [c]"
| "fmt_of FPercent = [37, 37]"
| "fmt_of (FChar v) = [37, 99]"
| "fmt_of (FStr s) = [37, 115]"
| "fmt_of (FNat v) = [37, 117]"
| "fmt_of (FHex v) = [37, 120]"
| "fmt_of (FPtr v) = [37, 112]"

fun args_of :: "fitem \<Rightarrow> parg list" where
  "args_of (FLit c) = []"
| "args_of FPercent = []"
| "args_of (FChar v) = [PInt v]"
| "args_of (FStr s) = [PStr s]"
| "args_of (FNat v) = [PInt v]"
| "args_of (FHex v) = [PInt v]"
| "args_of (FPtr v) = [PInt v]"

fun text_of :: "fitem \<Rightarrow> u8 list" where
  "text_of (FLit c) = [c]"
| "text_of FPercent = [37]"
| "text_of (FChar v) = [ucast v]"
| "text_of (FStr s) = puts s"
| "text_of (FNat v) = number_string 10 0 (unat v)"
| "text_of (FHex v) = number_string 16 0 (unat v)"
| "text_of (FPtr v) = [42, 48, 120] @ number_string 16 0 (unat v)"

lemma digit_char_nonzero: "d < 36 \<Longrightarrow> digit_char d \<noteq> 0"
proof -
  assume "d < 36"
  then have "unat (digit_char d) = (if d < 10 then 48 + d else 87 + d)" unfolding digit_char_def by (auto simp: unat_word_ariths(1) unat_of_nat)
  then show ?thesis by (auto split: if_splits)
qed

lemma number_string_nonzero: "2 \<le> base \<Longrightarrow> base \<le> 36 \<Longrightarrow> c \<in> set (number_string base width v) \<Longrightarrow> c \<noteq> 0"
  using digits_less [of base] digit_char_nonzero by (fastforce simp: number_string_def)

text \<open>A number without a width fits the buffer.\<close>

lemma pf_utoa:
  assumes "2 \<le> base" "base \<le> 36" "256 \<le> length junk"
  shows "pf_number (\<lambda>b. utoa v b base 0) junk = Inr (number_string (nat base) 0 (unat v))"
proof -
  have b: "2 \<le> nat base" "nat base \<le> 36" using assms by linarith+
  have "unat v < 2 ^ 32" using unsigned_less [of v, where 'a = nat] by simp
  then have "length (digits (nat base) (unat v)) \<le> 32" using digits_length [OF b(1), of "unat v" 32] by simp
  then have l: "length (number_string (nat base) (nat 0) (unat v)) < length (take 256 junk)"
    using assms(3) unfolding number_string_length by simp
  have "takeWhile (\<lambda>c. c \<noteq> 0) (number_string (nat base) 0 (unat v) @ 0 # ws) = number_string (nat base) 0 (unat v)" for ws
    using number_string_nonzero [OF b] by (subst takeWhile_append2) auto
  then show ?thesis using utoa_ok [OF assms(1,2) l] by (simp add: pf_number_def)
qed

lemma fmt_step:
  assumes "case i of FLit c \<Rightarrow> c \<noteq> 37 | _ \<Rightarrow> True" "256 \<le> length junk"
  shows "vprintf junk (fmt_of i @ fmt) (args_of i @ args) = kbind (vprintf junk fmt args) (\<lambda>out. Inr (text_of i @ out))"
  using assms
  by (cases i) (simp_all add: vprintf.simps [of junk "_ # _"] skip_l_def pf_arg_def pf_utoa)

text \<open>C38: \<open>vprintf\<close> on the format string that belongs to a list of items (characters, percent signs, and the conversions c, s, u, x and p
  without a width) writes the texts of the items in order: the strings, and the decimal and hexadecimal digits of the
  numbers.\<close>

theorem vprintf_items:
  assumes "\<forall>i\<in>set items. case i of FLit c \<Rightarrow> c \<noteq> 37 | _ \<Rightarrow> True" "256 \<le> length junk"
  shows "vprintf junk (concat (map fmt_of items)) (concat (map args_of items)) = Inr (concat (map text_of items))"
  using assms(1)
proof (induction items)
  case Nil
  then show ?case by (simp add: vprintf.simps)
next
  case (Cons i items)
  then show ?case using fmt_step [of i junk "concat (map fmt_of items)" "concat (map args_of items)"] assms(2) by simp
qed

theorem vprintf_items_witness:
  "vprintf (replicate 256 1) [120, 61, 37, 117] [PInt 42] = Inr [120, 61, 52, 50]"
proof -
  have n: "number_string 10 0 42 = [52, 50]" by code_simp
  have j: "256 \<le> length (replicate 256 (1 :: u8))" by simp
  show ?thesis using vprintf_items [OF _ j, of "[FLit 120, FLit 61, FNat 42]"] by (simp add: n del: replicate.simps)
qed

end
