(* ===== verification/Platform.thy ===== *)
theory Platform
  imports Prelude
begin

text \<open>
  The platform code with data of its own: segment descriptors and the task state segment (src/kernel/gdt.c), interrupt
  descriptors (src/kernel/idt.c), the handlers of the interrupt vectors (src/kernel/isr.c) and of the interrupts (src/kernel/irq.c), the interrupt
  controller as the ports written (src/kernel/pic.c), and PCI configuration access with the search for devices (src/kernel/pci.c).
  The configuration space of the PCI bus is a parameter, \<open>cs\<close>: it gives the four bytes that the data port shows for an address in the
  address port, and does not change during a search. The drivers' interrupt handlers are parameters too: functions on a state of
  their own that say whether they handled the interrupt. A handler pointer that is NULL is \<open>None\<close>.
\<close>

section \<open>Segment descriptors\<close>

record gdt_entry_t =
  limit_low :: u16
  base_low :: u16
  base_middle :: u8
  gdt_access :: u8
  granularity :: u8
  base_high :: u8

definition gdt_gate :: "u32 \<Rightarrow> u32 \<Rightarrow> u8 \<Rightarrow> u8 \<Rightarrow> gdt_entry_t" where
  "gdt_gate base limit acc gran =
     \<lparr>limit_low = ucast (limit AND 0xFFFF), base_low = ucast (base AND 0xFFFF), base_middle = ucast (drop_bit 16 base AND 0xFF),
      gdt_access = acc, granularity = ucast ((drop_bit 16 limit AND 0x0F) OR (ucast gran AND 0xF0)),
      base_high = ucast (drop_bit 24 base AND 0xFF)\<rparr>"

definition gdt_set_gate :: "nat \<Rightarrow> u32 \<Rightarrow> u32 \<Rightarrow> u8 \<Rightarrow> u8 \<Rightarrow> gdt_entry_t list \<Rightarrow> gdt_entry_t list res" where
  "gdt_set_gate i base limit acc gran gdt = kstore gdt i (gdt_gate base limit acc gran)"

text \<open>The task state segment, its fields in the order of the source.\<close>

record tss_t =
  tss_link :: u32
  esp0 :: u32
  ss0 :: u32
  esp1 :: u32
  ss1 :: u32
  esp2 :: u32
  ss2 :: u32
  tss_cr3 :: u32
  tss_eip :: u32
  tss_eflags :: u32
  tss_eax :: u32
  tss_ecx :: u32
  tss_ebx :: u32
  tss_esp :: u32
  tss_ebp :: u32
  tss_esi :: u32
  tss_edi :: u32
  tss_es :: u32
  tss_cs :: u32
  tss_ss :: u32
  tss_ds :: u32
  tss_fs :: u32
  tss_gs :: u32
  tss_ldt :: u32
  tss_trap :: u16
  iopb_offset :: u16

definition sizeof_tss :: nat where "sizeof_tss = 24 * 4 + 2 * 2"

definition tss_cleared :: tss_t where
  "tss_cleared =
     \<lparr>tss_link = 0, esp0 = 0, ss0 = 0, esp1 = 0, ss1 = 0, esp2 = 0, ss2 = 0, tss_cr3 = 0, tss_eip = 0, tss_eflags = 0, tss_eax = 0,
      tss_ecx = 0, tss_ebx = 0, tss_esp = 0, tss_ebp = 0, tss_esi = 0, tss_edi = 0, tss_es = 0, tss_cs = 0, tss_ss = 0, tss_ds = 0,
      tss_fs = 0, tss_gs = 0, tss_ldt = 0, tss_trap = 0, iopb_offset = 0\<rparr>"

text \<open>\<open>gdt_init\<close>, before the tables are loaded into the processor; \<open>tss_base\<close> is the address of the task state segment.\<close>

definition gdt_init :: "u32 \<Rightarrow> gdt_entry_t list \<Rightarrow> (tss_t \<times> gdt_entry_t list) res" where
  "gdt_init tss_base gdt =
     (let tss = tss_cleared\<lparr>ss0 := 0x10, esp0 := 0, iopb_offset := of_nat sizeof_tss, tss_cs := 0x0b, tss_ss := 0x13, tss_ds := 0x13,
                            tss_es := 0x13, tss_fs := 0x13, tss_gs := 0x13\<rparr>
      in kbind (gdt_set_gate 0 0 0 0x01 0x00 gdt) (\<lambda>gdt.
         kbind (gdt_set_gate 1 0 0xFFFFFFFF 0x9b 0xC0 gdt) (\<lambda>gdt.
         kbind (gdt_set_gate 2 0 0xFFFFFFFF 0x93 0xC0 gdt) (\<lambda>gdt.
         kbind (gdt_set_gate 3 0 0xFFFFFFFF 0xF9 0xC0 gdt) (\<lambda>gdt.
         kbind (gdt_set_gate 4 0 0xFFFFFFFF 0xF3 0xC0 gdt) (\<lambda>gdt.
         kbind (gdt_set_gate 5 tss_base (of_nat sizeof_tss) 0x89 0x40 gdt) (\<lambda>gdt. Inr (tss, gdt))))))))"

definition tss_set_kstack :: "u32 \<Rightarrow> tss_t \<Rightarrow> tss_t" where
  "tss_set_kstack stack tss = tss\<lparr>esp0 := stack\<rparr>"

section \<open>Interrupt descriptors\<close>

record idt_entry =
  offset_low :: u16
  selector :: u16
  idt_zero :: u8
  type_attr :: u8
  offset_high :: u16

definition idt_set_gate :: "nat \<Rightarrow> u32 \<Rightarrow> u16 \<Rightarrow> u8 \<Rightarrow> idt_entry list \<Rightarrow> idt_entry list res" where
  "idt_set_gate i isr sel flags idt =
     kstore idt i \<lparr>offset_low = ucast (isr AND 0xFFFF), selector = sel, idt_zero = 0, type_attr = flags,
                   offset_high = ucast (drop_bit 16 isr AND 0xFFFF)\<rparr>"

text \<open>The addresses of the assembly stubs \<open>_isr0\<close> to \<open>_isr47\<close> and \<open>_isr128\<close> are the parameter \<open>stub\<close>.\<close>

definition idt_install :: "idt_entry list" where
  "idt_install = replicate 256 \<lparr>offset_low = 0, selector = 0, idt_zero = 0, type_attr = 0, offset_high = 0\<rparr>"

definition isr_init :: "(nat \<Rightarrow> u32) \<Rightarrow> idt_entry list \<Rightarrow> idt_entry list res" where
  "isr_init stub idt =
     kbind (kfor (\<lambda>i. idt_set_gate i (stub i) 0x08 0x8E) [0..<48] idt) (idt_set_gate 0x80 (stub 128) 0x08 0xEE)"

text \<open>The fields as the processor reads them.\<close>

definition seg_base :: "gdt_entry_t \<Rightarrow> u32" where
  "seg_base e = ucast (base_low e) OR push_bit 16 (ucast (base_middle e)) OR push_bit 24 (ucast (base_high e))"

definition seg_limit :: "gdt_entry_t \<Rightarrow> u32" where
  "seg_limit e = ucast (limit_low e) OR push_bit 16 (ucast (granularity e) AND 0x0F)"

definition gate_offset :: "idt_entry \<Rightarrow> u32" where
  "gate_offset e = ucast (offset_low e) OR push_bit 16 (ucast (offset_high e))"

text \<open>What the processor reads from a segment descriptor is what \<open>gdt_set_gate\<close> was given: the base, the low 20 bits of the limit,
  the access byte and the high four bits of the granularity. The same for the offset, selector and type of an interrupt gate.\<close>

lemma bit_F0: "bit (0xF0 :: int) n \<longleftrightarrow> 4 \<le> n \<and> n < 8"
proof -
  have h: "(0xF0 :: int) = push_bit 4 (mask 4)" by (simp add: mask_eq_exp_minus_1 push_bit_eq_mult)
  show ?thesis unfolding h bit_push_bit_iff bit_mask_iff by auto
qed

lemma mask_consts: "(0xFFFF :: u32) = mask 16" "(0xFF :: u32) = mask 8" "(0x0F :: u32) = mask 4" "(0xFFFFF :: u32) = mask 20"
  by (simp_all add: mask_eq_exp_minus_1)

lemma seg_base_gate [simp]: "seg_base (gdt_gate base limit acc gran) = base"
proof (rule bit_word_eqI)
  fix n
  assume "n < LENGTH(32)"
  then show "bit (seg_base (gdt_gate base limit acc gran)) n = bit base n" by (cases "n < 24") (auto simp: seg_base_def gdt_gate_def mask_consts bit_simps)
qed

lemma seg_limit_gate [simp]: "seg_limit (gdt_gate base limit acc gran) = limit AND 0xFFFFF"
proof (rule bit_word_eqI)
  fix n
  have e: "bit (0xF0 :: int) k \<Longrightarrow> \<not> k < 4" for k unfolding bit_F0 by simp
  show "bit (seg_limit (gdt_gate base limit acc gran)) n = bit (limit AND 0xFFFFF) n"
    by (cases "n < 16") (auto simp: seg_limit_def gdt_gate_def mask_consts bit_simps dest!: le_Suc_ex dest: e)
qed

lemma gate_attributes [simp]:
  "gdt_access (gdt_gate base limit acc gran) = acc" "granularity (gdt_gate base limit acc gran) AND 0xF0 = gran AND 0xF0"
proof -
  show "granularity (gdt_gate base limit acc gran) AND 0xF0 = gran AND 0xF0"
    by (rule bit_word_eqI) (auto simp: gdt_gate_def mask_consts bit_simps bit_F0)
qed (simp add: gdt_gate_def)

lemma idt_set_gate_reads:
  assumes "idt_set_gate j isr sel flags idt = Inr d"
  shows "j < length idt" "length d = length idt" "gate_offset (d ! j) = isr" "selector (d ! j) = sel" "type_attr (d ! j) = flags"
    "k \<noteq> j \<Longrightarrow> d ! k = idt ! k"
proof -
  have "gate_offset \<lparr>offset_low = ucast (isr AND 0xFFFF), selector = sel, idt_zero = 0, type_attr = flags,
      offset_high = ucast (drop_bit 16 isr AND 0xFFFF)\<rparr> = isr"
    by (rule bit_word_eqI) (auto simp: gate_offset_def mask_consts bit_simps)
  then show "gate_offset (d ! j) = isr" using assms by (auto simp: idt_set_gate_def)
qed (use assms in \<open>auto simp: idt_set_gate_def\<close>)

text \<open>After \<open>isr_init\<close> the gates of the exceptions, the interrupts and the system call lead to their stubs in the kernel's code segment; only the gate of the
  system call may be used by user programs.\<close>

definition gate_ok :: "(nat \<Rightarrow> u32) \<Rightarrow> idt_entry list \<Rightarrow> nat \<Rightarrow> u8 \<Rightarrow> bool" where
  "gate_ok stub d i flags \<longleftrightarrow> gate_offset (d ! i) = stub i \<and> selector (d ! i) = 0x08 \<and> type_attr (d ! i) = flags"

lemma isr_init_gates:
  "\<exists>d. isr_init stub idt_install = Inr d \<and> length d = 256 \<and> (\<forall>i<48. gate_ok stub d i 0x8E) \<and> gate_ok stub d 0x80 0xEE"
proof -
  let ?P = "\<lambda>done d. length d = 256 \<and> (\<forall>i\<in>set done. gate_ok stub d i 0x8E)"
  have "\<exists>d. kfor (\<lambda>i. idt_set_gate i (stub i) 0x08 0x8E) [0..<48] idt_install = Inr d \<and> ?P [0..<48] d"
  proof (rule kfor_inv)
    show "?P [] idt_install" by (simp add: idt_install_def)
  next
    fix "done" x d
    assume d: "?P done d" and x: "\<exists>ys. [0..<48] = done @ x # ys"
    have "x \<in> set [0..<48]" using x by force
    then have "x < 256" by simp
    then obtain d' where d': "idt_set_gate x (stub x) 0x08 0x8E d = Inr d'" using d by (simp add: idt_set_gate_def)
    note f = idt_set_gate_reads [OF d']
    have "gate_ok stub d' i 0x8E" if "i \<in> set (done @ [x])" for i
      using that d f by (cases "i = x") (auto simp: gate_ok_def)
    then show "\<exists>d'. idt_set_gate x (stub x) 0x08 0x8E d = Inr d' \<and> ?P (done @ [x]) d'" using d' f(2) d by auto
  qed
  then obtain d where d: "kfor (\<lambda>i. idt_set_gate i (stub i) 0x08 0x8E) [0..<48] idt_install = Inr d" "length d = 256"
    "\<forall>i<48. gate_ok stub d i 0x8E" by auto
  obtain d' where d': "idt_set_gate 0x80 (stub 128) 0x08 0xEE d = Inr d'" using d by (simp add: idt_set_gate_def)
  note f = idt_set_gate_reads [OF d']
  have "\<forall>i<48. gate_ok stub d' i 0x8E" using d(3) f(6) by (simp add: gate_ok_def)
  moreover have "isr_init stub idt_install = Inr d'" unfolding isr_init_def d kbind.simps by (rule d')
  ultimately show ?thesis using f d(2) by (auto simp: gate_ok_def)
qed

text \<open>Kernel code, kernel data, user code and user data cover the whole address space; the task descriptor lies at the segment.\<close>

lemma gdt_init_segments:
  assumes "length gdt = 6"
  shows "\<exists>tss g. gdt_init b gdt = Inr (tss, g) \<and> length g = 6 \<and> esp0 tss = 0 \<and> ss0 tss = 0x10 \<and>
    (\<forall>k\<in>{1,2,3,4}. seg_base (g ! k) = 0 \<and> seg_limit (g ! k) = 0xFFFFF) \<and> seg_base (g ! 5) = b \<and> seg_limit (g ! 5) = of_nat sizeof_tss \<and>
    map gdt_access g = [0x01, 0x9b, 0x93, 0xF9, 0xF3, 0x89]"
proof -
  let ?g = "[gdt_gate 0 0 0x01 0x00, gdt_gate 0 0xFFFFFFFF 0x9b 0xC0, gdt_gate 0 0xFFFFFFFF 0x93 0xC0, gdt_gate 0 0xFFFFFFFF 0xF9 0xC0,
    gdt_gate 0 0xFFFFFFFF 0xF3 0xC0, gdt_gate b (of_nat sizeof_tss) 0x89 0x40]"
  obtain c0 c1 c2 c3 c4 c5 where g: "gdt = [c0, c1, c2, c3, c4, c5]" using assms by (auto simp: length_Suc_conv numeral_eq_Suc)
  have "\<exists>tss. gdt_init b gdt = Inr (tss, ?g) \<and> esp0 tss = 0 \<and> ss0 tss = 0x10"
    unfolding g by (simp add: gdt_init_def gdt_set_gate_def Let_def tss_cleared_def)
  then show ?thesis by (auto simp: sizeof_tss_def)
qed

section \<open>Interrupt handlers\<close>

text \<open>The table has eight places for each of the 16 interrupts; a place is empty or holds a handler with its argument. \<open>run\<close> calls a handler
  and says whether it handled the interrupt.\<close>

fun ih_insert :: "'h \<Rightarrow> 'h option list \<Rightarrow> 'h option list res" where
  "ih_insert h [] = Inl AssertFailed"
| "ih_insert h (e # es) = (if Option.is_none e then Inr (Some h # es) else kbind (ih_insert h es) (\<lambda>es. Inr (e # es)))"

definition irq_set_handler :: "nat \<Rightarrow> 'h \<Rightarrow> 'h option list list \<Rightarrow> 'h option list list res" where
  "irq_set_handler irq h tab = kbind (kload tab irq) (\<lambda>es. kbind (ih_insert h es) (kstore tab irq))"

fun ih_run :: "('h \<Rightarrow> nat \<Rightarrow> 's \<Rightarrow> (bool \<times> 's) res) \<Rightarrow> nat \<Rightarrow> 'h option list \<Rightarrow> 's \<Rightarrow> (bool \<times> 's) res" where
  "ih_run run irq [] s = Inr (False, s)"
| "ih_run run irq (e # es) s =
     (case e of
        None \<Rightarrow> Inr (False, s)
      | Some h \<Rightarrow> kbind (run h irq s) (\<lambda>(handled, s). if handled then Inr (True, s) else ih_run run irq es s))"

definition irq_handler :: "('h \<Rightarrow> nat \<Rightarrow> 's \<Rightarrow> (bool \<times> 's) res) \<Rightarrow> nat \<Rightarrow> nat \<Rightarrow> 'h option list list \<Rightarrow> 's \<Rightarrow> 's res" where
  "irq_handler run isr_num err_code tab s =
     kbind (kassert (32 \<le> isr_num \<and> isr_num \<le> 48)) (\<lambda>_.
     kbind (kload tab err_code) (\<lambda>es.
     kbind (ih_run run err_code es s) (\<lambda>(handled, s).
       if handled \<or> err_code = 7 \<or> err_code = 15 then Inr s else Inl Halted)))"

text \<open>The handlers of the 256 interrupt vectors; \<open>call\<close> calls one with the vector and the error code of the saved registers.\<close>

definition isr_set_handler :: "nat \<Rightarrow> 'f \<Rightarrow> 'f option list \<Rightarrow> 'f option list res" where
  "isr_set_handler i handler isrs =
     kbind (kload isrs i) (\<lambda>e. kbind (kassert (Option.is_none e)) (\<lambda>_. kstore isrs i (Some handler)))"

definition handle_isr :: "('f \<Rightarrow> nat \<Rightarrow> nat \<Rightarrow> 's \<Rightarrow> 's res) \<Rightarrow> 'f option list \<Rightarrow> nat \<Rightarrow> nat \<Rightarrow> 's \<Rightarrow> 's res" where
  "handle_isr call isrs isr_num err_code s =
     kbind (kload isrs isr_num) (\<lambda>h.
       case h of
         Some f \<Rightarrow> call f isr_num err_code s
       | None \<Rightarrow> if isr_num < 32 then Inl Halted else Inl AssertFailed)"

definition irq_init :: "'f \<Rightarrow> 'f option list \<Rightarrow> 'f option list res" where
  "irq_init handler isrs = kfor (\<lambda>i. isr_set_handler (i + 32) handler) [0..<16] isrs"

definition PIC_EOI :: u8 where "PIC_EOI = 0x20"

text \<open>The ports written.\<close>

definition pic_send_eoi :: "nat \<Rightarrow> (u16 \<times> u8) list" where
  "pic_send_eoi irq = (if 8 \<le> irq then [(0xA0, PIC_EOI)] else []) @ [(0x20, PIC_EOI)]"

definition irq_ack :: "nat \<Rightarrow> (u16 \<times> u8) list" where
  "irq_ack irq = pic_send_eoi irq"

definition pic_init :: "(u16 \<times> u8) list" where
  "pic_init = [(0x20, 0x11), (0xA0, 0x11), (0x21, 0x20), (0xA1, 0x28), (0x21, 0x04), (0xA1, 0x02), (0x21, 0x01), (0xA1, 0x01)]"

text \<open>Handlers run in the order in which they were registered, up to the first that does not ignore the interrupt.\<close>

lemma ih_insert_ok: "length hs < n \<Longrightarrow> ih_insert h (map Some hs @ replicate (n - length hs) None) = Inr (map Some (hs @ [h]) @ replicate (n - length (hs @ [h])) None)"
proof (induction hs arbitrary: n)
  case Nil
  then show ?case by (cases n) auto
next
  case (Cons x hs)
  then show ?case using Cons.IH [of "n - 1"] by (cases n) auto
qed

lemma ih_run_found:
  assumes "\<forall>g\<in>set gs. run g irq s = Inr (False, s)" "run h irq s = Inr (True, t)"
  shows "ih_run run irq (map Some (gs @ h # hs) @ es) s = Inr (True, t)"
  using assms by (induction gs) auto

text \<open>After \<open>irq_init\<close> every interrupt vector is served by the same function.\<close>

lemma irq_init_ok: "\<exists>isrs. irq_init f (replicate 256 None) = Inr isrs \<and> length isrs = 256 \<and> (\<forall>i<16. isrs ! (i + 32) = Some f)"
proof -
  let ?P = "\<lambda>done isrs. length isrs = 256 \<and> (\<forall>i\<in>set done. isrs ! (i + 32) = Some f) \<and> (\<forall>i<256. i \<notin> (\<lambda>k. k + 32) ` set done \<longrightarrow> isrs ! i = None)"
  have "\<exists>isrs. kfor (\<lambda>i. isr_set_handler (i + 32) f) [0..<16] (replicate 256 None) = Inr isrs \<and> ?P [0..<16] isrs"
  proof (rule kfor_inv)
    fix "done" x isrs
    assume p: "?P done isrs" and x: "\<exists>ys. [0..<16] = done @ x # ys"
    obtain ys where ys: "[0..<16] = done @ x # ys" using x by blast
    have "x \<in> set [0..<16]" "x \<notin> set done" using distinct_upt [of 0 16] unfolding ys by simp_all
    then have x': "x + 32 < 256" "x + 32 \<notin> (\<lambda>k. k + 32) ` set done" by auto
    then have "isrs ! (x + 32) = None" using p by blast
    then show "\<exists>isrs'. isr_set_handler (x + 32) f isrs = Inr isrs' \<and> ?P (done @ [x]) isrs'"
      using p x'(1) by (auto simp: isr_set_handler_def nth_list_update)
  qed simp
  then show ?thesis by (auto simp: irq_init_def)
qed

lemma irq_set_handlers:
  assumes "irq < length tab" "tab ! irq = map Some gs @ replicate (8 - length gs) None" "length gs + length hs \<le> 8"
  shows "\<exists>tab'. kfor (irq_set_handler irq) hs tab = Inr tab' \<and> length tab' = length tab \<and>
    tab' ! irq = map Some (gs @ hs) @ replicate (8 - length (gs @ hs)) None"
  using assms
proof (induction hs arbitrary: gs tab)
  case (Cons h hs)
  have t: "irq_set_handler irq h tab = Inr (tab[irq := map Some (gs @ [h]) @ replicate (8 - length (gs @ [h])) None])"
    using Cons.prems ih_insert_ok [of gs 8 h] by (simp add: irq_set_handler_def)
  show ?case using Cons.IH [of "tab[irq := map Some (gs @ [h]) @ replicate (8 - length (gs @ [h])) None]" "gs @ [h]"] Cons.prems
    unfolding kfor.simps t kbind.simps by simp
qed simp

text \<open>C30: From the gate to the driver: the gate of interrupt \<open>irq\<close> leads to stub number \<open>32 + irq\<close> of the kernel, and when that stub calls \<open>handle_isr\<close> with the number of the
  interrupt, the drivers registered for it with \<open>irq_set_handler\<close> run in the order of their registration up to the first that handles
  it; the others are not called, and the kernel goes on with the state that this driver left.\<close>

theorem irq_delivered:
  assumes "irq < 16" "length (gs @ h # hs) \<le> 8"
    and "\<forall>g\<in>set gs. run g irq s = Inr (False, s)" "run h irq s = Inr (True, t)"
  shows "\<exists>d isrs tab. isr_init stub idt_install = Inr d \<and> gate_ok stub d (32 + irq) 0x8E \<and>
    irq_init f (replicate 256 None) = Inr isrs \<and> kfor (irq_set_handler irq) (gs @ h # hs) (replicate 16 (replicate 8 None)) = Inr tab \<and>
    handle_isr (\<lambda>_ n e. irq_handler run n e tab) isrs (32 + irq) irq s = Inr t"
proof -
  obtain d where d: "isr_init stub idt_install = Inr d" "\<forall>i<48. gate_ok stub d i 0x8E" using isr_init_gates by blast
  obtain isrs where i: "irq_init f (replicate 256 None) = Inr isrs" "length isrs = 256" "\<forall>i<16. isrs ! (i + 32) = Some f" using irq_init_ok [of f] by (elim exE conjE)
  have p: "irq < length (replicate 16 (replicate 8 None))" "replicate 16 (replicate 8 None) ! irq = map Some [] @ replicate (8 - length []) None"
    "length [] + length (gs @ h # hs) \<le> 8" using assms(1,2) by simp_all
  obtain tab where tab: "kfor (irq_set_handler irq) (gs @ h # hs) (replicate 16 (replicate 8 None)) = Inr tab" "length tab = 16"
    "tab ! irq = map Some (gs @ h # hs) @ replicate (8 - length (gs @ h # hs)) None"
    using irq_set_handlers [OF p] unfolding append_Nil length_replicate by blast
  have "ih_run run irq (tab ! irq) s = Inr (True, t)" unfolding tab(3) using assms(3,4) by (rule ih_run_found)
  then have h: "irq_handler run (irq + 32) irq tab s = Inr t" using assms(1) tab(2) by (simp add: irq_handler_def)
  have "isrs ! (irq + 32) = Some f" using i(3) assms(1) by simp
  then have "handle_isr (\<lambda>_ n e. irq_handler run n e tab) isrs (32 + irq) irq s = Inr t" using h i(2) assms(1) by (simp add: handle_isr_def add.commute)
  then show ?thesis using d i(1) tab(1) assms(1) by auto
qed

text \<open>Two drivers share interrupt 11; the first ignores this one.\<close>

theorem irq_delivered_witness:
  "\<exists>d isrs tab. isr_init (\<lambda>i. of_nat i * 16) idt_install = Inr d \<and> gate_ok (\<lambda>i. of_nat i * 16) d (32 + 11) 0x8E \<and>
    irq_init True (replicate 256 None) = Inr isrs \<and> kfor (irq_set_handler 11) [False, True] (replicate 16 (replicate 8 None)) = Inr tab \<and>
    handle_isr (\<lambda>_ n e. irq_handler (\<lambda>b _ s. Inr (b, if b then s + 1 else s)) n e tab) isrs (32 + 11) 11 (5 :: nat) = Inr 6"
  using irq_delivered [where irq = 11 and gs = "[False]" and h = True and hs = "[]" and f = True and stub = "\<lambda>i. of_nat i * 16" and s = "5 :: nat"
      and t = 6 and run = "\<lambda>b _ s. Inr (b, if b then s + 1 else s)"] by simp

text \<open>An interrupt that no driver handles stops the kernel, unless it is one of the two spurious ones.\<close>

lemma ih_run_ignored: "\<forall>g\<in>set gs. run g irq s = Inr (False, s) \<Longrightarrow> ih_run run irq (map Some gs @ replicate n None) s = Inr (False, s)"
  by (induction gs) (cases n, auto)

lemma irq_unhandled:
  assumes "irq < length tab" "tab ! irq = map Some gs @ replicate n None" "\<forall>g\<in>set gs. run g irq s = Inr (False, s)" "32 \<le> v" "v \<le> 48"
  shows "irq_handler run v irq tab s = (if irq = 7 \<or> irq = 15 then Inr s else Inl Halted)"
proof -
  have "ih_run run irq (tab ! irq) s = Inr (False, s)" unfolding assms(2) using assms(3) by (rule ih_run_ignored)
  then show ?thesis using assms(1,4,5) by (simp add: irq_handler_def)
qed

section \<open>PCI\<close>

definition pci_device :: "u8 \<Rightarrow> u8 \<Rightarrow> u8 \<Rightarrow> u32" where
  "pci_device bus slot func = push_bit 16 (ucast bus) OR push_bit 11 (ucast slot) OR push_bit 8 (ucast func)"

definition pci_address :: "u32 \<Rightarrow> u8 \<Rightarrow> u32" where
  "pci_address device offset = 0x80000000 OR device OR (ucast offset AND 0xFC)"

text \<open>The ports written.\<close>

definition pci_config_writel :: "u32 \<Rightarrow> u8 \<Rightarrow> u32 \<Rightarrow> (u16 \<times> u32) list res" where
  "pci_config_writel device offset v = kbind (kassert (offset AND 3 = 0)) (\<lambda>_. Inr [(0xCF8, pci_address device offset), (0xCFC, v)])"

definition pci_config_readb :: "(u32 \<Rightarrow> nat \<Rightarrow> u8) \<Rightarrow> u32 \<Rightarrow> u8 \<Rightarrow> u8" where
  "pci_config_readb cs device offset = cs (pci_address device offset) (unat (offset AND 3))"

definition pci_config_readw :: "(u32 \<Rightarrow> nat \<Rightarrow> u8) \<Rightarrow> u32 \<Rightarrow> u8 \<Rightarrow> u16 res" where
  "pci_config_readw cs device offset =
     kbind (kassert (offset AND 1 = 0)) (\<lambda>_.
     let a = pci_address device offset; k = unat (offset AND 2) in Inr (ucast (cs a k) OR push_bit 8 (ucast (cs a (k + 1)))))"

definition pci_config_readl :: "(u32 \<Rightarrow> nat \<Rightarrow> u8) \<Rightarrow> u32 \<Rightarrow> u8 \<Rightarrow> u32 res" where
  "pci_config_readl cs device offset =
     kbind (kassert (offset AND 3 = 0)) (\<lambda>_.
     let a = pci_address device offset
     in Inr (ucast (cs a 0) OR push_bit 8 (ucast (cs a 1)) OR push_bit 16 (ucast (cs a 2)) OR push_bit 24 (ucast (cs a 3))))"

definition pci_config_read :: "(u32 \<Rightarrow> nat \<Rightarrow> u8) \<Rightarrow> u32 \<Rightarrow> u8 \<Rightarrow> int \<Rightarrow> u32 res" where
  "pci_config_read cs device offset size' =
     (if size' = 4 then pci_config_readl cs device offset
      else if size' = 2 then kbind (pci_config_readw cs device offset) (\<lambda>w. Inr (ucast w))
      else if size' = 1 then Inr (ucast (pci_config_readb cs device offset))
      else Inl AssertFailed)"

text \<open>The calls of the callback: device, vendor and device number.\<close>

type_synonym pci_calls = "(u32 \<times> u16 \<times> u16) list"

definition is_bridge :: "(u32 \<Rightarrow> nat \<Rightarrow> u8) \<Rightarrow> u32 \<Rightarrow> bool" where
  "is_bridge cs dev \<longleftrightarrow> pci_config_readb cs dev 0x0B = 0x06 \<and> pci_config_readb cs dev 0x0A = 0x04"

definition pci_scan_function :: "(u8 \<Rightarrow> pci_calls res) \<Rightarrow> (u32 \<Rightarrow> nat \<Rightarrow> u8) \<Rightarrow> u8 \<Rightarrow> u8 \<Rightarrow> u8 \<Rightarrow> pci_calls res" where
  "pci_scan_function scan cs bus slot func =
     (let dev = pci_device bus slot func
      in kbind (if is_bridge cs dev then scan (pci_config_readb cs dev 0x19) else Inr []) (\<lambda>calls.
         kbind (pci_config_readw cs dev 0) (\<lambda>vendor.
         kbind (pci_config_readw cs dev 2) (\<lambda>devid. Inr (calls @ [(dev, vendor, devid)])))))"

text \<open>\<open>for (i = 0; i < n; i++) calls += body(i);\<close>\<close>

definition each :: "nat \<Rightarrow> (u8 \<Rightarrow> pci_calls res) \<Rightarrow> pci_calls res" where
  "each n body = kfor (\<lambda>i calls. kbind (body (of_nat i)) (\<lambda>more. Inr (calls @ more))) [0..<n] []"

definition pci_scan_slot :: "(u8 \<Rightarrow> pci_calls res) \<Rightarrow> (u32 \<Rightarrow> nat \<Rightarrow> u8) \<Rightarrow> u8 \<Rightarrow> u8 \<Rightarrow> pci_calls res" where
  "pci_scan_slot scan cs bus slot =
     kbind (pci_config_readw cs (pci_device bus slot 0) 0) (\<lambda>vendor.
       if vendor = 0xFFFF then Inr []
       else if pci_config_readb cs (pci_device bus slot 0) 0xE AND 0x80 \<noteq> 0
       then each 8 (\<lambda>func. kbind (pci_config_readw cs (pci_device bus slot func) 0) (\<lambda>v.
                        if v \<noteq> 0xFFFF then pci_scan_function scan cs bus slot func else Inr []))
       else pci_scan_function scan cs bus slot 0)"

text \<open>Buses behind bridges are scanned recursively; the first argument bounds the depth, and \<open>Diverges\<close> stands for a recursion that goes
  deeper.\<close>

fun pci_scan_bus :: "nat \<Rightarrow> (u32 \<Rightarrow> nat \<Rightarrow> u8) \<Rightarrow> u8 \<Rightarrow> pci_calls res" where
  "pci_scan_bus 0 cs bus = Inl Diverges"
| "pci_scan_bus (Suc n) cs bus = each 32 (pci_scan_slot (pci_scan_bus n cs) cs bus)"

text \<open>A host with several functions has a bus for each; the first one without a vendor ends the loop.\<close>

fun ps_hosts :: "(u8 \<Rightarrow> pci_calls res) \<Rightarrow> (u32 \<Rightarrow> nat \<Rightarrow> u8) \<Rightarrow> nat list \<Rightarrow> pci_calls res" where
  "ps_hosts scan cs [] = Inr []"
| "ps_hosts scan cs (f # fs) =
     kbind (pci_config_readw cs (pci_device 0 0 (of_nat f)) 0) (\<lambda>vendor.
       if vendor = 0xFFFF then Inr []
       else kbind (scan (of_nat f)) (\<lambda>calls. kbind (ps_hosts scan cs fs) (\<lambda>more. Inr (calls @ more))))"

definition pci_scan :: "nat \<Rightarrow> (u32 \<Rightarrow> nat \<Rightarrow> u8) \<Rightarrow> pci_calls res" where
  "pci_scan n cs =
     (if pci_config_readb cs (pci_device 0 0 0) 0xE AND 0x80 = 0 then pci_scan_bus n cs 0
      else ps_hosts (pci_scan_bus n cs) cs [0..<8])"

text \<open>Every bridge leads to a bus with a higher number, as the PCI specification demands of the numbering.\<close>

definition bridges_up :: "(u32 \<Rightarrow> nat \<Rightarrow> u8) \<Rightarrow> bool" where
  "bridges_up cs \<longleftrightarrow> (\<forall>bus slot func. is_bridge cs (pci_device bus slot func) \<longrightarrow> bus < pci_config_readb cs (pci_device bus slot func) 0x19)"

lemma readw_total: "offset AND 1 = 0 \<Longrightarrow> \<exists>w. pci_config_readw cs dev offset = Inr w"
  by (simp add: pci_config_readw_def Let_def)

lemma each_total:
  assumes "\<And>i. \<exists>c. body i = Inr c"
  shows "\<exists>c. each n body = Inr c"
proof -
  have "\<exists>c. kfor (\<lambda>i calls. kbind (body (of_nat i)) (\<lambda>more. Inr (calls @ more))) [0..<n] [] = Inr c \<and> True"
    by (rule kfor_inv [where P = "\<lambda>_ _. True"]) (use assms in auto)
  then show ?thesis by (simp add: each_def)
qed

lemma scan_function_total:
  assumes "is_bridge cs (pci_device bus slot func) \<Longrightarrow> \<exists>c. scan (pci_config_readb cs (pci_device bus slot func) 0x19) = Inr c"
  shows "\<exists>c. pci_scan_function scan cs bus slot func = Inr c"
  using assms readw_total [of 0 cs "pci_device bus slot func"] readw_total [of 2 cs "pci_device bus slot func"]
  by (auto simp: pci_scan_function_def Let_def)

lemma scan_slot_total:
  assumes "\<And>func. \<exists>c. pci_scan_function scan cs bus slot func = Inr c"
  shows "\<exists>c. pci_scan_slot scan cs bus slot = Inr c"
proof -
  obtain v where v: "pci_config_readw cs (pci_device bus slot 0) 0 = Inr v" using readw_total [of 0] by auto
  have "\<exists>c. kbind (pci_config_readw cs (pci_device bus slot func) 0) (\<lambda>v. if v \<noteq> 0xFFFF then pci_scan_function scan cs bus slot func else Inr []) = Inr c" for func
    using readw_total [of 0 cs "pci_device bus slot func"] assms [of func] by auto
  then show ?thesis using v assms [of 0] each_total [of "\<lambda>func. kbind (pci_config_readw cs (pci_device bus slot func) 0)
      (\<lambda>v. if v \<noteq> 0xFFFF then pci_scan_function scan cs bus slot func else Inr [])" 8] by (simp add: pci_scan_slot_def)
qed

lemma scan_bus_total: "bridges_up cs \<Longrightarrow> 256 \<le> unat bus + n \<Longrightarrow> \<exists>c. pci_scan_bus n cs bus = Inr c"
proof (induction n arbitrary: bus)
  case 0
  then show ?case using unsigned_less [of bus, where 'a = nat] by simp
next
  case (Suc n)
  have f: "\<exists>c. pci_scan_function (pci_scan_bus n cs) cs bus slot func = Inr c" for slot func
  proof (rule scan_function_total)
    let ?b = "pci_config_readb cs (pci_device bus slot func) 0x19"
    assume "is_bridge cs (pci_device bus slot func)"
    then have "unat bus < unat ?b" using Suc.prems(1) by (auto simp: bridges_up_def word_less_nat_alt)
    then have "256 \<le> unat ?b + n" using Suc.prems(2) by linarith
    then show "\<exists>c. pci_scan_bus n cs ?b = Inr c" by (rule Suc.IH [OF Suc.prems(1)])
  qed
  have "\<exists>c. pci_scan_slot (pci_scan_bus n cs) cs bus slot = Inr c" for slot by (rule scan_slot_total [OF f])
  then show ?case by (auto intro: each_total)
qed

lemma hosts_total: "(\<And>b. \<exists>c. scan b = Inr c) \<Longrightarrow> \<exists>c. ps_hosts scan cs fs = Inr c"
proof (induction fs)
  case (Cons f fs)
  obtain v where "pci_config_readw cs (pci_device 0 0 (of_nat f)) 0 = Inr v" using readw_total [of 0] by auto
  moreover obtain c where "scan (of_nat f) = Inr c" using Cons.prems by blast
  ultimately show ?case using Cons.IH [OF Cons.prems] by auto
qed simp

text \<open>A bridge that leads back to its own bus makes the search endless: every bound on the depth is exceeded.\<close>

lemma each_first_error: "body 0 = Inl e \<Longrightarrow> 0 < n \<Longrightarrow> each n body = Inl e"
  by (cases n) (auto simp: each_def upt_conv_Cons simp del: upt_Suc)

lemma pci_scan_bridge_loop:
  assumes "is_bridge cs (pci_device 0 0 0)" "pci_config_readb cs (pci_device 0 0 0) 0x19 = 0"
    "pci_config_readw cs (pci_device 0 0 0) 0 = Inr v" "v \<noteq> 0xFFFF" "pci_config_readb cs (pci_device 0 0 0) 0xE AND 0x80 = 0"
  shows "pci_scan n cs = Inl Diverges"
proof -
  have "pci_scan_bus n cs 0 = Inl Diverges"
  proof (induction n)
    case (Suc n)
    then have "pci_scan_slot (pci_scan_bus n cs) cs 0 0 = Inl Diverges" using assms by (simp add: pci_scan_slot_def pci_scan_function_def Let_def)
    then show ?case by (simp add: each_first_error)
  qed simp
  then show ?thesis using assms(5) by (simp add: pci_scan_def)
qed

text \<open>C37: The search for PCI devices ends on every configuration whose bridges lead to buses with higher numbers: no chain of
  nested buses is longer than 256.\<close>

theorem pci_scan_terminates:
  assumes "bridges_up cs"
  shows "\<exists>calls. pci_scan 256 cs = Inr calls"
  using scan_bus_total [OF assms, where n = 256] hosts_total [of "pci_scan_bus 256 cs"] by (simp add: pci_scan_def)

text \<open>A bus 0 with a bridge in slot 0 to bus 1, and nothing else.\<close>

definition one_bridge :: "u32 \<Rightarrow> nat \<Rightarrow> u8" where
  "one_bridge a k =
     (if a = 0x80000008 \<and> k = 2 then 4 else if a = 0x80000008 \<and> k = 3 then 6 else if a = 0x80000018 then 1
      else if a AND 0xFFFF00 = 0 then 0 else 0xFF)"

theorem pci_scan_terminates_witness: "is_bridge one_bridge (pci_device 0 0 0) \<and> (\<exists>calls. pci_scan 256 one_bridge = Inr calls)"
proof
  show "is_bridge one_bridge (pci_device 0 0 0)" by (simp add: is_bridge_def pci_config_readb_def pci_address_def pci_device_def one_bridge_def)
  have "bridges_up one_bridge"
    unfolding bridges_up_def
  proof (intro allI impI)
    fix bus slot func
    let ?d = "pci_device bus slot func"
    assume "is_bridge one_bridge ?d"
    then have a: "pci_address ?d 8 = 0x80000008"
      by (auto simp: is_bridge_def pci_config_readb_def pci_address_def one_bridge_def split: if_splits)
    have "bus = 0"
    proof (rule bit_word_eqI)
      fix n
      assume "n < LENGTH(8)"
      have "bit (pci_address ?d 8) (16 + n)" if "bit bus n"
        using that \<open>n < LENGTH(8)\<close> by (simp add: pci_address_def pci_device_def bit_simps)
      moreover have "\<not> bit (0x80000008 :: u32) (16 + n)"
      proof -
        have "n = 0 \<or> n = 1 \<or> n = 2 \<or> n = 3 \<or> n = 4 \<or> n = 5 \<or> n = 6 \<or> n = 7" using \<open>n < LENGTH(8)\<close> by auto
        then show ?thesis by (elim disjE) simp_all
      qed
      ultimately show "bit bus n = bit 0 n" using a by auto
    qed
    moreover have "pci_address ?d 0x18 = 0x80000018"
    proof -
      have "pci_address ?d 0x18 = pci_address ?d 8 OR 0x10" by (simp add: pci_address_def or.assoc)
      then show ?thesis by (simp add: a)
    qed
    moreover have "pci_address ?d 0x19 = pci_address ?d 0x18" by (simp add: pci_address_def)
    ultimately show "bus < pci_config_readb one_bridge ?d 0x19" by (simp add: pci_config_readb_def one_bridge_def)
  qed
  then show "\<exists>calls. pci_scan 256 one_bridge = Inr calls" by (rule pci_scan_terminates)
qed

end
