(* ===== verification/Boot.thy ===== *)
theory Boot
  imports Pmm
begin

text \<open>
  The part of \<open>kmain\<close> (src/kernel/kmain.c) that hands the physical memory to the memory manager: it finds the end of the kernel and
  its modules, the amount of memory, frees the blocks of the boot loader's memory map and reserves everything that is in use
  already. The structures of the boot loader are read through a view of memory (\<open>boot_mem\<close>): the
  entry of the memory map at an address, the modules, and the length of the string at an address; none of them changes meanwhile.
\<close>

record mmap_entry =
  me_size :: u32
  me_addr :: u64
  me_len :: u64
  me_type :: u32

record boot_mod =
  mod_start :: u32
  mod_end :: u32
  mod_cmdline :: u32

record multiboot_info =
  mbi_flags :: u32
  mem_upper :: u32
  mbi_cmdline :: u32
  mods_count :: u32
  mods_addr :: u32
  mmap_length :: u32
  mmap_addr :: u32
  boot_loader_name :: u32

record boot_mem =
  mmap_at :: "u32 \<Rightarrow> mmap_entry"
  mods_at :: "nat \<Rightarrow> boot_mod"
  str_len :: "u32 \<Rightarrow> u32"

definition has_flag :: "multiboot_info \<Rightarrow> u32 \<Rightarrow> bool" where
  "has_flag mbi f \<longleftrightarrow> mbi_flags mbi AND f \<noteq> 0"

definition MULTIBOOT_INFO_MEMORY :: u32 where "MULTIBOOT_INFO_MEMORY = 0x1"

definition MULTIBOOT_INFO_CMDLINE :: u32 where "MULTIBOOT_INFO_CMDLINE = 0x4"

definition MULTIBOOT_INFO_MODS :: u32 where "MULTIBOOT_INFO_MODS = 0x8"

definition MULTIBOOT_INFO_MEM_MAP :: u32 where "MULTIBOOT_INFO_MEM_MAP = 0x40"

definition MULTIBOOT_INFO_BOOT_LOADER_NAME :: u32 where "MULTIBOOT_INFO_BOOT_LOADER_NAME = 0x200"

section \<open>The end of the kernel and the amount of memory\<close>

definition mod_addr :: "multiboot_info \<Rightarrow> nat \<Rightarrow> u32" where
  "mod_addr mbi i = mods_addr mbi + of_nat i * 16"

definition boot_end :: "boot_mem \<Rightarrow> multiboot_info \<Rightarrow> u32 \<Rightarrow> u32 res" where
  "boot_end bm mbi kernel_end =
     kbind (if has_flag mbi MULTIBOOT_INFO_MODS
            then kfor (\<lambda>i real_end.
                   let m = mods_at bm i
                   in kbind (kassert (mod_start m \<le> mod_end m)) (\<lambda>_.
                      let real_end = (if real_end < mod_addr mbi i + 16 then mod_addr mbi i + 16 else real_end)
                      in Inr (if real_end < mod_end m then mod_end m else real_end))) [0..<unat (mods_count mbi)] kernel_end
            else Inr kernel_end) (\<lambda>real_end.
     Inr ((real_end + 0xFFF) AND 0xFFFFF000))"

text \<open>The entries of the memory map, each followed by the next one at its own size and four bytes more. Both loops over the map visit them in this
  order. The first argument bounds their number.\<close>

fun mmap_walk :: "nat \<Rightarrow> (u32 \<Rightarrow> mmap_entry) \<Rightarrow> u32 \<Rightarrow> u32 \<Rightarrow> mmap_entry list res" where
  "mmap_walk 0 ent a e = Inl Diverges"
| "mmap_walk (Suc n) ent a e =
     (if a < e then kbind (mmap_walk n ent (a + me_size (ent a) + 4) e) (\<lambda>es. Inr (ent a # es)) else Inr [])"

definition boot_avail :: "multiboot_info \<Rightarrow> mmap_entry list \<Rightarrow> u32" where
  "boot_avail mbi es =
     (let mem_avail =
        (if has_flag mbi MULTIBOOT_INFO_MEM_MAP
         then foldl (\<lambda>avail e. if me_type e = 1 \<and> avail < ucast (me_addr e + me_len e) then ucast (me_addr e + me_len e) else avail) 0 es
         else if has_flag mbi MULTIBOOT_INFO_MEMORY then 1024 * (1024 + mem_upper mbi)
         else 0)
      in if mem_avail = 0 then 0xFFFFFFFF else mem_avail)"

section \<open>Freeing and reserving blocks\<close>

text \<open>\<open>for (uintptr_t i = a; c(i); i += BLOCK_SIZE) body(i);\<close> A counter that wraps around would begin again below its start; \<open>Diverges\<close> stands for
  that.\<close>

function for_blocks :: "(u32 \<Rightarrow> bool) \<Rightarrow> (u32 \<Rightarrow> 's \<Rightarrow> 's res) \<Rightarrow> u32 \<Rightarrow> 's \<Rightarrow> 's res" where
  "for_blocks c body i s =
     (if c i then kbind (body i s) (\<lambda>s. if i + 4096 < i then Inl Diverges else for_blocks c body (i + 4096) s) else Inr s)"
  by pat_completeness auto
termination
proof (relation "measure (\<lambda>(c, body, i, s). 2 ^ 32 - unat i)", goal_cases)
  case (2 c body i s x)
  then have "unat i \<le> unat (i + 4096)" by (simp add: word_le_nat_alt not_less)
  moreover have "i + 4096 \<noteq> i" by simp
  then have "unat (i + 4096) \<noteq> unat i" by (metis word_unat_eq_iff)
  ultimately show ?case using unsigned_less [of "i + 4096", where 'a = nat] by simp
qed simp

declare for_blocks.simps [simp del]

definition free_entry :: "mmap_entry \<Rightarrow> pmm \<Rightarrow> pmm res" where
  "free_entry e = for_blocks (\<lambda>i. ucast i < me_len e) (\<lambda>i m. pmm_unset_block m (unat (me_addr e + ucast i) div BLOCK_SIZE)) 0"

fun free_entries :: "mmap_entry list \<Rightarrow> pmm \<Rightarrow> pmm res" where
  "free_entries [] m = Inr m"
| "free_entries (e # es) m =
     (if me_type e = 1
      then if drop_bit 32 (me_addr e) \<noteq> 0 then free_entries es m else kbind (free_entry e m) (free_entries es)
      else if me_type e = 0 then Inr m
      else free_entries es m)"

text \<open>\<open>for (i = a; i < e; i += BLOCK_SIZE) pmm_set_block(i / BLOCK_SIZE);\<close>\<close>

definition set_blocks :: "u32 \<Rightarrow> u32 \<Rightarrow> pmm \<Rightarrow> pmm res" where
  "set_blocks a e = for_blocks (\<lambda>i. i < e) (\<lambda>i m. pmm_set_block m (unat i div BLOCK_SIZE)) a"

text \<open>The pages of the map itself: the bound is \<open>block_map_size / 32\<close>, the number of words of the map.\<close>

definition reserve_map :: "u32 \<Rightarrow> pmm \<Rightarrow> pmm res" where
  "reserve_map map_addr m =
     for_blocks (\<lambda>i. i < of_nat (block_map_size m div 32)) (\<lambda>i m. pmm_set_block m (unat (map_addr + i) div BLOCK_SIZE)) 0 m"

definition reserve_string :: "boot_mem \<Rightarrow> u32 \<Rightarrow> pmm \<Rightarrow> pmm res" where
  "reserve_string bm s m = kbind (kassert (s \<noteq> 0)) (\<lambda>_. set_blocks s (s + str_len bm s) m)"

definition reserve_mod :: "boot_mem \<Rightarrow> multiboot_info \<Rightarrow> nat \<Rightarrow> pmm \<Rightarrow> pmm res" where
  "reserve_mod bm mbi i m =
     (let md = mods_at bm i
      in kbind (pmm_set_block m (unat (mod_addr mbi i) div BLOCK_SIZE)) (\<lambda>m.
         kbind (if mod_cmdline md \<noteq> 0
                then for_blocks (\<lambda>j. j < str_len bm (mod_cmdline md))
                       (\<lambda>j m. pmm_set_block m (unat (mod_cmdline md + j) div BLOCK_SIZE)) (mod_cmdline md) m
                else Inr m) (\<lambda>m.
         kbind (kassert (mod_start md \<le> mod_end md)) (\<lambda>_.
         for_blocks (\<lambda>v. v \<le> mod_end md) (\<lambda>v m. pmm_set_block m (unat v div BLOCK_SIZE)) (mod_start md) m))))"

definition boot_reserve :: "boot_mem \<Rightarrow> multiboot_info \<Rightarrow> u32 \<Rightarrow> u32 \<Rightarrow> u32 \<Rightarrow> pmm \<Rightarrow> pmm res" where
  "boot_reserve bm mbi mbi_addr kernel_start real_end m =
     kbind (set_blocks kernel_start real_end m) (\<lambda>m.
     kbind (reserve_map real_end m) (\<lambda>m.
     kbind (pmm_set_block m 0) (\<lambda>m.
     kbind (pmm_set_block m (unat mbi_addr div BLOCK_SIZE)) (\<lambda>m.
     kbind (if has_flag mbi MULTIBOOT_INFO_CMDLINE \<and> mbi_cmdline mbi \<noteq> 0 then reserve_string bm (mbi_cmdline mbi) m else Inr m) (\<lambda>m.
     kbind (if has_flag mbi MULTIBOOT_INFO_MODS then kfor (reserve_mod bm mbi) [0..<unat (mods_count mbi)] m else Inr m) (\<lambda>m.
     kbind (if has_flag mbi MULTIBOOT_INFO_MEM_MAP then set_blocks (mmap_addr mbi) (mmap_addr mbi + mmap_length mbi) m else Inr m) (\<lambda>m.
     if has_flag mbi MULTIBOOT_INFO_BOOT_LOADER_NAME then reserve_string bm (boot_loader_name mbi) m else Inr m)))))))"

text \<open>From the boot information to the first map; \<open>words\<close> is the memory after the kernel, where the map goes, and \<open>n\<close> bounds the entries of the memory
  map.\<close>

definition boot_pmm :: "nat \<Rightarrow> boot_mem \<Rightarrow> multiboot_info \<Rightarrow> u32 \<Rightarrow> u32 \<Rightarrow> u32 \<Rightarrow> u32 list \<Rightarrow> pmm res" where
  "boot_pmm n bm mbi mbi_addr kernel_start kernel_end words =
     kbind (boot_end bm mbi kernel_end) (\<lambda>real_end.
     kbind (if has_flag mbi MULTIBOOT_INFO_MEM_MAP
            then mmap_walk n (mmap_at bm) (mmap_addr mbi) (mmap_addr mbi + mmap_length mbi) else Inr []) (\<lambda>es.
     kbind (pmm_init words (unat (boot_avail mbi es))) (\<lambda>m.
     kbind (if has_flag mbi MULTIBOOT_INFO_MEM_MAP then free_entries es m else Inl Halted) (\<lambda>m.
     kbind (kassert (kernel_start AND 0xFFF = 0)) (\<lambda>_.
     boot_reserve bm mbi mbi_addr kernel_start real_end m)))))"

section \<open>What the loops do\<close>

lemma for_blocks_empty: "\<not> c i \<Longrightarrow> for_blocks c body i s = Inr s"
  by (subst for_blocks.simps) simp

lemma for_blocks_kfor:
  assumes "\<forall>k<n. c (i + of_nat k * 4096)" "\<not> c (i + of_nat n * 4096)" "unat i + n * 4096 < 2 ^ 32"
  shows "for_blocks c body i s = kfor (\<lambda>k. body (i + of_nat k * 4096)) [0..<n] s"
  using assms
proof (induction n arbitrary: i s)
  case 0
  then show ?case by (subst for_blocks.simps) simp
next
  case (Suc n)
  have u: "unat (i + 4096) = unat i + 4096" using Suc.prems(3) by (simp add: unat_word_ariths(1))
  have shift: "i + 4096 + of_nat k * 4096 = i + of_nat (Suc k) * 4096" for k by (simp add: algebra_simps)
  have "for_blocks c body (i + 4096) t = kfor (\<lambda>k. body (i + of_nat (Suc k) * 4096)) [0..<n] t" for t
  proof (rule Suc.IH [of "i + 4096" t, unfolded shift])
    show "\<forall>k<n. c (i + of_nat (Suc k) * 4096)" using Suc.prems(1) by blast
    show "\<not> c (i + of_nat (Suc n) * 4096)" by (rule Suc.prems(2))
    show "unat (i + 4096) + n * 4096 < 2 ^ 32" using u Suc.prems(3) by simp
  qed
  moreover have "[0..<Suc n] = 0 # map Suc [0..<n]" by (simp add: map_Suc_upt upt_conv_Cons del: upt_Suc)
  moreover have "c i" using Suc.prems(1) by force
  moreover have "\<not> i + 4096 < i" using u by (simp add: word_less_nat_alt)
  ultimately show ?case by (subst for_blocks.simps) (simp add: kfor_map del: upt_Suc)
qed

text \<open>A loop over the addresses from \<open>a\<close> below \<open>e\<close> visits this many blocks; it cannot wrap around as long as they are blocks of the map.\<close>

definition n_blocks :: "nat \<Rightarrow> nat \<Rightarrow> nat" where
  "n_blocks a e = (e - a + 4095) div 4096"

definition span :: "nat \<Rightarrow> nat \<Rightarrow> nat set" where
  "span a e = {a div 4096..<a div 4096 + n_blocks a e}"

lemma n_blocks_less: "k < n_blocks a e \<Longrightarrow> a + k * 4096 < e" "\<not> a + n_blocks a e * 4096 < e"
proof -
  show "k < n_blocks a e \<Longrightarrow> a + k * 4096 < e" unfolding n_blocks_def using less_eq_div_iff_mult_less_eq [of 4096 "Suc k" "e - a + 4095"] by simp
  have "e - a + 4095 < (n_blocks a e + 1) * 4096" unfolding n_blocks_def by (simp add: dividend_less_div_times)
  then show "\<not> a + n_blocks a e * 4096 < e" by simp
qed

lemma for_blocks_range:
  assumes c: "\<And>j. c j \<longleftrightarrow> unat j < e" and body: "\<And>j. c j \<Longrightarrow> body j = (\<lambda>m. f m ((b + unat j) div 4096))"
    and r: "unat i + n_blocks (unat i) e * 4096 < 2 ^ 32"
  shows "for_blocks c body i s = kfor (\<lambda>k m. f m ((b + unat i) div 4096 + k)) [0..<n_blocks (unat i) e] s"
proof -
  have u: "unat (i + of_nat k * 4096) = unat i + k * 4096" if "k \<le> n_blocks (unat i) e" for k
  proof -
    have "unat i + k * 4096 < 2 ^ 32" using that r by (meson add_le_mono1 le_trans mult_le_mono1 nat_add_left_cancel_le not_le)
    then have "unat (of_nat (k * 4096) :: u32) = k * 4096" unfolding unat_of_nat by simp
    then show ?thesis using \<open>unat i + k * 4096 < 2 ^ 32\<close> by (simp add: unat_word_ariths(1))
  qed
  have "for_blocks c body i s = kfor (\<lambda>k. body (i + of_nat k * 4096)) [0..<n_blocks (unat i) e] s"
  proof (rule for_blocks_kfor)
    show "\<forall>k<n_blocks (unat i) e. c (i + of_nat k * 4096)" by (simp add: c u n_blocks_less)
    show "\<not> c (i + of_nat (n_blocks (unat i) e) * 4096)" by (simp add: c u n_blocks_less)
  qed (rule r)
  also have "\<dots> = kfor (\<lambda>k m. f m ((b + unat i) div 4096 + k)) [0..<n_blocks (unat i) e] s"
  proof (rule kfor_cong)
    fix k
    assume "k \<in> set [0..<n_blocks (unat i) e]"
    then have k: "k < n_blocks (unat i) e" by simp
    then have "c (i + of_nat k * 4096)" by (simp add: c u n_blocks_less)
    moreover have "(b + (unat i + k * 4096)) div 4096 = (b + unat i) div 4096 + k" by (simp add: add.assoc [symmetric])
    ultimately show "body (i + of_nat k * 4096) = (\<lambda>m. f m ((b + unat i) div 4096 + k))" using k by (simp add: body u)
  qed
  finally show ?thesis .
qed

section \<open>The blocks marked\<close>

text \<open>\<open>marks N f S\<close>: on every map of \<open>N\<close> blocks, \<open>f\<close> returns and marks exactly the blocks of \<open>S\<close> as used. A part of the boot
  sequence is described by one such fact, composed by these rules.\<close>

definition marks :: "nat \<Rightarrow> (pmm \<Rightarrow> pmm res) \<Rightarrow> nat set \<Rightarrow> bool" where
  "marks N f S \<longleftrightarrow> (\<forall>m. pmm_wf m \<longrightarrow> block_map_size m = N \<longrightarrow>
     (\<exists>m'. f m = Inr m' \<and> pmm_wf m' \<and> block_map_size m' = N \<and> pmm_used m' = pmm_used m \<union> S))"

named_theorems marks_intro \<open>the rules that compose \<open>marks\<close>\<close>

lemma marksD:
  assumes "marks N f S" "pmm_wf m" "block_map_size m = N"
  obtains m' where "f m = Inr m'" "pmm_wf m'" "block_map_size m' = N" "pmm_used m' = pmm_used m \<union> S"
  using assms unfolding marks_def by blast

lemma marks_skip [marks_intro]: "marks N Inr {}"
  by (simp add: marks_def)

lemma marks_seq [marks_intro]:
  assumes "marks N f S" "marks N g T"
  shows "marks N (\<lambda>m. kbind (f m) g) (S \<union> T)"
  unfolding marks_def
proof (intro allI impI)
  fix m
  assume "pmm_wf m" "block_map_size m = N"
  then obtain m1 where m1: "f m = Inr m1" "pmm_wf m1" "block_map_size m1 = N" "pmm_used m1 = pmm_used m \<union> S" by (rule marksD [OF assms(1)])
  obtain m2 where "g m1 = Inr m2" "pmm_wf m2" "block_map_size m2 = N" "pmm_used m2 = pmm_used m1 \<union> T" by (rule marksD [OF assms(2) m1(2,3)])
  then show "\<exists>m'. kbind (f m) g = Inr m' \<and> pmm_wf m' \<and> block_map_size m' = N \<and> pmm_used m' = pmm_used m \<union> (S \<union> T)"
    using m1(1,4) by auto
qed

lemma marks_if [marks_intro]: "(b \<Longrightarrow> marks N f S) \<Longrightarrow> marks N (\<lambda>m. if b then f m else Inr m) (if b then S else {})"
  using marks_skip by (cases b) simp_all

lemma marks_kfor [marks_intro]: "(\<And>i. i \<in> set is \<Longrightarrow> marks N (f i) (S i)) \<Longrightarrow> marks N (kfor f is) (\<Union>i\<in>set is. S i)"
proof (induction "is")
  case Nil
  have "kfor f [] = Inr" by (rule ext) simp
  then show ?case using marks_skip by simp
next
  case (Cons i "is")
  have "kfor f (i # is) = (\<lambda>m. kbind (f i m) (kfor f is))" by (rule ext) simp
  then show ?case using marks_seq [OF Cons.prems [of i] Cons.IH] Cons.prems by simp
qed

lemma marks_block [marks_intro]: "b < N \<Longrightarrow> marks N (\<lambda>m. pmm_set_block m b) {b}"
  unfolding marks_def using blocks.set_used [of _ b] by fastforce

lemma marks_span:
  assumes c: "\<And>j. c j \<longleftrightarrow> unat j < e" and body: "\<And>j. c j \<Longrightarrow> body j = (\<lambda>m. pmm_set_block m ((b + unat j) div 4096))"
    and r: "(b + unat i) div 4096 + n_blocks (unat i) e \<le> N" "N < 2 ^ 20"
  shows "marks N (for_blocks c body i) {(b + unat i) div 4096..<(b + unat i) div 4096 + n_blocks (unat i) e}"
  unfolding marks_def
proof (intro allI impI)
  fix m
  assume m: "pmm_wf m" "block_map_size m = N"
  have "unat i < 4096 * (unat i div 4096 + 1)" by (simp add: mult.commute dividend_less_div_times)
  moreover have "unat i div 4096 \<le> (b + unat i) div 4096" by (simp add: div_le_mono)
  ultimately have "unat i + n_blocks (unat i) e * 4096 < 2 ^ 32" using r by simp
  then have "for_blocks c body i m = kfor (\<lambda>k m. pmm_set_block m ((b + unat i) div 4096 + k)) [0..<n_blocks (unat i) e] m"
    using c body by (rule for_blocks_range [rotated 2])
  then show "\<exists>m'. for_blocks c body i m = Inr m' \<and> pmm_wf m' \<and> block_map_size m' = N \<and>
      pmm_used m' = pmm_used m \<union> {(b + unat i) div 4096..<(b + unat i) div 4096 + n_blocks (unat i) e}"
    using blocks.set_range_used [of m "(b + unat i) div 4096" "n_blocks (unat i) e"] m r(1) by simp
qed

text \<open>The loops of \<open>boot_reserve\<close>.\<close>

definition fits :: "nat \<Rightarrow> nat \<Rightarrow> nat \<Rightarrow> bool" where
  "fits N a e \<longleftrightarrow> a div 4096 + n_blocks a e \<le> N"

lemma marks_set_blocks [marks_intro]:
  assumes "fits N (unat a) (unat e)" "N < 2 ^ 20"
  shows "marks N (set_blocks a e) (span (unat a) (unat e))"
  using marks_span [where b = 0 and i = a and e = "unat e" and N = N and c = "\<lambda>i. i < e" and body = "\<lambda>i m. pmm_set_block m (unat i div BLOCK_SIZE)"] assms
  by (simp add: word_less_nat_alt BLOCK_SIZE_def set_blocks_def fits_def span_def)

lemma n_blocks_shift: "n_blocks a (a + e) = n_blocks 0 e"
  by (simp add: n_blocks_def)

lemma n_blocks_covers: "i < e \<Longrightarrow> i < n_blocks 0 e * 4096"
  using n_blocks_less(2) [of 0 e] by simp

lemma below_map: "(a :: nat) div 4096 + n \<le> N \<Longrightarrow> N < 2 ^ 20 \<Longrightarrow> i < n * 4096 \<Longrightarrow> a + i < 2 ^ 32"
proof -
  assume "a div 4096 + n \<le> N" "N < 2 ^ 20" "i < n * 4096"
  moreover have "a < (a div 4096 + 1) * 4096" by (simp add: dividend_less_div_times)
  ultimately show ?thesis by simp
qed

lemma marks_map [marks_intro]:
  assumes "fits N (unat a) (unat a + N div 32)" "N < 2 ^ 20"
  shows "marks N (reserve_map a) (span (unat a) (unat a + N div 32))"
proof -
  have u: "unat (of_nat (N div 32) :: u32) = N div 32" using assms(2) by (simp add: unat_of_nat)
  have f: "unat a div 4096 + n_blocks 0 (N div 32) \<le> N" using assms(1) by (simp add: fits_def n_blocks_shift)
  have "unat (a + j) = unat a + unat j" if "unat j < N div 32" for j
    using below_map [OF f assms(2) n_blocks_covers [OF that]] by (simp add: unat_word_ariths(1))
  then have "marks N (for_blocks (\<lambda>i. i < of_nat (N div 32)) (\<lambda>i m. pmm_set_block m (unat (a + i) div BLOCK_SIZE)) 0)
      {(unat a + unat (0 :: u32)) div 4096..<(unat a + unat (0 :: u32)) div 4096 + n_blocks (unat (0 :: u32)) (N div 32)}"
    using f assms(2) u by (intro marks_span) (auto simp: word_less_nat_alt BLOCK_SIZE_def)
  then show ?thesis unfolding marks_def reserve_map_def span_def n_blocks_shift by simp
qed

lemma marks_string [marks_intro]:
  assumes "s \<noteq> 0" "fits N (unat s) (unat (s + str_len bm s))" "N < 2 ^ 20"
  shows "marks N (reserve_string bm s) (span (unat s) (unat (s + str_len bm s)))"
proof -
  have "reserve_string bm s = set_blocks s (s + str_len bm s)" using assms(1) by (simp add: reserve_string_def fun_eq_iff)
  then show ?thesis using marks_set_blocks [OF assms(2,3)] by simp
qed

text \<open>A module is reserved with its record; the loop over its command line compares an address with a length and does not run when
  the string lies above its length.\<close>

definition mod_ok :: "nat \<Rightarrow> boot_mem \<Rightarrow> multiboot_info \<Rightarrow> nat \<Rightarrow> bool" where
  "mod_ok N bm mbi i \<longleftrightarrow>
     (let md = mods_at bm i
      in unat (mod_addr mbi i) div 4096 < N \<and> mod_start md \<le> mod_end md \<and> str_len bm (mod_cmdline md) \<le> mod_cmdline md \<and>
         fits N (unat (mod_start md)) (unat (mod_end md) + 1))"

definition mod_blocks :: "boot_mem \<Rightarrow> multiboot_info \<Rightarrow> nat \<Rightarrow> nat set" where
  "mod_blocks bm mbi i = insert (unat (mod_addr mbi i) div 4096) (span (unat (mod_start (mods_at bm i))) (unat (mod_end (mods_at bm i)) + 1))"

lemma marks_mod [marks_intro]:
  assumes "mod_ok N bm mbi i" "N < 2 ^ 20"
  shows "marks N (reserve_mod bm mbi i) (mod_blocks bm mbi i)"
proof -
  let ?md = "mods_at bm i"
  let ?loop = "for_blocks (\<lambda>v. v \<le> mod_end ?md) (\<lambda>v m. pmm_set_block m (unat v div BLOCK_SIZE)) (mod_start ?md)"
  have a: "unat (mod_addr mbi i) div 4096 < N" "mod_start ?md \<le> mod_end ?md" "\<not> mod_cmdline ?md < str_len bm (mod_cmdline ?md)"
    "fits N (unat (mod_start ?md)) (unat (mod_end ?md) + 1)" using assms(1) by (simp_all add: mod_ok_def Let_def not_less)
  have e: "(if mod_cmdline ?md \<noteq> 0 then for_blocks (\<lambda>j. j < str_len bm (mod_cmdline ?md))
      (\<lambda>j m. pmm_set_block m (unat (mod_cmdline ?md + j) div BLOCK_SIZE)) (mod_cmdline ?md) m else Inr m) = Inr m" for m
    using a(3) by (simp add: for_blocks_empty)
  have "reserve_mod bm mbi i = (\<lambda>m. kbind (pmm_set_block m (unat (mod_addr mbi i) div 4096)) ?loop)"
    unfolding reserve_mod_def Let_def e kbind.simps using a(2) by (simp add: BLOCK_SIZE_def)
  moreover have "marks N ?loop (span (unat (mod_start ?md)) (unat (mod_end ?md) + 1))"
    using marks_span [where b = 0 and i = "mod_start ?md" and e = "unat (mod_end ?md) + 1" and N = N and c = "\<lambda>v. v \<le> mod_end ?md"
        and body = "\<lambda>v m. pmm_set_block m (unat v div BLOCK_SIZE)"] a(4) assms(2)
    by (simp add: word_le_nat_alt less_Suc_eq_le BLOCK_SIZE_def fits_def span_def)
  ultimately show ?thesis using marks_seq [OF marks_block [OF a(1)]] by (simp add: mod_blocks_def)
qed

definition boot_reserved :: "nat \<Rightarrow> boot_mem \<Rightarrow> multiboot_info \<Rightarrow> u32 \<Rightarrow> u32 \<Rightarrow> u32 \<Rightarrow> nat set" where
  "boot_reserved N bm mbi mbi_addr kernel_start real_end =
     span (unat kernel_start) (unat real_end) \<union> (span (unat real_end) (unat real_end + N div 32) \<union> ({0} \<union> ({unat mbi_addr div 4096} \<union>
     ((if has_flag mbi MULTIBOOT_INFO_CMDLINE \<and> mbi_cmdline mbi \<noteq> 0
       then span (unat (mbi_cmdline mbi)) (unat (mbi_cmdline mbi + str_len bm (mbi_cmdline mbi))) else {}) \<union>
     ((if has_flag mbi MULTIBOOT_INFO_MODS then \<Union>i\<in>set [0..<unat (mods_count mbi)]. mod_blocks bm mbi i else {}) \<union>
     ((if has_flag mbi MULTIBOOT_INFO_MEM_MAP then span (unat (mmap_addr mbi)) (unat (mmap_addr mbi + mmap_length mbi)) else {}) \<union>
     (if has_flag mbi MULTIBOOT_INFO_BOOT_LOADER_NAME
      then span (unat (boot_loader_name mbi)) (unat (boot_loader_name mbi + str_len bm (boot_loader_name mbi))) else {})))))))"

text \<open>Everything to be reserved lies in the memory that the map describes.\<close>

definition boot_fits :: "nat \<Rightarrow> boot_mem \<Rightarrow> multiboot_info \<Rightarrow> u32 \<Rightarrow> u32 \<Rightarrow> u32 \<Rightarrow> bool" where
  "boot_fits N bm mbi mbi_addr kernel_start real_end \<longleftrightarrow>
     fits N (unat kernel_start) (unat real_end) \<and> fits N (unat real_end) (unat real_end + N div 32) \<and> 0 < N \<and> unat mbi_addr div 4096 < N \<and>
     (has_flag mbi MULTIBOOT_INFO_CMDLINE \<and> mbi_cmdline mbi \<noteq> 0 \<longrightarrow>
        fits N (unat (mbi_cmdline mbi)) (unat (mbi_cmdline mbi + str_len bm (mbi_cmdline mbi)))) \<and>
     (has_flag mbi MULTIBOOT_INFO_MODS \<longrightarrow> (\<forall>i<unat (mods_count mbi). mod_ok N bm mbi i)) \<and>
     (has_flag mbi MULTIBOOT_INFO_MEM_MAP \<longrightarrow> fits N (unat (mmap_addr mbi)) (unat (mmap_addr mbi + mmap_length mbi))) \<and>
     (has_flag mbi MULTIBOOT_INFO_BOOT_LOADER_NAME \<longrightarrow> boot_loader_name mbi \<noteq> 0 \<and>
        fits N (unat (boot_loader_name mbi)) (unat (boot_loader_name mbi + str_len bm (boot_loader_name mbi))))"

lemma marks_boot_reserve:
  assumes "boot_fits N bm mbi mbi_addr kernel_start real_end" "N < 2 ^ 20"
  shows "marks N (boot_reserve bm mbi mbi_addr kernel_start real_end) (boot_reserved N bm mbi mbi_addr kernel_start real_end)"
  using assms unfolding boot_reserve_def boot_reserved_def boot_fits_def BLOCK_SIZE_def by (intro marks_intro) auto

section \<open>The blocks freed\<close>

definition entry_blocks :: "mmap_entry \<Rightarrow> nat set" where
  "entry_blocks e = {unat (me_addr e) div 4096..<unat (me_addr e) div 4096 + n_blocks 0 (unat (me_len e))}"

text \<open>The entries of available memory below 4 GB, up to the first entry without a type.\<close>

fun free_set :: "mmap_entry list \<Rightarrow> nat set" where
  "free_set [] = {}"
| "free_set (e # es) =
     (if me_type e = 0 then {} else (if me_type e = 1 \<and> drop_bit 32 (me_addr e) = 0 then entry_blocks e else {}) \<union> free_set es)"

fun free_ok :: "nat \<Rightarrow> mmap_entry list \<Rightarrow> bool" where
  "free_ok N [] = True"
| "free_ok N (e # es) \<longleftrightarrow>
     me_type e = 0 \<or> (me_type e = 1 \<and> drop_bit 32 (me_addr e) = 0 \<longrightarrow> unat (me_addr e) div 4096 + n_blocks 0 (unat (me_len e)) \<le> N) \<and> free_ok N es"

lemma free_entry_frees:
  assumes "drop_bit 32 (me_addr e) = 0" "unat (me_addr e) div 4096 + n_blocks 0 (unat (me_len e)) \<le> N" "N < 2 ^ 20" "pmm_wf m" "block_map_size m = N"
  shows "\<exists>m'. free_entry e m = Inr m' \<and> pmm_wf m' \<and> block_map_size m' = N \<and> pmm_used m' = pmm_used m - entry_blocks e"
proof -
  have u: "unat (ucast j :: u64) = unat j" for j :: u32
    using unsigned_less [of j, where 'a = nat] by (simp add: unsigned_ucast_eq take_bit_nat_eq_self)
  have n: "n_blocks 0 (unat (me_len e)) * 4096 < 2 ^ 32" using assms(2,3) by simp
  have a: "unat (me_addr e) < 2 ^ 32"
  proof -
    have "drop_bit 32 (unat (me_addr e)) = 0" using arg_cong [OF assms(1), of unat] by (simp only: unat_drop_bit_eq unsigned_0)
    then show ?thesis by (simp add: drop_bit_eq_div div_eq_0_iff)
  qed
  have "unat (me_addr e + ucast j) = unat (me_addr e) + unat j" for j :: u32
    using a unsigned_less [of j, where 'a = nat] by (simp add: unat_word_ariths(1) u)
  then have "free_entry e m = kfor (\<lambda>k m. pmm_unset_block m ((unat (me_addr e) + unat (0 :: u32)) div 4096 + k)) [0..<n_blocks (unat (0 :: u32)) (unat (me_len e))] m"
    unfolding free_entry_def using n by (intro for_blocks_range) (simp_all add: word_less_nat_alt u BLOCK_SIZE_def)
  then show ?thesis using blocks.unset_range_used [of m "unat (me_addr e) div 4096" "n_blocks 0 (unat (me_len e))"] assms(2,4,5) by (simp add: entry_blocks_def)
qed

lemma free_entries_frees:
  assumes "free_ok N es" "N < 2 ^ 20" "pmm_wf m" "block_map_size m = N"
  shows "\<exists>m'. free_entries es m = Inr m' \<and> pmm_wf m' \<and> block_map_size m' = N \<and> pmm_used m' = pmm_used m - free_set es"
  using assms
proof (induction es arbitrary: m)
  case (Cons e es)
  show ?case
  proof (cases "me_type e = 1 \<and> drop_bit 32 (me_addr e) = 0")
    case True
    then obtain m1 where m1: "free_entry e m = Inr m1" "pmm_wf m1" "block_map_size m1 = N" "pmm_used m1 = pmm_used m - entry_blocks e"
      using free_entry_frees [of e N m] Cons.prems by auto
    have "free_ok N es" using Cons.prems(1) True by simp
    from Cons.IH [OF this Cons.prems(2) m1(2,3)] show ?thesis using True m1(1,4) by (auto simp: Diff_eq Un_assoc)
  next
    case False
    then show ?thesis using Cons.IH [of m] Cons.prems by auto
  qed
qed simp

section \<open>The first map\<close>

lemma boot_end_returns:
  assumes "\<forall>i<unat (mods_count mbi). mod_start (mods_at bm i) \<le> mod_end (mods_at bm i)"
  shows "\<exists>re. boot_end bm mbi kernel_end = Inr re"
proof (cases "has_flag mbi MULTIBOOT_INFO_MODS")
  case True
  let ?f = "\<lambda>i real_end. let m = mods_at bm i
                   in kbind (kassert (mod_start m \<le> mod_end m)) (\<lambda>_.
                      let real_end = (if real_end < mod_addr mbi i + 16 then mod_addr mbi i + 16 else real_end)
                      in Inr (if real_end < mod_end m then mod_end m else real_end))"
  have "\<exists>re. kfor ?f [0..<unat (mods_count mbi)] kernel_end = Inr re \<and> True"
  proof (rule kfor_inv [where P = "\<lambda>_ _. True"])
    fix "done" x re
    assume "\<exists>ys. [0..<unat (mods_count mbi)] = done @ x # ys"
    then have "x < unat (mods_count mbi)" using in_set_conv_decomp [of x "[0..<unat (mods_count mbi)]"] by auto
    then show "\<exists>re'. ?f x re = Inr re' \<and> True" using assms by (simp add: Let_def)
  qed simp
  then show ?thesis using True by (auto simp: boot_end_def)
qed (simp add: boot_end_def)

text \<open>The walk over the memory map ends as soon as no entry leads past the end of the address space: at most one entry for four bytes of the map.\<close>

lemma mmap_walk_returns:
  assumes "\<forall>a<e. unat a + unat (me_size (ent a)) + 4 < 2 ^ 32" "unat e - unat a < n"
  shows "\<exists>es. mmap_walk n ent a e = Inr es"
  using assms(2)
proof (induction n arbitrary: a)
  case (Suc n)
  show ?case
  proof (cases "a < e")
    case True
    have "unat a + unat (me_size (ent a)) + 4 < 2 ^ 32" using assms(1) True by blast
    then have "unat (a + me_size (ent a) + 4) = unat a + unat (me_size (ent a)) + 4" by (simp add: unat_word_ariths(1))
    then have "unat e - unat (a + me_size (ent a) + 4) < n" using Suc.prems True by (simp add: word_less_nat_alt)
    then show ?thesis using Suc.IH True by simp
  qed simp
qed simp


text \<open>A machine with 256 MB and nothing but the kernel: the map needs two blocks, but only the first of them is reserved.\<close>

definition pc_entry :: mmap_entry where
  "pc_entry = \<lparr>me_size = 20, me_addr = 0x100000, me_len = 0xFF00000, me_type = 1\<rparr>"

definition pc_mem :: boot_mem where
  "pc_mem = \<lparr>mmap_at = (\<lambda>_. pc_entry), mods_at = (\<lambda>_. \<lparr>mod_start = 0, mod_end = 0, mod_cmdline = 0\<rparr>), str_len = (\<lambda>_. 0)\<rparr>"

definition pc_info :: multiboot_info where
  "pc_info = \<lparr>mbi_flags = 0x40, mem_upper = 0, mbi_cmdline = 0, mods_count = 0, mods_addr = 0, mmap_length = 24, mmap_addr = 0x9000, boot_loader_name = 0\<rparr>"


end
